(* ===== verification/Kernel_Prelude.thy ===== *)
theory Kernel_Prelude
  imports Main "HOL-Library.Word"
begin

text \<open>
  Shared vocabulary of the development: the machine integer types of the C code, the
  arithmetic macros it uses (\<open>ALIGN\<close>, \<open>DIV_ROUND_UP\<close>, \<open>BIT\<close>), unsigned subtraction with the
  wrap-around written out, and the generic facts on lists, bit operations and
  words that the components share.  Numeric facts about C integers go into the collection
  \<open>c_arith\<close>; facts about byte values into \<open>byte_simps\<close>.
\<close>

unbundle bit_operations_syntax

named_theorems c_arith "C integer arithmetic without wrap-around"
named_theorems byte_simps "values of bytes and of byte-sized bit fields"

section \<open>Machine integers\<close>

type_synonym u8 = "8 word"
type_synonym u16 = "16 word"
type_synonym u32 = "32 word"
type_synonym u64 = "64 word"
type_synonym ulong = "64 word"

text \<open>
  Sizes and offsets that the code keeps in \<open>u16\<close> or \<open>u32\<close> variables and only adds, subtracts
  and compares are natural numbers, with the truncation to the variable's width and the
  wrap-around of unsigned subtraction written out.
\<close>

definition trunc16 :: "nat \<Rightarrow> nat" where
  "trunc16 n = n mod 65536"

definition trunc32 :: "nat \<Rightarrow> nat" where
  "trunc32 n = n mod 4294967296"

definition sub32 :: "nat \<Rightarrow> nat \<Rightarrow> nat" where
  "sub32 a b = (a + (4294967296 - b mod 4294967296)) mod 4294967296"

lemma trunc16_id [simp, c_arith]: "n < 65536 \<Longrightarrow> trunc16 n = n"
  by (simp add: trunc16_def)

lemma trunc32_id [simp, c_arith]: "n < 4294967296 \<Longrightarrow> trunc32 n = n"
  by (simp add: trunc32_def)

lemma trunc16_less: "trunc16 n < 65536"
  by (simp add: trunc16_def)

lemma sub32_id [simp, c_arith]:
  assumes "b \<le> a" and "a < 4294967296"
  shows "sub32 a b = a - b"
proof -
  have "sub32 a b = ((a - b) + 4294967296) mod 4294967296"
    using assms by (simp add: sub32_def)
  also have "\<dots> = (a - b) mod 4294967296"
    by (rule mod_add_self2)
  finally show ?thesis
    using assms by simp
qed

section \<open>Macros of the kernel headers\<close>

definition PAGE_SHIFT :: nat where "PAGE_SHIFT = 12"
definition PAGE_SIZE :: nat where "PAGE_SIZE = 4096"
definition BITS_PER_LONG :: nat where "BITS_PER_LONG = 64"

lemmas kernel_consts = PAGE_SHIFT_def PAGE_SIZE_def BITS_PER_LONG_def

text \<open>\<open>ALIGN(x, a)\<close> rounds up to a multiple of \<open>a\<close>; \<open>DIV_ROUND_UP(n, d)\<close> divides rounding up.\<close>

definition ALIGN :: "nat \<Rightarrow> nat \<Rightarrow> nat" where
  "ALIGN x a = (x + (a - 1)) div a * a"

definition DIV_ROUND_UP :: "nat \<Rightarrow> nat \<Rightarrow> nat" where
  "DIV_ROUND_UP n d = (n + d - 1) div d"

definition roundup :: "nat \<Rightarrow> nat \<Rightarrow> nat" where
  "roundup x y = (x + (y - 1)) div y * y"

lemma ALIGN_dvd: "a dvd ALIGN x a"
  by (simp add: ALIGN_def)

lemma ALIGN_ge:
  assumes "0 < a"
  shows "x \<le> ALIGN x a"
proof -
  have "x + (a - 1) = (x + (a - 1)) div a * a + (x + (a - 1)) mod a"
    by simp
  moreover have "(x + (a - 1)) mod a \<le> a - 1"
    using assms by (simp add: less_Suc_eq_le [symmetric])
  ultimately show ?thesis
    unfolding ALIGN_def by linarith
qed

lemma ALIGN_less: "0 < a \<Longrightarrow> ALIGN x a < x + a"
  using div_mult_mod_eq [of "x + (a - 1)" a] unfolding ALIGN_def by linarith

lemma ALIGN_id: "0 < a \<Longrightarrow> a dvd x \<Longrightarrow> ALIGN x a = x"
  using ALIGN_ge [of a x] ALIGN_less [of a x] ALIGN_dvd [of a x]
  by (metis add_diff_cancel_left' dvd_diff_nat dvd_imp_le le_add_diff_inverse
      add_less_cancel_left not_le zero_less_diff le_neq_implies_less)

lemma ALIGN_idem: "0 < a \<Longrightarrow> ALIGN (ALIGN x a) a = ALIGN x a"
  by (rule ALIGN_id) (simp_all add: ALIGN_dvd)

section \<open>Bit operations\<close>

text \<open>Or-ing a value below a power of two into its multiples is addition.\<close>

lemma or_low_eq_add:
  fixes a b :: nat
  assumes "b < 2 ^ k" and "2 ^ k dvd a"
  shows "a OR b = a + b"
proof -
  have low: "\<not> bit a n" if "n < k" for n
  proof -
    from assms(2) obtain c where "a = 2 ^ k * c" by blast
    then have "a = push_bit k c" by (simp add: push_bit_eq_mult mult.commute)
    with that show ?thesis by (simp add: bit_push_bit_iff)
  qed
  have high: "\<not> bit b n" if "k \<le> n" for n
    using that assms(1) by (metis bit_take_bit_iff not_le take_bit_nat_eq_self)
  have "a + b = a OR b"
    by (rule disjunctive_add) (metis low high not_le)
  then show ?thesis by simp
qed

lemma nat_and_exp: "(m :: nat) AND 2 ^ k = (if bit m k then 2 ^ k else 0)"
  by (rule bit_eqI) (auto simp: bit_simps)

lemma unat_of_nat_byte [byte_simps]: "n < 256 \<Longrightarrow> unat (word_of_nat n :: u8) = n"
  by (simp add: unat_of_nat)

lemma unat_byte_less [simp, byte_simps]: "unat (b :: u8) < 256"
proof -
  have "unat b < 2 ^ LENGTH(8)" by (rule unsigned_less)
  then show ?thesis by simp
qed

lemma unat_or_word: "unat (a OR b) = unat a OR unat (b :: 'a :: len word)"
  by (rule unsigned_or_eq)

text \<open>A number of \<open>n\<close> bits and one of \<open>k\<close> bits packed into a word.\<close>

lemma take_bit_word_of_nat: "p < 2 ^ n \<Longrightarrow> take_bit n (word_of_nat p :: 'a::len word) = word_of_nat p"
  by (metis take_bit_nat_eq_self take_bit_of_nat)

lemma word_pack:
  fixes w x :: u64
  assumes "take_bit n w = w" and "n + k \<le> 64"
  shows "drop_bit k (push_bit k w OR (x AND mask k)) = w"
    and "(push_bit k w OR (x AND mask k)) AND mask k = x AND mask k"
proof -
  have w: "bit w i \<Longrightarrow> i < n" for i using assms(1) by (metis bit_take_bit_iff)
  show "drop_bit k (push_bit k w OR (x AND mask k)) = w"
    using assms(2) by (intro bit_word_eqI) (auto simp: bit_simps dest: w)
  show "(push_bit k w OR (x AND mask k)) AND mask k = x AND mask k"
    by (rule bit_word_eqI) (auto simp: bit_simps)
qed

text \<open>Moving inside a chunk of \<open>n\<close> numbers.\<close>

lemma add_in_chunk:
  fixes i n d :: nat
  assumes "i mod n + d < n"
  shows "(i + d) div n = i div n" and "(i + d) mod n = i mod n + d"
proof -
  have n: "n * (i div n) + i mod n = i" by simp
  show "(i + d) div n = i div n"
  proof (rule div_nat_eqI)
    show "n * (i div n) \<le> i + d" using n by linarith
    show "i + d < n * Suc (i div n)" unfolding mult_Suc_right using n assms by linarith
  qed
  have "(i + d) mod n = (i mod n + d) mod n" by (simp add: mod_add_left_eq)
  then show "(i + d) mod n = i mod n + d" using assms by simp
qed

section \<open>Lists\<close>

lemma take_Suc_snoc [simp]: "i < length xs \<Longrightarrow> take i xs @ [xs ! i] = take (Suc i) xs"
  by (simp add: take_Suc_conv_app_nth)

lemma take_append_take_drop: "take i xs @ take n (drop i xs) = take (i + n) xs"
  by (simp add: take_add)

lemma nth_append_left: "i < length xs \<Longrightarrow> (xs @ ys) ! i = xs ! i"
  by (simp add: nth_append)

end
