(* ===== verification/Lzo_Defs.thy ===== *)
theory Lzo_Defs
  imports Kernel_Prelude
begin

text \<open>
  Constants of \<open>lzodefs.h\<close> and \<open>lzo.h\<close> (sub-projects/compression/lzo-kmod): the
  offset and length limits of the four match encodings, the dictionary geometry, the return
  codes and the worst-case bound on compressed size.
\<close>

type_synonym byte = u8
type_synonym bytes = "u8 list"

section \<open>lzodefs.h\<close>

definition M2_MAX_OFFSET :: nat where "M2_MAX_OFFSET = 2048"
definition M3_MAX_OFFSET :: nat where "M3_MAX_OFFSET = 16384"
definition M4_MAX_OFFSET :: nat where "M4_MAX_OFFSET = 49151"
definition M2_MAX_LEN :: nat where "M2_MAX_LEN = 8"
definition M4_MAX_LEN :: nat where "M4_MAX_LEN = 9"
definition M3_MARKER :: nat where "M3_MARKER = 32"
definition M4_MARKER :: nat where "M4_MARKER = 16"

definition D_BITS :: nat where "D_BITS = 14"
definition D_MASK :: ulong where "D_MASK = mask 14"
definition D_HIGH :: ulong where "D_HIGH = drop_bit 1 D_MASK + 1"

lemmas lzo_consts = M2_MAX_OFFSET_def M3_MAX_OFFSET_def M4_MAX_OFFSET_def M2_MAX_LEN_def
  M4_MAX_LEN_def M3_MARKER_def M4_MARKER_def D_BITS_def

text \<open>The hash of the four bytes at position \<open>p\<close>: \<open>DX2\<close> and \<open>DX3\<close>, in \<open>size_t\<close> arithmetic.\<close>

definition DX2 :: "bytes \<Rightarrow> nat \<Rightarrow> nat \<Rightarrow> nat \<Rightarrow> ulong" where
  "DX2 inp p s1 s2 =
     (push_bit s1 ((push_bit s2 (ucast (inp ! (p + 2)))) XOR ucast (inp ! (p + 1))))
       XOR ucast (inp ! p)"

definition DX3 :: "bytes \<Rightarrow> nat \<Rightarrow> nat \<Rightarrow> nat \<Rightarrow> nat \<Rightarrow> ulong" where
  "DX3 inp p s1 s2 s3 = push_bit s1 (DX2 inp (p + 1) s2 s3) XOR ucast (inp ! p)"

section \<open>lzo.h\<close>

definition LZO_E_OK :: int where "LZO_E_OK = 0"
definition LZO_E_INPUT_OVERRUN :: int where "LZO_E_INPUT_OVERRUN = -4"
definition LZO_E_OUTPUT_OVERRUN :: int where "LZO_E_OUTPUT_OVERRUN = -5"
definition LZO_E_LOOKBEHIND_OVERRUN :: int where "LZO_E_LOOKBEHIND_OVERRUN = -6"
definition LZO_E_EOF_NOT_FOUND :: int where "LZO_E_EOF_NOT_FOUND = -7"
definition LZO_E_INPUT_NOT_CONSUMED :: int where "LZO_E_INPUT_NOT_CONSUMED = -8"

lemmas lzo_codes = LZO_E_OK_def LZO_E_INPUT_OVERRUN_def LZO_E_OUTPUT_OVERRUN_def
  LZO_E_LOOKBEHIND_OVERRUN_def LZO_E_EOF_NOT_FOUND_def LZO_E_INPUT_NOT_CONSUMED_def

definition lzo1x_worst_compress :: "nat \<Rightarrow> nat" where
  "lzo1x_worst_compress x = x + x div 16 + 64 + 3"

text \<open>The byte-wise literal copy \<open>do *op++ = *ii++; while (--t > 0)\<close> of both directions.\<close>

fun copy_lit :: "bytes \<Rightarrow> nat \<Rightarrow> nat \<Rightarrow> bytes \<Rightarrow> bytes" where
  "copy_lit inp ip 0 out = out"
| "copy_lit inp ip (Suc n) out = copy_lit inp (Suc ip) n (out @ [inp ! ip])"

lemma copy_lit_eq: "ip + n \<le> length inp \<Longrightarrow> copy_lit inp ip n out = out @ take n (drop ip inp)"
proof (induction n arbitrary: ip out)
  case 0
  then show ?case by simp
next
  case (Suc n)
  then have "drop ip inp = inp ! ip # drop (Suc ip) inp"
    by (simp add: Cons_nth_drop_Suc)
  with Suc show ?case by simp
qed

lemma length_copy_lit [simp]: "length (copy_lit inp ip n out) = length out + n"
  by (induction n arbitrary: ip out) auto

end
