(* ===== verification/Lzo_Decompress.thy ===== *)
theory Lzo_Decompress
  imports Lzo_Defs
begin

text \<open>
  \<open>lzo1x_decompress_safe\<close> (sub-projects/compression/lzo-kmod/lzo1x_decompress.c).  The
  input is a byte list, \<open>ip\<close> an index into it, the output written so far a byte list
  whose length is \<open>op\<close>.  The function's labels are the constructors of \<open>lzo_label\<close>, and
  \<open>lzo_step\<close> is the straight-line code from one label to the next jump; \<open>lzo_run\<close>
  iterates it.  A read of the input at or beyond \<open>ip_end\<close> (which the C code performs
  without noticing) ends the run with \<open>Oob_Read\<close>.
\<close>

section \<open>Bounds tests\<close>

definition HAVE_IP :: "nat \<Rightarrow> nat \<Rightarrow> nat \<Rightarrow> bool" where
  "HAVE_IP x ip_end ip \<longleftrightarrow> ip_end - ip < x"

definition HAVE_OP :: "nat \<Rightarrow> nat \<Rightarrow> nat \<Rightarrow> bool" where
  "HAVE_OP x op_end op \<longleftrightarrow> op_end - op < x"

definition HAVE_LB :: "int \<Rightarrow> nat \<Rightarrow> bool" where
  "HAVE_LB m_pos op \<longleftrightarrow> m_pos < 0 \<or> m_pos \<ge> int op"

lemmas have_defs = HAVE_IP_def HAVE_OP_def HAVE_LB_def

section \<open>Copying\<close>

text \<open>Literals: four bytes at a time by \<open>COPY4\<close>, then single bytes (\<open>copy_lit\<close>).\<close>

definition COPY4 :: "bytes \<Rightarrow> nat \<Rightarrow> bytes \<Rightarrow> bytes" where
  "COPY4 src p out = out @ [src ! p, src ! (p + 1), src ! (p + 2), src ! (p + 3)]"

fun copy4_lit :: "bytes \<Rightarrow> nat \<Rightarrow> nat \<Rightarrow> bytes \<Rightarrow> nat \<times> nat \<times> bytes" where
  "copy4_lit inp ip t out =
     (let out' = COPY4 inp ip out; t' = t - 4
      in if t' \<ge> 4 then copy4_lit inp (ip + 4) t' out' else (ip + 4, t', out'))"

declare copy4_lit.simps [simp del]

definition literal_run :: "bytes \<Rightarrow> nat \<Rightarrow> nat \<Rightarrow> bytes \<Rightarrow> bytes" where
  "literal_run inp ip t out =
     (let out1 = COPY4 inp ip out; ip1 = ip + 4; t1 = t - 1
      in if t1 > 0
         then if t1 \<ge> 4
              then (case copy4_lit inp ip1 t1 out1 of (ip2, t2, out2) \<Rightarrow>
                      if t2 > 0 then copy_lit inp ip2 t2 out2 else out2)
              else copy_lit inp ip1 t1 out1
         else out1)"

text \<open>Matches: bytes of the output itself, read back from position \<open>m\<close>.\<close>

fun copy_match :: "nat \<Rightarrow> nat \<Rightarrow> bytes \<Rightarrow> bytes" where
  "copy_match m 0 out = out"
| "copy_match m (Suc n) out = copy_match (Suc m) n (out @ [out ! m])"

fun copy4_match :: "nat \<Rightarrow> nat \<Rightarrow> bytes \<Rightarrow> nat \<times> nat \<times> bytes" where
  "copy4_match m t out =
     (let out' = COPY4 out m out; t' = t - 4
      in if t' \<ge> 4 then copy4_match (m + 4) t' out' else (m + 4, t', out'))"

declare copy4_match.simps [simp del]

definition match_copy :: "nat \<Rightarrow> nat \<Rightarrow> bytes \<Rightarrow> bytes" where
  "match_copy m t out =
     (if t \<ge> 2 * 4 - (3 - 1) \<and> length out - m \<ge> 4
      then (case copy4_match (m + 4) (t - (4 - (3 - 1))) (COPY4 out m out) of (m2, t2, out2) \<Rightarrow>
              if t2 > 0 then copy_match m2 t2 out2 else out2)
      else copy_match m (t + 2) out)"

section \<open>The machine\<close>

datatype lzo_label =
    L_Start
  | L_While
  | L_First_Literal_Run
  | L_Match nat
  | L_Match_Done
  | L_Match_Next nat

datatype lzo_exit =
    Eof_Found | Input_Overrun | Output_Overrun | Lookbehind_Overrun | Eof_Not_Found | Oob_Read

type_synonym lzo_state = "lzo_label \<times> nat \<times> bytes"
type_synonym lzo_result = "lzo_exit \<times> nat \<times> bytes"

definition with_byte ::
  "bytes \<Rightarrow> nat \<Rightarrow> bytes \<Rightarrow> (nat \<Rightarrow> lzo_state + lzo_result) \<Rightarrow> lzo_state + lzo_result" where
  "with_byte inp ip out k =
     (if ip < length inp then k (unat (inp ! ip)) else Inr (Oob_Read, ip, out))"

text \<open>
  The loop that reads a length extended by zero bytes; \<open>None\<close> is \<open>input_overrun\<close>.  The
  result is the index after the last byte read and the value of \<open>t\<close>.
\<close>

function run_length :: "bytes \<Rightarrow> nat \<Rightarrow> nat \<Rightarrow> nat \<Rightarrow> (nat \<times> nat) option" where
  "run_length inp base ip t =
     (if HAVE_IP 1 (length inp) ip then None
      else if inp ! ip = 0 then run_length inp base (Suc ip) (t + 255)
      else Some (Suc ip, t + base + unat (inp ! ip)))"
  by pat_completeness auto
termination
  by (relation "measure (\<lambda>(inp, base, ip, t). length inp - ip)") (auto simp: HAVE_IP_def)

declare run_length.simps [simp del]

definition with_le16 ::
  "bytes \<Rightarrow> nat \<Rightarrow> bytes \<Rightarrow> (nat \<Rightarrow> lzo_state + lzo_result) \<Rightarrow> lzo_state + lzo_result" where
  "with_le16 inp ip out k =
     with_byte inp ip out (\<lambda>b0. with_byte inp (ip + 1) out (\<lambda>b1. k (b0 + 256 * b1)))"

definition with_run_length ::
  "bytes \<Rightarrow> nat \<Rightarrow> nat \<Rightarrow> nat \<Rightarrow> bytes \<Rightarrow> (nat \<Rightarrow> nat \<Rightarrow> lzo_state + lzo_result)
     \<Rightarrow> lzo_state + lzo_result" where
  "with_run_length inp base ip t out k =
     (if t = 0
      then (case run_length inp base ip t of
              None \<Rightarrow> Inr (Input_Overrun, length inp, out)
            | Some (ip', t') \<Rightarrow> k ip' t')
      else k ip t)"

text \<open>The common tail of the \<open>match\<close> block: tests, then the copy.\<close>

definition do_match :: "nat \<Rightarrow> nat \<Rightarrow> int \<Rightarrow> nat \<Rightarrow> bytes \<Rightarrow> lzo_state + lzo_result" where
  "do_match cap ip m_pos t out =
     (if HAVE_LB m_pos (length out) then Inr (Lookbehind_Overrun, ip, out)
      else if HAVE_OP (t + 3 - 1) cap (length out) then Inr (Output_Overrun, ip, out)
      else Inl (L_Match_Done, ip, match_copy (nat m_pos) t out))"

definition step_start :: "bytes \<Rightarrow> nat \<Rightarrow> nat \<Rightarrow> bytes \<Rightarrow> lzo_state + lzo_result" where
  "step_start inp cap ip out =
     with_byte inp ip out (\<lambda>b.
       if b > 17
       then let t = b - 17; ip = ip + 1
            in if t < 4 then Inl (L_Match_Next t, ip, out)
               else if HAVE_OP t cap (length out) then Inr (Output_Overrun, ip, out)
               else if HAVE_IP (t + 1) (length inp) ip then Inr (Input_Overrun, ip, out)
               else Inl (L_First_Literal_Run, ip + t, copy_lit inp ip t out)
       else Inl (L_While, ip, out))"

definition step_while :: "bytes \<Rightarrow> nat \<Rightarrow> nat \<Rightarrow> bytes \<Rightarrow> lzo_state + lzo_result" where
  "step_while inp cap ip out =
     (if \<not> ip < length inp then Inr (Eof_Not_Found, ip, out)
      else with_byte inp ip out (\<lambda>t.
        if t \<ge> 16 then Inl (L_Match t, ip + 1, out)
        else with_run_length inp 15 (ip + 1) t out (\<lambda>ip t.
          if HAVE_OP (t + 3) cap (length out) then Inr (Output_Overrun, ip, out)
          else if HAVE_IP (t + 4) (length inp) ip then Inr (Input_Overrun, ip, out)
          else Inl (L_First_Literal_Run, ip + t + 3, literal_run inp ip t out))))"

definition step_first_literal_run ::
  "bytes \<Rightarrow> nat \<Rightarrow> nat \<Rightarrow> bytes \<Rightarrow> lzo_state + lzo_result" where
  "step_first_literal_run inp cap ip out =
     with_byte inp ip out (\<lambda>t.
       if t \<ge> 16 then Inl (L_Match t, ip + 1, out)
       else with_byte inp (ip + 1) out (\<lambda>b.
         let m_pos = int (length out) - (1 + int M2_MAX_OFFSET) - int (t div 4) - int (b * 4);
             ip = ip + 2
         in if HAVE_LB m_pos (length out) then Inr (Lookbehind_Overrun, ip, out)
            else if HAVE_OP 3 cap (length out) then Inr (Output_Overrun, ip, out)
            else Inl (L_Match_Done, ip, copy_match (nat m_pos) 3 out)))"

definition step_match :: "bytes \<Rightarrow> nat \<Rightarrow> nat \<Rightarrow> nat \<Rightarrow> bytes \<Rightarrow> lzo_state + lzo_result" where
  "step_match inp cap t ip out =
     (if t \<ge> 64
      then with_byte inp ip out (\<lambda>b.
        let m_pos = int (length out) - 1 - int (t div 4 mod 8) - int (b * 8);
            ip = ip + 1; t = t div 32 - 1
        in if HAVE_LB m_pos (length out) then Inr (Lookbehind_Overrun, ip, out)
           else if HAVE_OP (t + 3 - 1) cap (length out) then Inr (Output_Overrun, ip, out)
           else Inl (L_Match_Done, ip, copy_match (nat m_pos) (t + 2) out))
      else if t \<ge> 32
      then with_run_length inp 31 ip (t mod 32) out (\<lambda>ip t.
        with_le16 inp ip out (\<lambda>d.
          do_match cap (ip + 2) (int (length out) - 1 - int (d div 4)) t out))
      else if t \<ge> 16
      then let m0 = int (length out) - int ((t div 8 mod 2) * 16384)
           in with_run_length inp 7 ip (t mod 8) out (\<lambda>ip t.
                with_le16 inp ip out (\<lambda>d.
                  let m_pos = m0 - int (d div 4)
                  in if m_pos = int (length out) then Inr (Eof_Found, ip + 2, out)
                     else do_match cap (ip + 2) (m_pos - 16384) t out))
      else with_byte inp ip out (\<lambda>b.
        let m_pos = int (length out) - 1 - int (t div 4) - int (b * 4); ip = ip + 1
        in if HAVE_LB m_pos (length out) then Inr (Lookbehind_Overrun, ip, out)
           else if HAVE_OP 2 cap (length out) then Inr (Output_Overrun, ip, out)
           else Inl (L_Match_Done, ip, copy_match (nat m_pos) 2 out)))"

text \<open>\<open>match_done\<close> reads \<open>ip[-2]\<close>; every way there has consumed at least two bytes.\<close>

definition step_match_done :: "bytes \<Rightarrow> nat \<Rightarrow> nat \<Rightarrow> bytes \<Rightarrow> lzo_state + lzo_result" where
  "step_match_done inp cap ip out =
     with_byte inp (ip - 2) out (\<lambda>b.
       let t = b mod 4
       in if t = 0 then Inl (L_While, ip, out) else Inl (L_Match_Next t, ip, out))"

definition step_match_next ::
  "bytes \<Rightarrow> nat \<Rightarrow> nat \<Rightarrow> nat \<Rightarrow> bytes \<Rightarrow> lzo_state + lzo_result" where
  "step_match_next inp cap t ip out =
     (if HAVE_OP t cap (length out) then Inr (Output_Overrun, ip, out)
      else if HAVE_IP (t + 1) (length inp) ip then Inr (Input_Overrun, ip, out)
      else let out = copy_lit inp ip t out; ip = ip + t
           in with_byte inp ip out (\<lambda>t'.
                if ip + 1 < length inp then Inl (L_Match t', ip + 1, out)
                else Inl (L_While, ip + 1, out)))"

fun lzo_step :: "bytes \<Rightarrow> nat \<Rightarrow> lzo_state \<Rightarrow> lzo_state + lzo_result" where
  "lzo_step inp cap (L_Start, ip, out) = step_start inp cap ip out"
| "lzo_step inp cap (L_While, ip, out) = step_while inp cap ip out"
| "lzo_step inp cap (L_First_Literal_Run, ip, out) = step_first_literal_run inp cap ip out"
| "lzo_step inp cap (L_Match t, ip, out) = step_match inp cap t ip out"
| "lzo_step inp cap (L_Match_Done, ip, out) = step_match_done inp cap ip out"
| "lzo_step inp cap (L_Match_Next t, ip, out) = step_match_next inp cap t ip out"

lemmas lzo_step_defs = step_start_def step_while_def step_first_literal_run_def step_match_def
  step_match_done_def step_match_next_def do_match_def with_byte_def with_le16_def
  with_run_length_def Let_def


section \<open>Termination\<close>

fun lzo_measure :: "bytes \<Rightarrow> lzo_state \<Rightarrow> nat" where
  "lzo_measure inp (l, ip, out) =
     2 * (length inp - ip) + (if l = L_Start \<or> l = L_Match_Done then 1 else 0)"

lemma run_length_bounds:
  "run_length inp base ip t = Some (ip', t') \<Longrightarrow> ip < ip' \<and> ip' \<le> length inp \<and> t + base \<le> t'"
proof (induction inp base ip t rule: run_length.induct)
  case (1 inp base ip t)
  show ?case
  proof (cases "HAVE_IP 1 (length inp) ip")
    case True
    with "1.prems" show ?thesis by (simp add: run_length.simps)
  next
    case False
    then have "ip < length inp" by (simp add: HAVE_IP_def)
    with False "1.prems" "1.IH" show ?thesis
      by (subst (asm) run_length.simps) (auto split: if_splits)
  qed
qed

lemma with_byte_cases:
  assumes "with_byte inp ip out k = Inl s"
  obtains "ip < length inp" and "k (unat (inp ! ip)) = Inl s"
  using assms by (auto simp: with_byte_def split: if_splits)

lemma with_le16_cases:
  assumes "with_le16 inp ip out k = Inl s"
  obtains d where "ip + 1 < length inp" and "k d = Inl s"
  using assms by (auto simp: with_le16_def with_byte_def split: if_splits)

lemma with_run_length_cases:
  assumes "with_run_length inp base ip t out k = Inl s" and "0 < base"
  obtains ip' t' where "ip \<le> ip'" and "ip \<le> length inp \<longrightarrow> ip' \<le> length inp"
    and "0 < t'" and "k ip' t' = Inl s"
proof (cases "t = 0")
  case True
  with assms(1) obtain ip' t' where "run_length inp base ip t = Some (ip', t')" "k ip' t' = Inl s"
    by (auto simp: with_run_length_def split: option.splits)
  with assms(2) show thesis
    by (intro that [of ip' t']) (auto dest!: run_length_bounds)
next
  case False
  with assms(1) show thesis
    by (intro that [of ip t]) (auto simp: with_run_length_def)
qed

lemma do_match_cases:
  assumes "do_match cap ip m_pos t out = Inl s"
  obtains "0 \<le> m_pos" and "m_pos < int (length out)" and "t + 2 \<le> cap - length out"
    and "s = (L_Match_Done, ip, match_copy (nat m_pos) t out)"
  using assms that by (simp add: do_match_def have_defs split: if_splits)

lemma step_match_decreases:
  assumes "step_match inp cap t ip out = Inl s"
  shows "lzo_measure inp s < 2 * (length inp - ip)"
  using assms unfolding step_match_def Let_def
  by (auto split: if_splits elim!: with_byte_cases with_run_length_cases with_le16_cases
      do_match_cases)

lemma step_while_decreases:
  assumes "step_while inp cap ip out = Inl s"
  shows "lzo_measure inp s < 2 * (length inp - ip)"
  using assms unfolding step_while_def
  by (auto split: if_splits elim!: with_byte_cases with_run_length_cases) arith+

lemma lzo_step_decreases: "lzo_step inp cap s = Inl s' \<Longrightarrow> lzo_measure inp s' < lzo_measure inp s"
proof (induction inp cap s rule: lzo_step.induct)
  case (1 inp cap ip out)
  then show ?case
    by (auto simp: step_start_def Let_def split: if_splits elim!: with_byte_cases)
next
  case (2 inp cap ip out)
  then show ?case using step_while_decreases [of inp cap ip out s'] by simp
next
  case (3 inp cap ip out)
  then show ?case
    by (auto simp: step_first_literal_run_def Let_def split: if_splits elim!: with_byte_cases) arith+
next
  case (4 inp cap t ip out)
  then show ?case using step_match_decreases [of inp cap t ip out s'] by simp
next
  case (5 inp cap ip out)
  then show ?case
    by (auto simp: step_match_done_def Let_def split: if_splits elim!: with_byte_cases)
next
  case (6 inp cap t ip out)
  then show ?case
    by (auto simp: step_match_next_def Let_def HAVE_IP_def split: if_splits elim!: with_byte_cases)
qed

function lzo_run :: "bytes \<Rightarrow> nat \<Rightarrow> lzo_state \<Rightarrow> lzo_result" where
  "lzo_run inp cap s = (case lzo_step inp cap s of Inr r \<Rightarrow> r | Inl s' \<Rightarrow> lzo_run inp cap s')"
  by pat_completeness auto
termination
  by (relation "measure (\<lambda>(inp, cap, s). lzo_measure inp s)") (auto dest: lzo_step_decreases)

declare lzo_run.simps [simp del]

text \<open>The same with a bound on the number of jumps: \<open>None\<close> when they are used up.  One more than the measure is enough.\<close>

fun lzo_iter :: "nat \<Rightarrow> bytes \<Rightarrow> nat \<Rightarrow> lzo_state \<Rightarrow> lzo_result option" where
  "lzo_iter 0 inp cap s = None"
| "lzo_iter (Suc n) inp cap s = (case lzo_step inp cap s of Inr r \<Rightarrow> Some r | Inl s' \<Rightarrow> lzo_iter n inp cap s')"

lemma lzo_iter_run: "lzo_measure inp s < n \<Longrightarrow> lzo_iter n inp cap s = Some (lzo_run inp cap s)"
proof (induction n arbitrary: s)
  case (Suc n)
  show ?case
  proof (cases "lzo_step inp cap s")
    case (Inl s')
    with lzo_step_decreases [OF Inl] Suc.prems have "lzo_measure inp s' < n" by simp
    with Inl Suc.IH [of s'] show ?thesis by (simp add: lzo_run.simps [of inp cap s])
  qed (simp add: lzo_run.simps [of inp cap s])
qed simp

text \<open>
  The function: the return code and the bytes written.  \<open>None\<close> is an access outside the
  input buffer, for which the C code promises nothing.
\<close>

definition lzo1x_decompress_safe :: "bytes \<Rightarrow> nat \<Rightarrow> (int \<times> bytes) option" where
  "lzo1x_decompress_safe inp out_len =
     (case lzo_run inp out_len (L_Start, 0, []) of
        (Eof_Found, ip, out) \<Rightarrow>
          Some (if ip = length inp then LZO_E_OK
                else if ip < length inp then LZO_E_INPUT_NOT_CONSUMED
                else LZO_E_INPUT_OVERRUN, out)
      | (Input_Overrun, ip, out) \<Rightarrow> Some (LZO_E_INPUT_OVERRUN, out)
      | (Output_Overrun, ip, out) \<Rightarrow> Some (LZO_E_OUTPUT_OVERRUN, out)
      | (Lookbehind_Overrun, ip, out) \<Rightarrow> Some (LZO_E_LOOKBEHIND_OVERRUN, out)
      | (Eof_Not_Found, ip, out) \<Rightarrow> Some (LZO_E_EOF_NOT_FOUND, out)
      | (Oob_Read, ip, out) \<Rightarrow> None)"

end
