(* ===== verification/Lzo_Compress.thy ===== *)
theory Lzo_Compress
  imports Lzo_Defs
begin

text \<open>
  \<open>lzo1x_1_compress\<close> and its main loop \<open>_lzo1x_1_do_compress\<close>
  (sub-projects/compression/lzo-kmod/lzo1x_compress.c).  Positions in the input are
  indices; the work memory is a table \<open>dict\<close> of pointers, written as offsets from the start
  of the input (negative below it), with whatever content the caller left in it.
  Returned are the bytes written to \<open>out\<close> and the table as the call leaves it.
\<close>

type_synonym dict = "nat \<Rightarrow> int"

section \<open>Looking a match up\<close>

definition dict_hash :: "bytes \<Rightarrow> nat \<Rightarrow> nat" where
  "dict_hash inp ip = unat (drop_bit 5 (33 * DX3 inp ip 5 5 6) AND D_MASK)"

definition dict_rehash :: "nat \<Rightarrow> nat" where
  "dict_rehash dindex =
     unat ((word_of_nat dindex AND (D_MASK AND 2047)) XOR (D_HIGH OR 31))"

text \<open>
  The two tests that send the code to \<open>literal\<close>: a pointer below the input, or one whose
  distance \<open>(size_t)(ip - m_pos)\<close> is zero or above \<open>M4_MAX_OFFSET\<close> (a pointer above \<open>ip\<close>
  wraps to a huge distance).
\<close>

definition dict_usable :: "nat \<Rightarrow> int \<Rightarrow> bool" where
  "dict_usable ip m_pos \<longleftrightarrow>
     \<not> m_pos < 0 \<and> m_pos < int ip \<and> \<not> int ip - m_pos > int M4_MAX_OFFSET"

definition try_now :: "bytes \<Rightarrow> nat \<Rightarrow> nat \<Rightarrow> bool" where
  "try_now inp ip m_pos \<longleftrightarrow> ip - m_pos \<le> M2_MAX_OFFSET \<or> inp ! (m_pos + 3) = inp ! (ip + 3)"

definition try_match :: "bytes \<Rightarrow> nat \<Rightarrow> nat \<Rightarrow> nat option" where
  "try_match inp ip m_pos =
     (if inp ! m_pos = inp ! ip \<and> inp ! (m_pos + 1) = inp ! (ip + 1)
           \<and> inp ! (m_pos + 2) = inp ! (ip + 2)
      then Some m_pos else None)"

text \<open>The slot that is overwritten with \<open>ip\<close>, and the match position if there is one.\<close>

definition find_match :: "bytes \<Rightarrow> dict \<Rightarrow> nat \<Rightarrow> nat \<times> nat option" where
  "find_match inp dict ip =
     (let dindex = dict_hash inp ip; m_pos = dict dindex
      in if \<not> dict_usable ip m_pos then (dindex, None)
         else if try_now inp ip (nat m_pos) then (dindex, try_match inp ip (nat m_pos))
         else let dindex = dict_rehash dindex; m_pos = dict dindex
              in if \<not> dict_usable ip m_pos then (dindex, None)
                 else if try_now inp ip (nat m_pos)
                      then (dindex, try_match inp ip (nat m_pos))
                      else (dindex, None))"

section \<open>Emitting instructions\<close>

function emit_ext :: "nat \<Rightarrow> bytes" where
  "emit_ext tt = (if tt > 255 then 0 # emit_ext (tt - 255) else [word_of_nat tt])"
  by pat_completeness auto
termination
  by (relation "measure (\<lambda>tt. tt)") auto

declare emit_ext.simps [simp del]

text \<open>The run-length prefix of \<open>t\<close> literals after at least one match: \<open>op[-2] |= t\<close> for short runs.\<close>

definition emit_run :: "nat \<Rightarrow> bytes \<Rightarrow> bytes" where
  "emit_run t out =
     (if t \<le> 3 then out[length out - 2 := out ! (length out - 2) OR word_of_nat t]
      else if t \<le> 18 then out @ [word_of_nat (t - 3)]
      else (out @ [0]) @ emit_ext (t - 18))"

definition emit_offset :: "nat \<Rightarrow> bytes" where
  "emit_offset m_off = [word_of_nat ((m_off mod 64) * 4), word_of_nat (m_off div 64)]"

definition m4_head :: "nat \<Rightarrow> nat" where
  "m4_head m_off = M4_MARKER OR ((m_off AND 16384) div 2048)"

text \<open>A match of at most eight bytes: the code's first branch, by increasing offset.\<close>

definition emit_short_match :: "nat \<Rightarrow> nat \<Rightarrow> bytes" where
  "emit_short_match m_off m_len =
     (if m_off \<le> M2_MAX_OFFSET
      then let m_off = m_off - 1
           in [word_of_nat ((m_len - 1) * 32 OR (m_off mod 8) * 4), word_of_nat (m_off div 8)]
      else if m_off \<le> M3_MAX_OFFSET
      then let m_off = m_off - 1
           in word_of_nat (M3_MARKER OR (m_len - 2)) # emit_offset m_off
      else let m_off = m_off - 16384
           in word_of_nat (m4_head m_off OR (m_len - 2)) # emit_offset m_off)"

definition emit_long_match :: "nat \<Rightarrow> nat \<Rightarrow> bytes" where
  "emit_long_match m_off m_len =
     (if m_off \<le> M3_MAX_OFFSET
      then let m_off = m_off - 1
           in (if m_len \<le> 33 then [word_of_nat (M3_MARKER OR (m_len - 2))]
               else word_of_nat M3_MARKER # emit_ext (m_len - 33)) @ emit_offset m_off
      else let m_off = m_off - 16384
           in (if m_len \<le> M4_MAX_LEN then [word_of_nat (m4_head m_off OR (m_len - 2))]
               else word_of_nat (m4_head m_off) # emit_ext (m_len - M4_MAX_LEN))
              @ emit_offset m_off)"

section \<open>The length of a match\<close>

text \<open>
  The chain of six comparisons with \<open>*ip++\<close>: the number of equal bytes, 9 when all six of
  them (and the three compared before) agree.
\<close>

definition short_len :: "bytes \<Rightarrow> nat \<Rightarrow> nat \<Rightarrow> nat" where
  "short_len inp m_pos ip =
     (if inp ! (m_pos + 3) \<noteq> inp ! (ip + 3) then 3
      else if inp ! (m_pos + 4) \<noteq> inp ! (ip + 4) then 4
      else if inp ! (m_pos + 5) \<noteq> inp ! (ip + 5) then 5
      else if inp ! (m_pos + 6) \<noteq> inp ! (ip + 6) then 6
      else if inp ! (m_pos + 7) \<noteq> inp ! (ip + 7) then 7
      else if inp ! (m_pos + 8) \<noteq> inp ! (ip + 8) then 8
      else 9)"

function extend_match :: "bytes \<Rightarrow> nat \<Rightarrow> nat \<Rightarrow> nat" where
  "extend_match inp m ip =
     (if ip < length inp \<and> inp ! m = inp ! ip then extend_match inp (Suc m) (Suc ip) else ip)"
  by pat_completeness auto
termination
  by (relation "measure (\<lambda>(inp, m, ip). length inp - ip)") auto

declare extend_match.simps [simp del]

lemma extend_match_ge: "ip \<le> extend_match inp m ip"
proof (induction inp m ip rule: extend_match.induct)
  case (1 inp m ip)
  then show ?case by (subst extend_match.simps) auto
qed

lemma short_len_bounds: "3 \<le> short_len inp m ip \<and> short_len inp m ip \<le> 9"
  by (simp add: short_len_def)

text \<open>The end of the match at \<open>ip\<close> and the instruction for it.\<close>

definition match_end :: "bytes \<Rightarrow> nat \<Rightarrow> nat \<Rightarrow> nat" where
  "match_end inp m_pos ip =
     (if short_len inp m_pos ip \<le> M2_MAX_LEN then ip + short_len inp m_pos ip
      else extend_match inp (m_pos + M2_MAX_LEN + 1) (ip + 9))"

definition emit_match :: "bytes \<Rightarrow> nat \<Rightarrow> nat \<Rightarrow> bytes" where
  "emit_match inp m_pos ip =
     (if short_len inp m_pos ip \<le> M2_MAX_LEN
      then emit_short_match (ip - m_pos) (match_end inp m_pos ip - ip)
      else emit_long_match (ip - m_pos) (match_end inp m_pos ip - ip))"

lemma match_end_gt: "ip < match_end inp m_pos ip"
  using extend_match_ge [of "ip + 9" inp "m_pos + M2_MAX_LEN + 1"] short_len_bounds [of inp m_pos ip]
  by (simp add: match_end_def)

lemma loop_measure:
  "\<not> n \<le> match_end inp m_pos ip \<Longrightarrow> n - match_end inp m_pos ip < n - ip"
  using match_end_gt [of ip inp m_pos] by linarith

section \<open>The main loop\<close>

definition literals_then :: "bytes \<Rightarrow> nat \<Rightarrow> nat \<Rightarrow> bytes \<Rightarrow> bytes" where
  "literals_then inp ii ip out =
     (if ip \<noteq> ii then copy_lit inp ii (ip - ii) (emit_run (ip - ii) out) else out)"

function compress_loop ::
  "bytes \<Rightarrow> dict \<Rightarrow> nat \<Rightarrow> nat \<Rightarrow> bytes \<Rightarrow> bytes \<times> nat \<times> dict" where
  "compress_loop inp dict ip ii out =
     (case find_match inp dict ip of
        (dindex, None) \<Rightarrow>
          (let dict = dict(dindex := int ip)
           in if Suc ip \<ge> length inp - M2_MAX_LEN - 5 then (out, ii, dict)
              else compress_loop inp dict (Suc ip) ii out)
      | (dindex, Some m_pos) \<Rightarrow>
          (let dict = dict(dindex := int ip);
               out = literals_then inp ii ip out @ emit_match inp m_pos ip;
               ip' = match_end inp m_pos ip
           in if ip' \<ge> length inp - M2_MAX_LEN - 5 then (out, ip', dict)
              else compress_loop inp dict ip' ip' out))"
  by pat_completeness auto
termination
  by (relation "measure (\<lambda>(inp, dict, ip, ii, out). length inp - M2_MAX_LEN - 5 - ip)")
    (auto simp del: diff_diff_left intro: loop_measure)

declare compress_loop.simps [simp del]

definition do_compress :: "bytes \<Rightarrow> dict \<Rightarrow> bytes \<times> nat \<times> dict" where
  "do_compress inp dict =
     (case compress_loop inp dict 4 0 [] of (out, ii, dict) \<Rightarrow> (out, length inp - ii, dict))"

definition final_literals :: "bytes \<Rightarrow> nat \<Rightarrow> bytes \<Rightarrow> bytes" where
  "final_literals inp t out =
     (if t > 0
      then copy_lit inp (length inp - t) t
             (if out = [] \<and> t \<le> 238 then out @ [word_of_nat (17 + t)] else emit_run t out)
      else out)"

definition lzo1x_1_compress :: "bytes \<Rightarrow> dict \<Rightarrow> int \<times> bytes \<times> dict" where
  "lzo1x_1_compress inp dict =
     (let (out, t, dict) =
            (if length inp \<le> M2_MAX_LEN + 5 then ([], length inp, dict) else do_compress inp dict)
      in (LZO_E_OK,
          final_literals inp t out @ [word_of_nat (M4_MARKER OR 1), 0, 0],
          dict))"

end
