(* ===== verification/Lzo_Roundtrip.thy ===== *)
theory Lzo_Roundtrip
  imports Lzo_Decompress Lzo_Compress
begin

text \<open>
  Correctness of the LZO pair: the block copies of the decompressor equal the byte-wise
  copies they stand for, the decompressor never writes more than it was allowed to, and
  decompressing a compressed buffer gives the buffer back, whatever the work memory held.
  The proof follows the stream: \<open>decodes c x\<close> says that any input starting with the
  instructions \<open>c\<close> (up to the two low bits the compressor may still patch into the last
  but one byte) drives the decompressor to the end of \<open>c\<close> with output \<open>x\<close>.
\<close>

section \<open>Block copies are byte-wise copies\<close>

lemma length_COPY4 [simp]: "length (COPY4 src p out) = length out + 4"
  by (simp add: COPY4_def)

lemma COPY4_lit: "p + 4 \<le> length src \<Longrightarrow> COPY4 src p out = copy_lit src p 4 out"
  by (simp add: COPY4_def numeral_eq_Suc)

lemma copy_lit_add: "copy_lit inp ip (a + b) out = copy_lit inp (ip + a) b (copy_lit inp ip a out)"
  by (induction a arbitrary: ip out) auto

lemma copy4_lit_eq:
  "4 \<le> t \<Longrightarrow> ip + t \<le> length inp \<Longrightarrow>
     copy4_lit inp ip t out = (ip + 4 * (t div 4), t mod 4, copy_lit inp ip (4 * (t div 4)) out)"
proof (induction inp ip t out rule: copy4_lit.induct)
  case (1 inp ip t out)
  show ?case
  proof (cases "t - 4 \<ge> 4")
    case True
    have eq: "t div 4 = Suc ((t - 4) div 4)" "t mod 4 = (t - 4) mod 4"
      using True by (simp_all add: le_div_geq le_mod_geq)
    have "copy4_lit inp ip t out = copy4_lit inp (ip + 4) (t - 4) (COPY4 inp ip out)"
      using True by (subst copy4_lit.simps) (simp add: Let_def)
    also have "\<dots> = (ip + 4 + 4 * ((t - 4) div 4), (t - 4) mod 4,
        copy_lit inp (ip + 4) (4 * ((t - 4) div 4)) (COPY4 inp ip out))"
      using True "1.prems" by (intro "1.IH") auto
    finally show ?thesis
      using "1.prems" by (simp add: eq COPY4_lit copy_lit_add [symmetric])
  next
    case False
    then have "t div 4 = 1" "t mod 4 = t - 4"
      using "1.prems" by (simp_all add: le_div_geq le_mod_geq)
    with False "1.prems" show ?thesis
      by (subst copy4_lit.simps) (simp add: Let_def COPY4_lit)
  qed
qed

lemma literal_run_eq:
  assumes "1 \<le> t" and "ip + t + 3 \<le> length inp"
  shows "literal_run inp ip t out = out @ take (t + 3) (drop ip inp)"
proof -
  have split: "copy_lit inp (ip + 4) (t - 1) o1 =
      copy_lit inp (ip + 4 + 4 * ((t - 1) div 4)) ((t - 1) mod 4)
        (copy_lit inp (ip + 4) (4 * ((t - 1) div 4)) o1)" for o1
    by (simp add: copy_lit_add [symmetric])
  have "literal_run inp ip t out = copy_lit inp (ip + 4) (t - 1) (copy_lit inp ip 4 out)"
  proof (cases "4 \<le> t - 1")
    case True
    then have "literal_run inp ip t out =
        copy_lit inp (ip + 4 + 4 * ((t - 1) div 4)) ((t - 1) mod 4)
          (copy_lit inp (ip + 4) (4 * ((t - 1) div 4)) (copy_lit inp ip 4 out))"
      using assms by (auto simp: literal_run_def Let_def COPY4_lit copy4_lit_eq)
    then show ?thesis by (simp only: split [symmetric])
  next
    case False
    then show ?thesis using assms by (auto simp: literal_run_def Let_def COPY4_lit)
  qed
  also have "\<dots> = copy_lit inp ip (4 + (t - 1)) out"
    by (simp add: copy_lit_add)
  also have "4 + (t - 1) = t + 3"
    using assms by simp
  finally show ?thesis
    using assms by (simp add: copy_lit_eq)
qed

lemma length_copy_match [simp]: "length (copy_match m n out) = length out + n"
  by (induction n arbitrary: m out) auto

lemma copy_match_add: "copy_match m (a + b) out = copy_match (m + a) b (copy_match m a out)"
  by (induction a arbitrary: m out) auto

lemma COPY4_match: "m + 4 \<le> length out \<Longrightarrow> COPY4 out m out = copy_match m 4 out"
  by (simp add: COPY4_def numeral_eq_Suc nth_append)

lemma copy4_match_eq:
  "4 \<le> t \<Longrightarrow> m + 4 \<le> length out \<Longrightarrow>
     copy4_match m t out = (m + 4 * (t div 4), t mod 4, copy_match m (4 * (t div 4)) out)"
proof (induction m t out rule: copy4_match.induct)
  case (1 m t out)
  show ?case
  proof (cases "t - 4 \<ge> 4")
    case True
    have eq: "t div 4 = Suc ((t - 4) div 4)" "t mod 4 = (t - 4) mod 4"
      using True by (simp_all add: le_div_geq le_mod_geq)
    have "copy4_match m t out = copy4_match (m + 4) (t - 4) (COPY4 out m out)"
      using True by (subst copy4_match.simps) (simp add: Let_def)
    also have "\<dots> = (m + 4 + 4 * ((t - 4) div 4), (t - 4) mod 4,
        copy_match (m + 4) (4 * ((t - 4) div 4)) (COPY4 out m out))"
      using True "1.prems" by (intro "1.IH") auto
    finally show ?thesis
      using "1.prems" by (simp add: eq COPY4_match copy_match_add [symmetric])
  next
    case False
    then have "t div 4 = 1" "t mod 4 = t - 4"
      using "1.prems" by (simp_all add: le_div_geq le_mod_geq)
    with False "1.prems" show ?thesis
      by (subst copy4_match.simps) (simp add: Let_def COPY4_match)
  qed
qed

lemma match_copy_eq: "match_copy m t out = copy_match m (t + 2) out"
proof (cases "t \<ge> 6 \<and> length out - m \<ge> 4")
  case False
  then show ?thesis by (auto simp: match_copy_def)
next
  case True
  have m4: "m + 4 \<le> length out"
    using True by linarith
  have "4 * ((t - 2) div 4) + (t - 2) mod 4 = t - 2"
    by simp
  then have split: "t + 2 = 4 + (4 * ((t - 2) div 4) + (t - 2) mod 4)"
    using True by linarith
  have "match_copy m t out = copy_match (m + 4 + 4 * ((t - 2) div 4)) ((t - 2) mod 4)
      (copy_match (m + 4) (4 * ((t - 2) div 4)) (COPY4 out m out))"
    using True by (auto simp: match_copy_def copy4_match_eq)
  also have "\<dots> = copy_match m (t + 2) out"
    using True by (simp only: split copy_match_add COPY4_match) (simp add: COPY4_match m4 add.assoc)
  finally show ?thesis .
qed

text \<open>A copy inside the output reproduces the input where the input repeats itself.\<close>

lemma copy_match_repeats:
  assumes "m < k" and "k + n \<le> length x" and "\<And>j. j < n \<Longrightarrow> x ! (m + j) = x ! (k + j)"
  shows "copy_match m n (take k x) = take (k + n) x"
  using assms
proof (induction n arbitrary: m k)
  case 0
  then show ?case by simp
next
  case (Suc n)
  have "x ! m = x ! k"
    using Suc.prems(3) [of 0] by simp
  then have "take k x @ [take k x ! m] = take (Suc k) x"
    using Suc.prems by simp
  moreover have "copy_match (Suc m) n (take (Suc k) x) = take (Suc k + n) x"
    using Suc.prems(1,2) Suc.prems(3) [of "Suc _"] by (intro Suc.IH) auto
  ultimately show ?case by simp
qed

section \<open>Runs of the decompressor\<close>

inductive lzo_reach :: "bytes \<Rightarrow> nat \<Rightarrow> lzo_state \<Rightarrow> lzo_state \<Rightarrow> bool" for inp cap where
  reach_refl: "lzo_reach inp cap s s"
| reach_step: "lzo_step inp cap s = Inl s' \<Longrightarrow> lzo_reach inp cap s' s'' \<Longrightarrow> lzo_reach inp cap s s''"

lemma lzo_reach_trans: "lzo_reach inp cap s s' \<Longrightarrow> lzo_reach inp cap s' s'' \<Longrightarrow> lzo_reach inp cap s s''"
  by (induction rule: lzo_reach.induct) (auto intro: reach_step)

lemma lzo_reach_snoc:
  "lzo_reach inp cap s s' \<Longrightarrow> lzo_step inp cap s' = Inl s'' \<Longrightarrow> lzo_reach inp cap s s''"
  by (rule lzo_reach_trans) (auto intro: lzo_reach.intros)

lemma lzo_reach_two:
  "lzo_step inp cap s = Inl s' \<Longrightarrow> lzo_step inp cap s' = Inl s'' \<Longrightarrow> lzo_reach inp cap s s''"
  by (rule reach_step [OF _ reach_step [OF _ reach_refl]])

lemma lzo_run_reach: "lzo_reach inp cap s s' \<Longrightarrow> lzo_run inp cap s = lzo_run inp cap s'"
  by (induction rule: lzo_reach.induct) (simp_all add: lzo_run.simps [of inp cap])


section \<open>What a stream of instructions means to the decompressor\<close>

definition patch :: "nat \<Rightarrow> bytes \<Rightarrow> bytes" where
  "patch k c = c[length c - 2 := c ! (length c - 2) OR word_of_nat k]"

definition low_clear :: "bytes \<Rightarrow> bool" where
  "low_clear c \<longleftrightarrow> 2 \<le> length c \<and> unat (c ! (length c - 2)) mod 4 = 0"

definition decodes :: "bytes \<Rightarrow> bytes \<Rightarrow> bool" where
  "decodes c x \<longleftrightarrow>
     (\<forall>k r cap. k < 4 \<longrightarrow> length x \<le> cap \<longrightarrow>
        lzo_reach (patch k c @ r) cap (L_Start, 0, [])
          (if c = [] then L_Start else L_Match_Done, length c, x))
     \<and> (c = [] \<longrightarrow> x = []) \<and> (c \<noteq> [] \<longrightarrow> low_clear c)"

text \<open>After \<open>c\<close> the decompressor takes the next byte as a match instruction.\<close>

definition ready :: "bytes \<Rightarrow> bytes \<Rightarrow> bool" where
  "ready c x \<longleftrightarrow>
     (\<forall>b r cap. 16 \<le> unat b \<longrightarrow> r \<noteq> [] \<longrightarrow> length x \<le> cap \<longrightarrow>
        lzo_reach (c @ b # r) cap (L_Start, 0, []) (L_Match (unat b), length c + 1, x))"

lemma length_patch [simp]: "length (patch k c) = length c"
  by (simp add: patch_def)

lemma patch_0 [simp]: "patch 0 c = c"
  by (simp add: patch_def)

lemma patch_Nil [simp]: "patch k [] = []"
  by (simp add: patch_def)

lemma emit_run_patch: "t \<le> 3 \<Longrightarrow> emit_run t c = patch t c"
  by (simp add: emit_run_def patch_def)

lemma patch_append:
  assumes "2 \<le> length d"
  shows "patch k (c @ d) = c @ patch k d"
proof -
  have "length (c @ d) - 2 = length c + (length d - 2)"
    using assms by simp
  then show ?thesis
    unfolding patch_def by (simp only: nth_append_length_plus list_update_append) simp
qed

lemma unat_or_low:
  assumes "unat (b :: byte) mod 4 = 0" and "k < 4"
  shows "unat (b OR word_of_nat k) = unat b + k"
proof -
  have "unat (b OR word_of_nat k) = unat b OR unat (word_of_nat k :: byte)"
    by (rule unat_or_word)
  also have "unat (word_of_nat k :: byte) = k"
    using assms(2) by (intro unat_of_nat_byte) simp
  also have "unat b OR k = unat b + k"
    using assms by (intro or_low_eq_add [of k 2]) auto
  finally show ?thesis .
qed

lemma patch_nth:
  assumes "low_clear c" and "k < 4"
  shows "unat (patch k c ! (length c - 2)) = unat (c ! (length c - 2)) + k"
proof -
  have "length c - 2 < length c"
    using assms(1) unfolding low_clear_def by linarith
  with assms show ?thesis by (simp add: patch_def low_clear_def unat_or_low)
qed

lemma decodes_Nil: "decodes [] []"
  by (simp add: decodes_def reach_refl)

lemma reach_match_done:
  assumes "decodes c x" and "c \<noteq> []" and "k < 4" and "length x \<le> cap"
  shows "lzo_reach (patch k c @ r) cap (L_Start, 0, [])
    (if k = 0 then L_While else L_Match_Next k, length c, x)"
proof -
  let ?S = "patch k c @ r"
  have lc: "low_clear c" and "lzo_reach ?S cap (L_Start, 0, []) (L_Match_Done, length c, x)"
    using assms by (auto simp: decodes_def)
  have len: "length c - 2 < length c" using lc unfolding low_clear_def by linarith
  have "unat (?S ! (length c - 2)) = unat (c ! (length c - 2)) + k"
    using len lc assms(3) by (simp add: nth_append patch_nth)
  then have "unat (?S ! (length c - 2)) mod 4 = k"
    using lc assms(3) by (simp add: low_clear_def mod_add_eq [symmetric])
  then have "lzo_step ?S cap (L_Match_Done, length c, x) =
      Inl (if k = 0 then L_While else L_Match_Next k, length c, x)"
    using len by (auto simp: step_match_done_def with_byte_def Let_def)
  then show ?thesis
    by (rule lzo_reach_snoc [OF \<open>lzo_reach ?S cap (L_Start, 0, []) _\<close>])
qed

lemma reach_while:
  assumes "decodes c x" and "length x \<le> cap" and "c \<noteq> [] \<or> unat b \<le> 17"
  shows "lzo_reach (c @ b # r) cap (L_Start, 0, []) (L_While, length c, x)"
proof (cases "c = []")
  case True
  with assms have "x = []" "\<not> 17 < unat b"
    by (auto simp: decodes_def)
  with True show ?thesis
    by (intro lzo_reach_snoc [OF reach_refl]) (simp add: step_start_def with_byte_def)
next
  case False
  then show ?thesis
    using reach_match_done [OF assms(1) False, of 0 cap "b # r"] assms(2) by simp
qed

lemma ready_decodes: "decodes c x \<Longrightarrow> c \<noteq> [] \<Longrightarrow> ready c x"
  unfolding ready_def
proof (intro allI impI)
  fix b :: byte and r :: bytes and cap
  assume "decodes c x" "c \<noteq> []" "16 \<le> unat b" "r \<noteq> []" "length x \<le> cap"
  then show "lzo_reach (c @ b # r) cap (L_Start, 0, []) (L_Match (unat b), length c + 1, x)"
    by (intro lzo_reach_snoc [OF reach_while])
      (auto simp: step_while_def with_byte_def nth_append)
qed


section \<open>Literals\<close>

definition run_prefix :: "nat \<Rightarrow> bytes" where
  "run_prefix t = (if t \<le> 18 then [word_of_nat (t - 3)] else 0 # emit_ext (t - 18))"

lemma emit_run_prefix: "4 \<le> t \<Longrightarrow> emit_run t c = c @ run_prefix t"
  by (simp add: emit_run_def run_prefix_def)

lemma run_prefix_head:
  assumes "4 \<le> t"
  obtains b p where "run_prefix t = b # p" and "unat b \<le> 17"
proof (cases "t \<le> 18")
  case True
  then have "unat (word_of_nat (t - 3) :: byte) = t - 3"
    by (intro unat_of_nat_byte) simp
  with True show thesis by (intro that) (auto simp: run_prefix_def)
next
  case False
  then show thesis by (intro that) (auto simp: run_prefix_def)
qed

lemma run_length_emit_ext:
  "0 < n \<Longrightarrow> run_length (pre @ emit_ext n @ r) base (length pre) t
     = Some (length pre + length (emit_ext n), t + n + base)"
proof (induction n arbitrary: pre t rule: emit_ext.induct)
  case (1 n)
  show ?case
  proof (cases "n > 255")
    case True
    then have e: "emit_ext n = 0 # emit_ext (n - 255)"
      by (simp add: emit_ext.simps [of n])
    have "run_length (pre @ emit_ext n @ r) base (length pre) t =
        run_length ((pre @ [0]) @ emit_ext (n - 255) @ r) base (length (pre @ [0])) (t + 255)"
      by (subst run_length.simps) (simp add: e HAVE_IP_def)
    also have "\<dots> = Some (length (pre @ [0]) + length (emit_ext (n - 255)), t + 255 + (n - 255) + base)"
      using True by (intro "1.IH") auto
    finally show ?thesis
      using True by (simp add: e)
  next
    case False
    then have "emit_ext n = [word_of_nat n]" and u: "unat (word_of_nat n :: byte) = n"
      by (simp_all add: emit_ext.simps [of n] byte_simps)
    moreover from u "1.prems" have "(word_of_nat n :: byte) \<noteq> 0"
      by (metis not_less_zero unsigned_0)
    ultimately show ?thesis
      by (subst run_length.simps) (simp add: HAVE_IP_def)
  qed
qed

lemma with_run_length_emit_ext:
  assumes "0 < n" and "S = pre @ emit_ext n @ r" and "ip = length pre"
  shows "with_run_length S base ip 0 out k = k (ip + length (emit_ext n)) (n + base)"
  using run_length_emit_ext [OF assms(1), of pre r base 0] assms(2,3)
  by (simp add: with_run_length_def)

text \<open>One step of the outer loop over a run of at least four literals.\<close>

lemma step_while_literals:
  assumes t: "4 \<le> length l" and S: "S = c @ run_prefix (length l) @ l @ r" and "r \<noteq> []"
    and cap: "length x + length l \<le> cap"
  shows "lzo_step S cap (L_While, length c, x) =
    Inl (L_First_Literal_Run, length c + length (run_prefix (length l)) + length l, x @ l)"
proof -
  let ?p = "length c + length (run_prefix (length l))"
  have take: "take (length l) (drop ?p S) = l"
    by (simp add: S)
  have room: "?p + length l < length S"
    using assms(3) by (simp add: S)
  have "literal_run S ?p (length l - 3) x = x @ take (length l - 3 + 3) (drop ?p S)"
    using t room by (intro literal_run_eq) auto
  then have lits: "literal_run S ?p (length l - 3) x = x @ l"
    using take t by simp
  have "lzo_step S cap (L_While, length c, x) =
      (if HAVE_OP (length l - 3 + 3) cap (length x) then Inr (Output_Overrun, ?p, x)
       else if HAVE_IP (length l - 3 + 4) (length S) ?p then Inr (Input_Overrun, ?p, x)
       else Inl (L_First_Literal_Run, ?p + (length l - 3) + 3, literal_run S ?p (length l - 3) x))"
  proof (cases "length l \<le> 18")
    case True
    then have "unat (word_of_nat (length l - 3) :: byte) = length l - 3"
      by (intro unat_of_nat_byte) simp
    with True have "unat (S ! length c) = length l - 3" "length (run_prefix (length l)) = 1"
      by (simp_all add: S run_prefix_def)
    then show ?thesis
      using t room True by (simp add: step_while_def with_byte_def with_run_length_def)
  next
    case False
    then have Sx: "S = (c @ [0]) @ emit_ext (length l - 18) @ (l @ r)" and hd: "S ! length c = 0"
      and len: "length (run_prefix (length l)) = 1 + length (emit_ext (length l - 18))"
      by (simp_all add: S run_prefix_def)
    have "with_run_length S 15 (length c + 1) 0 x k = k ?p (length l - 3)" for k
      using with_run_length_emit_ext [OF _ Sx, of "length c + 1" 15 x k] False
      by (simp add: len)
    then show ?thesis
      using hd room by (simp add: step_while_def with_byte_def)
  qed
  moreover have "\<not> HAVE_OP (length l - 3 + 3) cap (length x)"
    unfolding HAVE_OP_def using t cap by linarith
  moreover have "\<not> HAVE_IP (length l - 3 + 4) (length S) ?p"
    unfolding HAVE_IP_def using t room by linarith
  ultimately show ?thesis
    using t by (simp add: lits)
qed

lemma ready_literals:
  assumes dec: "decodes c x" and l: "l \<noteq> []" and first: "c = [] \<Longrightarrow> 4 \<le> length l"
  shows "ready (emit_run (length l) c @ l) (x @ l)"
  unfolding ready_def
proof (intro allI impI)
  fix b :: byte and r :: bytes and cap
  assume b: "16 \<le> unat b" and r: "r \<noteq> []" and cap: "length (x @ l) \<le> cap"
  let ?c = "emit_run (length l) c @ l"
  let ?S = "?c @ b # r"
  show "lzo_reach ?S cap (L_Start, 0, []) (L_Match (unat b), length ?c + 1, x @ l)"
  proof (cases "length l \<le> 3")
    case True
    with first have "c \<noteq> []" by auto
    have S: "?S = patch (length l) c @ l @ b # r"
      using True by (simp add: emit_run_patch)
    have "lzo_reach ?S cap (L_Start, 0, []) (L_Match_Next (length l), length c, x)"
      using reach_match_done [OF dec \<open>c \<noteq> []\<close>, of "length l" cap "l @ b # r"] True l cap
      by (simp add: emit_run_patch)
    moreover have "copy_lit ?S (length c) (length l) x = x @ l"
      using True by (simp add: emit_run_patch copy_lit_eq)
    then have "lzo_step ?S cap (L_Match_Next (length l), length c, x) =
        Inl (L_Match (unat b), length ?c + 1, x @ l)"
      using True r cap
      by (simp add: emit_run_patch step_match_next_def with_byte_def HAVE_OP_def HAVE_IP_def
          nth_append)
    ultimately show ?thesis by (rule lzo_reach_snoc)
  next
    case False
    then have t: "4 \<le> length l" and S: "?S = c @ run_prefix (length l) @ l @ (b # r)"
      by (simp_all add: emit_run_prefix)
    obtain b0 p where p: "run_prefix (length l) = b0 # p" and b0: "unat b0 \<le> 17"
      by (rule run_prefix_head [OF t])
    have "lzo_reach ?S cap (L_Start, 0, []) (L_While, length c, x)"
      using reach_while [OF dec, of cap b0 "p @ l @ b # r"] b0 cap
      by (simp add: emit_run_prefix [OF t] p)
    moreover have "lzo_step ?S cap (L_While, length c, x) =
        Inl (L_First_Literal_Run, length ?c, x @ l)"
      using step_while_literals [OF t S] t cap by (simp add: emit_run_prefix)
    moreover have "lzo_step ?S cap (L_First_Literal_Run, length ?c, x @ l) =
        Inl (L_Match (unat b), length ?c + 1, x @ l)"
      using b by (simp add: step_first_literal_run_def with_byte_def nth_append)
    ultimately show ?thesis by (blast intro: lzo_reach_snoc)
  qed
qed

text \<open>The short form of an incompressible buffer: one byte \<open>17 + t\<close>, then the literals.\<close>

lemma ready_start_literals:
  assumes "l \<noteq> []" and "length l \<le> 238"
  shows "ready (word_of_nat (17 + length l) # l) l"
  unfolding ready_def
proof (intro allI impI)
  fix b :: byte and r :: bytes and cap
  assume b: "16 \<le> unat b" and r: "r \<noteq> []" and cap: "length l \<le> cap"
  let ?S = "(word_of_nat (17 + length l) # l) @ b # r"
  have hd: "unat (word_of_nat (17 + length l) :: byte) = 17 + length l"
    using assms(2) by (intro unat_of_nat_byte) simp
  have lits: "copy_lit ?S 1 (length l) [] = l"
    by (simp add: copy_lit_eq)
  have nth: "?S ! Suc (length l) = b" and len: "length l + 2 < length ?S"
    using r by (simp_all add: nth_append)
  show "lzo_reach ?S cap (L_Start, 0, [])
      (L_Match (unat b), length (word_of_nat (17 + length l) # l) + 1, l)"
  proof (cases "length l < 4")
    case True
    have "lzo_step ?S cap (L_Start, 0, []) = Inl (L_Match_Next (length l), 1, [])"
      using True hd assms(1) by (simp add: step_start_def with_byte_def)
    moreover have "lzo_step ?S cap (L_Match_Next (length l), 1, []) =
        Inl (L_Match (unat b), length l + 2, l)"
      using cap lits nth len r
      by (simp add: step_match_next_def with_byte_def HAVE_OP_def HAVE_IP_def)
    ultimately have "lzo_reach ?S cap (L_Start, 0, []) (L_Match (unat b), length l + 2, l)"
      by (rule lzo_reach_two)
    then show ?thesis by simp
  next
    case False
    have "lzo_step ?S cap (L_Start, 0, []) = Inl (L_First_Literal_Run, length l + 1, l)"
      using False hd cap lits assms(1) by (simp add: step_start_def with_byte_def HAVE_OP_def HAVE_IP_def)
    moreover have "lzo_step ?S cap (L_First_Literal_Run, length l + 1, l) =
        Inl (L_Match (unat b), length l + 2, l)"
      using b nth by (simp add: step_first_literal_run_def with_byte_def)
    ultimately have "lzo_reach ?S cap (L_Start, 0, []) (L_Match (unat b), length l + 2, l)"
      by (rule lzo_reach_two)
    then show ?thesis by simp
  qed
qed


section \<open>Matches\<close>

lemma patch_Cons: "2 \<le> length d \<Longrightarrow> patch k (a # d) = a # patch k d"
  using patch_append [of d k "[a]"] by simp

lemma decodes_append:
  assumes rdy: "ready c x" and len: "2 \<le> length d" and low: "unat (d ! (length d - 2)) mod 4 = 0"
    and out: "length x \<le> length y"
    and step: "\<And>k r cap. k < 4 \<Longrightarrow> length y \<le> cap \<Longrightarrow>
      \<exists>b tl. patch k d = b # tl \<and> 16 \<le> unat b \<and>
        lzo_step (c @ patch k d @ r) cap (L_Match (unat b), length c + 1, x)
          = Inl (L_Match_Done, length c + length d, y)"
  shows "decodes (c @ d) y"
  unfolding decodes_def
proof (intro conjI allI impI)
  fix k r cap
  assume k: "k < (4 :: nat)" and cap: "length y \<le> cap"
  from step [OF this, of r] obtain b tl where b: "patch k d = b # tl" "16 \<le> unat b"
    and st: "lzo_step (c @ patch k d @ r) cap (L_Match (unat b), length c + 1, x)
          = Inl (L_Match_Done, length c + length d, y)"
    by blast
  have "length (patch k d) = length (b # tl)"
    by (simp add: b)
  with len have "tl \<noteq> []" by auto
  with rdy b cap out have "lzo_reach (c @ b # (tl @ r)) cap (L_Start, 0, []) (L_Match (unat b), length c + 1, x)"
    unfolding ready_def by (elim allE impE) auto
  then have "lzo_reach (c @ patch k d @ r) cap (L_Start, 0, []) (L_Match (unat b), length c + 1, x)"
    by (simp add: b)
  from lzo_reach_snoc [OF this st] len
  show "lzo_reach (patch k (c @ d) @ r) cap (L_Start, 0, [])
      (if c @ d = [] then L_Start else L_Match_Done, length (c @ d), y)"
    by (auto simp: patch_append)
next
  show "y = []" if "c @ d = []" using that len by simp
  have "length (c @ d) - 2 = length c + (length d - 2)"
    using len by simp
  then show "low_clear (c @ d)"
    unfolding low_clear_def using len low by (simp only: nth_append_length_plus) simp
qed

lemma do_match_ok:
  assumes "1 \<le> m_off" and "m_off \<le> length x" and "length x + t + 2 \<le> cap"
    and "m_pos = int (length x) - int m_off"
  shows "do_match cap ip m_pos t x
    = Inl (L_Match_Done, ip, copy_match (length x - m_off) (t + 2) x)"
proof -
  have "nat m_pos = length x - m_off" and "\<not> HAVE_LB m_pos (length x)"
    using assms by (auto simp: HAVE_LB_def)
  moreover have "\<not> HAVE_OP (t + 3 - 1) cap (length x)"
    unfolding HAVE_OP_def using assms(3) by linarith
  ultimately show ?thesis
    by (simp add: do_match_def match_copy_eq)
qed

lemma step_match_m2:
  assumes "64 \<le> t" and "ip < length S" and "S ! ip = v"
    and "t div 4 mod 8 + 8 * unat v + 1 = m_off" and "m_off \<le> length x"
    and "t div 32 - 1 = n" and "length x + n + 2 \<le> cap"
  shows "step_match S cap t ip x = Inl (L_Match_Done, ip + 1, copy_match (length x - m_off) (n + 2) x)"
proof -
  let ?m = "int (length x) - 1 - int (t div 4 mod 8) - int (unat v * 8)"
  have "?m = int (length x) - int m_off" using assms(4) by linarith
  then have "nat ?m = length x - m_off" and "\<not> HAVE_LB ?m (length x)"
    using assms(4,5) by (auto simp: HAVE_LB_def)
  moreover have "\<not> HAVE_OP (n + 3 - 1) cap (length x)"
    unfolding HAVE_OP_def using assms(7) by linarith
  ultimately show ?thesis
    using assms(1-3,6) by (simp only: step_match_def if_True with_byte_def Let_def) simp
qed

lemma emit_m2:
  assumes "1 \<le> m_off" and "m_off \<le> 2048" and "3 \<le> m_len" and "m_len \<le> 8"
  defines "b \<equiv> word_of_nat ((m_len - 1) * 32 OR ((m_off - 1) mod 8) * 4) :: byte"
  shows "unat b = (m_len - 1) * 32 + ((m_off - 1) mod 8) * 4"
    and "unat (word_of_nat ((m_off - 1) div 8) :: byte) = (m_off - 1) div 8"
proof -
  have m8: "(m_off - 1) mod 8 < 8" by simp
  then have "((m_off - 1) mod 8) * 4 < 2 ^ 5"
    by simp
  then have "(m_len - 1) * 32 OR ((m_off - 1) mod 8) * 4 = (m_len - 1) * 32 + ((m_off - 1) mod 8) * 4"
    by (intro or_low_eq_add [of _ 5]) auto
  moreover have "(m_len - 1) * 32 + ((m_off - 1) mod 8) * 4 < 256"
    using m8 assms(4) by linarith
  ultimately show "unat b = (m_len - 1) * 32 + ((m_off - 1) mod 8) * 4"
    unfolding b_def by (simp only:) (rule unat_of_nat_byte)
  show "unat (word_of_nat ((m_off - 1) div 8) :: byte) = (m_off - 1) div 8"
    using assms(2) by (intro unat_of_nat_byte) linarith
qed

lemma m2_fields:
  assumes "q < 8" and "k < 4"
  shows "(w * 32 + q * 4 + k) div 32 = (w :: nat)" and "(w * 32 + q * 4 + k) div 4 mod 8 = q"
proof -
  have "q * 4 + k < 32" using assms by linarith
  then show "(w * 32 + q * 4 + k) div 32 = w" by (simp add: add.assoc)
  have "(w * 32 + q * 4 + k) div 4 = w * 8 + q"
    using assms(2) by (intro div_nat_eqI) simp_all
  then show "(w * 32 + q * 4 + k) div 4 mod 8 = q"
    using assms(1) by simp
qed

lemma decodes_m2:
  assumes rdy: "ready c x" and off: "1 \<le> m_off" "m_off \<le> 2048" "m_off \<le> length x"
    and len: "3 \<le> m_len" "m_len \<le> 8"
  shows "decodes (c @ emit_short_match m_off m_len) (copy_match (length x - m_off) m_len x)"
proof -
  let ?b = "word_of_nat ((m_len - 1) * 32 OR ((m_off - 1) mod 8) * 4) :: byte"
  let ?o = "word_of_nat ((m_off - 1) div 8) :: byte"
  have d: "emit_short_match m_off m_len = [?b, ?o]"
    using off(2) by (simp add: emit_short_match_def M2_MAX_OFFSET_def Let_def)
  note val = emit_m2 [OF off(1,2) len]
  have low: "unat ?b mod 4 = 0"
    by (simp only: val) presburger
  have step: "\<exists>b tl. patch k [?b, ?o] = b # tl \<and> 16 \<le> unat b \<and>
      lzo_step (c @ patch k [?b, ?o] @ r) cap (L_Match (unat b), length c + 1, x)
        = Inl (L_Match_Done, length c + length [?b, ?o], copy_match (length x - m_off) m_len x)"
    if k: "k < 4" and cap: "length (copy_match (length x - m_off) m_len x) \<le> cap" for k r cap
  proof -
    let ?bk = "?b OR word_of_nat k"
    have p: "patch k [?b, ?o] = [?bk, ?o]" by (simp add: patch_def)
    have bk: "unat ?bk = (m_len - 1) * 32 + ((m_off - 1) mod 8) * 4 + k"
      using unat_or_low [OF low k] val by simp
    have m8: "(m_off - 1) mod 8 < 8" by simp
    have t: "unat ?bk \<ge> 64" "unat ?bk div 32 - 1 = m_len - 2"
      "unat ?bk div 4 mod 8 = (m_off - 1) mod 8"
      unfolding bk m2_fields [OF m8 k] using len by simp_all
    have off_eq: "m_off = (m_off - 1) mod 8 + 8 * ((m_off - 1) div 8) + 1"
      using off(1) mod_mult_div_eq [of "m_off - 1" 8] by linarith
    have "lzo_step (c @ [?bk, ?o] @ r) cap (L_Match (unat ?bk), length c + 1, x)
        = Inl (L_Match_Done, length c + 2, copy_match (length x - m_off) (m_len - 2 + 2) x)"
      using t(1) off cap len
      by (simp only: lzo_step.simps)
        (subst step_match_m2 [where m_off = m_off and n = "m_len - 2" and v = ?o],
          simp_all only: t val off_eq [symmetric], simp_all add: nth_append)
    also have "m_len - 2 + 2 = m_len" using len by simp
    finally show ?thesis using t(1) p by simp
  qed
  show ?thesis
    unfolding d by (rule decodes_append [OF rdy _ _ _ step]) (use low in auto)
qed


text \<open>The two-byte offset of the longer instructions.\<close>

lemma with_le16_offset:
  assumes "m < 32768" and "k < 4" and "S = pre @ patch k (emit_offset m) @ r" and "ip = length pre"
  obtains d where "d div 4 = m mod 16384" and "\<And>f. with_le16 S ip x f = f d"
proof -
  let ?o = "word_of_nat ((m mod 64) * 4) :: byte" and ?h = "word_of_nat (m div 64) :: byte"
  let ?d = "unat (?o OR word_of_nat k) + 256 * unat ?h"
  have m64: "m mod 64 < 64" by simp
  then have o: "unat ?o = (m mod 64) * 4"
    by (intro unat_of_nat_byte) linarith
  then have "unat (?o OR word_of_nat k) = (m mod 64) * 4 + k"
    using assms(2) by (subst unat_or_low) simp_all
  moreover have "unat ?h = m div 64 mod 256"
    by (simp add: unat_of_nat)
  ultimately have d: "?d = 4 * (m mod 64 + 64 * (m div 64 mod 256)) + k"
    by simp
  have "?d div 4 = m mod 64 + 64 * (m div 64 mod 256)"
    unfolding d using assms(2) by (intro div_nat_eqI) simp_all
  also have "\<dots> = m mod 16384"
    using mod_mult2_eq [of m 64 256] by simp
  finally show thesis
    by (rule that)
      (simp add: assms(3,4) with_le16_def with_byte_def emit_offset_def patch_def nth_append)
qed

lemma length_emit_offset [simp]: "length (emit_offset m) = 2"
  by (simp add: emit_offset_def)

lemma emit_offset_low: "unat (emit_offset m ! 0) mod 4 = 0"
proof -
  have "unat (word_of_nat ((m mod 64) * 4) :: byte) = (m mod 64) * 4"
    using mod_less_divisor [of 64 m] by (intro unat_of_nat_byte) linarith
  then show ?thesis by (simp add: emit_offset_def)
qed

text \<open>Match instructions with a length field: a head byte, maybe an extension, the offset.\<close>

lemma decodes_m3_m4:
  assumes rdy: "ready c x" and h: "16 \<le> unat h" and m: "m < 32768"
    and out: "3 \<le> m_len" "1 \<le> m_off" "m_off \<le> length x"
    and step: "\<And>S r k cap. k < 4 \<Longrightarrow> length x + m_len \<le> cap \<Longrightarrow>
      S = c @ (h # e) @ patch k (emit_offset m) @ r \<Longrightarrow>
      (\<And>d f. d div 4 = m mod 16384 \<Longrightarrow>
        (\<And>f. with_le16 S (length c + 1 + length e) x f = f d) \<Longrightarrow>
        lzo_step S cap (L_Match (unat h), length c + 1, x)
          = do_match cap (length c + 1 + length e + 2) (int (length x) - int m_off) (m_len - 2) x)"
  shows "decodes (c @ (h # e) @ emit_offset m) (copy_match (length x - m_off) m_len x)"
proof (rule decodes_append [OF rdy])
  let ?d = "(h # e) @ emit_offset m"
  show "2 \<le> length ?d" by simp
  have "length ?d - 2 = length (h # e) + 0" by simp
  then show "unat (?d ! (length ?d - 2)) mod 4 = 0"
    by (simp only: nth_append_length_plus emit_offset_low)
  show "length x \<le> length (copy_match (length x - m_off) m_len x)" by simp
  fix k r cap
  assume k: "k < (4 :: nat)" and cap: "length (copy_match (length x - m_off) m_len x) \<le> cap"
  let ?S = "c @ patch k ?d @ r"
  have p: "patch k ?d = (h # e) @ patch k (emit_offset m)"
    by (subst patch_append) simp_all
  then have S: "?S = c @ (h # e) @ patch k (emit_offset m) @ r"
    by simp
  then have S': "?S = (c @ h # e) @ patch k (emit_offset m) @ r" by simp
  obtain d where "d div 4 = m mod 16384"
    and "\<And>f. with_le16 ?S (length c + 1 + length e) x f = f d"
    by (rule with_le16_offset [OF m k S']) auto
  then have "lzo_step ?S cap (L_Match (unat h), length c + 1, x)
      = do_match cap (length c + 1 + length e + 2) (int (length x) - int m_off) (m_len - 2) x"
    using k cap by (intro step [OF _ _ S]) auto
  also have "\<dots> = Inl (L_Match_Done, length c + 1 + length e + 2,
      copy_match (length x - m_off) (m_len - 2 + 2) x)"
    using out cap by (intro do_match_ok) auto
  also have "m_len - 2 + 2 = m_len"
    using out by simp
  finally show "\<exists>b tl. patch k ?d = b # tl \<and> 16 \<le> unat b \<and>
      lzo_step ?S cap (L_Match (unat b), length c + 1, x)
        = Inl (L_Match_Done, length c + length ?d, copy_match (length x - m_off) m_len x)"
    using h p by auto
qed


lemma step_match_m3:
  assumes "32 \<le> t" and "t < 64"
    and "\<And>k. with_run_length S 31 ip (t mod 32) x k = k ip' n"
    and "\<And>f. with_le16 S ip' x f = f d"
  shows "step_match S cap t ip x = do_match cap (ip' + 2) (int (length x) - 1 - int (d div 4)) n x"
  using assms by (simp add: step_match_def)

lemma step_match_m4:
  assumes "16 \<le> t" and "t < 32"
    and "\<And>k. with_run_length S 7 ip (t mod 8) x k = k ip' n"
    and "\<And>f. with_le16 S ip' x f = f d"
    and "(t div 8 mod 2) * 16384 + d div 4 \<noteq> 0"
  shows "step_match S cap t ip x =
    do_match cap (ip' + 2) (int (length x) - int ((t div 8 mod 2) * 16384 + d div 4) - 16384) n x"
proof -
  let ?A = "(t div 8 mod 2) * 16384 + d div 4"
  have A: "int (length x) - int ((t div 8 mod 2) * 16384) - int (d div 4) = int (length x) - int ?A"
    by simp
  have "int (length x) - int ?A \<noteq> int (length x)"
    using assms(5) by linarith
  with assms(1,2) show ?thesis
    by (simp only: step_match_def Let_def assms(3,4) A) simp
qed

lemma with_run_length_pos: "0 < t \<Longrightarrow> with_run_length S base ip t x k = k ip t"
  by (simp add: with_run_length_def)

lemma m3_head:
  assumes "n < 32"
  shows "unat (word_of_nat (M3_MARKER OR n) :: byte) = 32 + n"
proof -
  have "M3_MARKER OR n = 32 + n"
    using assms by (subst or_low_eq_add [of n 5]) (simp_all add: M3_MARKER_def)
  then show ?thesis
    using assms by (simp only:) (rule unat_of_nat_byte, simp)
qed

lemma m4_head_eq:
  assumes "m < 32768"
  shows "m4_head m = 16 + 8 * (m div 16384)"
proof -
  have "m div 16384 < 2" using assms by linarith
  then consider "m div 16384 = 0" | "m div 16384 = 1" by linarith
  then have "(m AND 16384) div 2048 = 8 * (m div 16384)"
    using nat_and_exp [of m 14] by cases (simp_all add: bit_iff_odd)
  moreover have "16 OR 8 * (m div 16384) = 16 + 8 * (m div 16384)"
    using \<open>m div 16384 < 2\<close> by (intro or_low_eq_add [of _ 4]) simp_all
  ultimately show ?thesis
    by (simp add: m4_head_def M4_MARKER_def)
qed

lemma m4_head_byte:
  assumes "m < 32768" and "n < 8"
  shows "unat (word_of_nat (m4_head m OR n) :: byte) = 16 + 8 * (m div 16384) + n"
proof -
  have "m4_head m OR n = 16 + 8 * (m div 16384) + n"
    using assms(2) unfolding m4_head_eq [OF assms(1)]
    by (intro or_low_eq_add [of _ 3]) simp_all
  moreover have "16 + 8 * (m div 16384) + n < 256"
    using assms by linarith
  ultimately show ?thesis
    by (simp only:) (rule unat_of_nat_byte)
qed

lemma m4_fields:
  fixes m n t :: nat
  assumes "m < 32768" and "n < 8" and "t = 16 + 8 * (m div 16384) + n"
  shows "16 \<le> t" and "t < 32" and "t mod 8 = n" and "t div 8 mod 2 = m div 16384"
proof -
  have q: "m div 16384 < 2" using assms(1) by linarith
  show "16 \<le> t" "t < 32" using q assms(2,3) by simp_all
  show "t mod 8 = n" using assms(2,3) by (simp add: mod_add_eq [symmetric] add.assoc)
  have "t div 8 = 2 + m div 16384"
    unfolding assms(3) using assms(2) by (intro div_nat_eqI) simp_all
  then show "t div 8 mod 2 = m div 16384" using q by simp
qed


text \<open>
  The length field of a long instruction: either in the head byte (\<open>e = []\<close>) or in an
  extension (\<open>e = emit_ext n\<close>, the head field being zero).
\<close>

lemma length_field:
  assumes S: "S = c @ (h # e) @ r" and n: "0 < n"
    and "f = n \<and> e = [] \<or> f = 0 \<and> base < n \<and> e = emit_ext (n - base)"
  shows "with_run_length S base (length c + 1) f x k = k (length c + 1 + length e) n"
  using assms(3)
proof
  assume "f = n \<and> e = []"
  then show ?thesis using n by (simp add: with_run_length_pos)
next
  assume e: "f = 0 \<and> base < n \<and> e = emit_ext (n - base)"
  then have Sx: "S = (c @ [h]) @ emit_ext (n - base) @ r" by (simp add: S)
  show ?thesis
    using with_run_length_emit_ext [OF _ Sx, of "length c + 1" base x k] e by simp
qed

lemma decodes_m3:
  assumes rdy: "ready c x" and off: "1 \<le> m_off" "m_off \<le> 16384" "m_off \<le> length x"
    and len: "3 \<le> m_len"
    and h: "unat h = 32 + f" "f < 32"
    and fe: "f = m_len - 2 \<and> e = [] \<or> f = 0 \<and> 31 < m_len - 2 \<and> e = emit_ext (m_len - 2 - 31)"
  shows "decodes (c @ (h # e) @ emit_offset (m_off - 1)) (copy_match (length x - m_off) m_len x)"
proof (rule decodes_m3_m4 [OF rdy])
  show "16 \<le> unat h" "m_off - 1 < 32768" "3 \<le> m_len" "1 \<le> m_off" "m_off \<le> length x"
    using assms by simp_all
  fix S r k cap d
  assume S: "S = c @ (h # e) @ patch k (emit_offset (m_off - 1)) @ r"
    and d: "d div 4 = (m_off - 1) mod 16384"
    and le16: "\<And>f. with_le16 S (length c + 1 + length e) x f = f d"
  have "unat h mod 32 = f" using h by simp
  moreover have "0 < m_len - 2" using len by simp
  ultimately have "with_run_length S 31 (length c + 1) (unat h mod 32) x g =
      g (length c + 1 + length e) (m_len - 2)" for g
    using length_field [OF S _ fe, where x = x] by simp
  from step_match_m3 [OF _ _ this le16] h
  have "step_match S cap (unat h) (length c + 1) x =
      do_match cap (length c + 1 + length e + 2) (int (length x) - 1 - int (d div 4)) (m_len - 2) x"
    by simp
  moreover have "int (length x) - 1 - int (d div 4) = int (length x) - int m_off"
    using d off by simp
  ultimately show "lzo_step S cap (L_Match (unat h), length c + 1, x) =
      do_match cap (length c + 1 + length e + 2) (int (length x) - int m_off) (m_len - 2) x"
    by (simp only: lzo_step.simps)
qed

lemma decodes_m4:
  assumes rdy: "ready c x" and off: "16384 < m_off" "m_off \<le> 49151" "m_off \<le> length x"
    and len: "3 \<le> m_len"
    and h: "unat h = 16 + 8 * ((m_off - 16384) div 16384) + f" "f < 8"
    and fe: "f = m_len - 2 \<and> e = [] \<or> f = 0 \<and> 7 < m_len - 2 \<and> e = emit_ext (m_len - 2 - 7)"
  shows "decodes (c @ (h # e) @ emit_offset (m_off - 16384)) (copy_match (length x - m_off) m_len x)"
proof (rule decodes_m3_m4 [OF rdy])
  let ?m = "m_off - 16384"
  have m: "?m < 32768" using off by simp
  show "16 \<le> unat h" "?m < 32768" "3 \<le> m_len" "1 \<le> m_off" "m_off \<le> length x"
    using assms by simp_all
  fix S r k cap d
  assume S: "S = c @ (h # e) @ patch k (emit_offset ?m) @ r"
    and d: "d div 4 = ?m mod 16384"
    and le16: "\<And>f. with_le16 S (length c + 1 + length e) x f = f d"
  note t = m4_fields [OF m h(2,1)]
  have "0 < m_len - 2" using len by simp
  from length_field [OF S this fe, where x = x]
  have rl: "with_run_length S 7 (length c + 1) (unat h mod 8) x g =
      g (length c + 1 + length e) (m_len - 2)" for g
    by (simp only: t(3))
  have A: "(unat h div 8 mod 2) * 16384 + d div 4 = ?m"
    unfolding t(4) d by simp
  have "step_match S cap (unat h) (length c + 1) x =
      do_match cap (length c + 1 + length e + 2)
        (int (length x) - int ((unat h div 8 mod 2) * 16384 + d div 4) - 16384) (m_len - 2) x"
    by (rule step_match_m4 [OF t(1,2) rl le16]) (use A off in linarith)
  moreover have "int (length x) - int ?m - 16384 = int (length x) - int m_off"
    using off by simp
  ultimately show "lzo_step S cap (L_Match (unat h), length c + 1, x) =
      do_match cap (length c + 1 + length e + 2) (int (length x) - int m_off) (m_len - 2) x"
    by (simp only: lzo_step.simps A)
qed

lemma decodes_short_match:
  assumes rdy: "ready c x" and off: "1 \<le> m_off" "m_off \<le> 49151" "m_off \<le> length x"
    and len: "3 \<le> m_len" "m_len \<le> 8"
  shows "decodes (c @ emit_short_match m_off m_len) (copy_match (length x - m_off) m_len x)"
proof -
  consider "m_off \<le> 2048" | "2048 < m_off" "m_off \<le> 16384" | "16384 < m_off" by linarith
  then show ?thesis
  proof cases
    case 1
    then show ?thesis using assms by (intro decodes_m2) auto
  next
    case 2
    then have e: "emit_short_match m_off m_len
        = (word_of_nat (M3_MARKER OR (m_len - 2)) # []) @ emit_offset (m_off - 1)"
      by (simp add: emit_short_match_def lzo_consts Let_def)
    show ?thesis
      unfolding e using 2 assms m3_head [of "m_len - 2"]
      by (intro decodes_m3 [where f = "m_len - 2"]) auto
  next
    case 3
    then have e: "emit_short_match m_off m_len
        = (word_of_nat (m4_head (m_off - 16384) OR (m_len - 2)) # []) @ emit_offset (m_off - 16384)"
      by (simp add: emit_short_match_def lzo_consts Let_def)
    show ?thesis
      unfolding e using 3 assms m4_head_byte [of "m_off - 16384" "m_len - 2"]
      by (intro decodes_m4 [where f = "m_len - 2"]) auto
  qed
qed

lemma decodes_long_match:
  assumes rdy: "ready c x" and off: "1 \<le> m_off" "m_off \<le> 49151" "m_off \<le> length x"
    and len: "9 \<le> m_len"
  shows "decodes (c @ emit_long_match m_off m_len) (copy_match (length x - m_off) m_len x)"
proof (cases "m_off \<le> 16384")
  case True
  define e where "e = (if m_len \<le> 33 then [] else emit_ext (m_len - 33))"
  define f where "f = (if m_len \<le> 33 then m_len - 2 else 0)"
  have "emit_long_match m_off m_len
      = (word_of_nat (M3_MARKER OR f) # e) @ emit_offset (m_off - 1)"
    using True by (simp add: emit_long_match_def lzo_consts Let_def e_def f_def)
  moreover have "unat (word_of_nat (M3_MARKER OR f) :: byte) = 32 + f" "f < 32"
    using m3_head [of f] by (auto simp: f_def)
  ultimately show ?thesis
    using True assms by (simp only:) (rule decodes_m3, auto simp: e_def f_def)
next
  case False
  define e where "e = (if m_len \<le> 9 then [] else emit_ext (m_len - 9))"
  define f where "f = (if m_len \<le> 9 then m_len - 2 else 0)"
  have "emit_long_match m_off m_len
      = (word_of_nat (m4_head (m_off - 16384) OR f) # e) @ emit_offset (m_off - 16384)"
    using False by (simp add: emit_long_match_def lzo_consts Let_def e_def f_def)
  moreover have "f < 8"
    using len by (simp add: f_def)
  moreover from this have "unat (word_of_nat (m4_head (m_off - 16384) OR f) :: byte)
      = 16 + 8 * ((m_off - 16384) div 16384) + f"
    using off by (intro m4_head_byte) simp_all
  ultimately show ?thesis
    using False assms by (simp only:) (rule decodes_m4, auto simp: e_def f_def)
qed


section \<open>The compressor's loop\<close>

lemma try_match_Some:
  "try_match inp ip m = Some m' \<Longrightarrow> m' = m \<and> (\<forall>j<3. inp ! (m + j) = inp ! (ip + j))"
  by (auto simp: try_match_def numeral_eq_Suc less_Suc_eq split: if_splits)

lemma find_match_Some:
  "find_match inp dict ip = (dindex, Some m) \<Longrightarrow>
     m < ip \<and> ip - m \<le> M4_MAX_OFFSET \<and> (\<forall>j<3. inp ! (m + j) = inp ! (ip + j))"
  by (auto simp: find_match_def Let_def dict_usable_def split: if_splits dest!: try_match_Some)

lemma extend_match_spec:
  assumes "ip \<le> length inp"
  shows "extend_match inp m ip \<le> length inp
    \<and> (\<forall>j < extend_match inp m ip - ip. inp ! (m + j) = inp ! (ip + j))"
  using assms
proof (induction inp m ip rule: extend_match.induct)
  case (1 inp m ip)
  show ?case
  proof (cases "ip < length inp \<and> inp ! m = inp ! ip")
    case True
    let ?e = "extend_match inp (Suc m) (Suc ip)"
    have IH: "?e \<le> length inp" "\<And>j. j < ?e - Suc ip \<Longrightarrow> inp ! (Suc m + j) = inp ! (Suc ip + j)"
      using "1.IH" True by auto
    have "inp ! (m + j) = inp ! (ip + j)" if "j < ?e - ip" for j
      using that True IH(2) [of "j - 1"] by (cases j) auto
    with True IH(1) show ?thesis by (simp add: extend_match.simps [of inp m ip])
  next
    case False
    with "1.prems" show ?thesis by (auto simp: extend_match.simps [of inp m ip])
  qed
qed

lemma short_len_spec:
  assumes "\<forall>j<3. inp ! (m + j) = inp ! (ip + j)"
    and j: "j < short_len inp m ip"
  shows "inp ! (m + j) = inp ! (ip + j)"
proof -
  consider "j < 3" | "j = 3" | "j = 4" | "j = 5" | "j = 6" | "j = 7" | "j = 8"
    using j short_len_bounds [of inp m ip] by linarith
  then show ?thesis
    using assms by cases (simp_all add: short_len_def split: if_splits)
qed

lemma match_end_eq:
  "match_end inp m ip = (if short_len inp m ip \<le> 8 then ip + short_len inp m ip
     else extend_match inp (m + 9) (ip + 9))"
  by (simp add: match_end_def M2_MAX_LEN_def add.commute)

lemma match_end_spec:
  assumes three: "\<forall>j<3. inp ! (m + j) = inp ! (ip + j)" and "ip + 9 \<le> length inp"
  shows "match_end inp m ip \<le> length inp"
    and "j < match_end inp m ip - ip \<Longrightarrow> inp ! (m + j) = inp ! (ip + j)"
    and "3 \<le> match_end inp m ip - ip"
    and "short_len inp m ip \<le> 8 \<Longrightarrow> match_end inp m ip - ip \<le> 8"
    and "\<not> short_len inp m ip \<le> 8 \<Longrightarrow> 9 \<le> match_end inp m ip - ip"
proof -
  let ?e = "extend_match inp (m + 9) (ip + 9)"
  have long: "short_len inp m ip = 9" if "\<not> short_len inp m ip \<le> 8"
    using that short_len_bounds [of inp m ip] by linarith
  note spec = extend_match_spec [of "ip + 9" inp "m + 9"]
  show "match_end inp m ip \<le> length inp"
    using assms(2) spec by (auto simp: match_end_eq)
  show "inp ! (m + j) = inp ! (ip + j)" if j: "j < match_end inp m ip - ip"
  proof (cases "j < short_len inp m ip")
    case True
    then show ?thesis by (rule short_len_spec [OF three])
  next
    case False
    with j long have "9 \<le> j" "j - 9 < ?e - (ip + 9)"
      by (auto simp: match_end_eq split: if_splits)
    then have "inp ! (m + 9 + (j - 9)) = inp ! (ip + 9 + (j - 9))"
      using spec assms(2) by blast
    then show ?thesis using \<open>9 \<le> j\<close> by simp
  qed
  show "3 \<le> match_end inp m ip - ip" "short_len inp m ip \<le> 8 \<Longrightarrow> match_end inp m ip - ip \<le> 8"
    "\<not> short_len inp m ip \<le> 8 \<Longrightarrow> 9 \<le> match_end inp m ip - ip"
    using extend_match_ge [of "ip + 9" inp "m + 9"] short_len_bounds [of inp m ip]
    by (auto simp: match_end_eq)
qed

lemma ready_literals_then:
  assumes dec: "decodes out (take ii inp)" and "ii \<le> ip" and "ip \<le> length inp"
    and first: "out = [] \<Longrightarrow> ii = 0 \<and> 4 \<le> ip"
  shows "ready (literals_then inp ii ip out) (take ip inp)"
proof (cases "ip = ii")
  case True
  with dec first show ?thesis
    by (auto simp: literals_then_def intro!: ready_decodes)
next
  case False
  let ?l = "take (ip - ii) (drop ii inp)"
  have len: "length ?l = ip - ii" using assms(2,3) by simp
  have "ready (emit_run (length ?l) out @ ?l) (take ii inp @ ?l)"
    using dec False first len assms(2) by (intro ready_literals) auto
  moreover have "literals_then inp ii ip out = emit_run (length ?l) out @ ?l"
    using False assms(2,3) by (simp add: literals_then_def copy_lit_eq)
  moreover have "take ii inp @ ?l = take ip inp"
    using assms(2) by (simp add: take_append_take_drop)
  ultimately show ?thesis by simp
qed

lemma decodes_emit_match:
  assumes rdy: "ready c (take ip inp)" and fm: "find_match inp dict ip = (dindex, Some m)"
    and ip: "ip + 9 \<le> length inp"
  shows "decodes (c @ emit_match inp m ip) (take (match_end inp m ip) inp)"
proof -
  let ?len = "match_end inp m ip - ip"
  from find_match_Some [OF fm] have m: "m < ip" "ip - m \<le> 49151"
    and three: "\<forall>j<3. inp ! (m + j) = inp ! (ip + j)"
    by (auto simp: M4_MAX_OFFSET_def)
  note e = match_end_spec [OF three ip]
  have "copy_match m ?len (take ip inp) = take (ip + ?len) inp"
    using m e(1,3) by (intro copy_match_repeats e(2)) auto
  then have y: "copy_match (length (take ip inp) - (ip - m)) ?len (take ip inp)
      = take (match_end inp m ip) inp"
    using m ip match_end_gt [of ip inp m] by simp
  show ?thesis
  proof (cases "short_len inp m ip \<le> 8")
    case True
    with decodes_short_match [OF rdy, of "ip - m" ?len] m e ip y show ?thesis
      by (simp add: emit_match_def M2_MAX_LEN_def)
  next
    case False
    with decodes_long_match [OF rdy, of "ip - m" ?len] m e ip y show ?thesis
      by (simp add: emit_match_def M2_MAX_LEN_def)
  qed
qed

lemma emit_match_nonempty: "emit_match inp m ip \<noteq> []"
  by (simp add: emit_match_def emit_short_match_def emit_long_match_def Let_def)

lemma compress_loop_decodes:
  assumes "compress_loop inp dict ip ii out = (out', ii', dict')"
    and "decodes out (take ii inp)" and "ii \<le> ip" and "ip + 9 \<le> length inp"
    and "out = [] \<Longrightarrow> ii = 0 \<and> 4 \<le> ip"
  shows "decodes out' (take ii' inp) \<and> ii' \<le> length inp \<and> (out' = [] \<longrightarrow> ii' = 0)"
  using assms
proof (induction inp dict ip ii out rule: compress_loop.induct)
  case (1 inp dict ip ii out)
  obtain d mo where fm: "find_match inp dict ip = (d, mo)"
    by (cases "find_match inp dict ip")
  show ?case
  proof (cases mo)
    case None
    show ?thesis
    proof (cases "Suc ip \<ge> length inp - 13")
      case True
      with "1.prems" fm None show ?thesis
        by (auto simp: compress_loop.simps [of inp dict ip] M2_MAX_LEN_def Let_def)
    next
      case False
      then have "compress_loop inp dict ip ii out = compress_loop inp (dict(d := int ip)) (Suc ip) ii out"
        using fm None by (simp add: compress_loop.simps [of inp dict ip] M2_MAX_LEN_def)
      with "1.prems" False show ?thesis
        by (intro "1.IH"(1) [OF fm [symmetric] None refl]) (auto simp: M2_MAX_LEN_def fun_upd_def)
    qed
  next
    case (Some m)
    let ?out = "literals_then inp ii ip out @ emit_match inp m ip"
    let ?e = "match_end inp m ip"
    note ip9 = "1.prems"(4)
    have three: "\<forall>j<3. inp ! (m + j) = inp ! (ip + j)"
      using find_match_Some fm Some by blast
    have "ready (literals_then inp ii ip out) (take ip inp)"
      using "1.prems" by (intro ready_literals_then) auto
    then have dec: "decodes ?out (take ?e inp)"
      using decodes_emit_match fm Some ip9 by blast
    show ?thesis
    proof (cases "?e \<ge> length inp - 13")
      case True
      with "1.prems" fm Some dec match_end_spec(1) [OF three ip9] show ?thesis
        by (auto simp: compress_loop.simps [of inp dict ip] M2_MAX_LEN_def Let_def emit_match_nonempty)
    next
      case False
      then have "compress_loop inp dict ip ii out = compress_loop inp (dict(d := int ip)) ?e ?e ?out"
        using fm Some by (simp add: compress_loop.simps [of inp dict ip] M2_MAX_LEN_def Let_def)
      with "1.prems" False dec show ?thesis
        by (intro "1.IH"(2) [OF fm [symmetric] Some refl refl refl])
          (auto simp: M2_MAX_LEN_def emit_match_nonempty fun_upd_def)
    qed
  qed
qed

section \<open>Round trip\<close>

lemma ready_eof:
  assumes "ready c x" and "length x \<le> cap"
  shows "lzo_run (c @ [17, 0, 0]) cap (L_Start, 0, []) = (Eof_Found, length c + 3, x)"
proof -
  have "lzo_reach (c @ 17 # [0, 0]) cap (L_Start, 0, []) (L_Match (unat (17 :: byte)), length c + 1, x)"
    using assms(1) [unfolded ready_def, rule_format, of 17 "[0, 0]" cap] assms(2) by simp
  moreover have "lzo_step (c @ 17 # [0, 0]) cap (L_Match 17, length c + 1, x)
      = Inr (Eof_Found, length c + 3, x)"
    by (simp add: step_match_def with_run_length_pos with_le16_def with_byte_def nth_append)
  ultimately show ?thesis
    by (simp add: lzo_run_reach lzo_run.simps [of _ _ "(L_Match 17, Suc (length c), x)"])
qed

text \<open>The marker without its last byte: the decompressor reads on behind the input.\<close>

lemma ready_cut:
  assumes "ready c x" and "length x \<le> cap"
  shows "lzo_run (c @ [17, 0]) cap (L_Start, 0, []) = (Oob_Read, length c + 2, x)"
proof -
  have "lzo_reach (c @ 17 # [0]) cap (L_Start, 0, []) (L_Match (unat (17 :: byte)), length c + 1, x)"
    using assms(1) [unfolded ready_def, rule_format, of 17 "[0]" cap] assms(2) by simp
  moreover have "lzo_step (c @ 17 # [0]) cap (L_Match 17, length c + 1, x) = Inr (Oob_Read, length c + 2, x)"
    by (simp add: step_match_def with_run_length_pos with_le16_def with_byte_def nth_append)
  ultimately show ?thesis
    by (simp add: lzo_run_reach lzo_run.simps [of _ _ "(L_Match 17, Suc (length c), x)"])
qed

lemma ready_final_literals:
  assumes dec: "decodes out (take (length inp - t) inp)" and "t \<le> length inp" and "inp \<noteq> []"
    and first: "out = [] \<Longrightarrow> t = length inp"
  shows "ready (final_literals inp t out) inp"
proof (cases "t = 0")
  case True
  with dec first assms(3) have "ready out inp" by (intro ready_decodes) auto
  with True show ?thesis by (simp add: final_literals_def)
next
  case False
  let ?l = "drop (length inp - t) inp"
  have len: "length ?l = t" using assms(2) by simp
  have inp: "take (length inp - t) inp @ ?l = inp" by simp
  have copy: "copy_lit inp (length inp - t) t xs = xs @ ?l" for xs
    using assms(2) by (subst copy_lit_eq) simp_all
  show ?thesis
  proof (cases "out = [] \<and> t \<le> 238")
    case True
    then have "?l = inp" using first by simp
    with True False len show ?thesis
      using ready_start_literals [of inp] assms(3) copy by (simp add: final_literals_def)
  next
    case False
    have "ready (emit_run (length ?l) out @ ?l) (take (length inp - t) inp @ ?l)"
      using dec len False \<open>t \<noteq> 0\<close> by (intro ready_literals) auto
    with False \<open>t \<noteq> 0\<close> len copy show ?thesis
      unfolding inp by (auto simp: final_literals_def)
  qed
qed

lemma lzo1x_1_compress_stream:
  assumes "inp \<noteq> []"
  obtains c dict' where "ready c inp"
    and "lzo1x_1_compress inp dict = (LZO_E_OK, c @ [17, 0, 0], dict')"
proof -
  have eof: "word_of_nat (M4_MARKER OR 1) = (17 :: byte)"
    using or_low_eq_add [of 1 4 M4_MARKER] by (simp add: M4_MARKER_def)
  show thesis
  proof (cases "length inp \<le> 13")
    case True
    then show thesis
      using ready_final_literals [of "[]" inp "length inp"] assms decodes_Nil
      by (intro that [of "final_literals inp (length inp) []" dict])
        (simp_all add: lzo1x_1_compress_def M2_MAX_LEN_def eof [unfolded One_nat_def])
  next
    case False
    obtain out ii dict' where loop: "compress_loop inp dict 4 0 [] = (out, ii, dict')"
      by (cases "compress_loop inp dict 4 0 []") auto
    from compress_loop_decodes [OF loop] decodes_Nil False
    have "decodes out (take ii inp) \<and> ii \<le> length inp \<and> (out = [] \<longrightarrow> ii = 0)" by simp
    then have "ready (final_literals inp (length inp - ii) out) inp"
      using assms by (intro ready_final_literals) auto
    then show thesis
      using False loop
      by (intro that [of "final_literals inp (length inp - ii) out" dict'])
        (simp_all add: lzo1x_1_compress_def do_compress_def M2_MAX_LEN_def
          eof [unfolded One_nat_def])
  qed
qed

lemma lzo_decompress_compress:
  assumes "length inp \<le> cap"
  shows "\<exists>out dict'. lzo1x_1_compress inp dict = (LZO_E_OK, out, dict')
    \<and> lzo1x_decompress_safe out cap = Some (LZO_E_OK, inp)"
proof (cases "inp = []")
  case True
  have "lzo_run [17, 0, 0] cap (L_Start, 0, []) = (Eof_Found, 3, [])"
    by (simp add: lzo_run.simps step_start_def step_while_def step_match_def with_byte_def
        with_run_length_pos with_le16_def)
  moreover have "word_of_nat (M4_MARKER OR Suc 0) = (17 :: byte)"
    using or_low_eq_add [of 1 4 M4_MARKER] by (simp add: M4_MARKER_def)
  ultimately show ?thesis
    using True
    by (simp add: lzo1x_1_compress_def final_literals_def lzo1x_decompress_safe_def)
next
  case False
  then obtain c dict' where "ready c inp"
    and "lzo1x_1_compress inp dict = (LZO_E_OK, c @ [17, 0, 0], dict')"
    by (rule lzo1x_1_compress_stream)
  with ready_eof [OF this(1) assms] show ?thesis
    by (simp add: lzo1x_decompress_safe_def)
qed

lemma lzo_decompress_cut:
  assumes "length inp \<le> cap" and "lzo1x_1_compress inp dict = (rc, out, dict')"
  shows "lzo_run (butlast out) cap (L_Start, 0, []) = (Oob_Read, length out - 1, inp)"
proof (cases "inp = []")
  case True
  have "word_of_nat (M4_MARKER OR Suc 0) = (17 :: byte)"
    using or_low_eq_add [of 1 4 M4_MARKER] by (simp add: M4_MARKER_def)
  then have "out = [17, 0, 0]" using True assms(2) by (simp add: lzo1x_1_compress_def final_literals_def)
  with True show ?thesis
    by (simp add: lzo_run.simps step_start_def step_while_def step_match_def with_byte_def with_run_length_pos with_le16_def)
next
  case False
  then obtain c where c: "ready c inp" "out = c @ [17, 0, 0]"
    using lzo1x_1_compress_stream [of inp dict] assms(2) by (metis prod.inject)
  have "butlast out = c @ [17, 0]" by (simp add: c(2) butlast_append)
  with ready_cut [OF c(1) assms(1)] show ?thesis by (simp add: c(2))
qed

end
