(* ===== verification/Interfaces.thy ===== *)
theory Interfaces
  imports Main
begin

text \<open>
  The interfaces between the components, as locales: a codec for pages, an allocator for
  objects inside pages, and a store of items by key.  The clients' facts that follow from the contracts alone are proved
  here; the components that provide the operations interpret the locales on their models.
\<close>

section \<open>A codec with a work area\<close>

text \<open>
  \<open>compress\<close> turns a block into a code, threading a work area whose content it does not rely
  on; \<open>decompress code cap\<close> writes at most \<open>cap\<close> bytes.
\<close>

locale page_codec =
  fixes compress :: "'b list \<Rightarrow> 'w \<Rightarrow> int \<times> 'b list \<times> 'w"
    and decompress :: "'b list \<Rightarrow> nat \<Rightarrow> (int \<times> 'b list) option"
    and worst :: "nat \<Rightarrow> nat"
    and ok :: int
  assumes round_trip: "length inp \<le> cap \<Longrightarrow>
      \<exists>out w'. compress inp w = (ok, out, w') \<and> decompress out cap = Some (ok, inp)"
    and worst_case: "compress inp w = (rc, out, w') \<Longrightarrow> length out \<le> worst (length inp)"
    and output_bound: "decompress code cap = Some (rc, out) \<Longrightarrow> length out \<le> cap"
begin

lemma compress_ok: "compress inp w = (rc, out, w') \<Longrightarrow> rc = ok \<and> decompress out (length inp) = Some (ok, inp)"
  using round_trip [of inp "length inp" w] by auto

lemma code_inj:
  assumes "compress inp1 w1 = (r1, out, v1)" and "compress inp2 w2 = (r2, out, v2)"
  shows "inp1 = inp2"
proof -
  let ?cap = "max (length inp1) (length inp2)"
  have "decompress out ?cap = Some (ok, inp1)" using round_trip [of inp1 ?cap w1] assms(1) by auto
  moreover have "decompress out ?cap = Some (ok, inp2)" using round_trip [of inp2 ?cap w2] assms(2) by auto
  ultimately show ?thesis by simp
qed

text \<open>The code written to a buffer that has room for the worst case, and read back from it.\<close>

lemma through_buffer:
  assumes "worst (length inp) \<le> length buf"
  obtains out w' buf' where "compress inp w = (ok, out, w')" and "length out \<le> length buf"
    and "buf' = out @ drop (length out) buf" and "length buf' = length buf"
    and "take (length out) buf' = out" and "decompress out (length inp) = Some (ok, inp)"
proof -
  obtain out w' where c: "compress inp w = (ok, out, w')" and d: "decompress out (length inp) = Some (ok, inp)"
    using round_trip [of inp "length inp" w] by auto
  have "length out \<le> length buf" using worst_case [OF c] assms by simp
  with c d that [of out w' "out @ drop (length out) buf"] show thesis by simp
qed

end

section \<open>An allocator of objects\<close>

text \<open>
  \<open>rep s f\<close>: the state \<open>s\<close> holds the live objects \<open>f\<close>, a map from locations \<open>(page, offset)\<close>
  to sizes.  \<open>alloc\<close> and \<open>free\<close> answer \<open>None\<close> where the code stops or is undefined; otherwise \<open>alloc\<close>
  answers a location, or nothing when it fails.
\<close>

type_synonym objects = "nat \<times> nat \<Rightarrow> nat option"

definition separate :: "objects \<Rightarrow> bool" where
  "separate f \<longleftrightarrow> (\<forall>p o1 n1 o2 n2. f (p, o1) = Some n1 \<and> f (p, o2) = Some n2 \<and> o1 \<noteq> o2 \<longrightarrow>
     o1 + n1 \<le> o2 \<or> o2 + n2 \<le> o1)"

text \<open>
  What a client asks for: \<open>Alloc n\<close> an object of \<open>n\<close> bytes, \<open>Free k\<close> that the \<open>k\<close>-th newest of the objects
  it holds be freed (nothing when it holds fewer).  Whatever the allocator answers, a client that follows such a list frees
  only what it was given and has not freed yet.
\<close>

datatype request = Alloc nat | Free nat

text \<open>
  The client at work.  \<open>os\<close> is what it holds, newest first, with the sizes it asked for; \<open>None\<close> when some call
  has no result.
\<close>

fun serve ::
  "(nat \<Rightarrow> 's \<Rightarrow> ((nat \<times> nat) option \<times> 's) option) \<Rightarrow> (nat \<times> nat \<Rightarrow> 's \<Rightarrow> 's option) \<Rightarrow> request list \<Rightarrow> 's
     \<Rightarrow> ((nat \<times> nat) \<times> nat) list \<Rightarrow> ('s \<times> ((nat \<times> nat) \<times> nat) list) option" where
  "serve alloc free [] s os = Some (s, os)"
| "serve alloc free (Alloc n # rs) s os =
     (case alloc n s of
        None \<Rightarrow> None
      | Some (None, s) \<Rightarrow> serve alloc free rs s os
      | Some (Some x, s) \<Rightarrow> serve alloc free rs s ((x, n) # os))"
| "serve alloc free (Free k # rs) s os =
     (if k < length os
      then case free (fst (os ! k)) s of
          None \<Rightarrow> None
        | Some s \<Rightarrow> serve alloc free rs s (take k os @ drop (Suc k) os)
      else serve alloc free rs s os)"

definition sizes_upto :: "nat \<Rightarrow> request list \<Rightarrow> bool" where
  "sizes_upto limit rs \<longleftrightarrow> list_all (\<lambda>r. case r of Alloc n \<Rightarrow> n \<le> limit | Free k \<Rightarrow> True) rs"

lemma sizes_upto_simps [simp]:
  "sizes_upto limit []"
  "sizes_upto limit (Alloc n # rs) \<longleftrightarrow> n \<le> limit \<and> sizes_upto limit rs"
  "sizes_upto limit (Free k # rs) \<longleftrightarrow> sizes_upto limit rs"
  by (simp_all add: sizes_upto_def)

lemma map_of_drop_nth:
  assumes "distinct (map fst os)" and "k < length os"
  shows "map_of (take k os @ drop (Suc k) os) = (map_of os)(fst (os ! k) := None)"
    and "distinct (map fst (take k os @ drop (Suc k) os))" and "map_of os (fst (os ! k)) \<noteq> None"
proof -
  have os: "os = take k os @ os ! k # drop (Suc k) os" by (rule id_take_nth_drop [OF assms(2)])
  obtain as x n bs where d: "take k os = as" "os ! k = (x, n)" "drop (Suc k) os = bs" by (cases "os ! k") auto
  from os d have os: "os = as @ (x, n) # bs" by simp
  with assms(1) have n: "x \<notin> fst ` set as" "x \<notin> fst ` set bs" "distinct (map fst (as @ bs))" by auto
  then have "map_of bs x = None" "map_of as x = None" by (simp_all add: map_of_eq_None_iff)
  then show "map_of (take k os @ drop (Suc k) os) = (map_of os)(fst (os ! k) := None)"
    unfolding d by (auto simp: os map_add_def fun_eq_iff split: option.splits)
  show "distinct (map fst (take k os @ drop (Suc k) os))" unfolding d by (rule n(3))
  show "map_of os (fst (os ! k)) \<noteq> None" unfolding d by (simp add: os map_add_def split: option.splits)
qed

locale object_allocator =
  fixes rep :: "'s \<Rightarrow> objects \<Rightarrow> bool"
    and alloc :: "nat \<Rightarrow> 's \<Rightarrow> ((nat \<times> nat) option \<times> 's) option"
    and free :: "nat \<times> nat \<Rightarrow> 's \<Rightarrow> 's option"
    and limit :: nat
  assumes alloc_returns: "rep s f \<Longrightarrow> n \<le> limit \<Longrightarrow>
      \<exists>r s'. alloc n s = Some (r, s') \<and> (case r of None \<Rightarrow> rep s' f | Some x \<Rightarrow> f x = None \<and> rep s' (f(x \<mapsto> n)))"
    and free_live: "rep s f \<Longrightarrow> f x \<noteq> None \<Longrightarrow> \<exists>s'. free x s = Some s' \<and> rep s' (f(x := None))"
    and rep_separate: "rep s f \<Longrightarrow> separate f"
begin

text \<open>Every request of every client returns, and the objects the client holds are the live ones: none twice, none overlapping.\<close>

lemma run_ok:
  assumes "rep s (map_of os)" and "distinct (map fst os)" and "sizes_upto limit rs"
  shows "\<exists>s' os'. serve alloc free rs s os = Some (s', os') \<and> rep s' (map_of os') \<and> distinct (map fst os')
    \<and> separate (map_of os')"
  using assms
proof (induction rs arbitrary: s os)
  case Nil
  then show ?case using rep_separate by auto
next
  case (Cons r rs)
  show ?case
  proof (cases r)
    case (Alloc n)
    with Cons.prems(3) have n: "n \<le> limit" "sizes_upto limit rs" by simp_all
    from alloc_returns [OF Cons.prems(1) n(1)] obtain a s1 where a: "alloc n s = Some (a, s1)"
      "case a of None \<Rightarrow> rep s1 (map_of os) | Some x \<Rightarrow> map_of os x = None \<and> rep s1 ((map_of os)(x \<mapsto> n))" by blast
    show ?thesis
    proof (cases a)
      case None
      with a Cons.IH [of s1 os] Cons.prems(2) n(2) Alloc show ?thesis by simp
    next
      case (Some x)
      with a(2) have "rep s1 (map_of ((x, n) # os))" "distinct (map fst ((x, n) # os))"
        using Cons.prems(2) by (simp_all add: map_of_eq_None_iff)
      with a(1) Cons.IH [OF this n(2)] Some Alloc show ?thesis by simp
    qed
  next
    case (Free k)
    with Cons.prems(3) have l: "sizes_upto limit rs" by simp
    show ?thesis
    proof (cases "k < length os")
      case True
      note d = map_of_drop_nth [OF Cons.prems(2) True]
      from free_live [OF Cons.prems(1) d(3)] obtain s1 where "free (fst (os ! k)) s = Some s1"
        "rep s1 (map_of (take k os @ drop (Suc k) os))" unfolding d(1) by blast
      with Cons.IH [OF this(2) d(2) l] True Free show ?thesis by simp
    next
      case False
      with Cons.IH [OF Cons.prems(1,2) l] Free show ?thesis by simp
    qed
  qed
qed

end

text \<open>
  An allocator that gives pages back: \<open>pages s\<close> are the pages it holds, each of them with a
  live object.
\<close>

locale reclaiming_allocator = object_allocator rep alloc free limit
  for rep :: "'s \<Rightarrow> objects \<Rightarrow> bool" and alloc free limit +
  fixes pages :: "'s \<Rightarrow> nat set \<Rightarrow> bool"
  assumes pages_live: "rep s f \<Longrightarrow> \<exists>P. pages s P \<and> (\<forall>p. p \<in> P \<longleftrightarrow> (\<exists>o'. f (p, o') \<noteq> None))"
begin

text \<open>After any run, the pages held are those of the objects the client holds.\<close>

lemma run_reclaims:
  assumes "rep s (map_of os)" and "distinct (map fst os)" and "sizes_upto limit rs"
  shows "\<exists>s' os'. serve alloc free rs s os = Some (s', os') \<and> pages s' (fst ` fst ` set os')"
proof -
  from run_ok [OF assms] obtain s' os' where r: "serve alloc free rs s os = Some (s', os')" "rep s' (map_of os')" by blast
  from pages_live [OF r(2)] obtain P where P: "pages s' P" "\<And>p. p \<in> P \<longleftrightarrow> (\<exists>o'. map_of os' (p, o') \<noteq> None)" by blast
  have "P = fst ` fst ` set os'"
    unfolding set_eq_iff P(2) by (simp add: map_of_eq_None_iff) force
  with r(1) P(1) show ?thesis by blast
qed

end

section \<open>A store of items by key\<close>

text \<open>
  \<open>rep s f\<close>: the store holds the items \<open>f\<close>, by key.  Items carry their keys, \<open>key\<close>; an item is inserted under its key
  when there is none of that key, and removed when it is there.  \<open>None\<close> stands for undefined behaviour.
\<close>

datatype 'k store_request = Look 'k | Put nat | Drop nat

fun run_store :: "('k \<Rightarrow> 's \<Rightarrow> nat option option) \<Rightarrow> (nat \<Rightarrow> 's \<Rightarrow> 's option) \<Rightarrow> (nat \<Rightarrow> 's \<Rightarrow> 's option)
     \<Rightarrow> 'k store_request list \<Rightarrow> 's \<Rightarrow> (nat option list \<times> 's) option" where
  "run_store look ins rmv [] s = Some ([], s)"
| "run_store look ins rmv (Look k # rs) s =
     (case look k s of None \<Rightarrow> None
      | Some a \<Rightarrow> (case run_store look ins rmv rs s of None \<Rightarrow> None | Some (as, s) \<Rightarrow> Some (a # as, s)))"
| "run_store look ins rmv (Put n # rs) s = (case ins n s of None \<Rightarrow> None | Some s \<Rightarrow> run_store look ins rmv rs s)"
| "run_store look ins rmv (Drop n # rs) s = (case rmv n s of None \<Rightarrow> None | Some s \<Rightarrow> run_store look ins rmv rs s)"

text \<open>The same on a map; \<open>None\<close> when the client breaks the contract.\<close>

fun run_map :: "(nat \<Rightarrow> 'k) \<Rightarrow> 'k store_request list \<Rightarrow> ('k \<Rightarrow> nat option) \<Rightarrow> (nat option list \<times> ('k \<Rightarrow> nat option)) option" where
  "run_map key [] f = Some ([], f)"
| "run_map key (Look k # rs) f = (case run_map key rs f of None \<Rightarrow> None | Some (as, g) \<Rightarrow> Some (f k # as, g))"
| "run_map key (Put n # rs) f = (if n \<noteq> 0 \<and> f (key n) = None then run_map key rs (f(key n \<mapsto> n)) else None)"
| "run_map key (Drop n # rs) f = (if f (key n) = Some n then run_map key rs (f(key n := None)) else None)"

locale item_store =
  fixes rep :: "(nat \<Rightarrow> 'k) \<Rightarrow> 's \<Rightarrow> ('k \<Rightarrow> nat option) \<Rightarrow> bool"
    and look :: "'k \<Rightarrow> 's \<Rightarrow> nat option option"
    and ins :: "nat \<Rightarrow> 's \<Rightarrow> 's option"
    and rmv :: "nat \<Rightarrow> 's \<Rightarrow> 's option"
  assumes look_rep: "rep key s f \<Longrightarrow> look k s = Some (f k)"
    and put_rep: "rep key s f \<Longrightarrow> n \<noteq> 0 \<Longrightarrow> f (key n) = None \<Longrightarrow> \<exists>s'. ins n s = Some s' \<and> rep key s' (f(key n \<mapsto> n))"
    and drop_rep: "rep key s f \<Longrightarrow> f (key n) = Some n \<Longrightarrow> \<exists>s'. rmv n s = Some s' \<and> rep key s' (f(key n := None))"
begin

text \<open>Every run within the contract goes through and gives the answers of a map.\<close>

lemma run_refines:
  assumes "rep key s f" and "run_map key rs f = Some (as, g)"
  shows "\<exists>s'. run_store look ins rmv rs s = Some (as, s') \<and> rep key s' g"
  using assms
proof (induction rs arbitrary: s f as)
  case (Cons r rs)
  show ?case
  proof (cases r)
    case (Look k)
    then obtain bs where "run_map key rs f = Some (bs, g)" "as = f k # bs" using Cons.prems(2) by (auto split: option.splits)
    with Cons.IH [OF Cons.prems(1)] Look look_rep [OF Cons.prems(1)] show ?thesis by fastforce
  next
    case (Put n)
    then have n: "n \<noteq> 0" "f (key n) = None" "run_map key rs (f(key n \<mapsto> n)) = Some (as, g)" using Cons.prems(2) by (auto split: if_splits)
    from put_rep [OF Cons.prems(1) n(1,2)] Cons.IH [OF _ n(3)] Put show ?thesis by fastforce
  next
    case (Drop n)
    then have n: "f (key n) = Some n" "run_map key rs (f(key n := None)) = Some (as, g)" using Cons.prems(2) by (auto split: if_splits)
    from drop_rep [OF Cons.prems(1) n(1)] Cons.IH [OF _ n(2)] Drop show ?thesis by fastforce
  qed
qed simp

text \<open>An item put into the store is found until it is dropped.\<close>

lemma put_look: "rep key s f \<Longrightarrow> n \<noteq> 0 \<Longrightarrow> f (key n) = None \<Longrightarrow> \<exists>s'. ins n s = Some s' \<and> look (key n) s' = Some (Some n)"
  using put_rep [of key s f n] look_rep by fastforce

lemma drop_look: "rep key s f \<Longrightarrow> f (key n) = Some n \<Longrightarrow> \<exists>s'. rmv n s = Some s' \<and> look (key n) s' = Some None"
  using drop_rep [of key s f n] look_rep by fastforce

end

end
