(* ===== verification/Lzo_Bounds.thy ===== *)
theory Lzo_Bounds
  imports Lzo_Roundtrip Interfaces
begin

text \<open>
  Size bounds of both directions: whatever the input, the decompressor never writes more than
  the \<open>*out_len\<close> bytes it was given; the compressor writes at most
  \<open>lzo1x_worst_compress\<close> bytes for its input.
\<close>

section \<open>The decompressor stays inside its output buffer\<close>

definition out_of :: "lzo_state \<Rightarrow> bytes" where
  "out_of s = snd (snd s)"

text \<open>The output is bounded after a step, whether it goes on or ends.\<close>

definition step_le :: "nat \<Rightarrow> lzo_state + lzo_result \<Rightarrow> bool" where
  "step_le cap r \<longleftrightarrow>
     (case r of Inl s \<Rightarrow> length (out_of s) \<le> cap | Inr (e, ip, out) \<Rightarrow> length out \<le> cap)"

lemma step_le_simps [simp]:
  "step_le cap (Inl (l, ip, out)) \<longleftrightarrow> length out \<le> cap"
  "step_le cap (Inr (e, ip, out)) \<longleftrightarrow> length out \<le> cap"
  by (simp_all add: step_le_def out_of_def)

lemma step_le_with_byte [intro]:
  "length out \<le> cap \<Longrightarrow> (\<And>b. step_le cap (k b)) \<Longrightarrow> step_le cap (with_byte inp ip out k)"
  by (simp add: with_byte_def)

lemma step_le_with_le16 [intro]:
  "length out \<le> cap \<Longrightarrow> (\<And>d. step_le cap (k d)) \<Longrightarrow> step_le cap (with_le16 inp ip out k)"
  by (auto simp: with_le16_def)

lemma step_le_with_run_length [intro]:
  "length out \<le> cap \<Longrightarrow> 0 < base \<Longrightarrow> (\<And>ip t. 0 < t \<Longrightarrow> step_le cap (k ip t)) \<Longrightarrow>
     step_le cap (with_run_length inp base ip t out k)"
  by (auto simp: with_run_length_def split: option.split dest!: run_length_bounds)

lemma length_literal_run [simp]:
  "0 < t \<Longrightarrow> ip + t + 3 \<le> length inp \<Longrightarrow> length (literal_run inp ip t out) = length out + (t + 3)"
  by (simp add: literal_run_eq)

lemma length_match_copy [simp]: "length (match_copy m t out) = length out + (t + 2)"
  by (simp add: match_copy_eq)

lemma step_le_do_match [intro]: "length out \<le> cap \<Longrightarrow> step_le cap (do_match cap ip m_pos t out)"
  by (auto simp: do_match_def have_defs not_less le_diff_conv2)

lemma lzo_step_le: "length (out_of s) \<le> cap \<Longrightarrow> step_le cap (lzo_step inp cap s)"
proof (induction inp cap s rule: lzo_step.induct)
  case (1 inp cap ip out)
  then show ?case
    by (auto simp: step_start_def Let_def have_defs out_of_def not_less le_diff_conv2 intro!: step_le_with_byte)
next
  case (2 inp cap ip out)
  then show ?case
    by (auto simp: step_while_def have_defs out_of_def not_less le_diff_conv2
        intro!: step_le_with_byte step_le_with_run_length)
next
  case (3 inp cap ip out)
  then show ?case
    by (auto simp: step_first_literal_run_def Let_def have_defs out_of_def not_less le_diff_conv2 intro!: step_le_with_byte)
next
  case (4 inp cap t ip out)
  then show ?case
    by (auto simp: step_match_def Let_def have_defs out_of_def not_less le_diff_conv2
        intro!: step_le_with_byte step_le_with_run_length step_le_with_le16 step_le_do_match)
next
  case (5 inp cap ip out)
  then show ?case
    by (auto simp: step_match_done_def Let_def out_of_def intro!: step_le_with_byte)
next
  case (6 inp cap t ip out)
  then show ?case
    by (auto simp: step_match_next_def Let_def have_defs out_of_def not_less le_diff_conv2 intro!: step_le_with_byte)
qed

lemma lzo_run_le:
  "length (out_of s) \<le> cap \<Longrightarrow> lzo_run inp cap s = (e, ip, out) \<Longrightarrow> length out \<le> cap"
proof (induction inp cap s rule: lzo_run.induct)
  case (1 inp cap s)
  note step = lzo_step_le [OF "1.prems"(1), of inp]
  show ?case
  proof (cases "lzo_step inp cap s")
    case (Inl s')
    moreover have "length (out_of s') \<le> cap" using step Inl by (simp add: step_le_def)
    ultimately show ?thesis using "1.IH" [OF Inl] "1.prems"(2) by (simp add: lzo_run.simps [of inp cap s])
  next
    case (Inr r)
    with "1.prems"(2) step show ?thesis by (auto simp: lzo_run.simps [of inp cap s])
  qed
qed

lemma lzo_decompress_bound:
  "lzo1x_decompress_safe inp cap = Some (rc, out) \<Longrightarrow> length out \<le> cap"
  using lzo_run_le [of "(L_Start, 0, [])" cap inp]
  by (auto simp: lzo1x_decompress_safe_def out_of_def split: prod.splits lzo_exit.splits)

section \<open>The compressor's worst case\<close>

lemma length_emit_ext: "0 < tt \<Longrightarrow> length (emit_ext tt) = (tt - 1) div 255 + 1"
proof (induction tt rule: emit_ext.induct)
  case (1 tt)
  show ?case
  proof (cases "tt > 255")
    case True
    then have "(tt - 1) div 255 = (tt - 255 - 1) div 255 + 1"
      using div_add_self2 [of 255 "tt - 255 - 1"] by simp
    with True "1.IH" show ?thesis by (simp add: emit_ext.simps [of tt])
  next
    case False
    with "1.prems" show ?thesis by (simp add: emit_ext.simps [of tt])
  qed
qed

text \<open>Bytes in front of \<open>t\<close> literals.\<close>

definition run_cost :: "nat \<Rightarrow> nat" where
  "run_cost t = (if t \<le> 3 then 0 else if t \<le> 18 then 1 else 2 + (t - 19) div 255)"

lemma length_emit_run: "length (emit_run t out) = length out + run_cost t"
  by (simp add: emit_run_def run_cost_def length_emit_ext)

text \<open>An instruction for a match is shorter than the match.\<close>

lemma length_emit_short_match:
  "3 \<le> len \<Longrightarrow> off \<le> M2_MAX_OFFSET \<or> 4 \<le> len \<Longrightarrow> length (emit_short_match off len) + 1 \<le> len"
  by (auto simp: emit_short_match_def Let_def)

lemma length_emit_long_match:
  assumes "9 \<le> len"
  shows "length (emit_long_match off len) + 1 \<le> len"
proof -
  have "(a - 1) div 255 \<le> a" for a :: nat
    by (meson div_le_dividend diff_le_self le_trans)
  then have "length (emit_ext (len - 33)) \<le> len - 33 + 1" if "33 < len"
    using that by (simp add: length_emit_ext)
  moreover have "length (emit_ext (len - 9)) \<le> 1 + (len - 10) div 255" if "9 < len"
    using that by (simp add: length_emit_ext)
  moreover have "(len - 10) div 255 \<le> len - 10" by simp
  ultimately show ?thesis
    using assms by (auto simp: emit_long_match_def Let_def M4_MAX_LEN_def)
qed

lemma find_match_four:
  assumes "find_match inp dict ip = (d, Some m)"
  shows "ip - m \<le> M2_MAX_OFFSET \<or> inp ! (m + 3) = inp ! (ip + 3)"
  using assms
  by (auto simp: find_match_def Let_def try_now_def try_match_def split: if_splits)

lemma length_emit_match:
  assumes fm: "find_match inp dict ip = (d, Some m)" and ip: "ip + 9 \<le> length inp"
  shows "length (emit_match inp m ip) + 1 \<le> match_end inp m ip - ip"
proof -
  have three: "\<forall>j<3. inp ! (m + j) = inp ! (ip + j)" using find_match_Some [OF fm] by blast
  note e = match_end_spec [OF three ip]
  show ?thesis
  proof (cases "short_len inp m ip \<le> M2_MAX_LEN")
    case True
    have "inp ! (m + 3) = inp ! (ip + 3) \<Longrightarrow> 4 \<le> short_len inp m ip"
      by (simp add: short_len_def)
    then have "ip - m \<le> M2_MAX_OFFSET \<or> 4 \<le> match_end inp m ip - ip"
      using find_match_four [OF fm] True by (auto simp: match_end_def)
    from length_emit_short_match [OF e(3) this] True show ?thesis
      by (simp add: emit_match_def)
  next
    case False
    then have "9 \<le> match_end inp m ip - ip" using e(5) by (simp add: M2_MAX_LEN_def)
    from length_emit_long_match [OF this] False show ?thesis
      by (simp add: emit_match_def)
  qed
qed

text \<open>Literals and the match behind them expand by at most a sixteenth.\<close>

lemma div16_add: "a div 16 + b div 16 \<le> (a + b) div (16 :: nat)"
  by simp

lemma chunk_cost:
  assumes "e + 1 \<le> len" and "3 \<le> len"
  shows "run_cost t + t + e \<le> (t + len) + (t + len) div 16"
proof (cases "t \<le> 18")
  case True
  with assms show ?thesis by (simp add: run_cost_def)
next
  case False
  then have "1 + (t - 19) div 255 \<le> (t + len) div 16"
    using assms(2) by linarith
  with False assms(1) show ?thesis by (simp add: run_cost_def)
qed

lemma compress_loop_length:
  assumes "compress_loop inp dict ip ii out = (out', ii', dict')"
    and "length out \<le> ii + ii div 16" and "ii \<le> ip" and "ip + 9 \<le> length inp"
  shows "length out' \<le> ii' + ii' div 16 \<and> ii' \<le> length inp"
  using assms
proof (induction inp dict ip ii out rule: compress_loop.induct)
  case (1 inp dict ip ii out)
  obtain d mo where fm: "find_match inp dict ip = (d, mo)"
    by (cases "find_match inp dict ip")
  show ?case
  proof (cases mo)
    case None
    show ?thesis
    proof (cases "Suc ip \<ge> length inp - 13")
      case True
      with "1.prems" fm None show ?thesis
        by (auto simp: compress_loop.simps [of inp dict ip] M2_MAX_LEN_def Let_def)
    next
      case False
      then have "compress_loop inp dict ip ii out = compress_loop inp (dict(d := int ip)) (Suc ip) ii out"
        using fm None by (simp add: compress_loop.simps [of inp dict ip] M2_MAX_LEN_def)
      with "1.prems" False show ?thesis
        by (intro "1.IH"(1) [OF fm [symmetric] None refl]) (auto simp: M2_MAX_LEN_def fun_upd_def)
    qed
  next
    case (Some m)
    let ?out = "literals_then inp ii ip out @ emit_match inp m ip"
    let ?e = "match_end inp m ip" and ?n = "length (emit_match inp m ip)"
    note ip9 = "1.prems"(4)
    have three: "\<forall>j<3. inp ! (m + j) = inp ! (ip + j)"
      using find_match_Some fm Some by blast
    note spec = match_end_spec [OF three ip9]
    have cost: "run_cost (ip - ii) + (ip - ii) + ?n \<le> (?e - ii) + (?e - ii) div 16"
      using chunk_cost [of ?n "?e - ip" "ip - ii"] length_emit_match fm Some ip9 spec(3)
        "1.prems"(3) match_end_gt [of ip inp m] by simp
    have "length ?out = length out + run_cost (ip - ii) + (ip - ii) + ?n"
      by (simp add: literals_then_def length_emit_run run_cost_def)
    moreover have "ii div 16 + (?e - ii) div 16 \<le> ?e div 16"
      using div16_add [of ii "?e - ii"] "1.prems"(3) match_end_gt [of ip inp m] by simp
    ultimately have len: "length ?out \<le> ?e + ?e div 16"
      using cost "1.prems"(2,3) match_end_gt [of ip inp m] by linarith
    show ?thesis
    proof (cases "?e \<ge> length inp - 13")
      case True
      with "1.prems" fm Some len spec(1) show ?thesis
        by (auto simp: compress_loop.simps [of inp dict ip] M2_MAX_LEN_def Let_def)
    next
      case False
      then have "compress_loop inp dict ip ii out = compress_loop inp (dict(d := int ip)) ?e ?e ?out"
        using fm Some by (simp add: compress_loop.simps [of inp dict ip] M2_MAX_LEN_def Let_def)
      with "1.prems" False len show ?thesis
        by (intro "1.IH"(2) [OF fm [symmetric] Some refl refl refl]) (auto simp: M2_MAX_LEN_def fun_upd_def)
    qed
  qed
qed

lemma length_final_literals:
  "length (final_literals inp t out) \<le> length out + t + 2 + t div 255"
proof -
  have "(t - 19) div 255 \<le> t div 255" by (rule div_le_mono) simp
  then show ?thesis
    by (auto simp: final_literals_def length_emit_run run_cost_def)
qed

lemma lzo_compress_bound:
  assumes "lzo1x_1_compress inp dict = (rc, out, dict')"
  shows "length out \<le> lzo1x_worst_compress (length inp)"
proof (cases "length inp \<le> 13")
  case True
  with assms length_final_literals [of inp "length inp" "[]"] show ?thesis
    by (auto simp: lzo1x_1_compress_def lzo1x_worst_compress_def M2_MAX_LEN_def)
next
  case False
  obtain o1 ii d1 where loop: "compress_loop inp dict 4 0 [] = (o1, ii, d1)"
    by (cases "compress_loop inp dict 4 0 []") auto
  have ii: "length o1 \<le> ii + ii div 16" "ii \<le> length inp"
    using compress_loop_length [OF loop] False by simp_all
  have "ii div 16 + (length inp - ii) div 16 \<le> length inp div 16"
    using div16_add [of ii "length inp - ii"] ii(2) by simp
  moreover have "(length inp - ii) div 255 \<le> (length inp - ii) div 16"
    by (rule div_le_mono2) simp_all
  moreover have "length out = length (final_literals inp (length inp - ii) o1) + 3"
    using assms loop False
    by (auto simp: lzo1x_1_compress_def do_compress_def M2_MAX_LEN_def Let_def)
  ultimately show ?thesis
    using length_final_literals [of inp "length inp - ii" o1] ii
    unfolding lzo1x_worst_compress_def by linarith
qed

section \<open>The codec\<close>

interpretation lzo: page_codec lzo1x_1_compress lzo1x_decompress_safe lzo1x_worst_compress LZO_E_OK
proof (unfold_locales)
  fix inp :: bytes and cap dict
  assume "length inp \<le> cap"
  from lzo_decompress_compress [OF this, of dict]
  show "\<exists>out w'. lzo1x_1_compress inp dict = (LZO_E_OK, out, w')
      \<and> lzo1x_decompress_safe out cap = Some (LZO_E_OK, inp)" by auto
qed (auto dest: lzo_compress_bound lzo_decompress_bound)

end
