(* ===== verification/Lzo_Spec.thy ===== *)
theory Lzo_Spec
  imports Lzo_Bounds
begin

text \<open>
  The properties of the compressor and the decompressor that the block device relies on.
\<close>

text \<open>
  C1: The LZO round trip.  Whatever bytes are compressed and whatever the work memory holds,
  \<open>lzo1x_1_compress\<close> succeeds and \<open>lzo1x_decompress_safe\<close>, given a buffer at least as large as
  the original, returns \<open>LZO_E_OK\<close> and exactly the original bytes, without an access outside the
  compressed code.
\<close>

theorem lzo1x_roundtrip:
  "\<exists>out dict'. lzo1x_1_compress inp dict = (LZO_E_OK, out, dict')
     \<and> lzo1x_decompress_safe out (length inp + spare) = Some (LZO_E_OK, inp)"
  using lzo.round_trip [of inp "length inp + spare" dict] by simp

text \<open>
  C2: The worst case of the compressor: it never writes more than \<open>lzo1x_worst_compress\<close> of the
  input's length, for any input and any content of the work memory.  The two pages of
  \<open>compress_buffer\<close> are therefore enough for a page.
\<close>

theorem lzo1x_compress_worst_case:
  "length (fst (snd (lzo1x_1_compress inp dict))) \<le> lzo1x_worst_compress (length inp)
   \<and> lzo1x_worst_compress PAGE_SIZE \<le> 2 * PAGE_SIZE"
proof
  obtain rc out d where c: "lzo1x_1_compress inp dict = (rc, out, d)" by (metis surj_pair)
  from lzo.worst_case [OF c] c
  show "length (fst (snd (lzo1x_1_compress inp dict))) \<le> lzo1x_worst_compress (length inp)" by simp
qed (simp add: lzo1x_worst_compress_def PAGE_SIZE_def)

text \<open>
  C3: The decompressor ends and stays inside its output buffer, on any bytes at all, corrupt ones included.  After
  at most \<open>2 * length code + 2\<close> of its jumps it has reached an exit, and what it has written by then fits
  the buffer it was given.  If the exit is a read behind the input, where the C code runs on into undefined behaviour, this holds up to that
  read; at every other exit the bytes written are the result.
\<close>

theorem lzo1x_decompress_output_bound:
  "\<exists>e ip out. lzo_iter (2 * length code + 2) code cap (L_Start, 0, []) = Some (e, ip, out) \<and> length out \<le> cap
    \<and> (if e = Oob_Read then lzo1x_decompress_safe code cap = None
       else \<exists>rc. lzo1x_decompress_safe code cap = Some (rc, out))"
proof -
  obtain e ip out where r: "lzo_run code cap (L_Start, 0, []) = (e, ip, out)" by (metis surj_pair)
  then have "lzo_iter (2 * length code + 2) code cap (L_Start, 0, []) = Some (e, ip, out)"
    by (subst lzo_iter_run) simp_all
  moreover have "length out \<le> cap" using lzo_run_le [OF _ r] by (simp add: out_of_def)
  moreover have "if e = Oob_Read then lzo1x_decompress_safe code cap = None
       else \<exists>rc. lzo1x_decompress_safe code cap = Some (rc, out)"
    using r by (cases e) (simp_all add: lzo1x_decompress_safe_def)
  ultimately show ?thesis by blast
qed

text \<open>
  C4: The decompressor's chunked copies are byte-wise copies.  The match copy, which moves four
  bytes at a time where source and destination are four bytes apart, does what copying
  \<open>t + 2\<close> bytes one by one does, overlapping source and destination included; the literal run,
  four bytes at a time as well, appends the next \<open>t + 3\<close> input bytes.
\<close>

theorem lzo_copies_bytewise:
  "match_copy m t out = copy_match m (t + 2) out
   \<and> (1 \<le> u \<and> ip + u + 3 \<le> length inp \<longrightarrow>
        literal_run inp ip u lits = lits @ take (u + 3) (drop ip inp))"
  using literal_run_eq [of u ip inp lits] match_copy_eq by auto

text \<open>A match that overlaps what it writes, copied by bytes; one that is copied by four bytes; and a run of eight literals behind its marker.\<close>

theorem lzo_copies_bytewise_witness:
  "match_copy 0 2 [7, 8] = [7, 8, 7, 8, 7, 8]
   \<and> match_copy 0 6 [1, 2, 3, 4] = [1, 2, 3, 4, 1, 2, 3, 4, 1, 2, 3, 4]
   \<and> literal_run [5, 1, 2, 3, 4, 5, 6, 7, 8] 1 5 [9] = [9, 1, 2, 3, 4, 5, 6, 7, 8]"
proof (intro conjI)
  show "match_copy 0 2 [7, 8] = [7, 8, 7, 8, 7, 8]"
    using lzo_copies_bytewise [of 0 2 "[7, 8]"] by (simp add: numeral_eq_Suc)
  show "match_copy 0 6 [1, 2, 3, 4] = [1, 2, 3, 4, 1, 2, 3, 4, 1, 2, 3, 4]"
    using lzo_copies_bytewise [of 0 6 "[1, 2, 3, 4]"] by (simp add: eval_nat_numeral)
  show "literal_run [5, 1, 2, 3, 4, 5, 6, 7, 8] 1 5 [9] = [9, 1, 2, 3, 4, 5, 6, 7, 8]"
    using lzo_copies_bytewise [of 0 0 "[]" 5 1 "[5, 1, 2, 3, 4, 5, 6, 7, 8]" "[9]"] by simp
qed

text \<open>
  C5: \<open>lzo1x_decompress_safe\<close> is not safe on its input.  Take what the compressor makes of any bytes, and lose the last byte: on every such
  stream, given room for the original, the decompressor first writes all of the original and then reads the missing byte, at \<open>ip_end\<close>, inside the
  end marker, instead of reporting an overrun.  An empty input is read beyond its end as well.
\<close>

theorem lzo1x_decompress_reads_past_input:
  "(let code = butlast (fst (snd (lzo1x_1_compress inp dict))); cap = length inp + spare
    in lzo_run code cap (L_Start, 0, []) = (Oob_Read, length code, inp)
      \<and> lzo1x_decompress_safe code cap = None)
   \<and> lzo1x_decompress_safe [] cap' = None"
proof
  obtain rc out d where c: "lzo1x_1_compress inp dict = (rc, out, d)" by (metis surj_pair)
  have "length inp \<le> length inp + spare" by simp
  from lzo_decompress_cut [OF this c]
  show "let code = butlast (fst (snd (lzo1x_1_compress inp dict))); cap = length inp + spare
    in lzo_run code cap (L_Start, 0, []) = (Oob_Read, length code, inp)
      \<and> lzo1x_decompress_safe code cap = None"
    by (simp add: c lzo1x_decompress_safe_def)
  show "lzo1x_decompress_safe [] cap' = None"
    by (simp add: lzo1x_decompress_safe_def lzo_run.simps lzo_step_defs)
qed

end
