(* ===== verification/Xvmalloc.thy ===== *)
theory Xvmalloc
  imports Kernel_Prelude
begin

text \<open>
  The xvmalloc allocator (sub-projects/allocators/xvmalloc-kmod/xvmalloc.c, xvmalloc_int.h).
  Memory is the explicit store of \<open>kmem\<close>: the block headers at \<open>(page, offset)\<close>, the data
  bytes of each page, and the set of pages the kernel has handed out.  Headers and data
  bytes are kept apart: a header is the four bytes in front of a block plus, in a free block
  of at least \<open>XV_MIN_ALLOC_SIZE\<close> bytes, the link fields at its start.  Theory
  \<open>Xv_Malloc_Correct\<close> shows that live objects lie apart from each other by at least a header.
  Pages are numbers, 0 being \<open>NULL\<close>.  \<open>alloc_page\<close> belongs to the kernel and is a parameter.
\<close>

section \<open>Parameters of xvmalloc\_int.h\<close>

definition XV_ALIGN :: nat where "XV_ALIGN = 4"
definition XV_MIN_ALLOC_SIZE :: nat where "XV_MIN_ALLOC_SIZE = 32"
definition XV_MAX_ALLOC_SIZE :: nat where "XV_MAX_ALLOC_SIZE = PAGE_SIZE - XV_ALIGN"
definition FL_DELTA_SHIFT :: nat where "FL_DELTA_SHIFT = 3"
definition FL_DELTA :: nat where "FL_DELTA = 8"
definition NUM_FREE_LISTS :: nat where
  "NUM_FREE_LISTS = (XV_MAX_ALLOC_SIZE - XV_MIN_ALLOC_SIZE) div FL_DELTA + 1"
definition MAX_FLI :: nat where "MAX_FLI = DIV_ROUND_UP NUM_FREE_LISTS BITS_PER_LONG"

lemmas xv_consts = XV_ALIGN_def XV_MIN_ALLOC_SIZE_def XV_MAX_ALLOC_SIZE_def FL_DELTA_SHIFT_def
  FL_DELTA_def NUM_FREE_LISTS_def MAX_FLI_def DIV_ROUND_UP_def kernel_consts

lemma XV_MAX_ALLOC_SIZE_val: "XV_MAX_ALLOC_SIZE = 4092"
  by (simp add: xv_consts)

lemma NUM_FREE_LISTS_val: "NUM_FREE_LISTS = 508"
  by (simp add: xv_consts)

lemma MAX_FLI_val: "MAX_FLI = 8"
  by (simp add: xv_consts)

lemmas xv_vals = XV_ALIGN_def XV_MIN_ALLOC_SIZE_def XV_MAX_ALLOC_SIZE_val NUM_FREE_LISTS_val
  MAX_FLI_val FL_DELTA_SHIFT_def FL_DELTA_def kernel_consts

section \<open>Memory\<close>

type_synonym page = nat
type_synonym loc = "page \<times> nat"

datatype blockflags = BLOCK_FREE | PREV_FREE

fun flag_nr :: "blockflags \<Rightarrow> nat" where
  "flag_nr BLOCK_FREE = 0"
| "flag_nr PREV_FREE = 1"

text \<open>\<open>struct block_header\<close>: the common header (\<open>size\<close>, \<open>prev\<close>) and the free-list links.\<close>

record block_header =
  bh_size :: nat
  bh_prev :: u16
  link_prev :: loc
  link_next :: loc

type_synonym heap = "loc \<Rightarrow> block_header"

record kmem =
  heap_of :: heap
  data_of :: "page \<Rightarrow> nat \<Rightarrow> u8"
  used_pages :: "page set"

text \<open>\<open>alloc_page\<close> returns a page that is not in use, or fails; \<open>__free_page\<close> gives it back.\<close>

type_synonym page_source = "kmem \<Rightarrow> page option"

definition fresh_page_source :: "page_source \<Rightarrow> bool" where
  "fresh_page_source alloc_page \<longleftrightarrow>
     (\<forall>m p. alloc_page m = Some p \<longrightarrow> p \<noteq> 0 \<and> p \<notin> used_pages m)"

definition free_page :: "page \<Rightarrow> kmem \<Rightarrow> kmem" where
  "free_page p m = m\<lparr>used_pages := used_pages m - {p}\<rparr>"

text \<open>\<open>struct xv_pool\<close> (the spinlock is not represented: calls run one at a time).\<close>

record xv_pool =
  flbitmap :: ulong
  slbitmap :: "ulong list"
  freelist :: "loc list"
  total_pages :: u64

section \<open>Headers\<close>

definition BIT :: "nat \<Rightarrow> u16" where
  "BIT n = push_bit n 1"

definition FLAGS_MASK :: u16 where "FLAGS_MASK = 3"
definition PREV_MASK :: u16 where "PREV_MASK = NOT FLAGS_MASK"

definition test_flag :: "block_header \<Rightarrow> blockflags \<Rightarrow> bool" where
  "test_flag block flag \<longleftrightarrow> bh_prev block AND BIT (flag_nr flag) \<noteq> 0"

definition set_flag :: "blockflags \<Rightarrow> block_header \<Rightarrow> block_header" where
  "set_flag flag block = block\<lparr>bh_prev := bh_prev block OR BIT (flag_nr flag)\<rparr>"

definition clear_flag :: "blockflags \<Rightarrow> block_header \<Rightarrow> block_header" where
  "clear_flag flag block = block\<lparr>bh_prev := bh_prev block AND NOT (BIT (flag_nr flag))\<rparr>"

definition get_blockprev :: "block_header \<Rightarrow> nat" where
  "get_blockprev block = unat (bh_prev block AND PREV_MASK)"

definition set_blockprev :: "nat \<Rightarrow> block_header \<Rightarrow> block_header" where
  "set_blockprev new_offset block =
     block\<lparr>bh_prev := word_of_nat new_offset OR (bh_prev block AND FLAGS_MASK)\<rparr>"

definition set_size :: "nat \<Rightarrow> block_header \<Rightarrow> block_header" where
  "set_size n block = block\<lparr>bh_size := trunc16 n\<rparr>"

text \<open>The header at a location, changed in place.\<close>

definition upd_block :: "loc \<Rightarrow> (block_header \<Rightarrow> block_header) \<Rightarrow> heap \<Rightarrow> heap" where
  "upd_block x f h = h(x := f (h x))"

text \<open>\<open>BLOCK_NEXT\<close>, as an offset in the same page.\<close>

definition BLOCK_NEXT :: "heap \<Rightarrow> page \<Rightarrow> nat \<Rightarrow> nat" where
  "BLOCK_NEXT h page off = off + bh_size (h (page, off)) + XV_ALIGN"

section \<open>Free-list indices\<close>

definition get_index_for_insert :: "nat \<Rightarrow> nat" where
  "get_index_for_insert sz =
     (let sz = (if sz > XV_MAX_ALLOC_SIZE then XV_MAX_ALLOC_SIZE else sz);
          sz = sz - sz mod FL_DELTA
      in sub32 sz XV_MIN_ALLOC_SIZE div FL_DELTA)"

definition get_index :: "nat \<Rightarrow> nat" where
  "get_index sz =
     (let sz = (if sz < XV_MIN_ALLOC_SIZE then XV_MIN_ALLOC_SIZE else sz);
          sz = ALIGN sz FL_DELTA
      in sub32 sz XV_MIN_ALLOC_SIZE div FL_DELTA)"

section \<open>Searching and maintaining the free lists\<close>

text \<open>\<open>__ffs\<close>: the least set bit; the word is not zero where the code calls it.\<close>

function ffs_from :: "ulong \<Rightarrow> nat \<Rightarrow> nat" where
  "ffs_from w n = (if n \<ge> 64 then 64 else if bit w n then n else ffs_from w (Suc n))"
  by pat_completeness auto
termination
  by (relation "measure (\<lambda>(w, n). 64 - n)") auto

declare ffs_from.simps [simp del]

definition ffs :: "ulong \<Rightarrow> nat" where
  "ffs w = ffs_from w 0"

text \<open>
  \<open>find_block\<close>: the index and the \<open>page\<close> and \<open>offset\<close> parameters, which it leaves alone when
  it finds nothing.
\<close>

definition find_block :: "xv_pool \<Rightarrow> nat \<Rightarrow> loc \<Rightarrow> nat \<times> loc" where
  "find_block pool sz l =
     (if flbitmap pool = 0 then (0, l)
      else
        let slindex = get_index sz;
            slbm = slbitmap pool ! (slindex div BITS_PER_LONG);
            slbitstart = slindex mod BITS_PER_LONG
        in if bit slbm slbitstart then (slindex, freelist pool ! slindex)
           else
             let slbitstart = slbitstart + 1;
                 slbm = drop_bit slbitstart slbm
             in if slbitstart \<noteq> BITS_PER_LONG \<and> slbm \<noteq> 0
                then let slindex = slindex + ffs slbm + 1 in (slindex, freelist pool ! slindex)
                else
                  let flindex = slindex div BITS_PER_LONG;
                      flbm = drop_bit (flindex + 1) (flbitmap pool)
                  in if flbm = 0 then (0, l)
                     else
                       let flindex = flindex + ffs flbm + 1;
                           slbm = slbitmap pool ! flindex;
                           slindex = flindex * BITS_PER_LONG + ffs slbm
                       in (slindex, freelist pool ! slindex))"

text \<open>The link fields are written through the pointer \<open>block\<close>, the list gets \<open><page, offset>\<close>.\<close>

definition insert_block ::
  "loc \<Rightarrow> loc \<Rightarrow> xv_pool \<times> heap \<Rightarrow> xv_pool \<times> heap" where
  "insert_block = (\<lambda>(page, offset) block (pool, h).
     (let slindex = get_index_for_insert (bh_size (h block));
          flindex = slindex div BITS_PER_LONG;
          next = freelist pool ! slindex;
          h = upd_block block (\<lambda>b. b\<lparr>link_prev := (0, 0), link_next := next\<rparr>) h;
          pool = pool\<lparr>freelist := (freelist pool)[slindex := (page, trunc16 offset)]\<rparr>;
          h = (if fst next \<noteq> 0
               then upd_block next (\<lambda>b. b\<lparr>link_prev := (page, trunc16 offset)\<rparr>) h else h);
          pool = pool\<lparr>slbitmap := (slbitmap pool)
                   [flindex := set_bit (slindex mod BITS_PER_LONG) (slbitmap pool ! flindex)]\<rparr>;
          pool = pool\<lparr>flbitmap := set_bit flindex (flbitmap pool)\<rparr>
      in (pool, h)))"

definition remove_block_head ::
  "loc \<Rightarrow> nat \<Rightarrow> xv_pool \<times> heap \<Rightarrow> xv_pool \<times> heap" where
  "remove_block_head x slindex = (\<lambda>(pool, h).
     (let flindex = slindex div BITS_PER_LONG;
          head = link_next (h x);
          pool = pool\<lparr>freelist := (freelist pool)[slindex := head]\<rparr>;
          h = upd_block x (\<lambda>b. b\<lparr>link_prev := (0, 0)\<rparr>) h
      in if fst head = 0
         then let pool = pool\<lparr>slbitmap := (slbitmap pool)
                    [flindex := unset_bit (slindex mod BITS_PER_LONG) (slbitmap pool ! flindex)]\<rparr>
              in (if slbitmap pool ! flindex = 0
                  then pool\<lparr>flbitmap := unset_bit flindex (flbitmap pool)\<rparr> else pool, h)
         else (pool, upd_block head (\<lambda>b. b\<lparr>link_prev := (0, 0)\<rparr>) h)))"

definition remove_block ::
  "loc \<Rightarrow> loc \<Rightarrow> nat \<Rightarrow> xv_pool \<times> heap \<Rightarrow> xv_pool \<times> heap" where
  "remove_block x block slindex = (\<lambda>(pool, h).
     (if freelist pool ! slindex = x then remove_block_head block slindex (pool, h)
      else
        let prev = link_prev (h block);
            h = (if fst prev \<noteq> 0
                 then upd_block prev (\<lambda>b. b\<lparr>link_next := link_next (h block)\<rparr>) h else h);
            next = link_next (h block);
            h = (if fst next \<noteq> 0
                 then upd_block next (\<lambda>b. b\<lparr>link_prev := link_prev (h block)\<rparr>) h else h)
        in (pool, h)))"

section \<open>The allocator's interface\<close>

definition ENOMEM :: int where "ENOMEM = 12"

definition grow_pool ::
  "page_source \<Rightarrow> xv_pool \<times> kmem \<Rightarrow> int \<times> xv_pool \<times> kmem" where
  "grow_pool alloc_page = (\<lambda>(pool, m).
     (case alloc_page m of
        None \<Rightarrow> (- ENOMEM, pool, m)
      | Some page \<Rightarrow>
          (let m = m\<lparr>used_pages := insert page (used_pages m)\<rparr>;
               pool = pool\<lparr>total_pages := total_pages pool + 1\<rparr>;
               h = upd_block (page, 0) (set_size (PAGE_SIZE - XV_ALIGN)) (heap_of m);
               h = upd_block (page, 0) (set_flag BLOCK_FREE) h;
               h = upd_block (page, 0) (clear_flag PREV_FREE) h;
               h = upd_block (page, 0) (set_blockprev 0) h;
               (pool, h) = insert_block (page, 0) (page, 0) (pool, h)
           in (0, pool, m\<lparr>heap_of := h\<rparr>))))"

text \<open>\<open>xv_create_pool\<close>: the zeroed pool, when \<open>kzalloc\<close> finds memory for it.\<close>

definition xv_create_pool :: "bool \<Rightarrow> xv_pool option" where
  "xv_create_pool kzalloc_ok =
     (if \<not> kzalloc_ok then None
      else Some \<lparr>flbitmap = 0, slbitmap = replicate MAX_FLI 0,
                 freelist = replicate NUM_FREE_LISTS (0, 0), total_pages = 0\<rparr>)"

text \<open>\<open>xv_destroy_pool\<close> gives the structure back; the pages of a pool are not its business.\<close>

definition xv_destroy_pool :: "xv_pool \<Rightarrow> xv_pool option" where
  "xv_destroy_pool pool = None"

text \<open>
  The second half of \<open>xv_malloc\<close>: the block at \<open>x = (page, offset)\<close>, found at \<open>index\<close>, leaves
  its free list, is split if it is larger than \<open>size\<close>, and is marked used.
\<close>

definition take_block ::
  "loc \<Rightarrow> nat \<Rightarrow> nat \<Rightarrow> nat \<Rightarrow> xv_pool \<times> heap \<Rightarrow> xv_pool \<times> heap" where
  "take_block x index sz origsize = (\<lambda>(pool, h).
     (let (page, offset) = x;
          (pool, h) = remove_block_head x index (pool, h);
          tmpoffset = offset + sz + XV_ALIGN;
          tmpsize = sub32 (bh_size (h x)) sz;
          tmp = (page, tmpoffset);
          (pool, h) =
            (if tmpsize \<noteq> 0
             then
               let h = upd_block tmp (set_size (sub32 tmpsize XV_ALIGN)) h;
                   h = upd_block tmp (set_flag BLOCK_FREE) h;
                   h = upd_block tmp (clear_flag PREV_FREE) h;
                   h = upd_block tmp (set_blockprev offset) h;
                   (pool, h) = (if bh_size (h tmp) \<ge> XV_MIN_ALLOC_SIZE
                                then insert_block tmp tmp (pool, h) else (pool, h))
               in (pool,
                   if tmpoffset + XV_ALIGN + bh_size (h tmp) \<noteq> PAGE_SIZE
                   then upd_block (page, BLOCK_NEXT h page tmpoffset) (set_blockprev tmpoffset) h
                   else h)
             else
               (pool, if tmpoffset \<noteq> PAGE_SIZE then upd_block tmp (clear_flag PREV_FREE) h else h));
          h = upd_block x (set_size origsize) h;
          h = upd_block x (clear_flag BLOCK_FREE) h
      in (pool, h)))"

text \<open>The result of \<open>xv_malloc\<close>: the return code and the values of \<open>*page\<close> and \<open>*offset\<close>.\<close>

definition xv_malloc ::
  "page_source \<Rightarrow> nat \<Rightarrow> xv_pool \<times> kmem \<Rightarrow> (int \<times> loc) \<times> xv_pool \<times> kmem" where
  "xv_malloc alloc_page size0 = (\<lambda>(pool, m).
     (if size0 = 0 \<or> size0 > XV_MAX_ALLOC_SIZE then ((- ENOMEM, (0, 0)), pool, m)
      else
        let sz = ALIGN size0 XV_ALIGN;
            (index, x) = find_block pool sz (0, 0);
            (error, pool, m) =
              (if fst x = 0 then grow_pool alloc_page (pool, m) else (0, pool, m))
        in if error \<noteq> 0 then ((error, x), pool, m)
           else
             let (index, x) = (if fst x = 0 then find_block pool sz x else (index, x))
             in if fst x = 0 then ((- ENOMEM, x), pool, m)
                else
                  let (pool, h) = take_block x index sz size0 (pool, heap_of m)
                  in ((0, (fst x, snd x + XV_ALIGN)), pool, m\<lparr>heap_of := h\<rparr>)))"

text \<open>
  \<open>xv_free\<close>.  \<open>None\<close> is the \<open>BUG_ON\<close>.  \<open>merge_next\<close> and \<open>merge_prev\<close> are its two coalescing
  blocks; the second returns \<open><page, offset>\<close> and the pointer of the merged block.
\<close>

definition merge_next :: "loc \<Rightarrow> xv_pool \<times> heap \<Rightarrow> xv_pool \<times> heap" where
  "merge_next = (\<lambda>(page, offset) (pool, h).
     (let tmpoff = BLOCK_NEXT h page offset; tmp = (page, tmpoff)
      in if offset + bh_size (h (page, offset)) + XV_ALIGN \<noteq> PAGE_SIZE \<and> test_flag (h tmp) BLOCK_FREE
         then
           let (pool, h) =
                 (if bh_size (h tmp) \<ge> XV_MIN_ALLOC_SIZE
                  then remove_block (page, offset + bh_size (h (page, offset)) + XV_ALIGN) tmp
                         (get_index_for_insert (bh_size (h tmp))) (pool, h)
                  else (pool, h))
           in (pool, upd_block (page, offset)
                 (set_size (bh_size (h (page, offset)) + bh_size (h tmp) + XV_ALIGN)) h)
         else (pool, h)))"

definition merge_prev :: "loc \<Rightarrow> xv_pool \<times> heap \<Rightarrow> loc \<times> loc \<times> xv_pool \<times> heap" where
  "merge_prev = (\<lambda>(page, offset) (pool, h).
     (let block = (page, offset)
      in if test_flag (h block) PREV_FREE
         then
           let tmp = (page, get_blockprev (h block));
               offset = sub32 (sub32 offset (bh_size (h tmp))) XV_ALIGN;
               (pool, h) =
                 (if bh_size (h tmp) \<ge> XV_MIN_ALLOC_SIZE
                  then remove_block (page, offset) tmp (get_index_for_insert (bh_size (h tmp)))
                         (pool, h)
                  else (pool, h));
               h = upd_block tmp (set_size (bh_size (h tmp) + bh_size (h block) + XV_ALIGN)) h
           in ((page, offset), tmp, pool, h)
         else ((page, offset), block, pool, h)))"

definition xv_free :: "loc \<Rightarrow> xv_pool \<times> kmem \<Rightarrow> (xv_pool \<times> kmem) option" where
  "xv_free = (\<lambda>(page, offset0) (pool, m).
     (let offset = sub32 offset0 XV_ALIGN; h = heap_of m
      in if test_flag (h (page, offset)) BLOCK_FREE then None
         else
           let h = upd_block (page, offset) (\<lambda>b. set_size (ALIGN (bh_size b) XV_ALIGN) b) h;
               (pool, h) = merge_next (page, offset) (pool, h);
               (x, block, pool, h) = merge_prev (page, offset) (pool, h)
           in if bh_size (h block) = PAGE_SIZE - XV_ALIGN
              then Some (pool\<lparr>total_pages := total_pages pool - 1\<rparr>,
                         free_page page (m\<lparr>heap_of := h\<rparr>))
              else
                let h = upd_block block (set_flag BLOCK_FREE) h;
                    (pool, h) = (if bh_size (h block) \<ge> XV_MIN_ALLOC_SIZE
                                 then insert_block x block (pool, h) else (pool, h));
                    h = (if snd x + bh_size (h block) + XV_ALIGN \<noteq> PAGE_SIZE
                         then let n = (page, BLOCK_NEXT h page (snd block))
                              in upd_block n (set_blockprev (snd x)) (upd_block n (set_flag PREV_FREE) h)
                         else h)
                in Some (pool, m\<lparr>heap_of := h\<rparr>)))"

definition xv_get_object_size :: "kmem \<Rightarrow> loc \<Rightarrow> nat" where
  "xv_get_object_size m = (\<lambda>(page, offset). bh_size (heap_of m (page, sub32 offset XV_ALIGN)))"

definition xv_get_total_size_bytes :: "xv_pool \<Rightarrow> u64" where
  "xv_get_total_size_bytes pool = push_bit PAGE_SHIFT (total_pages pool)"

end
