(* ===== verification/Xv_Blocks.thy ===== *)
theory Xv_Blocks
  imports Xvmalloc
begin

text \<open>
  The tiling of a page by blocks.  A page's layout is a list of cells, one per block in
  address order: its size rounded up to \<open>XV_ALIGN\<close> and whether it is free.  \<open>page_ok\<close> relates
  a layout to the headers in memory: sizes, the \<open>BLOCK_FREE\<close> and \<open>PREV_FREE\<close> flags and the
  back pointer of a block behind a free one all agree, no two free blocks are adjacent and
  the cells fill the page.
\<close>

named_theorems header_simps "reading a header after writing it"

section \<open>Header fields\<close>

lemma test_flag_bit: "test_flag b f \<longleftrightarrow> bit (bh_prev b) (flag_nr f)"
  by (simp add: test_flag_def BIT_def bit_iff_and_push_bit_not_eq_0)

lemma flag_nr_less: "flag_nr f < 2"
  by (cases f) simp_all

lemma flag_nr_inj: "flag_nr f = flag_nr g \<longleftrightarrow> f = g"
  by (cases f; cases g) simp_all

lemma FLAGS_MASK_mask: "FLAGS_MASK = mask 2"
  by (simp add: FLAGS_MASK_def mask_eq_exp_minus_1)

lemma test_flag_set_flag [header_simps]: "test_flag (set_flag g b) f \<longleftrightarrow> f = g \<or> test_flag b f"
  using flag_nr_less [of f]
  by (auto simp: test_flag_bit set_flag_def BIT_def bit_simps flag_nr_inj)

lemma test_flag_clear_flag [header_simps]:
  "test_flag (clear_flag g b) f \<longleftrightarrow> f \<noteq> g \<and> test_flag b f"
  using flag_nr_less [of f]
  by (auto simp: test_flag_bit clear_flag_def BIT_def bit_simps flag_nr_inj)

lemma get_blockprev_set_flag [header_simps]: "get_blockprev (set_flag g b) = get_blockprev b"
proof -
  have "(bh_prev b OR BIT (flag_nr g)) AND PREV_MASK = bh_prev b AND PREV_MASK"
    using flag_nr_less [of g]
    by (intro bit_word_eqI) (auto simp: PREV_MASK_def FLAGS_MASK_mask BIT_def bit_simps)
  then show ?thesis by (simp add: get_blockprev_def set_flag_def)
qed

lemma get_blockprev_clear_flag [header_simps]: "get_blockprev (clear_flag g b) = get_blockprev b"
proof -
  have "(bh_prev b AND NOT (BIT (flag_nr g))) AND PREV_MASK = bh_prev b AND PREV_MASK"
    using flag_nr_less [of g]
    by (intro bit_word_eqI) (auto simp: PREV_MASK_def FLAGS_MASK_mask BIT_def bit_simps)
  then show ?thesis by (simp add: get_blockprev_def clear_flag_def)
qed

lemma bit_word_of_nat_mult4:
  assumes "4 dvd n" and "k < 2"
  shows "\<not> bit (word_of_nat n :: u16) k"
proof -
  from assms(1) have "n = push_bit 2 (n div 4)"
    by (simp add: push_bit_eq_mult)
  with assms(2) have "\<not> bit n k"
    by (metis bit_push_bit_iff_nat not_le)
  then show ?thesis by (simp add: bit_simps)
qed

lemma test_flag_set_blockprev [header_simps]:
  "4 dvd off \<Longrightarrow> test_flag (set_blockprev off b) f = test_flag b f"
  using flag_nr_less [of f] bit_word_of_nat_mult4 [of off "flag_nr f"]
  by (auto simp: test_flag_bit set_blockprev_def FLAGS_MASK_mask bit_or_iff bit_and_iff bit_mask_iff)

lemma get_blockprev_set_blockprev [header_simps]:
  assumes "4 dvd off" and "off < 65536"
  shows "get_blockprev (set_blockprev off b) = off"
proof -
  have "(word_of_nat off OR (bh_prev b AND FLAGS_MASK)) AND PREV_MASK = (word_of_nat off :: u16)"
    using bit_word_of_nat_mult4 [OF assms(1)]
    by (intro bit_word_eqI)
      (auto simp: PREV_MASK_def FLAGS_MASK_mask bit_or_iff bit_and_iff bit_not_iff bit_mask_iff)
  then have "get_blockprev (set_blockprev off b) = unat (word_of_nat off :: u16)"
    by (simp add: get_blockprev_def set_blockprev_def)
  with assms(2) show ?thesis by (simp add: unat_of_nat)
qed

lemma header_sizes [header_simps]:
  "bh_size (set_flag f b) = bh_size b" "bh_size (clear_flag f b) = bh_size b"
  "bh_size (set_blockprev off b) = bh_size b" "bh_size (set_size n b) = trunc16 n"
  by (simp_all add: set_flag_def clear_flag_def set_blockprev_def set_size_def)

lemma header_links [header_simps]:
  "link_prev (set_flag f b) = link_prev b" "link_next (set_flag f b) = link_next b"
  "link_prev (clear_flag f b) = link_prev b" "link_next (clear_flag f b) = link_next b"
  "link_prev (set_blockprev off b) = link_prev b" "link_next (set_blockprev off b) = link_next b"
  "link_prev (set_size n b) = link_prev b" "link_next (set_size n b) = link_next b"
  by (simp_all add: set_flag_def clear_flag_def set_blockprev_def set_size_def)

lemma set_size_flags [header_simps]:
  "test_flag (set_size n b) f = test_flag b f" "get_blockprev (set_size n b) = get_blockprev b"
  by (simp_all add: test_flag_def get_blockprev_def set_size_def)

lemma upd_block_apply [header_simps]: "upd_block x f h y = (if y = x then f (h x) else h y)"
  by (simp add: upd_block_def)

section \<open>Layouts\<close>

type_synonym cell = "nat \<times> bool"

fun span :: "cell list \<Rightarrow> nat" where
  "span [] = 0"
| "span ((s, f) # cs) = s + 4 + span cs"

text \<open>What is known of the block before an offset: whether it is free, and where it starts.\<close>

type_synonym before = "bool \<times> nat"

definition cell_ok :: "block_header \<Rightarrow> before \<Rightarrow> nat \<Rightarrow> bool \<Rightarrow> bool" where
  "cell_ok b pf s f \<longleftrightarrow>
     ALIGN (bh_size b) 4 = s \<and> (f \<longrightarrow> bh_size b = s) \<and> (\<not> f \<longrightarrow> 0 < bh_size b)
     \<and> test_flag b BLOCK_FREE = f \<and> test_flag b PREV_FREE = fst pf
     \<and> (fst pf \<longrightarrow> \<not> f \<and> get_blockprev b = snd pf)"

fun seg :: "heap \<Rightarrow> page \<Rightarrow> nat \<Rightarrow> before \<Rightarrow> cell list \<Rightarrow> bool" where
  "seg h p off pf [] \<longleftrightarrow> True"
| "seg h p off pf ((s, f) # cs) \<longleftrightarrow>
     cell_ok (h (p, off)) pf s f \<and> seg h p (off + s + 4) (f, off) cs"

fun end_pf :: "nat \<Rightarrow> before \<Rightarrow> cell list \<Rightarrow> before" where
  "end_pf off pf [] = pf"
| "end_pf off pf ((s, f) # cs) = end_pf (off + s + 4) (f, off) cs"

definition page_ok :: "heap \<Rightarrow> page \<Rightarrow> cell list \<Rightarrow> bool" where
  "page_ok h p cs \<longleftrightarrow> seg h p 0 (False, 0) cs \<and> span cs = PAGE_SIZE"

lemma span_append [simp]: "span (as @ bs) = span as + span bs"
  by (induction as rule: span.induct) auto

lemma seg_append:
  "seg h p off pf (as @ bs) \<longleftrightarrow>
     seg h p off pf as \<and> seg h p (off + span as) (end_pf off pf as) bs"
  by (induction as arbitrary: off pf rule: span.induct) (auto simp: add_ac)

lemma end_pf_append: "end_pf off pf (as @ bs) = end_pf (off + span as) (end_pf off pf as) bs"
  by (induction as arbitrary: off pf rule: span.induct) (auto simp: add_ac)

text \<open>Two heaps agree on the common headers of a part of a page.\<close>

definition same_headers :: "heap \<Rightarrow> heap \<Rightarrow> page \<Rightarrow> nat \<Rightarrow> nat \<Rightarrow> bool" where
  "same_headers h h' p lo hi \<longleftrightarrow>
     (\<forall>o'. lo \<le> o' \<and> o' < hi \<longrightarrow>
        bh_size (h' (p, o')) = bh_size (h (p, o')) \<and> bh_prev (h' (p, o')) = bh_prev (h (p, o')))"

lemma cell_ok_cong:
  "bh_size b' = bh_size b \<Longrightarrow> bh_prev b' = bh_prev b \<Longrightarrow> cell_ok b' pf s f = cell_ok b pf s f"
  by (simp add: cell_ok_def test_flag_def get_blockprev_def)

lemma seg_frame:
  "same_headers h h' p off (off + span cs) \<Longrightarrow> seg h' p off pf cs = seg h p off pf cs"
proof (induction cs arbitrary: off pf rule: span.induct)
  case 1
  then show ?case by simp
next
  case (2 s f cs)
  have "same_headers h h' p (off + s + 4) (off + s + 4 + span cs)"
    using "2.prems" by (auto simp: same_headers_def)
  moreover have "cell_ok (h' (p, off)) pf s f = cell_ok (h (p, off)) pf s f"
    using "2.prems" by (intro cell_ok_cong) (auto simp: same_headers_def)
  ultimately show ?case using "2.IH" by simp
qed

lemma seg_dvd: "seg h p off pf cs \<Longrightarrow> 4 dvd span cs"
  by (induction cs arbitrary: off pf rule: span.induct)
    (auto simp: cell_ok_def intro!: dvd_add ALIGN_dvd)

lemma end_pf_bound: "cs \<noteq> [] \<Longrightarrow> snd (end_pf off pf cs) < off + span cs"
proof (induction cs arbitrary: off pf rule: span.induct)
  case 1
  then show ?case by simp
next
  case (2 s f cs)
  show ?case
    using "2.IH" [of "off + s + 4" "(f, off)"] by (cases "cs = []") simp_all
qed

lemma end_pf_nonempty: "cs \<noteq> [] \<Longrightarrow> end_pf off pf cs = (snd (last cs), off + span (butlast cs))"
proof (induction cs arbitrary: off pf rule: span.induct)
  case 1
  then show ?case by simp
next
  case (2 s f cs)
  then show ?case by (cases "cs = []") (auto simp: add_ac)
qed

section \<open>The blocks of a layout\<close>

fun cells_at :: "nat \<Rightarrow> cell list \<Rightarrow> (nat \<times> nat \<times> bool) set" where
  "cells_at off [] = {}"
| "cells_at off ((s, f) # cs) = insert (off, s, f) (cells_at (off + s + 4) cs)"

lemma cells_at_append: "cells_at off (as @ bs) = cells_at off as \<union> cells_at (off + span as) bs"
  by (induction as arbitrary: off rule: span.induct) (auto simp: add_ac)

lemma cells_at_range: "(o', s, f) \<in> cells_at off cs \<Longrightarrow> off \<le> o' \<and> o' + s + 4 \<le> off + span cs"
  by (induction cs arbitrary: off rule: span.induct) fastforce+

lemma cells_at_split:
  "(o', s, f) \<in> cells_at off cs \<Longrightarrow> \<exists>as bs. cs = as @ (s, f) # bs \<and> o' = off + span as"
proof (induction cs arbitrary: off rule: span.induct)
  case 1
  then show ?case by simp
next
  case (2 s' f' cs)
  from "2.prems" consider "o' = off" "s = s'" "f = f'" | "(o', s, f) \<in> cells_at (off + s' + 4) cs"
    by auto
  then show ?case
  proof cases
    case 1
    then show ?thesis by (intro exI [of _ "[]"] exI [of _ cs]) simp
  next
    case 2
    then obtain as bs where "cs = as @ (s, f) # bs" "o' = off + s' + 4 + span as"
      using "2.IH" by blast
    then show ?thesis
      by (intro exI [of _ "(s', f') # as"] exI [of _ bs]) simp
  qed
qed

lemma cells_at_mid: "(off + span as, s, f) \<in> cells_at off (as @ (s, f) # bs)"
  by (simp add: cells_at_append)

text \<open>Blocks of one page do not overlap.\<close>

lemma cells_at_disjoint:
  "(o1, s1, f1) \<in> cells_at off cs \<Longrightarrow> (o2, s2, f2) \<in> cells_at off cs \<Longrightarrow>
     (o1 = o2 \<and> s1 = s2 \<and> f1 = f2) \<or> o1 + s1 + 4 \<le> o2 \<or> o2 + s2 + 4 \<le> o1"
proof (induction cs arbitrary: off rule: span.induct)
  case 1
  then show ?case by simp
next
  case (2 s f cs)
  from "2.prems" show ?case
    by (auto dest: cells_at_range "2.IH")
qed

lemma seg_cell: "seg h p off pf (as @ (s, f) # bs) \<Longrightarrow> cell_ok (h (p, off + span as)) (end_pf off pf as) s f"
  by (simp add: seg_append)

end
