(* ===== verification/Dll.thy ===== *)
theory Dll
  imports Main
begin

text \<open>
  Doubly linked lists in a memory, for the allocators' free lists: \<open>nx\<close> and \<open>pv\<close> read the two links of a
  node, \<open>nil\<close> recognises the null pointer.  \<open>dll nil nx pv x0 p xs\<close>: from \<open>x0\<close>, whose predecessor is \<open>p\<close>, the
  links run through the nodes \<open>xs\<close>.
\<close>

fun dll :: "('a \<Rightarrow> bool) \<Rightarrow> ('a \<Rightarrow> 'a) \<Rightarrow> ('a \<Rightarrow> 'a) \<Rightarrow> 'a \<Rightarrow> 'a \<Rightarrow> 'a list \<Rightarrow> bool" where
  "dll nil nx pv x0 p [] \<longleftrightarrow> nil x0"
| "dll nil nx pv x0 p (x # xs) \<longleftrightarrow> x0 = x \<and> \<not> nil x \<and> pv x = p \<and> dll nil nx pv (nx x) x xs"

lemma dll_cong:
  "(\<And>x. x \<in> set xs \<Longrightarrow> nx' x = nx x) \<Longrightarrow> (\<And>x. x \<in> set xs \<Longrightarrow> pv' x = pv x) \<Longrightarrow>
     dll nil nx' pv' x0 p xs = dll nil nx pv x0 p xs"
  by (induction xs arbitrary: x0 p) auto

lemma dll_Nil_iff: "dll nil nx pv x0 p xs \<Longrightarrow> xs = [] \<longleftrightarrow> nil x0"
  by (cases xs) auto

lemma dll_hd: "dll nil nx pv x0 p xs \<Longrightarrow> \<not> nil x0 \<Longrightarrow> x0 \<in> set xs"
  by (cases xs) auto

lemma dll_not_nil: "dll nil nx pv x0 p xs \<Longrightarrow> x \<in> set xs \<Longrightarrow> \<not> nil x"
  by (induction xs arbitrary: x0 p) auto

lemma dll_mid_next: "dll nil nx pv x0 p (as @ x # bs) \<Longrightarrow> dll nil nx pv (nx x) x bs"
  by (induction as arbitrary: x0 p) auto

lemma dll_mid_prev: "dll nil nx pv x0 p (as @ x # bs) \<Longrightarrow> pv x = (if as = [] then p else last as)"
  by (induction as arbitrary: x0 p) auto

text \<open>A new first node, and a node taken out.\<close>

lemma dll_push:
  assumes "dll nil nx pv x0 q xs" and "distinct xs" and "x \<notin> set xs" and "\<not> nil x"
    and "\<And>y. y \<in> set (x # xs) \<Longrightarrow> nx' y = (if y = x then x0 else nx y)"
    and "\<And>y. y \<in> set (x # xs) \<Longrightarrow> pv' y = (if y = x then p else if y = x0 then x else pv y)"
  shows "dll nil nx' pv' x p (x # xs)"
proof (cases xs)
  case Nil
  with assms show ?thesis by simp
next
  case (Cons y ys)
  then have y: "x0 = y" "\<not> nil y" "dll nil nx pv (nx y) y ys" "y \<notin> set ys" "x \<noteq> y" "x \<notin> set ys"
    using assms(1-3) by auto
  have "dll nil nx' pv' (nx y) y ys = dll nil nx pv (nx y) y ys"
    using assms(5,6) y Cons by (intro dll_cong) auto
  with y Cons assms(4-6) show ?thesis by auto
qed

lemma dll_take_out:
  assumes "dll nil nx pv x0 p (as @ x # bs)" and "distinct (as @ x # bs)"
    and "\<And>y. y \<in> set (as @ bs) \<Longrightarrow> nx' y = (if as \<noteq> [] \<and> y = last as then nx x else nx y)"
    and "\<And>y. y \<in> set (as @ bs) \<Longrightarrow> pv' y = (if y = nx x then pv x else pv y)"
  shows "dll nil nx' pv' (if as = [] then nx x else x0) p (as @ bs)"
  using assms
proof (induction as arbitrary: x0 p)
  case Nil
  then have x: "x0 = x" "pv x = p" "dll nil nx pv (nx x) x bs" by auto
  show ?case
  proof (cases bs)
    case Nil
    with x show ?thesis by simp
  next
    case (Cons b bs')
    with x Nil.prems(2) have b: "nx x = b" "\<not> nil b" "dll nil nx pv (nx b) b bs'" "b \<notin> set bs'" by auto
    have "dll nil nx' pv' (nx b) b bs' = dll nil nx pv (nx b) b bs'"
      using Nil.prems(3,4) Cons b by (intro dll_cong) auto
    with b x Cons Nil.prems(3,4) show ?thesis by simp
  qed
next
  case (Cons a as)
  then have a: "x0 = a" "\<not> nil a" "pv a = p" "dll nil nx pv (nx a) a (as @ x # bs)" by auto
  have "nx x \<noteq> a"
  proof
    assume "nx x = a"
    moreover have "dll nil nx pv (nx x) x bs" using dll_mid_next [OF a(4)] .
    ultimately have "a \<in> set bs" using a(2) dll_hd by metis
    with Cons.prems(2) show False by simp
  qed
  then have pa: "pv' a = p" using Cons.prems(4) [of a] a(3) by simp
  have na: "nx' a = (if as = [] then nx x else nx a)"
    using Cons.prems(2,3) by (cases "as = []") auto
  have "dll nil nx' pv' (if as = [] then nx x else nx a) a (as @ bs)"
  proof (rule Cons.IH [OF a(4)])
    show "nx' y = (if as \<noteq> [] \<and> y = last as then nx x else nx y)" if "y \<in> set (as @ bs)" for y
    proof (cases "as = []")
      case True
      then have "y \<noteq> a" using that Cons.prems(2) by auto
      with True that Cons.prems(3) [of y] show ?thesis by simp
    next
      case False
      with that Cons.prems(3) [of y] show ?thesis by simp
    qed
  qed (use Cons.prems in auto)
  with a pa na show ?case by simp
qed

end
