(* ===== verification/Xv_Freelist.thy ===== *)
theory Xv_Freelist
  imports Xv_Blocks Dll
begin

text \<open>
  The segregated free lists: doubly linked lists threaded through the free blocks, their
  heads in \<open>freelist\<close>, and the two-level bitmap over them.  \<open>fl_inv pool h S\<close> says that
  list \<open>i\<close> holds exactly the blocks \<open>S i\<close> and that the bitmaps mark exactly the nonempty
  lists; inserting, removing and searching are verified against the sets.
\<close>

section \<open>Doubly linked lists in the heap\<close>

abbreviation ldll :: "heap \<Rightarrow> loc \<Rightarrow> loc \<Rightarrow> loc list \<Rightarrow> bool" where
  "ldll h \<equiv> dll (\<lambda>x. fst x = 0) (\<lambda>x. link_next (h x)) (\<lambda>x. link_prev (h x))"

definition same_links :: "heap \<Rightarrow> heap \<Rightarrow> loc set \<Rightarrow> bool" where
  "same_links h h' A \<longleftrightarrow>
     (\<forall>x\<in>A. link_prev (h' x) = link_prev (h x) \<and> link_next (h' x) = link_next (h x))"

definition same_hdrs :: "heap \<Rightarrow> heap \<Rightarrow> bool" where
  "same_hdrs h h' \<longleftrightarrow> (\<forall>x. bh_size (h' x) = bh_size (h x) \<and> bh_prev (h' x) = bh_prev (h x))"

lemma same_hdrs_refl [simp]: "same_hdrs h h"
  by (simp add: same_hdrs_def)

lemma same_hdrs_trans: "same_hdrs h h' \<Longrightarrow> same_hdrs h' h'' \<Longrightarrow> same_hdrs h h''"
  by (simp add: same_hdrs_def)

lemma same_hdrs_links:
  "(\<And>b. bh_size (f b) = bh_size b) \<Longrightarrow> (\<And>b. bh_prev (f b) = bh_prev b) \<Longrightarrow> same_hdrs h (upd_block x f h)"
  by (simp add: same_hdrs_def header_simps)

lemma same_hdrs_same_headers: "same_hdrs h h' \<Longrightarrow> same_headers h h' p lo hi"
  by (simp add: same_hdrs_def same_headers_def)

lemma ldll_frame: "same_links h h' (set xs) \<Longrightarrow> ldll h' x0 pv xs = ldll h x0 pv xs"
  by (rule dll_cong) (simp_all add: same_links_def)

lemma ldll_insert:
  assumes "ldll h x0 (0, 0) xs" and "distinct xs" and "x \<notin> set xs" and "fst x \<noteq> 0"
    and "h1 = upd_block x (\<lambda>b. b\<lparr>link_prev := (0, 0), link_next := x0\<rparr>) h"
    and "h2 = (if fst x0 \<noteq> 0 then upd_block x0 (\<lambda>b. b\<lparr>link_prev := x\<rparr>) h1 else h1)"
  shows "ldll h2 x (0, 0) (x # xs)"
proof (rule dll_push [OF assms(1-4)])
  have "x0 \<noteq> x" using assms(3,4) dll_hd [OF assms(1)] by auto
  moreover have "fst x0 = 0 \<Longrightarrow> x0 \<notin> set (x # xs)"
    using assms(4) dll_not_nil [OF assms(1), of x0] by auto
  ultimately show "link_next (h2 y) = (if y = x then x0 else link_next (h y))"
    "link_prev (h2 y) = (if y = x then (0, 0) else if y = x0 then x else link_prev (h y))"
    if "y \<in> set (x # xs)" for y
    using that assms(5,6) by (auto simp: header_simps)
qed

lemma ldll_remove_head:
  assumes "ldll h x (0, 0) (x # xs)" and "distinct (x # xs)"
    and "h1 = upd_block x (\<lambda>b. b\<lparr>link_prev := (0, 0)\<rparr>) h"
    and "h2 = (if fst (link_next (h x)) \<noteq> 0
               then upd_block (link_next (h x)) (\<lambda>b. b\<lparr>link_prev := (0, 0)\<rparr>) h1 else h1)"
  shows "ldll h2 (link_next (h x)) (0, 0) xs"
proof -
  have x: "link_prev (h x) = (0, 0)" "x \<notin> set xs" "fst (link_next (h x)) = 0 \<Longrightarrow> link_next (h x) \<notin> set xs"
    using assms(1,2) dll_not_nil [OF assms(1), of "link_next (h x)"] by auto
  have d: "ldll h x (0, 0) ([] @ x # xs)" "distinct ([] @ x # xs)" using assms(1,2) by simp_all
  have "ldll h2 (if [] = ([] :: loc list) then link_next (h x) else x) (0, 0) ([] @ xs)"
    by (rule dll_take_out [OF d]) (use assms(3,4) x in \<open>auto simp: header_simps\<close>)
  then show ?thesis by simp
qed

definition unlink :: "loc \<Rightarrow> heap \<Rightarrow> heap" where
  "unlink x h =
     (let h1 = (if fst (link_prev (h x)) \<noteq> 0
                then upd_block (link_prev (h x)) (\<lambda>b. b\<lparr>link_next := link_next (h x)\<rparr>) h else h)
      in if fst (link_next (h1 x)) \<noteq> 0
         then upd_block (link_next (h1 x)) (\<lambda>b. b\<lparr>link_prev := link_prev (h1 x)\<rparr>) h1 else h1)"

lemma ldll_prev_of_mid:
  assumes "ldll h x0 pv (as @ x # bs)" and "as \<noteq> []"
  shows "link_prev (h x) = last as \<and> fst (last as) \<noteq> 0"
  using assms dll_mid_prev [OF assms(1)] dll_not_nil [OF assms(1), of "last as"] by simp

lemma ldll_unlink:
  assumes "ldll h x0 pv (as @ x # bs)" and "as \<noteq> []" and "distinct (as @ x # bs)"
  shows "ldll (unlink x h) x0 pv (as @ bs)"
proof -
  let ?a = "last as" and ?n = "link_next (h x)"
  note prev = ldll_prev_of_mid [OF assms(1,2)] and tail = dll_mid_next [OF assms(1)]
  have a: "?a \<in> set as" "x \<notin> set as" "x \<notin> set bs" "set as \<inter> set bs = {}" using assms(2,3) by auto
  have n: "fst ?n = 0 \<Longrightarrow> ?n \<notin> set (as @ bs)" "fst ?n \<noteq> 0 \<Longrightarrow> ?n \<in> set bs"
    using dll_not_nil [OF assms(1), of ?n] dll_hd [OF tail] by auto
  then have ne: "?n \<noteq> x" "?n \<noteq> ?a" "?a \<noteq> x" using a prev dll_not_nil [OF assms(1), of x] by auto
  have "ldll (unlink x h) (if as = [] then ?n else x0) pv (as @ bs)"
    by (rule dll_take_out [OF assms(1,3)])
      (use prev n ne a in \<open>auto simp: unlink_def Let_def header_simps\<close>)
  with assms(2) show ?thesis by simp
qed


section \<open>The bitmaps\<close>

lemma ffs_from_spec:
  "\<exists>k\<ge>n. k < 64 \<and> bit w k \<Longrightarrow>
     n \<le> ffs_from w n \<and> ffs_from w n < 64 \<and> bit w (ffs_from w n)
     \<and> (\<forall>k. n \<le> k \<and> k < ffs_from w n \<longrightarrow> \<not> bit w k)"
proof (induction w n rule: ffs_from.induct)
  case (1 w n)
  show ?case
  proof (cases "n \<ge> 64 \<or> bit w n")
    case True
    with "1.prems" show ?thesis by (auto simp: ffs_from.simps [of w n])
  next
    case False
    with "1.prems" have "\<exists>k\<ge>Suc n. k < 64 \<and> bit w k"
      by (metis le_antisym not_less_eq_eq)
    with "1.IH" False have "Suc n \<le> ffs_from w (Suc n) \<and> ffs_from w (Suc n) < 64
        \<and> bit w (ffs_from w (Suc n)) \<and> (\<forall>k. Suc n \<le> k \<and> k < ffs_from w (Suc n) \<longrightarrow> \<not> bit w k)"
      by simp
    with False show ?thesis
      by (simp add: ffs_from.simps [of w n]) (metis Suc_leI le_neq_implies_less Suc_leD)
  qed
qed

lemma word_nonzero_bit: "(w :: ulong) \<noteq> 0 \<Longrightarrow> \<exists>k<64. bit w k"
  using bit_word_eqI [of w 0] by auto

lemma ffs_bit:
  assumes "w \<noteq> 0"
  shows "bit w (ffs w)" and "ffs w < 64" and "k < ffs w \<Longrightarrow> \<not> bit w k"
  using ffs_from_spec [of 0 w] word_nonzero_bit [OF assms] by (auto simp: ffs_def)

text \<open>Bit \<open>i mod 64\<close> of second-level word \<open>i div 64\<close> marks list \<open>i\<close>.\<close>

definition bitmaps_ok :: "xv_pool \<Rightarrow> (nat \<Rightarrow> bool) \<Rightarrow> bool" where
  "bitmaps_ok pool P \<longleftrightarrow>
     length (slbitmap pool) = 8
     \<and> (\<forall>j<8. \<forall>k<64. bit (slbitmap pool ! j) k \<longleftrightarrow> P (64 * j + k))
     \<and> (\<forall>j. bit (flbitmap pool) j \<longleftrightarrow> j < 8 \<and> slbitmap pool ! j \<noteq> 0)"

lemma bitmaps_ok_bit:
  assumes "bitmaps_ok pool P" and "i < 512"
  shows "bit (slbitmap pool ! (i div 64)) (i mod 64) \<longleftrightarrow> P i"
proof -
  have "i div 64 < 8" using assms(2) by (simp add: less_mult_imp_div_less)
  moreover have "64 * (i div 64) + i mod 64 = i" by simp
  ultimately show ?thesis
    using assms(1) unfolding bitmaps_ok_def by (metis mod_less_divisor zero_less_numeral)
qed

lemma bitmaps_ok_set:
  assumes ok: "bitmaps_ok pool P" and i: "i < 512"
    and pool': "slbitmap pool' = (slbitmap pool)[i div 64 := set_bit (i mod 64) (slbitmap pool ! (i div 64))]"
      "flbitmap pool' = set_bit (i div 64) (flbitmap pool)"
  shows "bitmaps_ok pool' (P(i := True))"
proof -
  let ?j = "i div 64"
  have j: "?j < 8" using i by (simp add: less_mult_imp_div_less)
  have len: "length (slbitmap pool) = 8" using ok by (simp add: bitmaps_ok_def)
  have sl: "bit (slbitmap pool' ! j) k \<longleftrightarrow> (P(i := True)) (64 * j + k)" if "j < 8" "k < 64" for j k
  proof -
    have "64 * j + k = i \<longleftrightarrow> j = ?j \<and> k = i mod 64" using that(2) by auto
    with that ok i len show ?thesis
      unfolding pool' bitmaps_ok_def by (auto simp: nth_list_update bit_set_bit_iff)
  qed
  have "slbitmap pool' ! ?j \<noteq> 0"
  proof
    assume "slbitmap pool' ! ?j = 0"
    then have "\<not> bit (slbitmap pool' ! ?j) (i mod 64)" by simp
    then show False using sl [of ?j "i mod 64"] j by simp
  qed
  then have fl: "bit (flbitmap pool') j \<longleftrightarrow> j < 8 \<and> slbitmap pool' ! j \<noteq> 0" for j
    using ok j len unfolding bitmaps_ok_def
    by (cases "j = ?j") (auto simp: pool' bit_set_bit_iff nth_list_update)
  show ?thesis
    using sl fl len by (simp add: bitmaps_ok_def pool')
qed

lemma bitmaps_ok_unset:
  assumes ok: "bitmaps_ok pool P" and i: "i < 512"
    and pool': "slbitmap pool' = (slbitmap pool)[i div 64 := unset_bit (i mod 64) (slbitmap pool ! (i div 64))]"
      "flbitmap pool' = (if slbitmap pool' ! (i div 64) = 0
                         then unset_bit (i div 64) (flbitmap pool) else flbitmap pool)"
  shows "bitmaps_ok pool' (P(i := False))"
proof -
  let ?j = "i div 64"
  have j: "?j < 8" using i by (simp add: less_mult_imp_div_less)
  have len: "length (slbitmap pool) = 8" using ok by (simp add: bitmaps_ok_def)
  have sl: "bit (slbitmap pool' ! j) k \<longleftrightarrow> (P(i := False)) (64 * j + k)" if "j < 8" "k < 64" for j k
  proof -
    have "64 * j + k = i \<longleftrightarrow> j = ?j \<and> k = i mod 64" using that(2) by auto
    with that ok i len show ?thesis
      unfolding pool' bitmaps_ok_def by (auto simp: nth_list_update bit_unset_bit_iff)
  qed
  have old: "slbitmap pool ! ?j \<noteq> 0" if "slbitmap pool' ! ?j \<noteq> 0"
    using that len j by (auto simp: pool')
  have fl: "bit (flbitmap pool') j \<longleftrightarrow> j < 8 \<and> slbitmap pool' ! j \<noteq> 0" for j
    using ok j len old unfolding bitmaps_ok_def
    by (cases "j = ?j") (auto simp: pool'(2) bit_unset_bit_iff nth_list_update pool'(1))
  show ?thesis
    using sl fl len by (simp add: bitmaps_ok_def pool')
qed


section \<open>The free-list invariant\<close>

definition list_ok :: "heap \<Rightarrow> loc \<Rightarrow> loc set \<Rightarrow> bool" where
  "list_ok h x0 A \<longleftrightarrow> (\<exists>xs. ldll h x0 (0, 0) xs \<and> distinct xs \<and> set xs = A)"

definition fl_inv :: "xv_pool \<Rightarrow> heap \<Rightarrow> (nat \<Rightarrow> loc set) \<Rightarrow> bool" where
  "fl_inv pool h S \<longleftrightarrow>
     length (freelist pool) = 508
     \<and> bitmaps_ok pool (\<lambda>i. i < 508 \<and> S i \<noteq> {})
     \<and> (\<forall>i j. i \<noteq> j \<longrightarrow> S i \<inter> S j = {})
     \<and> (\<forall>i<508. list_ok h (freelist pool ! i) (S i))"

lemma list_ok_frame: "same_links h h' A \<Longrightarrow> list_ok h x0 A \<Longrightarrow> list_ok h' x0 A"
  unfolding list_ok_def using ldll_frame by blast

lemma list_ok_empty: "list_ok h x0 A \<Longrightarrow> A = {} \<longleftrightarrow> fst x0 = 0"
  by (auto simp: list_ok_def dest: dll_Nil_iff)

lemma list_ok_head: "list_ok h x0 A \<Longrightarrow> A \<noteq> {} \<Longrightarrow> x0 \<in> A \<and> fst x0 \<noteq> 0"
  using list_ok_empty [of h x0 A] by (auto simp: list_ok_def dest: dll_hd)

lemma list_ok_nonnull: "list_ok h x0 A \<Longrightarrow> x \<in> A \<Longrightarrow> fst x \<noteq> 0"
  by (auto simp: list_ok_def dest: dll_not_nil)

lemma fl_inv_headers:
  assumes "fl_inv pool h S" and "\<And>x. link_prev (h' x) = link_prev (h x)"
    and "\<And>x. link_next (h' x) = link_next (h x)"
  shows "fl_inv pool h' S"
  using assms list_ok_frame [of h h'] by (auto simp: fl_inv_def same_links_def)

text \<open>Changing list \<open>i\<close> only: what the other lists need.\<close>

lemma fl_inv_update:
  assumes inv: "fl_inv pool h S" and i: "i < 508"
    and links: "same_links h h' (- B)" and B: "\<And>j. j \<noteq> i \<Longrightarrow> B \<inter> S j = {}"
    and fl: "freelist pool' = (freelist pool)[i := x0']" and new: "list_ok h' x0' A'"
    and A': "\<And>j. j \<noteq> i \<Longrightarrow> A' \<inter> S j = {}"
    and bm: "bitmaps_ok pool' ((\<lambda>i. i < 508 \<and> S i \<noteq> {})(i := (A' \<noteq> {})))"
  shows "fl_inv pool' h' (S(i := A'))"
proof -
  have "((\<lambda>i. i < 508 \<and> S i \<noteq> {})(i := (A' \<noteq> {}))) = (\<lambda>k. k < 508 \<and> (S(i := A')) k \<noteq> {})"
    using i by (auto simp: fun_eq_iff)
  moreover have "list_ok h' (freelist pool' ! j) ((S(i := A')) j)" if "j < 508" for j
  proof (cases "j = i")
    case True
    with inv new fl i show ?thesis by (simp add: fl_inv_def)
  next
    case False
    then have "same_links h h' (S j)"
      using links B [OF False] by (auto simp: same_links_def)
    with False inv fl that show ?thesis
      by (auto simp: fl_inv_def intro: list_ok_frame)
  qed
  ultimately show ?thesis
    using inv fl bm A' by (auto simp: fl_inv_def)
qed

lemma insert_block_inv:
  assumes inv: "fl_inv pool h S" and ins: "insert_block x x (pool, h) = (pool', h')"
    and i: "i = get_index_for_insert (bh_size (h x))" "i < 508"
    and x: "\<And>j. x \<notin> S j" "fst x \<noteq> 0" "snd x < 65536"
  shows "fl_inv pool' h' (S(i := insert x (S i))) \<and> same_hdrs h h'
    \<and> total_pages pool' = total_pages pool"
proof -
  let ?x0 = "freelist pool ! i"
  define h1 where "h1 = upd_block x (\<lambda>b. b\<lparr>link_prev := (0, 0), link_next := ?x0\<rparr>) h"
  define h2 where "h2 = (if fst ?x0 \<noteq> 0 then upd_block ?x0 (\<lambda>b. b\<lparr>link_prev := x\<rparr>) h1 else h1)"
  obtain p off where xp: "x = (p, off)" by (cases x)
  have pool': "freelist pool' = (freelist pool)[i := x]" "h' = h2"
    "slbitmap pool' = (slbitmap pool)[i div 64 := set_bit (i mod 64) (slbitmap pool ! (i div 64))]"
    "flbitmap pool' = set_bit (i div 64) (flbitmap pool)" "total_pages pool' = total_pages pool"
    using ins x(3) unfolding i(1) h2_def h1_def xp
    by (auto simp: insert_block_def Let_def BITS_PER_LONG_def)
  obtain xs where xs: "ldll h ?x0 (0, 0) xs" "distinct xs" "set xs = S i"
    using inv i(2) by (auto simp: fl_inv_def list_ok_def)
  have "ldll h2 x (0, 0) (x # xs)"
    using xs x by (intro ldll_insert [OF xs(1,2) _ _ h1_def h2_def]) auto
  then have new: "list_ok h2 x (insert x (S i))"
    using xs x by (auto simp: list_ok_def intro!: exI [of _ "x # xs"])
  have head: "?x0 \<in> S i" if "fst ?x0 \<noteq> 0"
    using that xs by (cases xs) auto
  let ?B = "insert x (if fst ?x0 \<noteq> 0 then {?x0} else {})"
  have B: "?B \<inter> S j = {}" "insert x (S i) \<inter> S j = {}" if "j \<noteq> i" for j
    using that x head inv by (auto simp: fl_inv_def)
  have "fl_inv pool' h2 (S(i := insert x (S i)))"
  proof (rule fl_inv_update [OF inv i(2) _ B(1) pool'(1) new B(2)])
    show "same_links h h2 (- ?B)"
      by (auto simp: same_links_def h2_def h1_def header_simps)
    show "bitmaps_ok pool' ((\<lambda>i. i < 508 \<and> S i \<noteq> {})(i := (insert x (S i) \<noteq> {})))"
      using bitmaps_ok_set [OF _ _ pool'(3,4)] inv i(2) by (simp add: fl_inv_def)
  qed
  moreover have "same_hdrs h h2"
    by (simp add: same_hdrs_def h2_def h1_def header_simps)
  ultimately show ?thesis using pool' by simp
qed

lemma remove_block_head_inv:
  assumes inv: "fl_inv pool h S" and rem: "remove_block_head x i (pool, h) = (pool', h')"
    and i: "i < 508" and x: "freelist pool ! i = x" "x \<in> S i"
  shows "fl_inv pool' h' (S(i := S i - {x})) \<and> same_hdrs h h'
    \<and> total_pages pool' = total_pages pool"
proof -
  let ?n = "link_next (h x)"
  define h1 where "h1 = upd_block x (\<lambda>b. b\<lparr>link_prev := (0, 0)\<rparr>) h"
  define h2 where "h2 = (if fst ?n \<noteq> 0 then upd_block ?n (\<lambda>b. b\<lparr>link_prev := (0, 0)\<rparr>) h1 else h1)"
  obtain xs where xs: "ldll h x (0, 0) (x # xs)" "distinct (x # xs)" "set xs = S i - {x}"
  proof -
    obtain ys where ys: "ldll h x (0, 0) ys" "distinct ys" "set ys = S i"
      using inv i x(1) by (auto simp: fl_inv_def list_ok_def)
    with x(2) obtain y zs where "ys = y # zs" by (cases ys) auto
    with ys that show thesis by auto
  qed
  have n: "fst ?n = 0 \<longleftrightarrow> xs = []" "fst ?n \<noteq> 0 \<Longrightarrow> ?n \<in> S i - {x}"
    using xs by (cases xs; auto)+
  have new: "list_ok h2 ?n (S i - {x})"
    using ldll_remove_head [OF xs(1,2) h1_def h2_def] xs by (auto simp: list_ok_def)
  have fl: "freelist pool' = (freelist pool)[i := ?n]" and h': "h' = h2"
    and tp: "total_pages pool' = total_pages pool"
    using rem by (auto simp: remove_block_head_def Let_def h2_def h1_def split: if_splits)
  let ?B = "insert x (if fst ?n \<noteq> 0 then {?n} else {})"
  have B: "?B \<inter> S j = {}" "(S i - {x}) \<inter> S j = {}" if "j \<noteq> i" for j
    using that x n inv by (auto simp: fl_inv_def)
  have "fl_inv pool' h2 (S(i := S i - {x}))"
  proof (rule fl_inv_update [OF inv i _ B(1) fl new B(2)])
    show "same_links h h2 (- ?B)"
      by (auto simp: same_links_def h2_def h1_def header_simps)
    show "bitmaps_ok pool' ((\<lambda>i. i < 508 \<and> S i \<noteq> {})(i := (S i - {x} \<noteq> {})))"
    proof (cases "fst ?n = 0")
      case True
      then have "S i - {x} = {}" using n xs by auto
      moreover have "bitmaps_ok pool' ((\<lambda>i. i < 508 \<and> S i \<noteq> {})(i := False))"
        using rem True inv i
        by (intro bitmaps_ok_unset [of pool])
          (auto simp: remove_block_head_def Let_def BITS_PER_LONG_def fl_inv_def split: if_splits)
      ultimately show ?thesis by simp
    next
      case False
      then have ne: "S i - {x} \<noteq> {}" using n by auto
      have "slbitmap pool' = slbitmap pool" "flbitmap pool' = flbitmap pool"
        using rem False by (auto simp: remove_block_head_def Let_def)
      moreover have "(\<lambda>i. i < 508 \<and> S i \<noteq> {})(i := (S i - {x} \<noteq> {})) = (\<lambda>i. i < 508 \<and> S i \<noteq> {})"
        using ne i by (auto simp: fun_eq_iff)
      ultimately show ?thesis
        using inv by (simp only:) (simp add: fl_inv_def bitmaps_ok_def)
    qed
  qed
  moreover have "same_hdrs h h2"
    by (simp add: same_hdrs_def h2_def h1_def header_simps)
  ultimately show ?thesis using h' tp by simp
qed

lemma remove_block_inv:
  assumes inv: "fl_inv pool h S" and rem: "remove_block x x i (pool, h) = (pool', h')"
    and i: "i < 508" and x: "x \<in> S i"
  shows "fl_inv pool' h' (S(i := S i - {x})) \<and> same_hdrs h h'
    \<and> total_pages pool' = total_pages pool"
proof (cases "freelist pool ! i = x")
  case True
  with rem have "remove_block_head x i (pool, h) = (pool', h')"
    by (simp add: remove_block_def)
  with True show ?thesis by (intro remove_block_head_inv [OF inv _ i _ x])
next
  case False
  then have eq: "pool' = pool" "h' = unlink x h"
    using rem by (simp_all add: remove_block_def unlink_def Let_def)
  let ?x0 = "freelist pool ! i"
  obtain ys where ys: "ldll h ?x0 (0, 0) ys" "distinct ys" "set ys = S i"
    using inv i by (auto simp: fl_inv_def list_ok_def)
  with x obtain as bs where split: "ys = as @ x # bs"
    by (metis split_list)
  with ys False have "as \<noteq> []" by (cases as) auto
  have "ldll (unlink x h) ?x0 (0, 0) (as @ bs)"
    using ldll_unlink \<open>as \<noteq> []\<close> ys split by blast
  then have new: "list_ok (unlink x h) ?x0 (S i - {x})"
    using ys split by (auto simp: list_ok_def intro!: exI [of _ "as @ bs"])
  have prev: "link_prev (h x) \<in> S i"
    using ldll_prev_of_mid [of h _ _ as x bs] ys split \<open>as \<noteq> []\<close> by auto
  have "fst (link_next (h x)) = 0 \<or> link_next (h x) \<in> S i"
    using dll_mid_next [OF ys(1) [unfolded split]] ys(3) split by (cases bs) auto
  then have links: "same_links h (unlink x h) (- S i)"
    using prev x by (auto simp: same_links_def unlink_def Let_def header_simps)
  have "fl_inv pool (unlink x h) (S(i := S i - {x}))"
  proof (rule fl_inv_update [OF inv i links _ _ new])
    show "S i \<inter> S j = {}" "(S i - {x}) \<inter> S j = {}" if "j \<noteq> i" for j
      using inv that by (auto simp: fl_inv_def)
    show "freelist pool = (freelist pool)[i := ?x0]" by simp
    have "S i - {x} \<noteq> {}" using prev ys split \<open>as \<noteq> []\<close>
      by (metis Diff_eq_empty_iff append_Cons distinct.simps(2) in_set_conv_decomp list.set_intros(1)
          neq_Nil_conv not_distinct_conv_prefix singletonD subsetD Un_iff set_append)
    then have "(\<lambda>i. i < 508 \<and> S i \<noteq> {})(i := (S i - {x} \<noteq> {})) = (\<lambda>i. i < 508 \<and> S i \<noteq> {})"
      using i by (auto simp: fun_eq_iff)
    then show "bitmaps_ok pool ((\<lambda>i. i < 508 \<and> S i \<noteq> {})(i := (S i - {x} \<noteq> {})))"
      using inv by (simp add: fl_inv_def)
  qed
  moreover have "same_hdrs h (unlink x h)"
    by (simp add: same_hdrs_def unlink_def Let_def header_simps)
  ultimately show ?thesis using eq by simp
qed


section \<open>Indices\<close>

lemma get_index_for_insert_eq:
  assumes "32 \<le> s" and "s \<le> 4092"
  shows "get_index_for_insert s = s div 8 - 4"
proof -
  have "s - s mod 8 = 8 * (s div 8)" by (simp add: minus_mod_eq_mult_div)
  moreover have "4 \<le> s div 8" using assms(1) by simp
  ultimately show ?thesis
    using assms by (simp add: get_index_for_insert_def xv_vals Let_def)
qed

lemma get_index_for_insert_less: "32 \<le> s \<Longrightarrow> s \<le> 4092 \<Longrightarrow> get_index_for_insert s < 508"
  by (simp add: get_index_for_insert_eq)

lemma get_index_eq:
  assumes "sz \<le> 4092"
  shows "get_index sz = (max sz 32 + 7) div 8 - 4"
proof -
  have "4 \<le> (max sz 32 + 7) div 8" by simp
  moreover have "(max sz 32 + 7) div 8 * 8 \<le> 4099" using assms by simp
  moreover have "(if sz < 32 then 32 else sz) = max sz 32" by simp
  moreover have "((max sz 32 + 7) div 8 * 8 - 32) div 8 = (max sz 32 + 7) div 8 - 4"
    by (simp add: diff_mult_distrib [of _ 4 8, simplified, symmetric])
  ultimately show ?thesis
    unfolding get_index_def Let_def xv_vals ALIGN_def by simp
qed

lemma get_index_le: "sz \<le> 4092 \<Longrightarrow> get_index sz \<le> 508"
  by (simp add: get_index_eq)

text \<open>Blocks of a list at or above \<open>get_index(size)\<close> are large enough.\<close>

lemma index_covers:
  assumes "get_index sz \<le> get_index_for_insert s" and "32 \<le> s" and "s \<le> 4092" and "sz \<le> 4092"
  shows "sz \<le> s"
proof -
  have "(max sz 32 + 7) div 8 \<le> s div 8"
    using assms(1) unfolding get_index_eq [OF assms(4)] get_index_for_insert_eq [OF assms(2,3)]
    using assms(2) by linarith
  then have "(max sz 32 + 7) div 8 * 8 \<le> s" by linarith
  then show ?thesis by linarith
qed

section \<open>Searching\<close>

text \<open>\<open>find_block\<close> returns the head of the first nonempty list from \<open>get_index(size)\<close> on.\<close>

definition first_fit :: "(nat \<Rightarrow> bool) \<Rightarrow> nat \<Rightarrow> nat \<Rightarrow> bool" where
  "first_fit P i0 i \<longleftrightarrow> i0 \<le> i \<and> P i \<and> (\<forall>k. i0 \<le> k \<and> k < i \<longrightarrow> \<not> P k)"

lemma bitmaps_ok_zero:
  assumes "bitmaps_ok pool P" and "k < 512" and "slbitmap pool ! (k div 64) = 0"
  shows "\<not> P k"
  using bitmaps_ok_bit [OF assms(1,2)] assms(3) by simp

lemma find_block_same_chunk:
  assumes ok: "bitmaps_ok pool P" and i0: "i0 < 512"
    and W: "W = slbitmap pool ! (i0 div 64)" and no: "\<not> bit W (i0 mod 64)"
    and nz: "drop_bit (i0 mod 64 + 1) W \<noteq> 0"
  shows "first_fit P i0 (i0 + ffs (drop_bit (i0 mod 64 + 1) W) + 1)"
proof -
  let ?f = "ffs (drop_bit (i0 mod 64 + 1) W)"
  have bitW: "bit (drop_bit (i0 mod 64 + 1) W) d \<longleftrightarrow> bit W (i0 mod 64 + 1 + d)" for d
    by (simp add: bit_drop_bit_eq)
  have f: "bit W (i0 mod 64 + 1 + ?f)" using ffs_bit(1) [OF nz] bitW by simp
  then have less: "i0 mod 64 + 1 + ?f < 64" using bit_imp_le_length [OF f] by simp
  have chunk: "(i0 + 1 + d) div 64 = i0 div 64" "(i0 + 1 + d) mod 64 = i0 mod 64 + 1 + d"
    if "d \<le> ?f" for d
    using add_in_chunk [of i0 64 "1 + d"] that less by (simp_all add: add.assoc)
  have lt: "i0 + 1 + d < 512" if "d \<le> ?f" for d
  proof -
    have "(i0 + 1 + d) div 64 < 8"
      unfolding chunk(1) [OF that] using i0 by (simp add: less_mult_imp_div_less)
    then show ?thesis by (simp add: div_less_iff_less_mult)
  qed
  have P: "P (i0 + 1 + d) \<longleftrightarrow> bit W (i0 mod 64 + 1 + d)" if "d \<le> ?f" for d
    using bitmaps_ok_bit [OF ok lt [OF that]] chunk [OF that] W by simp
  have "\<not> P k" if "i0 \<le> k" "k < i0 + ?f + 1" for k
  proof (cases "k = i0")
    case True
    with no W bitmaps_ok_bit [OF ok i0] show ?thesis by simp
  next
    case False
    with that have "k = i0 + 1 + (k - i0 - 1)" "k - i0 - 1 < ?f" by linarith+
    then obtain d where d: "k = i0 + 1 + d" "d < ?f" by blast
    with P [of d] ffs_bit(3) [OF nz d(2)] bitW show ?thesis by simp
  qed
  moreover have "P (i0 + ?f + 1)" using P [of ?f] f by (simp add: add_ac)
  ultimately show ?thesis by (simp add: first_fit_def)
qed


lemma find_block_next_chunk:
  assumes ok: "bitmaps_ok pool P" and i0: "i0 < 512" and no: "\<not> P i0"
    and rest: "drop_bit (i0 mod 64 + 1) (slbitmap pool ! (i0 div 64)) = 0"
    and F: "F = drop_bit (i0 div 64 + 1) (flbitmap pool)" "F \<noteq> 0"
    and j: "j = i0 div 64 + ffs F + 1"
  shows "first_fit P i0 (j * 64 + ffs (slbitmap pool ! j))"
proof -
  let ?W = "slbitmap pool ! j"
  have bitF: "bit F d \<longleftrightarrow> bit (flbitmap pool) (i0 div 64 + 1 + d)" for d
    by (simp add: F(1) bit_drop_bit_eq)
  have "bit (flbitmap pool) j"
    using ffs_bit(1) [OF F(2)] bitF j by (simp add: add_ac)
  then have j8: "j < 8" and W: "?W \<noteq> 0"
    using ok by (auto simp: bitmaps_ok_def)
  note e = ffs_bit [OF W]
  have lt: "j * 64 + ffs ?W < 512" using j8 e(2) by linarith
  have at: "(j * 64 + k) div 64 = j" "(j * 64 + k) mod 64 = k" if "k < 64" for k
    using that by simp_all
  have "P (j * 64 + ffs ?W)"
    using bitmaps_ok_bit [OF ok lt] at [OF e(2)] e(1) by simp
  moreover have "\<not> P k" if k: "i0 \<le> k" "k < j * 64 + ffs ?W" for k
  proof -
    have k512: "k < 512" using k(2) lt by linarith
    have kj: "k div 64 \<le> j" using div_le_mono [of k "j * 64 + ffs ?W" 64] k(2) at [OF e(2)] by simp
    have ik: "i0 div 64 \<le> k div 64" using k(1) by (rule div_le_mono)
    have kk: "k = 64 * (k div 64) + k mod 64" by simp
    consider "k = i0" | "k div 64 = i0 div 64" "k \<noteq> i0" | "i0 div 64 < k div 64" "k div 64 < j" | "k div 64 = j"
      using ik kj by linarith
    then show ?thesis
    proof cases
      case 1
      then show ?thesis using no by simp
    next
      case 2
      then have "i0 mod 64 + 1 \<le> k mod 64"
        using k(1) kk div_mult_mod_eq [of i0 64] by linarith
      moreover have "\<not> bit (drop_bit (i0 mod 64 + 1) (slbitmap pool ! (i0 div 64))) (k mod 64 - (i0 mod 64 + 1))"
        using rest by simp
      ultimately have "\<not> bit (slbitmap pool ! (k div 64)) (k mod 64)"
        using 2(1) by (simp add: bit_drop_bit_eq)
      then show ?thesis using bitmaps_ok_bit [OF ok k512] by simp
    next
      case 3
      then have "k div 64 - (i0 div 64 + 1) < ffs F" using j by linarith
      then have "\<not> bit (flbitmap pool) (k div 64)"
        using ffs_bit(3) [OF F(2)] bitF [of "k div 64 - (i0 div 64 + 1)"] 3(1) by simp
      then have "slbitmap pool ! (k div 64) = 0"
        using ok 3 j8 by (auto simp: bitmaps_ok_def)
      then show ?thesis by (rule bitmaps_ok_zero [OF ok k512])
    next
      case 4
      then have "k mod 64 < ffs ?W" using k(2) kk by linarith
      then have "\<not> bit (slbitmap pool ! (k div 64)) (k mod 64)" using e(3) 4 by simp
      then show ?thesis using bitmaps_ok_bit [OF ok k512] by simp
    qed
  qed
  moreover have "i0 \<le> j * 64 + ffs ?W"
  proof -
    have "i0 < 64 * (i0 div 64 + 1)"
      using dividend_less_times_div [of 64 i0] by simp
    then show ?thesis using j by linarith
  qed
  ultimately show ?thesis by (simp add: first_fit_def)
qed

lemma find_block_none:
  assumes ok: "bitmaps_ok pool P" and i0: "i0 < 512" and no: "\<not> P i0"
    and rest: "drop_bit (i0 mod 64 + 1) (slbitmap pool ! (i0 div 64)) = 0"
    and F: "drop_bit (i0 div 64 + 1) (flbitmap pool) = 0"
    and k: "i0 \<le> k" "k < 512"
  shows "\<not> P k"
proof -
  have kk: "k = 64 * (k div 64) + k mod 64" by simp
  have ik: "i0 div 64 \<le> k div 64" using k(1) by (rule div_le_mono)
  have k8: "k div 64 < 8" using k(2) by (simp add: less_mult_imp_div_less)
  show ?thesis
  proof (cases "k div 64 = i0 div 64")
    case True
    show ?thesis
    proof (cases "k = i0")
      case False
      then have "i0 mod 64 + 1 \<le> k mod 64"
        using True k(1) kk div_mult_mod_eq [of i0 64] by linarith
      moreover have "\<not> bit (drop_bit (i0 mod 64 + 1) (slbitmap pool ! (i0 div 64))) (k mod 64 - (i0 mod 64 + 1))"
        using rest by simp
      ultimately have "\<not> bit (slbitmap pool ! (k div 64)) (k mod 64)"
        using True by (simp add: bit_drop_bit_eq)
      then show ?thesis using bitmaps_ok_bit [OF ok k(2)] by simp
    qed (use no in simp)
  next
    case False
    have "\<not> bit (drop_bit (i0 div 64 + 1) (flbitmap pool)) (k div 64 - (i0 div 64 + 1))"
      using F by simp
    then have "\<not> bit (flbitmap pool) (k div 64)"
      using False ik by (simp add: bit_drop_bit_eq)
    then have "slbitmap pool ! (k div 64) = 0"
      using ok k8 by (auto simp: bitmaps_ok_def)
    then show ?thesis by (rule bitmaps_ok_zero [OF ok k(2)])
  qed
qed

lemma find_block_cases:
  assumes inv: "fl_inv pool h S" and sz: "sz \<le> 4092" and res: "find_block pool sz l = (i, x)"
  shows "(first_fit (\<lambda>i. i < 508 \<and> S i \<noteq> {}) (get_index sz) i \<and> x = freelist pool ! i \<and> x \<in> S i \<and> fst x \<noteq> 0)
    \<or> (x = l \<and> i = 0 \<and> (\<forall>k. get_index sz \<le> k \<and> k < 508 \<longrightarrow> S k = {}))"
proof -
  let ?P = "\<lambda>i. i < 508 \<and> S i \<noteq> {}" and ?i0 = "get_index sz"
  let ?W = "slbitmap pool ! (?i0 div 64)"
  have ok: "bitmaps_ok pool ?P" using inv by (simp add: fl_inv_def)
  have i0: "?i0 < 512" using get_index_le [OF sz] by linarith
  have found: ?thesis if "first_fit ?P ?i0 i" "x = freelist pool ! i"
  proof -
    from that(1) have "i < 508" "S i \<noteq> {}" by (simp_all add: first_fit_def)
    with inv that(2) have "x \<in> S i" "fst x \<noteq> 0"
      using list_ok_head [of h x "S i"] by (auto simp: fl_inv_def)
    with that show ?thesis by blast
  qed
  have none: ?thesis if "x = l" "i = 0" "\<And>k. ?i0 \<le> k \<Longrightarrow> k < 512 \<Longrightarrow> \<not> ?P k"
    using that by auto
  have P0: "bit ?W (?i0 mod 64) \<longleftrightarrow> ?P ?i0" by (rule bitmaps_ok_bit [OF ok i0])
  consider "flbitmap pool = 0"
    | "flbitmap pool \<noteq> 0" "bit ?W (?i0 mod 64)"
    | "flbitmap pool \<noteq> 0" "\<not> bit ?W (?i0 mod 64)" "drop_bit (?i0 mod 64 + 1) ?W \<noteq> 0"
    | "flbitmap pool \<noteq> 0" "\<not> bit ?W (?i0 mod 64)" "drop_bit (?i0 mod 64 + 1) ?W = 0"
      "drop_bit (?i0 div 64 + 1) (flbitmap pool) = 0"
    | "flbitmap pool \<noteq> 0" "\<not> bit ?W (?i0 mod 64)" "drop_bit (?i0 mod 64 + 1) ?W = 0"
      "drop_bit (?i0 div 64 + 1) (flbitmap pool) \<noteq> 0"
    by blast
  then show ?thesis
  proof cases
    case 1
    have "\<not> ?P k" if "k < 512" for k
    proof (rule bitmaps_ok_zero [OF ok that])
      show "slbitmap pool ! (k div 64) = 0"
        using ok 1 that by (auto simp: bitmaps_ok_def less_mult_imp_div_less)
    qed
    with 1 res none show ?thesis by (simp add: find_block_def)
  next
    case 2
    with P0 have "first_fit ?P ?i0 ?i0" by (auto simp: first_fit_def)
    moreover have "i = ?i0" "x = freelist pool ! i"
      using 2 res by (auto simp: find_block_def BITS_PER_LONG_def Let_def)
    ultimately show ?thesis using found by simp
  next
    case 3
    let ?r = "drop_bit (?i0 mod 64 + 1) ?W"
    have "?i0 mod 64 + 1 \<noteq> 64"
    proof
      assume *: "?i0 mod 64 + 1 = 64"
      have "?r = 0"
        using * by (intro bit_word_eqI) (auto simp: bit_drop_bit_eq dest!: bit_imp_le_length)
      with 3 show False by simp
    qed
    with 3 res have "i = ?i0 + ffs ?r + 1" "x = freelist pool ! i"
      by (auto simp: find_block_def BITS_PER_LONG_def Let_def)
    with find_block_same_chunk [OF ok i0 refl 3(2,3)] show ?thesis
      using found by simp
  next
    case 4
    have "\<not> ?P k" if "?i0 \<le> k" "k < 512" for k
      using find_block_none [OF ok i0 _ 4(3,4) that] 4(2) P0 by blast
    with 4 res none show ?thesis
      by (simp add: find_block_def BITS_PER_LONG_def Let_def)
  next
    case 5
    let ?j = "?i0 div 64 + ffs (drop_bit (?i0 div 64 + 1) (flbitmap pool)) + 1"
    have "i = ?j * 64 + ffs (slbitmap pool ! ?j)" "x = freelist pool ! i"
      using 5 res by (auto simp: find_block_def BITS_PER_LONG_def Let_def)
    moreover have "\<not> ?P ?i0" using 5(2) P0 by blast
    ultimately show ?thesis
      using found find_block_next_chunk [OF ok i0 _ 5(3) refl 5(4) refl] by simp
  qed
qed

end
