(* ===== verification/Xv_Layout.thy ===== *)
theory Xv_Layout
  imports Xv_Freelist
begin

text \<open>
  The allocator's invariant.  \<open>xv_inv pool m L\<close> says that every page the pool owns has the
  layout \<open>L page\<close>, that the free lists hold exactly the free blocks of at least
  \<open>XV_MIN_ALLOC_SIZE\<close> bytes, each on the list of its size, and that \<open>total_pages\<close> counts
  the pages.  The lemmas replace a run of cells in the middle of a page.
\<close>

section \<open>The invariant\<close>

type_synonym layout = "page \<Rightarrow> cell list option"

definition free_cells_at :: "page \<Rightarrow> nat \<Rightarrow> cell list \<Rightarrow> nat \<Rightarrow> loc set" where
  "free_cells_at p off cs i =
     {(q, o'). q = p \<and> (\<exists>s. (o', s, True) \<in> cells_at off cs \<and> 32 \<le> s \<and> get_index_for_insert s = i)}"

definition free_locs :: "layout \<Rightarrow> nat \<Rightarrow> loc set" where
  "free_locs L i = {(p, o'). \<exists>cs. L p = Some cs \<and> (p, o') \<in> free_cells_at p 0 cs i}"

definition xv_inv :: "xv_pool \<Rightarrow> kmem \<Rightarrow> layout \<Rightarrow> bool" where
  "xv_inv pool m L \<longleftrightarrow>
     finite (dom L) \<and> total_pages pool = of_nat (card (dom L))
     \<and> (\<forall>p cs. L p = Some cs \<longrightarrow> p \<noteq> 0 \<and> p \<in> used_pages m \<and> page_ok (heap_of m) p cs)
     \<and> fl_inv pool (heap_of m) (free_locs L)"

lemma xv_inv_page: "xv_inv pool m L \<Longrightarrow> L p = Some cs \<Longrightarrow> p \<noteq> 0 \<and> p \<in> used_pages m \<and> page_ok (heap_of m) p cs"
  by (simp add: xv_inv_def)

section \<open>Cells of a page\<close>

lemma free_cells_at_append:
  "free_cells_at p off (as @ bs) i = free_cells_at p off as i \<union> free_cells_at p (off + span as) bs i"
  by (auto simp: free_cells_at_def cells_at_append)

lemma free_cells_at_Nil [simp]: "free_cells_at p off [] i = {}"
  by (simp add: free_cells_at_def)

lemma free_cells_at_Cons [simp]:
  "free_cells_at p off ((s, f) # cs) i =
     (if f \<and> 32 \<le> s \<and> get_index_for_insert s = i then {(p, off)} else {})
     \<union> free_cells_at p (off + s + 4) cs i"
  by (auto simp: free_cells_at_def)

lemma free_cells_at_range:
  "x \<in> free_cells_at p off cs i \<Longrightarrow> fst x = p \<and> off \<le> snd x \<and> snd x < off + span cs"
  by (auto simp: free_cells_at_def dest: cells_at_range)

lemma free_locs_page:
  "L p = Some cs \<Longrightarrow> (p, o') \<in> free_locs L i \<longleftrightarrow> (p, o') \<in> free_cells_at p 0 cs i"
  by (simp add: free_locs_def)

text \<open>Replacing the run \<open>mid\<close> of cells by \<open>mid'\<close>.\<close>

lemma free_locs_replace:
  assumes "L p = Some (as @ mid @ bs)" and "span mid' = span mid"
  shows "free_locs (L(p \<mapsto> as @ mid' @ bs)) i =
    (free_locs L i - free_cells_at p (span as) mid i) \<union> free_cells_at p (span as) mid' i"
proof -
  have dis: "free_cells_at p 0 as i \<inter> free_cells_at p (span as) mid i = {}"
    "free_cells_at p (span as + span mid) bs i \<inter> free_cells_at p (span as) mid i = {}"
    by (auto dest!: free_cells_at_range)
  have new: "(p, o') \<in> free_locs (L(p \<mapsto> as @ mid' @ bs)) i \<longleftrightarrow>
      (p, o') \<in> free_cells_at p 0 as i \<or> (p, o') \<in> free_cells_at p (span as) mid' i
      \<or> (p, o') \<in> free_cells_at p (span as + span mid) bs i" for o'
    by (simp add: free_locs_def free_cells_at_append assms(2))
  have old: "(p, o') \<in> free_locs L i \<longleftrightarrow>
      (p, o') \<in> free_cells_at p 0 as i \<or> (p, o') \<in> free_cells_at p (span as) mid i
      \<or> (p, o') \<in> free_cells_at p (span as + span mid) bs i" for o'
    by (simp add: free_locs_def free_cells_at_append assms(1))
  have other: "(q, o') \<in> free_locs (L(p \<mapsto> as @ mid' @ bs)) i \<longleftrightarrow> (q, o') \<in> free_locs L i"
    "(q, o') \<notin> free_cells_at p (span as) mid i" "(q, o') \<notin> free_cells_at p (span as) mid' i"
    if "q \<noteq> p" for q o'
    using that by (auto simp: free_locs_def free_cells_at_def)
  show ?thesis
  proof (rule set_eqI)
    fix x :: loc
    obtain q o' where x: "x = (q, o')" by (cases x)
    show "x \<in> free_locs (L(p \<mapsto> as @ mid' @ bs)) i \<longleftrightarrow>
        x \<in> (free_locs L i - free_cells_at p (span as) mid i) \<union> free_cells_at p (span as) mid' i"
      using new [of o'] old [of o'] other [of q o'] dis unfolding x by (cases "q = p") auto
  qed
qed

lemma free_locs_new_page:
  "L p = None \<Longrightarrow> free_locs (L(p \<mapsto> cs)) i = free_locs L i \<union> free_cells_at p 0 cs i"
  by (auto simp: free_locs_def free_cells_at_def split: if_splits)

lemma free_locs_del_page:
  "L p = Some cs \<Longrightarrow> free_locs (L(p := None)) i = free_locs L i - free_cells_at p 0 cs i"
  by (auto simp: free_locs_def free_cells_at_def split: if_splits)

text \<open>What a page in order says of one block and its neighbours.\<close>

lemma page_ok_bounds:
  assumes "page_ok h p (as @ mid @ bs)"
  shows "span as + span mid + span bs = 4096" "4 dvd span as" "4 dvd span mid" "4 dvd span bs"
proof -
  show "span as + span mid + span bs = 4096"
    using assms by (simp add: page_ok_def PAGE_SIZE_def add.assoc)
  show "4 dvd span as" "4 dvd span mid" "4 dvd span bs"
    using assms by (auto simp: page_ok_def seg_append dest: seg_dvd)
qed

lemma span_0_iff: "span cs = 0 \<longleftrightarrow> cs = []"
  by (cases cs rule: span.cases) auto

lemma page_ok_replace:
  assumes ok: "page_ok h p (as @ mid @ bs)" and sp: "span mid' = span mid"
    and as: "same_headers h h' p 0 (span as)"
    and mid: "seg h' p (span as) (end_pf 0 (False, 0) as) mid'"
    and bs: "\<And>s f bs'. bs = (s, f) # bs' \<Longrightarrow>
      cell_ok (h' (p, span as + span mid)) (end_pf (span as) (end_pf 0 (False, 0) as) mid') s f"
    and rest: "same_headers h h' p (span as + span mid + 1) 4096"
  shows "page_ok h' p (as @ mid' @ bs)"
proof -
  let ?pf = "end_pf 0 (False, 0) as"
  have all: "seg h p 0 (False, 0) as" "seg h p (span as + span mid) (end_pf (span as) ?pf mid) bs"
    using ok by (simp_all add: page_ok_def seg_append)
  have "seg h' p (span as + span mid) (end_pf (span as) ?pf mid') bs"
  proof (cases bs)
    case Nil
    then show ?thesis by simp
  next
    case (Cons c bs')
    obtain s f where c: "c = (s, f)" by (cases c)
    have "same_headers h h' p (span as + span mid + s + 4) (span as + span mid + s + 4 + span bs')"
      using rest page_ok_bounds(1) [OF ok] Cons c by (auto simp: same_headers_def)
    then have "seg h' p (span as + span mid + s + 4) (f, span as + span mid) bs'"
      using all(2) Cons c by (simp add: seg_frame)
    with bs Cons c show ?thesis by simp
  qed
  moreover have "seg h' p 0 (False, 0) as"
    using all(1) as by (simp add: seg_frame)
  ultimately show ?thesis
    using ok mid sp by (simp add: page_ok_def seg_append)
qed

lemma page_ok_other:
  assumes "page_ok h q cs" and "\<And>o'. bh_size (h' (q, o')) = bh_size (h (q, o')) \<and> bh_prev (h' (q, o')) = bh_prev (h (q, o'))"
  shows "page_ok h' q cs"
proof -
  have "same_headers h h' q 0 (0 + span cs)"
    using assms(2) by (simp add: same_headers_def)
  with assms(1) show ?thesis by (simp add: page_ok_def seg_frame)
qed

text \<open>One page changes its layout.\<close>

lemma xv_inv_change:
  assumes inv: "xv_inv pool m L" and L: "L p = Some cs" and ok: "page_ok h' p cs'"
    and hd: "\<And>q o'. q \<noteq> p \<Longrightarrow> bh_size (h' (q, o')) = bh_size (heap_of m (q, o'))
      \<and> bh_prev (h' (q, o')) = bh_prev (heap_of m (q, o'))"
    and fl: "fl_inv pool' h' (free_locs (L(p \<mapsto> cs')))" and tp: "total_pages pool' = total_pages pool"
  shows "xv_inv pool' (m\<lparr>heap_of := h'\<rparr>) (L(p \<mapsto> cs'))"
proof -
  have "q \<noteq> 0 \<and> q \<in> used_pages m \<and> page_ok h' q cq" if "(L(p \<mapsto> cs')) q = Some cq" for q cq
  proof (cases "q = p")
    case True
    with that inv L ok show ?thesis by (simp add: xv_inv_def)
  next
    case False
    with that have "L q = Some cq" by simp
    note q = xv_inv_page [OF inv this]
    have "page_ok h' q cq"
      using hd [OF False] by (intro page_ok_other [of "heap_of m" q cq h']) (use q in simp_all)
    with q show ?thesis by simp
  qed
  then show ?thesis
    using inv L fl tp by (simp add: xv_inv_def insert_absorb domI)
qed

text \<open>Header reads through \<open>same_hdrs\<close>.\<close>

lemma same_hdrs_read:
  assumes "same_hdrs h h'"
  shows "bh_size (h' x) = bh_size (h x)" "bh_prev (h' x) = bh_prev (h x)"
    "test_flag (h' x) f = test_flag (h x) f" "get_blockprev (h' x) = get_blockprev (h x)"
    "cell_ok (h' x) pf s b = cell_ok (h x) pf s b"
  using assms by (cases x; simp add: same_hdrs_def test_flag_def get_blockprev_def cell_ok_def)+

end
