(* ===== verification/Xv_Malloc_Correct.thy ===== *)
theory Xv_Malloc_Correct
  imports Xv_Layout
begin

text \<open>
  Correctness of \<open>grow_pool\<close>, \<open>take_block\<close> and \<open>xv_malloc\<close> against the layout.
\<close>

section \<open>Blocks entering and leaving their free list\<close>

lemma insert_if_large_inv:
  assumes inv: "fl_inv pool h S"
    and ins: "(if XV_MIN_ALLOC_SIZE \<le> bh_size (h x) then insert_block x x (pool, h) else (pool, h)) = (pool', h')"
    and r: "bh_size (h x) = r" "r \<le> 4092" and x: "\<And>j. x \<notin> S j" "fst x \<noteq> 0" "snd x < 65536"
  shows "fl_inv pool' h' (\<lambda>j. S j \<union> free_cells_at (fst x) (snd x) [(r, True)] j) \<and> same_hdrs h h'
    \<and> total_pages pool' = total_pages pool"
proof (cases "32 \<le> r")
  case True
  let ?i = "get_index_for_insert r"
  have "fl_inv pool' h' (S(?i := insert x (S ?i))) \<and> same_hdrs h h' \<and> total_pages pool' = total_pages pool"
    using True ins r x by (intro insert_block_inv [OF inv]) (simp_all add: xv_vals get_index_for_insert_less)
  moreover have "S(?i := insert x (S ?i)) = (\<lambda>j. S j \<union> free_cells_at (fst x) (snd x) [(r, True)] j)"
    using True by (auto simp: fun_eq_iff)
  ultimately show ?thesis by simp
next
  case False
  with inv ins r show ?thesis by (simp add: xv_vals)
qed

lemma remove_if_large_inv:
  assumes inv: "fl_inv pool h S"
    and rem: "(if XV_MIN_ALLOC_SIZE \<le> bh_size (h x)
      then remove_block x x (get_index_for_insert (bh_size (h x))) (pool, h) else (pool, h)) = (pool', h')"
    and r: "bh_size (h x) = r" "r \<le> 4092" and x: "32 \<le> r \<Longrightarrow> x \<in> S (get_index_for_insert r)"
  shows "fl_inv pool' h' (\<lambda>j. S j - free_cells_at (fst x) (snd x) [(r, True)] j) \<and> same_hdrs h h'
    \<and> total_pages pool' = total_pages pool"
proof (cases "32 \<le> r")
  case True
  let ?i = "get_index_for_insert r"
  have "fl_inv pool' h' (S(?i := S ?i - {x})) \<and> same_hdrs h h' \<and> total_pages pool' = total_pages pool"
    using True rem r x by (intro remove_block_inv [OF inv]) (simp_all add: xv_vals get_index_for_insert_less)
  moreover have "S(?i := S ?i - {x}) = (\<lambda>j. S j - free_cells_at (fst x) (snd x) [(r, True)] j)"
    using True by (auto simp: fun_eq_iff)
  ultimately show ?thesis by simp
next
  case False
  with inv rem r show ?thesis by (simp add: xv_vals)
qed

section \<open>Splitting a block\<close>

text \<open>The cells that replace a free block of \<open>s\<close> bytes when \<open>sz\<close> of them are taken.\<close>

definition take_cells :: "nat \<Rightarrow> nat \<Rightarrow> cell list" where
  "take_cells s sz = (if s = sz then [(sz, False)] else [(sz, False), (s - sz - 4, True)])"

lemma span_take_cells:
  "4 dvd s \<Longrightarrow> 4 dvd sz \<Longrightarrow> sz \<le> s \<Longrightarrow> span (take_cells s sz) = s + 4"
  by (auto simp: take_cells_def elim!: dvdE)

lemma dvd4_gap:
  assumes "4 dvd (s :: nat)" and "4 dvd sz" and "sz \<le> s" and "s \<noteq> sz"
  shows "sz + 4 \<le> s" and "4 dvd s - sz - 4"
  using assms by (auto elim!: dvdE intro!: dvd_diff_nat)

text \<open>The block and its neighbours, read from the layout.\<close>

lemma page_ok_cell:
  assumes ok: "page_ok h p (as @ (s, f) # bs)"
  shows "cell_ok (h (p, span as)) (end_pf 0 (False, 0) as) s f" "4 dvd s" "4 dvd span as"
    "span as + s + 4 + span bs = 4096"
proof -
  show "cell_ok (h (p, span as)) (end_pf 0 (False, 0) as) s f"
    using ok by (simp add: page_ok_def seg_append)
  then show "4 dvd s" using ALIGN_dvd by (auto simp: cell_ok_def)
  show "4 dvd span as" using page_ok_bounds(2) [of h p as "[(s, f)]" bs] ok by simp
  show "span as + s + 4 + span bs = 4096" using ok by (simp add: page_ok_def PAGE_SIZE_def)
qed

lemma page_ok_next:
  assumes "page_ok h p (as @ (s, f) # (s2, f2) # bs)"
  shows "cell_ok (h (p, span as + s + 4)) (f, span as) s2 f2"
  using assms by (simp add: page_ok_def seg_append)

lemma bs_Nil_iff:
  assumes "page_ok h p (as @ (s, f) # bs)"
  shows "span as + s + 4 = 4096 \<longleftrightarrow> bs = []"
  using page_ok_cell(4) [OF assms] span_0_iff [of bs] by auto

lemma take_block_ok:
  assumes inv: "xv_inv pool m L" and L: "L p = Some (as @ (s, True) # bs)"
    and x: "x = (p, span as)" "freelist pool ! i = x" and i: "i = get_index_for_insert s" "32 \<le> s"
    and sz: "sz = ALIGN orig 4" "0 < orig" "sz \<le> s"
    and take: "take_block x i sz orig (pool, heap_of m) = (pool', h')"
  shows "xv_inv pool' (m\<lparr>heap_of := h'\<rparr>) (L(p \<mapsto> as @ take_cells s sz @ bs)) \<and> bh_size (h' x) = orig
    \<and> (\<forall>q o'. \<not> (q = p \<and> span as \<le> o' \<and> o' < span as + s + 4) \<longrightarrow>
         bh_size (h' (q, o')) = bh_size (heap_of m (q, o')))"
proof -
  let ?h = "heap_of m" and ?S = "free_locs L" and ?off = "span as" and ?pf = "end_pf 0 (False, 0) as"
  let ?t = "span as + sz + 4"
  have ok: "page_ok ?h p (as @ (s, True) # bs)" and p: "p \<noteq> 0" "p \<in> used_pages m"
    using xv_inv_page [OF inv L] by auto
  have fl: "fl_inv pool ?h ?S" using inv by (simp add: xv_inv_def)
  note cell = page_ok_cell [OF ok]
  have szd: "4 dvd sz" "0 < sz" "orig \<le> sz" using sz ALIGN_ge [of 4 orig] by (auto simp: ALIGN_dvd)
  have lim: "s \<le> 4092" "?off < 4096" "i < 508" using cell(4) i get_index_for_insert_less by auto
  have bh: "bh_size (?h x) = s" "\<not> fst ?pf" using cell(1) x by (auto simp: cell_ok_def)
  have xS: "x \<in> ?S i" using L i by (simp add: free_locs_def x free_cells_at_append)
  obtain pool1 h1 where rem: "remove_block_head x i (pool, ?h) = (pool1, h1)" by fastforce
  have inv1: "fl_inv pool1 h1 (?S(i := ?S i - {x}))" and hd1: "same_hdrs ?h h1"
    and tp1: "total_pages pool1 = total_pages pool"
    using remove_block_head_inv [OF fl rem lim(3) x(2) xS] by auto
  note rd1 = same_hdrs_read [OF hd1]
  have S1: "?S(i := ?S i - {x}) = (\<lambda>j. ?S j - free_cells_at p ?off [(s, True)] j)"
    using i by (auto simp: fun_eq_iff x)
  show ?thesis
  proof (cases "s = sz")
    case True
    define h5 where "h5 = upd_block x (\<lambda>b. clear_flag BLOCK_FREE (set_size orig b))
      (if ?t \<noteq> 4096 then upd_block (p, ?t) (clear_flag PREV_FREE) h1 else h1)"
    have res: "pool' = pool1" "h' = h5"
      using take True bh lim rem x
      by (auto simp: take_block_def Let_def xv_vals rd1 h5_def upd_block_def header_simps split: if_splits)
    have pg: "page_ok h5 p (as @ [(sz, False)] @ bs)"
    proof (rule page_ok_replace)
      show "page_ok ?h p (as @ [(s, True)] @ bs)" using ok by simp
      show "seg h5 p ?off ?pf [(sz, False)]"
        using cell(1) szd sz bh lim True
        by (auto simp: h5_def x header_simps cell_ok_def rd1 ALIGN_idem)
      fix s2 f2 bs' assume bs: "bs = (s2, f2) # bs'"
      have "?t \<noteq> 4096" using bs_Nil_iff [OF ok] bs True by simp
      then show "cell_ok (h5 (p, ?off + span [(s, True)])) (end_pf ?off ?pf [(sz, False)]) s2 f2"
        using page_ok_next [of ?h p as s True s2 f2 bs'] ok bs True
        by (simp add: h5_def x header_simps cell_ok_def rd1 add.assoc)
    qed (use True in \<open>auto simp: same_headers_def h5_def x header_simps rd1\<close>)
    have hd: "bh_size (h5 (q, o')) = bh_size (?h (q, o')) \<and> bh_prev (h5 (q, o')) = bh_prev (?h (q, o'))"
      if "q \<noteq> p" for q o'
      using that by (simp add: h5_def x header_simps rd1)
    have "fl_inv pool1 h5 (?S(i := ?S i - {x}))"
      by (rule fl_inv_headers [OF inv1]) (auto simp: h5_def header_simps)
    moreover have "free_locs (L(p \<mapsto> as @ [(sz, False)] @ bs)) = ?S(i := ?S i - {x})"
      using L True by (intro ext) (subst free_locs_replace [where mid = "[(s, True)]"], auto simp: S1)
    ultimately have "xv_inv pool1 (m\<lparr>heap_of := h5\<rparr>) (L(p \<mapsto> as @ [(sz, False)] @ bs))"
      by (intro xv_inv_change [OF inv L pg hd _ tp1]) auto
    then show ?thesis
      using res True lim sz szd by (auto simp: take_cells_def h5_def x header_simps rd1)
  next
    case False
    define r where "r = s - sz - 4"
    have gap: "sz + 4 \<le> s" "4 dvd r" "?t + r = ?off + s" "r \<le> 4092"
      using dvd4_gap [OF cell(2) szd(1) sz(3)] False lim by (auto simp: r_def)
    let ?tmp = "(p, ?t)"
    define h2 where "h2 = upd_block ?tmp (\<lambda>b. set_blockprev ?off (clear_flag PREV_FREE
      (set_flag BLOCK_FREE (set_size r b)))) h1"
    obtain pool3 h3 where ins: "(if XV_MIN_ALLOC_SIZE \<le> bh_size (h2 ?tmp)
        then insert_block ?tmp ?tmp (pool1, h2) else (pool1, h2)) = (pool3, h3)" by fastforce
    define h5 where "h5 = upd_block x (\<lambda>b. clear_flag BLOCK_FREE (set_size orig b))
      (if ?t + r + 4 \<noteq> 4096 then upd_block (p, ?t + r + 4) (set_blockprev ?t) h3 else h3)"
    have h2r: "bh_size (h2 ?tmp) = r" using gap by (simp add: h2_def header_simps)
    have inv2: "fl_inv pool1 h2 (?S(i := ?S i - {x}))"
      by (rule fl_inv_headers [OF inv1]) (auto simp: h2_def header_simps)
    have "?tmp \<notin> (?S(i := ?S i - {x})) j" for j
      using L gap cell(4) by (auto simp: free_locs_def free_cells_at_append dest!: free_cells_at_range)
    then have inv3: "fl_inv pool3 h3 (\<lambda>j. (?S(i := ?S i - {x})) j \<union> free_cells_at p ?t [(r, True)] j)"
      and hd3: "same_hdrs h2 h3" and tp3: "total_pages pool3 = total_pages pool1"
      using insert_if_large_inv [OF inv2 ins h2r gap(4)] p gap cell(4) by auto
    note rd3 = same_hdrs_read [OF hd3]
    have res: "pool' = pool3" "h' = h5"
    proof -
      have "sub32 (bh_size (h1 x)) sz = s - sz" "sub32 (s - sz) 4 = r" "s - sz \<noteq> 0"
        using bh lim gap by (auto simp: rd1 r_def)
      then have "take_block x i sz orig (pool, ?h) =
        (let (pool, h) = (if XV_MIN_ALLOC_SIZE \<le> bh_size (h2 ?tmp)
              then insert_block ?tmp ?tmp (pool1, h2) else (pool1, h2));
             h = (if ?t + 4 + bh_size (h ?tmp) \<noteq> 4096
              then upd_block (p, BLOCK_NEXT h p ?t) (set_blockprev ?t) h else h)
         in (pool, upd_block x (clear_flag BLOCK_FREE) (upd_block x (set_size orig) h)))"
        using rem x by (simp add: take_block_def Let_def xv_vals h2_def upd_block_def split: prod.split)
      then have "take_block x i sz orig (pool, ?h) = (pool3, h5)"
        using ins h2r by (simp add: h5_def BLOCK_NEXT_def rd3 xv_vals upd_block_def add_ac)
      with take show "pool' = pool3" "h' = h5" by simp_all
    qed
    have pg: "page_ok h5 p (as @ [(sz, False), (r, True)] @ bs)"
    proof (rule page_ok_replace)
      show "page_ok ?h p (as @ [(s, True)] @ bs)" using ok by simp
      show "span [(sz, False), (r, True)] = span [(s, True)]" using gap by simp
      show "seg h5 p ?off ?pf [(sz, False), (r, True)]"
        using cell szd sz bh lim gap
        by (auto simp: h5_def h2_def x header_simps cell_ok_def rd1 rd3 ALIGN_idem ALIGN_id)
      fix s2 f2 bs' assume bs: "bs = (s2, f2) # bs'"
      have ne: "?t + r + 4 \<noteq> 4096" using bs_Nil_iff [OF ok] bs gap by simp
      have at: "?off + span [(s, True)] = ?t + r + 4" using gap by simp
      have "4 dvd ?t" "?t < 65536" using cell szd gap by auto
      then show "cell_ok (h5 (p, ?off + span [(s, True)])) (end_pf ?off ?pf [(sz, False), (r, True)]) s2 f2"
        using page_ok_next [of ?h p as s True s2 f2 bs'] ok bs gap ne unfolding at
        by (simp add: h5_def h2_def x header_simps cell_ok_def rd1 rd3 add.assoc)
    qed (use gap in \<open>auto simp: same_headers_def h5_def h2_def x header_simps rd1 rd3\<close>)
    have hd: "bh_size (h5 (q, o')) = bh_size (?h (q, o')) \<and> bh_prev (h5 (q, o')) = bh_prev (?h (q, o'))"
      if "q \<noteq> p" for q o'
      using that by (simp add: h5_def h2_def x header_simps rd1 rd3)
    have "fl_inv pool3 h5 (\<lambda>j. (?S(i := ?S i - {x})) j \<union> free_cells_at p ?t [(r, True)] j)"
      by (rule fl_inv_headers [OF inv3]) (auto simp: h5_def header_simps)
    moreover have "free_locs (L(p \<mapsto> as @ [(sz, False), (r, True)] @ bs)) =
        (\<lambda>j. (?S(i := ?S i - {x})) j \<union> free_cells_at p ?t [(r, True)] j)"
      using L gap by (intro ext) (subst free_locs_replace [where mid = "[(s, True)]"], auto simp: S1 add_ac)
    ultimately have "xv_inv pool3 (m\<lparr>heap_of := h5\<rparr>) (L(p \<mapsto> as @ [(sz, False), (r, True)] @ bs))"
      using tp1 tp3 by (intro xv_inv_change [OF inv L pg hd]) auto
    then show ?thesis
      using res False lim sz szd gap
      by (auto simp: take_cells_def r_def h5_def h2_def x header_simps rd1 rd3)
  qed
qed

section \<open>The pool grows\<close>

lemma fl_inv_empty:
  "fl_inv \<lparr>flbitmap = 0, slbitmap = replicate MAX_FLI 0, freelist = replicate NUM_FREE_LISTS (0, 0),
     total_pages = 0\<rparr> h (\<lambda>_. {})"
  by (simp add: fl_inv_def bitmaps_ok_def xv_vals list_ok_def exI [of _ "[]"])

lemma fl_inv_total_pages: "fl_inv (pool\<lparr>total_pages := n\<rparr>) h S = fl_inv pool h S"
  by (cases pool) (simp only: fl_inv_def bitmaps_ok_def xv_pool.simps)

lemma free_locs_no_page: "free_locs (\<lambda>_. None) = (\<lambda>_. {})"
  by (simp add: free_locs_def fun_eq_iff)

lemma xv_create_pool_inv: "xv_create_pool True = Some pool \<Longrightarrow> xv_inv pool m (\<lambda>_. None)"
  using fl_inv_empty [of "heap_of m"] free_locs_no_page by (auto simp: xv_create_pool_def xv_inv_def)

lemma fresh_page:
  assumes "fresh_page_source src" and "src m = Some p" and "xv_inv pool m L"
  shows "p \<noteq> 0" and "p \<notin> used_pages m" and "L p = None"
proof -
  show p: "p \<noteq> 0" "p \<notin> used_pages m"
    using assms(1,2) by (auto simp: fresh_page_source_def)
  show "L p = None"
  proof (cases "L p")
    case (Some cs)
    with assms(3) p show ?thesis by (auto dest: xv_inv_page)
  qed simp
qed

lemma grow_pool_ok:
  assumes inv: "xv_inv pool m L" and src: "fresh_page_source src" "src m = Some p"
    and grow: "grow_pool src (pool, m) = (rc, pool', m')"
  shows "rc = 0 \<and> xv_inv pool' m' (L(p \<mapsto> [(4092, True)])) \<and> data_of m' = data_of m
    \<and> used_pages m' = insert p (used_pages m)
    \<and> (\<forall>q o'. q \<noteq> p \<longrightarrow> bh_size (heap_of m' (q, o')) = bh_size (heap_of m (q, o')))"
proof -
  note p = fresh_page [OF src inv]
  let ?h = "heap_of m"
  define h1 where "h1 = upd_block (p, 0) (\<lambda>b. set_blockprev 0 (clear_flag PREV_FREE
    (set_flag BLOCK_FREE (set_size 4092 b)))) ?h"
  define pool1 where "pool1 = pool\<lparr>total_pages := total_pages pool + 1\<rparr>"
  obtain pool2 h2 where ins: "insert_block (p, 0) (p, 0) (pool1, h1) = (pool2, h2)" by fastforce
  have res: "rc = 0" "pool' = pool2" "m' = m\<lparr>used_pages := insert p (used_pages m), heap_of := h2\<rparr>"
    using grow src(2) ins by (auto simp: grow_pool_def Let_def xv_vals h1_def pool1_def upd_block_def)
  have fl: "fl_inv pool ?h (free_locs L)" using inv by (simp add: xv_inv_def)
  have "fl_inv pool1 ?h (free_locs L)" using fl by (simp add: pool1_def fl_inv_total_pages)
  then have fl1: "fl_inv pool1 h1 (free_locs L)"
    by (rule fl_inv_headers) (auto simp: h1_def header_simps)
  have "(p, 0) \<notin> free_locs L j" for j using p by (simp add: free_locs_def)
  moreover have r: "bh_size (h1 (p, 0)) = 4092" by (simp add: h1_def header_simps)
  ultimately have "fl_inv pool2 h2 (\<lambda>j. free_locs L j \<union> free_cells_at p 0 [(4092, True)] j)"
    and hd: "same_hdrs h1 h2" and tp: "total_pages pool2 = total_pages pool1"
    using insert_if_large_inv [OF fl1 _ r, of pool2 h2] ins p by (auto simp: xv_vals)
  moreover have "(\<lambda>j. free_locs L j \<union> free_cells_at p 0 [(4092, True)] j) = free_locs (L(p \<mapsto> [(4092, True)]))"
    using p by (simp add: fun_eq_iff free_locs_new_page)
  ultimately have fl2: "fl_inv pool2 h2 (free_locs (L(p \<mapsto> [(4092, True)])))" by simp
  note rd = same_hdrs_read [OF hd]
  have pg: "page_ok h2 p [(4092, True)]"
    by (simp add: page_ok_def PAGE_SIZE_def cell_ok_def rd h1_def header_simps ALIGN_def)
  have old: "bh_size (h2 (q, o')) = bh_size (?h (q, o')) \<and> bh_prev (h2 (q, o')) = bh_prev (?h (q, o'))"
    if "q \<noteq> p" for q o'
    using that by (simp add: rd h1_def header_simps)
  have pages: "q \<noteq> 0 \<and> q \<in> insert p (used_pages m) \<and> page_ok h2 q cq"
    if "(L(p \<mapsto> [(4092, True)])) q = Some cq" for q cq
  proof (cases "q = p")
    case True
    with that pg p show ?thesis by simp
  next
    case False
    with that have "L q = Some cq" by simp
    note q = xv_inv_page [OF inv this]
    have "page_ok h2 q cq"
      using old [OF False] by (intro page_ok_other [of ?h q cq h2]) (use q in simp_all)
    with q show ?thesis by simp
  qed
  have "total_pages pool2 = of_nat (card (dom (L(p \<mapsto> [(4092, True)]))))"
    using inv tp p by (simp add: xv_inv_def pool1_def card_insert_if domIff)
  with fl2 pages inv have "xv_inv pool2 m' (L(p \<mapsto> [(4092, True)]))"
    by (simp add: xv_inv_def res)
  with old show ?thesis by (simp add: res)
qed

section \<open>Live objects\<close>

text \<open>The objects handed out and not yet freed, with their requested sizes.\<close>

definition live :: "kmem \<Rightarrow> layout \<Rightarrow> loc \<Rightarrow> nat option" where
  "live m L = (\<lambda>(p, off).
     (case L p of None \<Rightarrow> None
      | Some cs \<Rightarrow> if \<exists>s. 4 \<le> off \<and> (off - 4, s, False) \<in> cells_at 0 cs
                   then Some (bh_size (heap_of m (p, off - 4))) else None))"

lemma live_SomeE:
  assumes "live m L (p, off) = Some n"
  obtains as s bs where "L p = Some (as @ (s, False) # bs)" "off = span as + 4"
    "n = bh_size (heap_of m (p, span as))"
proof -
  obtain cs s where *: "L p = Some cs" "4 \<le> off" "(off - 4, s, False) \<in> cells_at 0 cs"
    "n = bh_size (heap_of m (p, off - 4))"
    using assms by (auto simp: live_def split: option.splits if_splits)
  then obtain as bs where cs: "cs = as @ (s, False) # bs" "off - 4 = 0 + span as"
    using cells_at_split by blast
  then have "off - 4 = span as" by simp
  with *(2) have "off = span as + 4" by linarith
  with * cs that show thesis by simp
qed

text \<open>Live objects lie inside their page and do not overlap.\<close>

lemma live_bounds:
  assumes inv: "xv_inv pool m L" and x: "live m L (p, off) = Some n"
  shows "0 < n" "off + n \<le> PAGE_SIZE" "4 \<le> off" "p \<noteq> 0" "p \<in> used_pages m"
proof -
  from x obtain as s bs where L: "L p = Some (as @ (s, False) # bs)" "off = span as + 4"
    "n = bh_size (heap_of m (p, span as))" by (rule live_SomeE)
  note pg = xv_inv_page [OF inv L(1)]
  note cell = page_ok_cell [OF conjunct2 [OF conjunct2 [OF pg]]]
  have "n \<le> s" using cell(1) L(3) ALIGN_ge [of 4 n] by (auto simp: cell_ok_def)
  with cell L(2) show "off + n \<le> PAGE_SIZE" by (simp add: PAGE_SIZE_def)
  show "0 < n" using cell(1) L(3) by (simp add: cell_ok_def)
  show "4 \<le> off" "p \<noteq> 0" "p \<in> used_pages m" using L pg by simp_all
qed

lemma live_disjoint:
  assumes inv: "xv_inv pool m L" and x: "live m L (p, o1) = Some n1" "live m L (p, o2) = Some n2"
    and ne: "o1 \<noteq> o2"
  shows "o1 + n1 + 4 \<le> o2 \<or> o2 + n2 + 4 \<le> o1"
proof -
  from x(1) obtain as1 s1 bs1 where L1: "L p = Some (as1 @ (s1, False) # bs1)" "o1 = span as1 + 4"
    "n1 = bh_size (heap_of m (p, span as1))" by (rule live_SomeE)
  from x(2) obtain as2 s2 bs2 where L2: "L p = Some (as2 @ (s2, False) # bs2)" "o2 = span as2 + 4"
    "n2 = bh_size (heap_of m (p, span as2))" by (rule live_SomeE)
  have ok: "page_ok (heap_of m) p (as1 @ (s1, False) # bs1)" "page_ok (heap_of m) p (as2 @ (s2, False) # bs2)"
    using xv_inv_page [OF inv L1(1)] xv_inv_page [OF inv L2(1)] by auto
  have "n1 \<le> s1" "n2 \<le> s2"
    using page_ok_cell(1) [OF ok(1)] page_ok_cell(1) [OF ok(2)] L1(3) L2(3) ALIGN_ge [of 4]
    by (auto simp: cell_ok_def)
  moreover have "(span as1, s1, False) \<in> cells_at 0 (as1 @ (s1, False) # bs1)"
    "(span as2, s2, False) \<in> cells_at 0 (as1 @ (s1, False) # bs1)"
    using cells_at_mid [of 0 as1] cells_at_mid [of 0 as2 s2 False bs2] L1(1) L2(1) by auto
  note cells_at_disjoint [OF this]
  ultimately show ?thesis using ne L1(2) L2(2) by auto
qed

lemma cells_at_out: "o' < off \<or> off + span cs \<le> o' \<Longrightarrow> (o', s, f) \<notin> cells_at off cs"
  by (auto dest!: cells_at_range)

lemma live_replace:
  assumes L: "L p = Some (as @ mid @ bs)" and sp: "span mid' = span mid"
    and same: "\<And>q o'. \<not> (q = p \<and> span as \<le> o' \<and> o' < span as + span mid) \<Longrightarrow>
      bh_size (heap_of m' (q, o')) = bh_size (heap_of m (q, o'))"
  shows "live m' (L(p \<mapsto> as @ mid' @ bs)) (q, o') =
    (if q = p \<and> span as + 4 \<le> o' \<and> o' < span as + span mid + 4
     then if \<exists>s. (o' - 4, s, False) \<in> cells_at (span as) mid'
          then Some (bh_size (heap_of m' (p, o' - 4))) else None
     else live m L (q, o'))"
proof (cases "q = p")
  case False
  then show ?thesis
    using same [of q "o' - 4"] by (cases "L q") (auto simp: live_def)
next
  case q: True
  consider "o' < 4" | "4 \<le> o'" "o' - 4 < span as" | "span as + 4 \<le> o'" "o' < span as + span mid + 4"
    | "span as + span mid + 4 \<le> o'" by linarith
  then show ?thesis
  proof cases
    case 1
    with q L show ?thesis by (simp add: live_def)
  next
    case 2
    have "(o' - 4, s, False) \<in> cells_at 0 (as @ c @ bs) \<longleftrightarrow> (o' - 4, s, False) \<in> cells_at 0 as" for s c
      using 2 by (simp add: cells_at_append cells_at_out)
    moreover have "o' < span as + 4" using 2 by linarith
    ultimately show ?thesis using q L 2 same [of p "o' - 4"] by (simp add: live_def)
  next
    case 3
    have "(o' - 4, s, False) \<in> cells_at 0 (as @ mid' @ bs) \<longleftrightarrow> (o' - 4, s, False) \<in> cells_at (span as) mid'" for s
      using 3 sp by (simp add: cells_at_append cells_at_out less_diff_conv2 le_diff_conv2)
    with q L 3 show ?thesis by (simp add: live_def)
  next
    case 4
    have "(o' - 4, s, False) \<in> cells_at 0 (as @ c @ bs) \<longleftrightarrow>
        (o' - 4, s, False) \<in> cells_at (span as + span mid) bs" if "span c = span mid" for s c
      using 4 that by (simp add: cells_at_append cells_at_out le_diff_conv2)
    moreover have "\<not> o' - 4 < span as + span mid" using 4 by linarith
    ultimately show ?thesis using sp q L 4 same [of p "o' - 4"] by (simp add: live_def)
  qed
qed

section \<open>Allocation\<close>

text \<open>A block that \<open>find_block\<close> returns is large enough and can be taken.\<close>

lemma found_block:
  assumes inv: "xv_inv pool m L" and sz: "sz \<le> 4092"
    and ff: "first_fit (\<lambda>i. i < 508 \<and> free_locs L i \<noteq> {}) (get_index sz) i" and x: "x \<in> free_locs L i"
  obtains p as s bs where "L p = Some (as @ (s, True) # bs)" "x = (p, span as)"
    "i = get_index_for_insert s" "32 \<le> s" "sz \<le> s"
proof -
  obtain p off where px: "x = (p, off)" by (cases x)
  with x obtain cs s where cs: "L p = Some cs" "(off, s, True) \<in> cells_at 0 cs" "32 \<le> s"
    "get_index_for_insert s = i"
    by (auto simp: free_locs_def free_cells_at_def)
  then obtain as bs where split: "cs = as @ (s, True) # bs" "off = 0 + span as"
    using cells_at_split by blast
  have "page_ok (heap_of m) p (as @ (s, True) # bs)"
    using xv_inv_page [OF inv cs(1)] split by simp
  then have "s \<le> 4092" using page_ok_cell(4) by fastforce
  with ff cs sz have "sz \<le> s" by (intro index_covers [of sz s]) (auto simp: first_fit_def)
  with that px cs split show thesis by simp
qed

lemma take_block_live:
  assumes inv: "xv_inv pool m L" and sz: "sz = ALIGN orig 4" "0 < orig" "sz \<le> 4092"
    and ff: "first_fit (\<lambda>i. i < 508 \<and> free_locs L i \<noteq> {}) (get_index sz) i"
    and x: "x = freelist pool ! i" "x \<in> free_locs L i"
    and take: "take_block x i sz orig (pool, heap_of m) = (pool', h')"
  shows "\<exists>L'. xv_inv pool' (m\<lparr>heap_of := h'\<rparr>) L' \<and> dom L' = dom L \<and> fst x \<in> dom L
    \<and> live m L (fst x, snd x + 4) = None
    \<and> live (m\<lparr>heap_of := h'\<rparr>) L' = (live m L)((fst x, snd x + 4) \<mapsto> orig)"
proof -
  from found_block [OF inv sz(3) ff x(2)]
  obtain p as s bs where b: "L p = Some (as @ (s, True) # bs)" "x = (p, span as)"
    "i = get_index_for_insert s" "32 \<le> s" "sz \<le> s" .
  let ?m' = "m\<lparr>heap_of := h'\<rparr>" and ?L' = "L(p \<mapsto> as @ take_cells s sz @ bs)"
  have ok: "page_ok (heap_of m) p (as @ (s, True) # bs)" using xv_inv_page [OF inv b(1)] by simp
  have sp: "span (take_cells s sz) = s + 4"
    using page_ok_cell(2) [OF ok] b(5) sz(1) by (simp add: span_take_cells ALIGN_dvd)
  note taken = take_block_ok [OF inv b(1,2) x(1) [symmetric] b(3,4) sz(1,2) b(5) take]
  have mid: "L p = Some (as @ [(s, True)] @ bs)" using b(1) by simp
  have rep: "live ?m' ?L' (q, o') =
      (if q = p \<and> span as + 4 \<le> o' \<and> o' < span as + s + 8
       then if \<exists>s'. (o' - 4, s', False) \<in> cells_at (span as) (take_cells s sz)
            then Some (bh_size (h' (p, o' - 4))) else None
       else live m L (q, o'))" for q o'
  proof -
    have "bh_size (heap_of ?m' (q, o')) = bh_size (heap_of m (q, o'))"
      if "\<not> (q = p \<and> span as \<le> o' \<and> o' < span as + span [(s, True)])" for q o'
      using taken that by auto
    from live_replace [where L = L and p = p and as = as and mid = "[(s, True)]" and bs = bs
        and m = m and m' = ?m' and mid' = "take_cells s sz" and q = q and o' = o', OF mid _ this] sp
    show ?thesis by (simp add: add_ac)
  qed
  have "live m L (p, o') = None" if "span as + 4 \<le> o'" "o' < span as + s + 8" for o'
  proof -
    have "(o' - 4, s', False) \<notin> cells_at 0 (as @ [(s, True)] @ bs)" for s'
      using that by (auto simp: cells_at_append dest!: cells_at_range)
    with b(1) show ?thesis by (simp add: live_def)
  qed
  note none = this
  have "live ?m' ?L' (q, o') = ((live m L)((p, span as + 4) \<mapsto> orig)) (q, o')" for q o'
  proof (cases "q = p \<and> span as + 4 \<le> o' \<and> o' < span as + s + 8")
    case True
    then have "live ?m' ?L' (q, o') = (if o' = span as + 4 then Some (bh_size (h' (p, span as))) else None)"
      unfolding rep by (auto simp: take_cells_def)
    with True taken none b(2) show ?thesis by auto
  next
    case False
    then have "live ?m' ?L' (q, o') = live m L (q, o')"
      unfolding rep by auto
    with False show ?thesis by auto
  qed
  then have "live ?m' ?L' = (live m L)((p, span as + 4) \<mapsto> orig)" by auto
  with taken none [of "span as + 4"] b(1,2) show ?thesis
    by (intro exI [of _ ?L']) auto
qed

lemma live_grow:
  assumes "L p = None"
    and "\<And>q o'. q \<noteq> p \<Longrightarrow> bh_size (heap_of m' (q, o')) = bh_size (heap_of m (q, o'))"
  shows "live m' (L(p \<mapsto> [(4092, True)])) = live m L"
proof
  fix x :: loc
  obtain q o' where "x = (q, o')" by (cases x)
  with assms show "live m' (L(p \<mapsto> [(4092, True)])) x = live m L x"
    by (cases "q = p"; cases "L q") (auto simp: live_def)
qed

text \<open>What \<open>xv_malloc\<close> does to the invariant and the objects, by its outcome.\<close>

definition malloc_post ::
  "nat \<Rightarrow> int \<Rightarrow> loc \<Rightarrow> xv_pool \<Rightarrow> kmem \<Rightarrow> layout \<Rightarrow> xv_pool \<Rightarrow> kmem \<Rightarrow> layout \<Rightarrow> bool" where
  "malloc_post size0 rc x pool m L pool' m' L' \<longleftrightarrow>
     xv_inv pool' m' L' \<and> data_of m' = data_of m
     \<and> dom L \<subseteq> dom L' \<and> used_pages m \<subseteq> used_pages m' \<and> used_pages m' - dom L' = used_pages m - dom L
     \<and> (if rc = 0
        then live m L x = None \<and> live m' L' = (live m L)(x \<mapsto> size0) \<and> dom L' = insert (fst x) (dom L)
        else rc = - ENOMEM \<and> live m' L' = live m L)"

lemma take_block_post:
  assumes inv: "xv_inv pool m L" and sz: "0 < size0" "size0 \<le> 4092"
    and ff: "first_fit (\<lambda>i. i < 508 \<and> free_locs L i \<noteq> {}) (get_index (ALIGN size0 4)) i"
    and x: "x = freelist pool ! i" "x \<in> free_locs L i"
    and take: "take_block x i (ALIGN size0 4) size0 (pool, heap_of m) = (pool', h')"
  shows "\<exists>L'. malloc_post size0 0 (fst x, snd x + 4) pool m L pool' (m\<lparr>heap_of := h'\<rparr>) L'"
proof -
  have "ALIGN size0 4 \<le> 4092" using sz by (simp add: ALIGN_def)
  from take_block_live [OF inv refl sz(1) this ff x take] obtain L' where
    "xv_inv pool' (m\<lparr>heap_of := h'\<rparr>) L'" "dom L' = dom L" "fst x \<in> dom L" "live m L (fst x, snd x + 4) = None"
    "live (m\<lparr>heap_of := h'\<rparr>) L' = (live m L)((fst x, snd x + 4) \<mapsto> size0)" by blast
  then show ?thesis by (intro exI [of _ L']) (simp add: malloc_post_def insert_absorb)
qed

lemma malloc_post_grow:
  assumes inv: "xv_inv pool m L" and src: "fresh_page_source src" "src m = Some p"
    and grow: "grow_pool src (pool, m) = (e, pool1, m1)"
    and post: "malloc_post size0 rc x pool1 m1 (L(p \<mapsto> [(4092, True)])) pool' m' L'"
    and x: "rc = 0 \<Longrightarrow> fst x = p"
  shows "malloc_post size0 rc x pool m L pool' m' L'"
proof -
  note g = grow_pool_ok [OF inv src grow] and p = fresh_page [OF src inv]
  have "live m1 (L(p \<mapsto> [(4092, True)])) = live m L"
    using g p by (intro live_grow) auto
  then show ?thesis
    using post g p x by (cases "rc = 0") (auto simp: malloc_post_def)
qed

lemma malloc_post_refl: "xv_inv pool m L \<Longrightarrow> malloc_post size0 (- ENOMEM) x pool m L pool m L"
  by (simp add: malloc_post_def ENOMEM_def)

lemma xv_malloc_post:
  assumes inv: "xv_inv pool m L" and src: "fresh_page_source src"
    and res: "xv_malloc src size0 (pool, m) = ((rc, x), pool', m')"
  shows "(\<exists>L'. malloc_post size0 rc x pool m L pool' m' L')
    \<and> (0 < size0 \<and> size0 \<le> 4088 \<and> src m \<noteq> None \<longrightarrow> rc = 0)
    \<and> (rc \<noteq> 0 \<longrightarrow> x = (0, 0) \<and> (size0 \<le> 4088 \<longrightarrow> pool' = pool \<and> m' = m))"
proof (cases "size0 = 0 \<or> size0 > 4092")
  case True
  with res malloc_post_refl [OF inv] show ?thesis by (auto simp: xv_malloc_def xv_vals)
next
  case False
  then have ok: "0 < size0" "size0 \<le> 4092" by auto
  let ?sz = "ALIGN size0 4"
  have sz: "?sz \<le> 4092" "size0 \<le> 4088 \<Longrightarrow> ?sz \<le> 4088" using ok by (simp_all add: ALIGN_def)
  have fl: "fl_inv pool (heap_of m) (free_locs L)" using inv by (simp add: xv_inv_def)
  obtain i y where f: "find_block pool ?sz (0, 0) = (i, y)" by (meson surj_pair)
  show ?thesis
  proof (cases "fst y = 0")
    case False
    with find_block_cases [OF fl sz(1) f] have ff:
      "first_fit (\<lambda>i. i < 508 \<and> free_locs L i \<noteq> {}) (get_index ?sz) i" "y = freelist pool ! i" "y \<in> free_locs L i"
      by auto
    obtain pool1 h1 where t: "take_block y i ?sz size0 (pool, heap_of m) = (pool1, h1)" by fastforce
    have "rc = 0" "x = (fst y, snd y + 4)" "pool' = pool1" "m' = m\<lparr>heap_of := h1\<rparr>"
      using res ok f False t by (auto simp: xv_malloc_def xv_vals)
    with take_block_post [OF inv ok ff t] show ?thesis by auto
  next
    case y0: True
    then have none: "y = (0, 0)" "\<And>k. get_index ?sz \<le> k \<Longrightarrow> k < 508 \<Longrightarrow> free_locs L k = {}"
      using find_block_cases [OF fl sz(1) f] by auto
    show ?thesis
    proof (cases "src m")
      case None
      then have "rc = - ENOMEM" "x = (0, 0)" "pool' = pool" "m' = m"
        using res ok f none by (auto simp: xv_malloc_def xv_vals grow_pool_def ENOMEM_def)
      with None malloc_post_refl [OF inv, of size0 x] show ?thesis by auto
    next
      case (Some p)
      obtain e pool1 m1 where g: "grow_pool src (pool, m) = (e, pool1, m1)" by (metis prod_cases3)
      let ?L1 = "L(p \<mapsto> [(4092, True)])"
      have e: "e = 0" and inv1: "xv_inv pool1 m1 ?L1"
        using grow_pool_ok [OF inv src Some g] by auto
      have fl1: "fl_inv pool1 (heap_of m1) (free_locs ?L1)" using inv1 by (simp add: xv_inv_def)
      obtain i1 z where f1: "find_block pool1 ?sz (0, 0) = (i1, z)" by (meson surj_pair)
      note z = find_block_cases [OF fl1 sz(1) f1]
      show ?thesis
      proof (cases "fst z = 0")
        case True
        have "\<not> size0 \<le> 4088"
        proof
          assume "size0 \<le> 4088"
          then have "get_index ?sz \<le> 507" using sz(2) by (simp add: get_index_eq)
          moreover have "(p, 0) \<in> free_locs ?L1 507"
            by (simp add: free_locs_def free_cells_at_def get_index_for_insert_eq)
          ultimately show False using z True by auto
        qed
        moreover have "rc = - ENOMEM" "x = (0, 0)" "pool' = pool1" "m' = m1"
          using res ok f none g e f1 True z by (auto simp: xv_malloc_def xv_vals)
        ultimately show ?thesis
          using malloc_post_grow [OF inv src Some g malloc_post_refl [OF inv1, of size0 x]]
          by (auto simp: ENOMEM_def)
      next
        case False
        with z have ff: "first_fit (\<lambda>i. i < 508 \<and> free_locs ?L1 i \<noteq> {}) (get_index ?sz) i1"
          "z = freelist pool1 ! i1" "z \<in> free_locs ?L1 i1" by auto
        obtain pool2 h2 where t: "take_block z i1 ?sz size0 (pool1, heap_of m1) = (pool2, h2)" by fastforce
        have "rc = 0" "x = (fst z, snd z + 4)" "pool' = pool2" "m' = m1\<lparr>heap_of := h2\<rparr>"
          using res ok f none g e f1 False t by (auto simp: xv_malloc_def xv_vals)
        moreover have "fst z = p"
        proof -
          have "free_locs L i1 = {}" using none(2) ff(1) by (auto simp: first_fit_def)
          with ff(3) fresh_page [OF src Some inv] show ?thesis
            by (cases z) (auto simp: free_locs_new_page split: if_splits)
        qed
        ultimately show ?thesis
          using take_block_post [OF inv1 ok ff t] malloc_post_grow [OF inv src Some g] by (metis fst_conv)
      qed
    qed
  qed
qed

end
