(* ===== verification/Xv_Free_Correct.thy ===== *)
theory Xv_Free_Correct
  imports Xv_Malloc_Correct
begin

text \<open>
  Correctness of \<open>xv_free\<close>: the freed block is merged with its free neighbours, a page that
  becomes empty goes back to the kernel, and exactly the freed object disappears.
\<close>

section \<open>Merging with the neighbours\<close>

fun free_head :: "cell list \<Rightarrow> cell list" where
  "free_head ((s, True) # cs) = [(s, True)]"
| "free_head cs = []"

lemma free_head_split: "\<exists>cs'. cs = free_head cs @ cs'"
  by (cases cs rule: free_head.cases) auto

definition free_last :: "cell list \<Rightarrow> cell list" where
  "free_last cs = (if cs \<noteq> [] \<and> snd (last cs) then [last cs] else [])"

lemma free_last_split: "\<exists>cs'. cs = cs' @ free_last cs"
  by (auto simp: free_last_def intro: exI [of _ "butlast cs"])

lemma set_size_same: "bh_size b = n \<Longrightarrow> n < 65536 \<Longrightarrow> set_size n b = b"
  by (simp add: set_size_def)

lemma same_hdrs_upd_size:
  assumes "same_hdrs h h'"
  shows "same_hdrs (upd_block x (set_size n) h) (upd_block x (set_size n) h')"
  using assms by (auto simp: same_hdrs_def upd_block_def set_size_def)

lemma fl_inv_set_size: "fl_inv pool h S \<Longrightarrow> fl_inv pool (upd_block x (set_size n) h) S"
  by (erule fl_inv_headers) (auto simp: header_simps)

lemma merge_next_ok:
  assumes fl: "fl_inv pool h S" and s: "bh_size (h (p, off)) = s" "off + s + 4 + span bs = 4096"
    and seg: "seg h p (off + s + 4) (False, off) bs"
    and S: "\<And>j. free_cells_at p (off + s + 4) bs j \<subseteq> S j"
    and res: "merge_next (p, off) (pool, h) = (pool', h')"
  shows "fl_inv pool' h' (\<lambda>j. S j - free_cells_at p (off + s + 4) (free_head bs) j)
    \<and> same_hdrs (upd_block (p, off) (set_size (s + span (free_head bs))) h) h'
    \<and> total_pages pool' = total_pages pool"
proof -
  let ?t = "off + s + 4"
  have BN: "BLOCK_NEXT h p off = ?t" using s by (simp add: BLOCK_NEXT_def XV_ALIGN_def)
  have small: "s < 65536" using s(2) by linarith
  consider "bs = []" | s2 bs' where "bs = (s2, False) # bs'" | s2 bs' where "bs = (s2, True) # bs'"
    by (metis (full_types) list.exhaust surj_pair)
  then show ?thesis
  proof cases
    case 1
    with res s fl small show ?thesis
      by (simp add: merge_next_def Let_def xv_vals upd_block_def set_size_same)
  next
    case 2
    with seg have "\<not> test_flag (h (p, ?t)) BLOCK_FREE" by (simp add: cell_ok_def)
    with res s fl small 2 BN show ?thesis
      by (simp add: merge_next_def Let_def xv_vals upd_block_def set_size_same)
  next
    case 3
    with seg have t: "test_flag (h (p, ?t)) BLOCK_FREE" "bh_size (h (p, ?t)) = s2" by (simp_all add: cell_ok_def)
    have s2: "s2 \<le> 4092" "off + s + 4 \<noteq> 4096" using s(2) 3 by simp_all
    obtain pool1 h1 where rem: "(if XV_MIN_ALLOC_SIZE \<le> bh_size (h (p, ?t))
      then remove_block (p, ?t) (p, ?t) (get_index_for_insert (bh_size (h (p, ?t)))) (pool, h)
      else (pool, h)) = (pool1, h1)" by fastforce
    have "32 \<le> s2 \<Longrightarrow> (p, ?t) \<in> S (get_index_for_insert s2)"
      using S [of "get_index_for_insert s2"] 3 by auto
    note r = remove_if_large_inv [OF fl rem t(2) s2(1) this]
    then have hd: "same_hdrs h h1" by simp
    have "merge_next (p, off) (pool, h) =
      (case (if XV_MIN_ALLOC_SIZE \<le> bh_size (h (p, ?t))
         then remove_block (p, ?t) (p, ?t) (get_index_for_insert (bh_size (h (p, ?t)))) (pool, h)
         else (pool, h)) of
       (pool, h) \<Rightarrow> (pool, upd_block (p, off) (set_size (bh_size (h (p, off)) + bh_size (h (p, ?t)) + 4)) h))"
      using t(1) s(1) s2(2) by (simp add: merge_next_def Let_def BN XV_ALIGN_def PAGE_SIZE_def)
    then have "merge_next (p, off) (pool, h) = (pool1, upd_block (p, off) (set_size (s + s2 + 4)) h1)"
      unfolding rem by (simp add: same_hdrs_read [OF hd] s t)
    with res have "pool' = pool1" "h' = upd_block (p, off) (set_size (s + s2 + 4)) h1" by simp_all
    with r 3 show ?thesis
      by (simp add: same_hdrs_upd_size fl_inv_set_size add.assoc)
  qed
qed

lemma merge_prev_ok:
  assumes fl: "fl_inv pool h S" and s: "bh_size (h (p, off)) = s" "off + s + 4 \<le> 4096"
    and off: "off = span as + span pre"
    and pre: "pre = [] \<and> \<not> test_flag (h (p, off)) PREV_FREE
      \<or> (\<exists>s0. pre = [(s0, True)] \<and> test_flag (h (p, off)) PREV_FREE
           \<and> get_blockprev (h (p, off)) = span as \<and> bh_size (h (p, span as)) = s0)"
    and S: "\<And>j. free_cells_at p (span as) pre j \<subseteq> S j"
    and res: "merge_prev (p, off) (pool, h) = (x, block, pool', h')"
  shows "x = (p, span as) \<and> block = x
    \<and> fl_inv pool' h' (\<lambda>j. S j - free_cells_at p (span as) pre j)
    \<and> same_hdrs (upd_block x (set_size (span pre + s)) h) h'
    \<and> total_pages pool' = total_pages pool"
  using pre
proof (elim disjE conjE exE)
  assume "pre = []" "\<not> test_flag (h (p, off)) PREV_FREE"
  with res fl off s show ?thesis
    by (auto simp: merge_prev_def Let_def upd_block_def set_size_same)
next
  fix s0
  assume P: "pre = [(s0, True)]" "test_flag (h (p, off)) PREV_FREE"
    "get_blockprev (h (p, off)) = span as" "bh_size (h (p, span as)) = s0"
  have s0: "s0 \<le> 4092" using s(2) off P(1) by simp
  let ?x = "(p, span as)"
  obtain pool1 h1 where rem: "(if XV_MIN_ALLOC_SIZE \<le> bh_size (h ?x)
    then remove_block ?x ?x (get_index_for_insert (bh_size (h ?x))) (pool, h)
    else (pool, h)) = (pool1, h1)" by fastforce
  have "32 \<le> s0 \<Longrightarrow> ?x \<in> S (get_index_for_insert s0)"
    using S [of "get_index_for_insert s0"] P(1) by auto
  note r = remove_if_large_inv [OF fl rem P(4) s0 this]
  then have hd: "same_hdrs h h1" by simp
  have "sub32 (sub32 off s0) 4 = span as" using off P(1) s(2) by simp
  then have "merge_prev (p, off) (pool, h) =
    (case (if XV_MIN_ALLOC_SIZE \<le> bh_size (h ?x)
       then remove_block ?x ?x (get_index_for_insert (bh_size (h ?x))) (pool, h) else (pool, h)) of
     (pool, h) \<Rightarrow> (?x, ?x, pool, upd_block ?x (set_size (bh_size (h ?x) + bh_size (h (p, off)) + 4)) h))"
    using P by (simp add: merge_prev_def Let_def XV_ALIGN_def split: prod.split)
  then have "merge_prev (p, off) (pool, h) = (?x, ?x, pool1, upd_block ?x (set_size (s0 + s + 4)) h1)"
    unfolding rem by (simp add: same_hdrs_read [OF hd] s P(4))
  with res have "x = ?x" "block = ?x" "pool' = pool1" "h' = upd_block ?x (set_size (s0 + s + 4)) h1"
    by auto
  with r P(1) show ?thesis
    by (simp add: same_hdrs_upd_size fl_inv_set_size add_ac)
qed

section \<open>The layout after a free\<close>

text \<open>
  A page without the block at \<open>span as\<close>: it and its free neighbours become one free block;
  a page that is one free block is given up.
\<close>

definition free_cells :: "cell list \<Rightarrow> nat \<Rightarrow> cell list \<Rightarrow> cell list" where
  "free_cells as s bs =
     take (length as - length (free_last as)) as
     @ (span (free_last as) + s + span (free_head bs), True) # drop (length (free_head bs)) bs"

lemma free_cells_eq:
  "as = as1 @ free_last as \<Longrightarrow> bs = free_head bs @ bs1 \<Longrightarrow>
     free_cells as s bs = as1 @ (span (free_last as) + s + span (free_head bs), True) # bs1"
  unfolding free_cells_def by (metis append_eq_conv_conj length_append add_diff_cancel_right')

lemma pf_not_free:
  assumes "seg h p 0 (False, 0) (as1 @ (s0, True) # cs)"
  shows "\<not> fst (end_pf 0 (False, 0) as1)"
  using assms by (auto simp: seg_append cell_ok_def)

lemma end_pf_snoc: "fst (end_pf off pf as) \<longleftrightarrow> (if as = [] then fst pf else snd (last as))"
  by (simp add: end_pf_nonempty)

text \<open>What the headers say of the block before.\<close>

lemma block_before:
  assumes ok: "page_ok h p (as @ (s, False) # bs)" and as: "as = as1 @ free_last as"
  shows "free_last as = [] \<and> \<not> test_flag (h (p, span as)) PREV_FREE
      \<or> (\<exists>s0. free_last as = [(s0, True)] \<and> test_flag (h (p, span as)) PREV_FREE
           \<and> get_blockprev (h (p, span as)) = span as1 \<and> bh_size (h (p, span as1)) = s0)"
    and "\<not> fst (end_pf 0 (False, 0) as1)"
    and "\<not> test_flag (h (p, span as1)) PREV_FREE"
proof -
  note c = page_ok_cell(1) [OF ok]
  show b: "free_last as = [] \<and> \<not> test_flag (h (p, span as)) PREV_FREE
      \<or> (\<exists>s0. free_last as = [(s0, True)] \<and> test_flag (h (p, span as)) PREV_FREE
           \<and> get_blockprev (h (p, span as)) = span as1 \<and> bh_size (h (p, span as1)) = s0)"
  proof (cases "as \<noteq> [] \<and> snd (last as)")
    case True
    then obtain s0 where l: "free_last as = [(s0, True)]"
      unfolding free_last_def by (metis prod.collapse)
    have as1: "as = as1 @ [(s0, True)]" using as l by simp
    have "seg h p 0 (False, 0) (as1 @ (s0, True) # (s, False) # bs)"
      using ok as1 by (simp add: page_ok_def)
    then have "bh_size (h (p, span as1)) = s0"
      by (simp add: seg_append cell_ok_def)
    moreover have "end_pf 0 (False, 0) as = (True, span as1)"
      by (subst as1) (simp add: end_pf_append)
    ultimately show ?thesis using c l by (simp add: cell_ok_def)
  next
    case False
    then have "free_last as = []" "\<not> fst (end_pf 0 (False, 0) as)"
      by (auto simp: free_last_def end_pf_snoc)
    with c show ?thesis by (simp add: cell_ok_def)
  qed
  show "\<not> fst (end_pf 0 (False, 0) as1)"
  proof (cases "free_last as = []")
    case True
    with as have "as1 = as" by simp
    with b True c show ?thesis by (simp add: cell_ok_def)
  next
    case False
    with b obtain s0 where "free_last as = [(s0, True)]" by blast
    with as have "as @ (s, False) # bs = as1 @ (s0, True) # (s, False) # bs" by simp
    with ok have "seg h p 0 (False, 0) (as1 @ (s0, True) # (s, False) # bs)"
      by (simp add: page_ok_def)
    then show ?thesis by (rule pf_not_free)
  qed
  then show "\<not> test_flag (h (p, span as1)) PREV_FREE"
  proof (cases "free_last as = []")
    case True
    with as have "as1 = as" by simp
    with b True show ?thesis by simp
  next
    case False
    with b obtain s0 where "free_last as = [(s0, True)]" by blast
    with as have "as @ (s, False) # bs = as1 @ (s0, True) # (s, False) # bs" by simp
    with ok \<open>\<not> fst (end_pf 0 (False, 0) as1)\<close> show ?thesis
      by (auto simp: page_ok_def seg_append cell_ok_def)
  qed
qed

text \<open>The block behind the merged one is in use.\<close>

lemma block_after:
  assumes ok: "page_ok h p (as @ (s, False) # bs)" and bs: "bs = free_head bs @ (s4, f4) # bs'"
  shows "\<not> f4" "ALIGN (bh_size (h (p, span as + s + 4 + span (free_head bs)))) 4 = s4"
    "0 < bh_size (h (p, span as + s + 4 + span (free_head bs)))"
    "\<not> test_flag (h (p, span as + s + 4 + span (free_head bs))) BLOCK_FREE"
proof -
  have "seg h p (span as + s + 4) (False, span as) (free_head bs @ (s4, f4) # bs')"
    using ok bs by (simp add: page_ok_def seg_append)
  then have c: "cell_ok (h (p, span as + s + 4 + span (free_head bs)))
      (end_pf (span as + s + 4) (False, span as) (free_head bs)) s4 f4"
    by (simp add: seg_append)
  show f: "\<not> f4"
  proof (cases "free_head bs = []")
    case True
    with bs have "free_head ((s4, f4) # bs') = []" by simp
    then show ?thesis by (cases f4) simp_all
  next
    case False
    then obtain s2 cs where "bs = (s2, True) # cs" by (cases bs rule: free_head.cases) auto
    with c show ?thesis by (simp add: cell_ok_def)
  qed
  with c show "ALIGN (bh_size (h (p, span as + s + 4 + span (free_head bs)))) 4 = s4"
    "0 < bh_size (h (p, span as + s + 4 + span (free_head bs)))"
    "\<not> test_flag (h (p, span as + s + 4 + span (free_head bs))) BLOCK_FREE"
    by (simp_all add: cell_ok_def)
qed

section \<open>Freeing an object\<close>

lemma xv_inv_remove_page:
  assumes inv: "xv_inv pool m L" and L: "L p = Some cs"
    and hd: "\<And>q o'. q \<noteq> p \<Longrightarrow> bh_size (h' (q, o')) = bh_size (heap_of m (q, o'))
      \<and> bh_prev (h' (q, o')) = bh_prev (heap_of m (q, o'))"
    and fl: "fl_inv pool' h' (free_locs (L(p := None)))"
    and tp: "total_pages pool' = total_pages pool - 1"
  shows "xv_inv pool' (free_page p (m\<lparr>heap_of := h'\<rparr>)) (L(p := None))"
proof -
  have "q \<noteq> 0 \<and> q \<in> used_pages m - {p} \<and> page_ok h' q cq" if that: "(L(p := None)) q = Some cq" for q cq
  proof -
    from that have ne: "q \<noteq> p" and "L q = Some cq" by (auto split: if_splits)
    note q = xv_inv_page [OF inv this(2)]
    have "page_ok h' q cq"
      using hd [OF ne] by (intro page_ok_other [of "heap_of m" q cq h']) (use q in simp_all)
    with q ne show ?thesis by simp
  qed
  moreover have "total_pages pool' = of_nat (card (dom (L(p := None))))"
  proof -
    have "p \<in> dom L" "finite (dom L)" using inv L by (auto simp: xv_inv_def)
    then have "card (dom L) = Suc (card (dom L - {p}))" by (metis card.remove)
    then show ?thesis using inv tp by (simp add: xv_inv_def)
  qed
  ultimately show ?thesis using inv fl by (simp add: xv_inv_def free_page_def)
qed

lemma free_cells_subset: "L p = Some cs \<Longrightarrow> free_cells_at p 0 cs j \<subseteq> free_locs L j"
  by (auto simp: free_locs_def free_cells_at_def)

text \<open>The headers after both merges, and what \<open>xv_free\<close> does next.\<close>

lemma xv_free_merged:
  assumes inv: "xv_inv pool m L" and L: "L p = Some (as @ (s, False) # bs)"
    and as: "as = as1 @ free_last as" and bs: "bs = free_head bs @ bs1"
  obtains pool2 h2 where
    "xv_free (p, span as + 4) (pool, m) =
      (if bh_size (h2 (p, span as1)) = 4092
       then Some (pool2\<lparr>total_pages := total_pages pool2 - 1\<rparr>, free_page p (m\<lparr>heap_of := h2\<rparr>))
       else let h = upd_block (p, span as1) (set_flag BLOCK_FREE) h2;
                (pool, h) = (if XV_MIN_ALLOC_SIZE \<le> bh_size (h (p, span as1))
                             then insert_block (p, span as1) (p, span as1) (pool2, h) else (pool2, h));
                h = (if span as1 + bh_size (h (p, span as1)) + 4 \<noteq> 4096
                     then let n = (p, BLOCK_NEXT h p (span as1))
                          in upd_block n (set_blockprev (span as1)) (upd_block n (set_flag PREV_FREE) h)
                     else h)
            in Some (pool, m\<lparr>heap_of := h\<rparr>))"
    "fl_inv pool2 h2 (\<lambda>j. free_locs L j
       - free_cells_at p (span as1) (free_last as @ [(s, False)] @ free_head bs) j)"
    "bh_size (h2 (p, span as1)) = span (free_last as) + s + span (free_head bs)"
    "\<And>y. bh_prev (h2 y) = bh_prev (heap_of m y)"
    "\<And>y. y \<noteq> (p, span as1) \<Longrightarrow> y \<noteq> (p, span as) \<Longrightarrow> bh_size (h2 y) = bh_size (heap_of m y)"
    "total_pages pool2 = total_pages pool"
proof -
  let ?h = "heap_of m" and ?S = "free_locs L" and ?x = "(p, span as)" and ?b = "(p, span as1)"
  let ?s1 = "s + span (free_head bs)" and ?s3 = "span (free_last as) + s + span (free_head bs)"
  have ok: "page_ok ?h p (as @ (s, False) # bs)" using xv_inv_page [OF inv L] by simp
  note cell = page_ok_cell [OF ok]
  have sp: "span as = span as1 + span (free_last as)" "span bs = span (free_head bs) + span bs1"
    using arg_cong [OF as, of span] arg_cong [OF bs, of span] by simp_all
  define h0 where "h0 = upd_block ?x (\<lambda>b. set_size (ALIGN (bh_size b) 4) b) ?h"
  have h0: "bh_size (h0 ?x) = s" "\<And>y. bh_prev (h0 y) = bh_prev (?h y)"
    "\<And>y. y \<noteq> ?x \<Longrightarrow> bh_size (h0 y) = bh_size (?h y)"
    using cell by (simp_all add: h0_def upd_block_def cell_ok_def set_size_def)
  have fl0: "fl_inv pool h0 ?S"
    using inv unfolding xv_inv_def h0_def
    by (auto intro!: fl_inv_headers [of pool ?h ?S] simp: header_simps)
  have seg0: "seg h0 p (span as + s + 4) (False, span as) bs"
  proof -
    have "same_headers ?h h0 p (span as + s + 4) (span as + s + 4 + span bs)"
      using h0 by (simp add: same_headers_def)
    moreover have "seg ?h p (span as + s + 4) (False, span as) bs"
      using ok by (simp add: page_ok_def seg_append)
    ultimately show ?thesis by (simp add: seg_frame)
  qed
  have Sbs: "free_cells_at p (span as + s + 4) bs j \<subseteq> ?S j" for j
    using free_cells_subset [of L p, OF L] by (auto simp: free_cells_at_append)
  obtain pool1 h1 where mn: "merge_next ?x (pool, h0) = (pool1, h1)" by fastforce
  note r1 = merge_next_ok [OF fl0 h0(1) cell(4) seg0 Sbs mn]
  then have hd1: "same_hdrs (upd_block ?x (set_size ?s1) h0) h1" by simp
  note rd1 = same_hdrs_read [OF hd1]
  have lim: "?s1 < 65536" "?s3 < 65536" using cell(4) sp by linarith+
  have h1: "bh_size (h1 ?x) = ?s1" "\<And>y. bh_prev (h1 y) = bh_prev (?h y)"
    "\<And>y. y \<noteq> ?x \<Longrightarrow> bh_size (h1 y) = bh_size (?h y)"
    using h0 lim by (simp_all add: rd1 upd_block_def set_size_def)
  have fl_eq: "test_flag (h1 y) f = test_flag (?h y) f" "get_blockprev (h1 y) = get_blockprev (?h y)" for y f
    by (simp_all add: test_flag_def get_blockprev_def h1)
  have Sas: "free_cells_at p (span as1) (free_last as) j \<subseteq>
      ?S j - free_cells_at p (span as + s + 4) (free_head bs) j" for j
  proof -
    have "free_cells_at p (span as1) (free_last as) j \<subseteq> free_cells_at p 0 as j"
      by (subst (2) as) (simp add: free_cells_at_append)
    also have "\<dots> \<subseteq> ?S j" using free_cells_subset [of L p, OF L] by (auto simp: free_cells_at_append)
    finally have "free_cells_at p (span as1) (free_last as) j \<subseteq> ?S j" .
    moreover have "free_cells_at p (span as1) (free_last as) j
        \<inter> free_cells_at p (span as + s + 4) (free_head bs) j = {}"
      using sp by (auto dest!: free_cells_at_range)
    ultimately show ?thesis by blast
  qed
  obtain y b pool2 h2 where mp: "merge_prev ?x (pool1, h1) = (y, b, pool2, h2)" by (metis prod_cases4)
  have before: "free_last as = [] \<and> \<not> test_flag (h1 ?x) PREV_FREE
      \<or> (\<exists>s0. free_last as = [(s0, True)] \<and> test_flag (h1 ?x) PREV_FREE
           \<and> get_blockprev (h1 ?x) = span as1 \<and> bh_size (h1 ?b) = s0)"
    using block_before(1) [OF ok as] sp(1) by (auto simp: fl_eq h1)
  have lim1: "span as + ?s1 + 4 \<le> 4096" using cell(4) sp by linarith
  note r2 = merge_prev_ok [OF conjunct1 [OF r1] h1(1) lim1 sp(1) before Sas mp]
  then have yb: "y = ?b" "b = ?b" and hd2: "same_hdrs (upd_block ?b (set_size (span (free_last as) + ?s1)) h1) h2"
    by auto
  note rd2 = same_hdrs_read [OF hd2]
  have h2: "bh_size (h2 ?b) = ?s3" "\<And>y. bh_prev (h2 y) = bh_prev (?h y)"
    "\<And>y. y \<noteq> ?b \<Longrightarrow> y \<noteq> ?x \<Longrightarrow> bh_size (h2 y) = bh_size (?h y)"
    using h1 lim by (simp_all add: rd2 upd_block_def set_size_def add.assoc)
  have fl2: "fl_inv pool2 h2 (\<lambda>j. ?S j
       - free_cells_at p (span as1) (free_last as @ [(s, False)] @ free_head bs) j)"
  proof -
    have "(\<lambda>j. ?S j - free_cells_at p (span as1) (free_last as @ [(s, False)] @ free_head bs) j) =
      (\<lambda>j. ?S j - free_cells_at p (span as + s + 4) (free_head bs) j - free_cells_at p (span as1) (free_last as) j)"
      using sp by (auto simp: fun_eq_iff free_cells_at_append add_ac)
    with r2 show ?thesis by simp
  qed
  have used: "\<not> test_flag (?h ?x) BLOCK_FREE" using cell(1) by (simp add: cell_ok_def)
  have "sub32 (span as + 4) 4 = span as" using cell(4) by simp
  then have "xv_free (p, span as + 4) (pool, m) =
      (if bh_size (h2 (p, span as1)) = 4092
       then Some (pool2\<lparr>total_pages := total_pages pool2 - 1\<rparr>, free_page p (m\<lparr>heap_of := h2\<rparr>))
       else let h = upd_block (p, span as1) (set_flag BLOCK_FREE) h2;
                (pool, h) = (if XV_MIN_ALLOC_SIZE \<le> bh_size (h (p, span as1))
                             then insert_block (p, span as1) (p, span as1) (pool2, h) else (pool2, h));
                h = (if span as1 + bh_size (h (p, span as1)) + 4 \<noteq> 4096
                     then let n = (p, BLOCK_NEXT h p (span as1))
                          in upd_block n (set_blockprev (span as1)) (upd_block n (set_flag PREV_FREE) h)
                     else h)
            in Some (pool, m\<lparr>heap_of := h\<rparr>))"
    using used mn mp unfolding h0_def
    by (simp add: xv_free_def XV_ALIGN_def PAGE_SIZE_def Let_def yb split: prod.split)
  from this fl2 h2 show thesis
    by (rule that) (use r1 r2 in simp_all)
qed

lemma no_used_cells:
  "(o', s', False) \<notin> cells_at off (free_last as)" "(o', s', False) \<notin> cells_at off (free_head bs)"
proof -
  show "(o', s', False) \<notin> cells_at off (free_last as)"
    by (cases "last as") (simp add: free_last_def)
  show "(o', s', False) \<notin> cells_at off (free_head bs)"
    by (cases bs rule: free_head.cases) auto
qed

lemma live_block_only:
  assumes L: "L p = Some (as1 @ (free_last as @ [(s, False)] @ free_head bs) @ bs1)"
    and o': "span as1 + 4 \<le> o'" "o' < span as1 + (span (free_last as) + s + span (free_head bs)) + 8"
    and ne: "o' \<noteq> span as1 + span (free_last as) + 4"
  shows "live m L (p, o') = None"
proof -
  have "(o' - 4, s', False) \<notin> cells_at 0 (as1 @ (free_last as @ [(s, False)] @ free_head bs) @ bs1)" for s'
    using o' ne by (simp add: cells_at_append no_used_cells) (auto dest!: cells_at_range)
  with L show ?thesis by (simp add: live_def)
qed

definition free_post ::
  "loc \<Rightarrow> xv_pool \<Rightarrow> kmem \<Rightarrow> layout \<Rightarrow> xv_pool \<Rightarrow> kmem \<Rightarrow> layout \<Rightarrow> bool" where
  "free_post x pool m L pool' m' L' \<longleftrightarrow>
     xv_inv pool' m' L' \<and> data_of m' = data_of m
     \<and> dom L' \<subseteq> dom L \<and> used_pages m' \<subseteq> used_pages m \<and> used_pages m' - dom L' = used_pages m - dom L
     \<and> live m' L' = (live m L)(x := None)
     \<and> dom L - {fst x} \<subseteq> dom L' \<and> (fst x \<in> dom L' \<longrightarrow> (\<exists>o'. live m' L' (fst x, o') \<noteq> None))"

lemma xv_free_page:
  assumes inv: "xv_inv pool m L" and L: "L p = Some (free_last as @ [(s, False)] @ free_head bs)"
    and off: "off = span (free_last as) + 4"
    and fl: "fl_inv pool2 h2 (\<lambda>j. free_locs L j
       - free_cells_at p 0 (free_last as @ [(s, False)] @ free_head bs) j)"
    and hd: "\<And>y. bh_prev (h2 y) = bh_prev (heap_of m y)"
      "\<And>q o'. q \<noteq> p \<Longrightarrow> bh_size (h2 (q, o')) = bh_size (heap_of m (q, o'))"
    and tp: "total_pages pool2 = total_pages pool"
    and sp: "span (free_last as) + s + span (free_head bs) = 4092"
  shows "free_post (p, off) pool m L (pool2\<lparr>total_pages := total_pages pool2 - 1\<rparr>)
    (free_page p (m\<lparr>heap_of := h2\<rparr>)) (L(p := None))"
proof -
  let ?m' = "free_page p (m\<lparr>heap_of := h2\<rparr>)" and ?L' = "L(p := None)"
  let ?pool' = "pool2\<lparr>total_pages := total_pages pool2 - 1\<rparr>"
  have "(\<lambda>j. free_locs L j - free_cells_at p 0 (free_last as @ [(s, False)] @ free_head bs) j) = free_locs ?L'"
    using free_locs_del_page [of L p, OF L] by (simp add: fun_eq_iff)
  with fl have "fl_inv ?pool' h2 (free_locs ?L')" by (simp add: fl_inv_total_pages)
  then have inv': "xv_inv ?pool' ?m' ?L'"
    using hd tp by (intro xv_inv_remove_page [OF inv L]) simp_all
  have "live ?m' ?L' (q, o') = ((live m L)((p, off) := None)) (q, o')" for q o'
  proof (cases "q = p")
    case True
    have "live m L (p, o') = None" if "o' \<noteq> off"
    proof (cases "4 \<le> o' \<and> o' < 4100")
      case True
      with live_block_only [of L p "[]" as s bs "[]" o' m] L that off sp show ?thesis by simp
    next
      case False
      have "(o' - 4, s', False) \<notin> cells_at 0 (free_last as @ [(s, False)] @ free_head bs)" if "4 \<le> o'" for s'
        using False that sp by (intro cells_at_out) auto
      with L show ?thesis by (auto simp: live_def)
    qed
    with True show ?thesis by (simp add: live_def)
  next
    case False
    with hd show ?thesis by (cases "L q") (auto simp: live_def free_page_def)
  qed
  then have "live ?m' ?L' = (live m L)((p, off) := None)" by auto
  moreover have "p \<in> used_pages m" using xv_inv_page [OF inv L] by simp
  ultimately show ?thesis
    using inv' L by (auto simp: free_post_def free_page_def)
qed

text \<open>A page that keeps blocks besides a free one keeps a live object.\<close>

lemma live_neighbour:
  assumes L: "L p = Some (as1 @ [(s3, True)] @ bs1)"
    and as1: "\<not> fst (end_pf 0 (False, 0) as1)" and bs1: "\<And>s4 f4 bs'. bs1 = (s4, f4) # bs' \<Longrightarrow> \<not> f4"
    and ne: "as1 \<noteq> [] \<or> bs1 \<noteq> []"
  shows "\<exists>o'. live m L (p, o') \<noteq> None"
proof (cases "as1 = []")
  case True
  with ne obtain s4 bs' where "bs1 = (s4, False) # bs'"
    using bs1 by (cases bs1) auto
  with L True have "live m L (p, s3 + 8) \<noteq> None" by (auto simp: live_def)
  then show ?thesis by blast
next
  case False
  then obtain s4 where "as1 = butlast as1 @ [(s4, False)]"
    using as1 by (auto simp: end_pf_snoc) (metis append_butlast_last_id prod.collapse)
  then have "(span (butlast as1), s4, False) \<in> cells_at 0 (as1 @ [(s3, True)] @ bs1)"
    by (metis add_0 cells_at_mid append.assoc append_Cons)
  with L have "live m L (p, span (butlast as1) + 4) \<noteq> None" by (auto simp: live_def)
  then show ?thesis by blast
qed

lemma xv_free_merge:
  assumes inv: "xv_inv pool m L" and L: "L p = Some (as @ (s, False) # bs)"
    and as: "as = as1 @ free_last as" and bs: "bs = free_head bs @ bs1"
    and fl: "fl_inv pool2 h2 (\<lambda>j. free_locs L j
       - free_cells_at p (span as1) (free_last as @ [(s, False)] @ free_head bs) j)"
    and s3: "s3 = span (free_last as) + s + span (free_head bs)" "bh_size (h2 (p, span as1)) = s3"
    and prev: "\<And>y. bh_prev (h2 y) = bh_prev (heap_of m y)"
    and size: "\<And>y. y \<noteq> (p, span as1) \<Longrightarrow> y \<noteq> (p, span as) \<Longrightarrow> bh_size (h2 y) = bh_size (heap_of m y)"
    and tp: "total_pages pool2 = total_pages pool"
    and ins: "(if XV_MIN_ALLOC_SIZE \<le> bh_size (upd_block (p, span as1) (set_flag BLOCK_FREE) h2 (p, span as1))
       then insert_block (p, span as1) (p, span as1) (pool2, upd_block (p, span as1) (set_flag BLOCK_FREE) h2)
       else (pool2, upd_block (p, span as1) (set_flag BLOCK_FREE) h2)) = (pool', h3)"
    and s3n: "as1 \<noteq> [] \<or> bs1 \<noteq> []"
    and h4: "h4 = (if span as1 + s3 + 4 \<noteq> 4096
       then upd_block (p, span as1 + s3 + 4) (set_blockprev (span as1))
              (upd_block (p, span as1 + s3 + 4) (set_flag PREV_FREE) h3) else h3)"
  shows "free_post (p, span as + 4) pool m L pool' (m\<lparr>heap_of := h4\<rparr>) (L(p \<mapsto> as1 @ (s3, True) # bs1))"
proof -
  let ?h = "heap_of m" and ?S = "free_locs L" and ?b = "(p, span as1)" and ?m' = "m\<lparr>heap_of := h4\<rparr>"
  let ?mid = "free_last as @ [(s, False)] @ free_head bs" and ?L' = "L(p \<mapsto> as1 @ [(s3, True)] @ bs1)"
  have ok: "page_ok ?h p (as @ (s, False) # bs)" and p: "p \<noteq> 0" using xv_inv_page [OF inv L] by auto
  have cs: "as @ (s, False) # bs = as1 @ ?mid @ bs1"
    using as bs by (metis append.assoc append_Cons append_Nil)
  have okm: "page_ok ?h p (as1 @ ?mid @ bs1)" and Lm: "L p = Some (as1 @ ?mid @ bs1)"
    using ok L unfolding cs by simp_all
  have sp: "span ?mid = s3 + 4" "span as = span as1 + span (free_last as)"
    using s3 arg_cong [OF as, of span] by simp_all
  note b = page_ok_bounds [OF okm, unfolded sp]
  have s3_lim: "s3 \<le> 4092" "4 dvd s3" using b by (auto simp: dvd_add_left_iff)
  note before = block_before [OF ok as]
  define h2f where "h2f = upd_block ?b (set_flag BLOCK_FREE) h2"
  have "fl_inv pool2 h2f (\<lambda>j. ?S j - free_cells_at p (span as1) ?mid j)"
    unfolding h2f_def by (rule fl_inv_headers [OF fl]) (auto simp: header_simps)
  moreover have "?b \<notin> ?S j - free_cells_at p (span as1) ?mid j" for j
  proof
    assume *: "?b \<in> ?S j - free_cells_at p (span as1) ?mid j"
    then have "?b \<in> free_cells_at p 0 as1 j \<or> ?b \<in> free_cells_at p (span as1 + span ?mid) bs1 j"
      using free_locs_page [of L p, OF Lm, of "span as1" j] by (auto simp: free_cells_at_append add_ac)
    then show False using sp by (auto dest!: free_cells_at_range)
  qed
  moreover have "bh_size (h2f ?b) = s3" using s3(2) by (simp add: h2f_def header_simps)
  ultimately have fl3: "fl_inv pool' h3 (\<lambda>j. (?S j - free_cells_at p (span as1) ?mid j)
      \<union> free_cells_at p (span as1) [(s3, True)] j)"
    and hd3: "same_hdrs h2f h3" and tp3: "total_pages pool' = total_pages pool2"
    using insert_if_large_inv [of pool2 h2f _ ?b pool' h3 s3] ins s3_lim p b(1)
    unfolding h2f_def [symmetric] by auto
  note rd3 = same_hdrs_read [OF hd3]
  have "?S j - free_cells_at p (span as1) ?mid j \<union> free_cells_at p (span as1) [(s3, True)] j
      = free_locs ?L' j" for j
    using free_locs_replace [where L = L and p = p and as = as1 and mid = ?mid and bs = bs1
        and mid' = "[(s3, True)]" and i = j, OF Lm] sp(1) by simp
  then have "fl_inv pool' h3 (free_locs ?L')" using fl3 by simp
  then have fl4: "fl_inv pool' h4 (free_locs ?L')"
    by (rule fl_inv_headers) (auto simp: h4 header_simps)
  have flags: "test_flag (h2 y) f = test_flag (?h y) f" for y f
    by (simp add: test_flag_def prev)
  have h4b: "h4 ?b = h3 ?b" by (auto simp: h4 upd_block_def)
  have pg: "page_ok h4 p (as1 @ [(s3, True)] @ bs1)"
  proof (rule page_ok_replace [OF okm])
    show "span [(s3, True)] = span ?mid" using sp by simp
    show "seg h4 p (span as1) (end_pf 0 (False, 0) as1) [(s3, True)]"
      using before(2,3) s3_lim s3(2)
      by (simp add: cell_ok_def h4b rd3 h2f_def header_simps flags ALIGN_id)
    fix s4 f4 bs' assume bs1: "bs1 = (s4, f4) # bs'"
    have "span as1 + s3 + 4 \<noteq> 4096" using b(1) bs1 by simp
    moreover have at: "span as + s + 4 + span (free_head bs) = span as1 + s3 + 4" using sp s3(1) by simp
    moreover note block_after [OF ok, of s4 f4 bs', unfolded at] bs bs1
    moreover have "span as1 < 65536" using b(1) by simp
    moreover have "bh_size (h2 (p, span as1 + s3 + 4)) = bh_size (?h (p, span as1 + s3 + 4))"
      using at by (intro size) auto
    ultimately show "cell_ok (h4 (p, span as1 + span ?mid)) (end_pf (span as1) (end_pf 0 (False, 0) as1) [(s3, True)]) s4 f4"
      using b(2) unfolding sp(1)
      by (simp add: cell_ok_def h4 rd3 h2f_def header_simps flags add.assoc [symmetric])
  next
    have other: "bh_size (h4 y) = bh_size (?h y) \<and> bh_prev (h4 y) = bh_prev (?h y)"
      if "y \<noteq> ?b" "y \<noteq> (p, span as)" "y \<noteq> (p, span as1 + s3 + 4)" for y
      using that by (simp add: h4 rd3 h2f_def header_simps size prev)
    then show "same_headers ?h h4 p 0 (span as1)"
      using sp by (simp add: same_headers_def)
    show "same_headers ?h h4 p (span as1 + span ?mid + 1) 4096"
      using other sp s3(1) by (simp add: same_headers_def)
  qed
  have size4: "bh_size (h4 (q, o')) = bh_size (?h (q, o'))"
    if "\<not> (q = p \<and> span as1 \<le> o' \<and> o' < span as1 + span ?mid)" for q o'
    using that sp s3(1) size [of "(q, o')"] by (auto simp: h4 rd3 h2f_def header_simps)
  have "bh_prev (h4 (q, o')) = bh_prev (?h (q, o'))" if "q \<noteq> p" for q o'
    using that by (simp add: h4 rd3 h2f_def header_simps prev)
  then have inv': "xv_inv pool' ?m' ?L'"
    using size4 tp tp3 by (intro xv_inv_change [OF inv L pg _ fl4]) auto
  have "live ?m' ?L' (q, o') = ((live m L)((p, span as + 4) := None)) (q, o')" for q o'
    using live_replace [where L = L and p = p and as = as1 and mid = ?mid and bs = bs1 and m = m
        and mid' = "[(s3, True)]" and m' = ?m' and q = q and o' = o', OF Lm] size4 sp
      live_block_only [of L p as1 as s bs bs1 o' m, OF Lm] s3(1)
    by (auto simp: add_ac)
  then have "live ?m' ?L' = (live m L)((p, span as + 4) := None)" by auto
  moreover have "\<exists>o'. live ?m' ?L' (p, o') \<noteq> None"
  proof (rule live_neighbour [OF _ before(2) _ s3n])
    show "?L' p = Some (as1 @ [(s3, True)] @ bs1)" by simp
    show "\<not> f4" if "bs1 = (s4, f4) # bs'" for s4 f4 bs'
      using block_after(1) [OF ok] bs that by simp
  qed
  ultimately show ?thesis using inv' L by (auto simp: free_post_def insert_absorb domI)
qed

text \<open>Freeing a live object succeeds and removes exactly that object.\<close>

lemma xv_free_post:
  assumes inv: "xv_inv pool m L" and x: "live m L (p, off) = Some n"
  obtains pool' m' L' where "xv_free (p, off) (pool, m) = Some (pool', m')"
    "free_post (p, off) pool m L pool' m' L'"
proof -
  from x obtain as s bs where L: "L p = Some (as @ (s, False) # bs)" and off: "off = span as + 4"
    by (rule live_SomeE)
  obtain as1 bs1 where as: "as = as1 @ free_last as" and bs: "bs = free_head bs @ bs1"
    using free_last_split free_head_split by blast
  let ?b = "(p, span as1)" and ?s3 = "span (free_last as) + s + span (free_head bs)"
  obtain pool2 h2 where free: "xv_free (p, span as + 4) (pool, m) =
      (if bh_size (h2 (p, span as1)) = 4092
       then Some (pool2\<lparr>total_pages := total_pages pool2 - 1\<rparr>, free_page p (m\<lparr>heap_of := h2\<rparr>))
       else let h = upd_block (p, span as1) (set_flag BLOCK_FREE) h2;
                (pool, h) = (if XV_MIN_ALLOC_SIZE \<le> bh_size (h (p, span as1))
                             then insert_block (p, span as1) (p, span as1) (pool2, h) else (pool2, h));
                h = (if span as1 + bh_size (h (p, span as1)) + 4 \<noteq> 4096
                     then let n = (p, BLOCK_NEXT h p (span as1))
                          in upd_block n (set_blockprev (span as1)) (upd_block n (set_flag PREV_FREE) h)
                     else h)
            in Some (pool, m\<lparr>heap_of := h\<rparr>))"
    and fl: "fl_inv pool2 h2 (\<lambda>j. free_locs L j
       - free_cells_at p (span as1) (free_last as @ [(s, False)] @ free_head bs) j)"
    and s3: "bh_size (h2 (p, span as1)) = ?s3" and prev: "\<And>y. bh_prev (h2 y) = bh_prev (heap_of m y)"
    and size: "\<And>y. y \<noteq> (p, span as1) \<Longrightarrow> y \<noteq> (p, span as) \<Longrightarrow> bh_size (h2 y) = bh_size (heap_of m y)"
    and tp: "total_pages pool2 = total_pages pool"
    by (rule xv_free_merged [OF inv L as bs]) (rule that; assumption)
  have ok: "page_ok (heap_of m) p (as @ (s, False) # bs)" using xv_inv_page [OF inv L] by simp
  have sp: "span as = span as1 + span (free_last as)" "span bs = span (free_head bs) + span bs1"
    using arg_cong [OF as, of span] arg_cong [OF bs, of span] by simp_all
  note all = page_ok_cell(4) [OF ok]
  show thesis
  proof (cases "?s3 = 4092")
    case True
    then have "as1 = []" "bs1 = []" using all sp by (simp_all add: span_0_iff [symmetric])
    with as bs have "as = free_last as" "bs = free_head bs" by simp_all
    then have "L p = Some (free_last as @ [(s, False)] @ free_head bs)" using L by simp
    moreover have "off = span (free_last as) + 4" using off \<open>as = free_last as\<close> by simp
    ultimately have "free_post (p, off) pool m L (pool2\<lparr>total_pages := total_pages pool2 - 1\<rparr>)
        (free_page p (m\<lparr>heap_of := h2\<rparr>)) (L(p := None))"
      using inv fl prev size tp True \<open>as1 = []\<close> by (intro xv_free_page) simp_all
    with that free off s3 True show ?thesis by simp
  next
    case False
    let ?h2f = "upd_block ?b (set_flag BLOCK_FREE) h2"
    obtain pool' h3 where ins: "(if XV_MIN_ALLOC_SIZE \<le> bh_size (?h2f ?b)
        then insert_block ?b ?b (pool2, ?h2f) else (pool2, ?h2f)) = (pool', h3)" by fastforce
    define h4 where "h4 = (if span as1 + ?s3 + 4 \<noteq> 4096
       then upd_block (p, span as1 + ?s3 + 4) (set_blockprev (span as1))
              (upd_block (p, span as1 + ?s3 + 4) (set_flag PREV_FREE) h3) else h3)"
    have ne: "as1 \<noteq> [] \<or> bs1 \<noteq> []" using False all sp by auto
    have post: "free_post (p, off) pool m L pool' (m\<lparr>heap_of := h4\<rparr>) (L(p \<mapsto> as1 @ (?s3, True) # bs1))"
      unfolding off by (rule xv_free_merge [OF inv L as bs fl refl s3 prev size tp ins ne h4_def])
    have h3b: "bh_size (h3 ?b) = ?s3"
    proof -
      have "(insert_block ?b ?b (pool2, ?h2f) = (pool', h3) \<or> h3 = ?h2f)" using ins by (auto split: if_splits)
      then show ?thesis
      proof
        assume "insert_block ?b ?b (pool2, ?h2f) = (pool', h3)"
        then show ?thesis using s3 by (auto simp: insert_block_def Let_def header_simps split: if_splits)
      next
        assume "h3 = ?h2f"
        then show ?thesis using s3 by (simp add: header_simps)
      qed
    qed
    have "xv_free (p, off) (pool, m) = Some (pool', m\<lparr>heap_of := h4\<rparr>)"
      using False unfolding off free Let_def ins
      by (simp add: s3 h3b h4_def BLOCK_NEXT_def XV_ALIGN_def)
    from that [OF this post] show ?thesis .
  qed
qed

end
