(* ===== verification/Xv_Allocator.thy ===== *)
theory Xv_Allocator
  imports Xv_Free_Correct Interfaces
begin

text \<open>
  xvmalloc behind the allocator interfaces.  The state of the interface is the pool, the memory
  and the kernel's page source.  Up to \<open>XV_MAX_ALLOC_SIZE\<close> bytes the contract of
  \<open>object_allocator\<close> holds; up to 4088 bytes no page without a live object stays in the pool,
  so the contract of \<open>reclaiming_allocator\<close> holds as well.
\<close>

section \<open>Pages without an object\<close>

definition no_empty :: "kmem \<Rightarrow> layout \<Rightarrow> bool" where
  "no_empty m L \<longleftrightarrow> (\<forall>p\<in>dom L. \<exists>o'. live m L (p, o') \<noteq> None)"

lemma no_empty_malloc:
  assumes "no_empty m L" and "malloc_post n 0 x pool m L pool' m' L'"
  shows "no_empty m' L'"
  unfolding no_empty_def
proof
  fix q assume q: "q \<in> dom L'"
  have post: "dom L' = insert (fst x) (dom L)" "live m' L' = (live m L)(x \<mapsto> n)"
    using assms(2) by (auto simp: malloc_post_def)
  show "\<exists>o'. live m' L' (q, o') \<noteq> None"
  proof (cases "q = fst x")
    case True
    then have "live m' L' (q, snd x) \<noteq> None" by (simp add: post)
    then show ?thesis by blast
  next
    case False
    with q post have "q \<in> dom L" by simp
    with assms(1) obtain o' where "live m L (q, o') \<noteq> None" unfolding no_empty_def by blast
    then have "live m' L' (q, o') \<noteq> None" by (simp add: post)
    then show ?thesis by blast
  qed
qed

lemma no_empty_free:
  assumes "no_empty m L" and "free_post (p, off) pool m L pool' m' L'"
  shows "no_empty m' L'"
  unfolding no_empty_def
proof
  fix q assume q: "q \<in> dom L'"
  show "\<exists>o'. live m' L' (q, o') \<noteq> None"
  proof (cases "q = p")
    case True
    have "p \<in> dom L' \<longrightarrow> (\<exists>o'. live m' L' (p, o') \<noteq> None)"
      using assms(2) unfolding free_post_def fst_conv by blast
    with True q show ?thesis by blast
  next
    case False
    have "q \<in> dom L" using q assms(2) by (auto simp: free_post_def)
    with assms(1) obtain o' where "live m L (q, o') \<noteq> None" unfolding no_empty_def by blast
    with False assms(2) have "live m' L' (q, o') \<noteq> None" by (simp add: free_post_def)
    then show ?thesis by blast
  qed
qed

section \<open>The interface\<close>

type_synonym alloc_state = "page_source \<times> xv_pool \<times> kmem"

definition pool_alloc :: "nat \<Rightarrow> alloc_state \<Rightarrow> (loc option \<times> alloc_state) option" where
  "pool_alloc n = (\<lambda>(src, pool, m).
     (let ((rc, x), pool, m) = xv_malloc src n (pool, m)
      in Some (if rc = 0 then Some x else None, src, pool, m)))"

definition pool_free :: "loc \<Rightarrow> alloc_state \<Rightarrow> alloc_state option" where
  "pool_free x = (\<lambda>(src, pool, m). map_option (Pair src) (xv_free x (pool, m)))"

definition pool_rep :: "alloc_state \<Rightarrow> objects \<Rightarrow> bool" where
  "pool_rep = (\<lambda>(src, pool, m) f. fresh_page_source src \<and> (\<exists>L. xv_inv pool m L \<and> f = live m L))"

definition pool_rep_tight :: "page set \<Rightarrow> alloc_state \<Rightarrow> objects \<Rightarrow> bool" where
  "pool_rep_tight base = (\<lambda>(src, pool, m) f.
     fresh_page_source src \<and> (\<exists>L. xv_inv pool m L \<and> no_empty m L \<and> f = live m L \<and> used_pages m - dom L = base))"

text \<open>
  The pages in the pool: \<open>total_pages\<close> is their number, and all other pages in use, \<open>base\<close>, belong to someone else.
\<close>

definition pool_pages :: "page set \<Rightarrow> alloc_state \<Rightarrow> page set \<Rightarrow> bool" where
  "pool_pages base = (\<lambda>(src, pool, m) P. finite P \<and> total_pages pool = of_nat (card P)
     \<and> used_pages m = base \<union> P \<and> base \<inter> P = {})"

lemma live_separate: "xv_inv pool m L \<Longrightarrow> separate (live m L)"
  using live_disjoint [of pool m L] by (fastforce simp: separate_def)

lemma pool_alloc_cases:
  assumes inv: "xv_inv pool m L" and src: "fresh_page_source src"
  obtains (block) x pool' m' L' where "pool_alloc n (src, pool, m) = Some (Some x, src, pool', m')"
      and "malloc_post n 0 x pool m L pool' m' L'"
    | (null) pool' m' L' where "pool_alloc n (src, pool, m) = Some (None, src, pool', m')"
      and "xv_inv pool' m' L'" and "live m' L' = live m L" and "n \<le> 4088 \<longrightarrow> pool' = pool \<and> m' = m"
proof -
  obtain rc y pool1 m1 where c: "xv_malloc src n (pool, m) = ((rc, y), pool1, m1)" by (metis surj_pair)
  note post = xv_malloc_post [OF inv src c]
  then obtain L' where L': "malloc_post n rc y pool m L pool1 m1 L'" by blast
  show thesis
  proof (cases "rc = 0")
    case True
    with c have "pool_alloc n (src, pool, m) = Some (Some y, src, pool1, m1)" by (simp add: pool_alloc_def)
    then show thesis using block L' True by blast
  next
    case False
    with c have "pool_alloc n (src, pool, m) = Some (None, src, pool1, m1)" by (simp add: pool_alloc_def)
    moreover have "xv_inv pool1 m1 L'" "live m1 L' = live m L" using L' False by (simp_all add: malloc_post_def)
    ultimately show thesis using null post False by blast
  qed
qed

lemma pool_free_live:
  assumes inv: "xv_inv pool m L" and x: "live m L x \<noteq> None"
  obtains pool' m' L' where "pool_free x (src, pool, m) = Some (src, pool', m')"
    and "free_post x pool m L pool' m' L'"
proof -
  obtain p off n where "x = (p, off)" "live m L (p, off) = Some n" using x by (cases x) auto
  with xv_free_post [OF inv this(2)] that show thesis by (auto simp: pool_free_def)
qed

text \<open>The contract, clause by clause.\<close>

lemma pool_repE:
  assumes "pool_rep s f"
  obtains src pool m L where "s = (src, pool, m)" "fresh_page_source src" "xv_inv pool m L" "f = live m L"
  using assms by (auto simp: pool_rep_def)

lemma pool_rep_tightE:
  assumes "pool_rep_tight base s f"
  obtains src pool m L where "s = (src, pool, m)" "fresh_page_source src" "xv_inv pool m L"
    "no_empty m L" "f = live m L" "used_pages m - dom L = base"
  using assms by (auto simp: pool_rep_tight_def)

interpretation xv: object_allocator pool_rep pool_alloc pool_free XV_MAX_ALLOC_SIZE
proof (unfold_locales)
  fix s f n
  assume r: "pool_rep s f"
  then obtain src pool m L where L: "s = (src, pool, m)" "fresh_page_source src" "xv_inv pool m L"
    "f = live m L" by (rule pool_repE)
  show "\<exists>r s'. pool_alloc n s = Some (r, s') \<and> (case r of None \<Rightarrow> pool_rep s' f | Some x \<Rightarrow> f x = None \<and> pool_rep s' (f(x \<mapsto> n)))"
  proof (cases rule: pool_alloc_cases [OF L(3,2), of n])
    case (1 x pool' m' L')
    with L(2,4) have "f x = None \<and> pool_rep (src, pool', m') (f(x \<mapsto> n))" by (force simp: malloc_post_def pool_rep_def)
    with 1(1) L(1) show ?thesis by (intro exI [of _ "Some x"] exI [of _ "(src, pool', m')"]) simp
  next
    case (2 pool' m' L')
    with L(2,4) have "pool_rep (src, pool', m') f" by (force simp: pool_rep_def)
    with 2(1) L(1) show ?thesis by (intro exI [of _ None] exI [of _ "(src, pool', m')"]) simp
  qed
next
  fix s f x
  assume r: "pool_rep s f" and x: "f x \<noteq> None"
  from r obtain src pool m L where L: "s = (src, pool, m)" "fresh_page_source src" "xv_inv pool m L"
    "f = live m L" by (rule pool_repE)
  obtain pool' m' L' where "pool_free x (src, pool, m) = Some (src, pool', m')" "free_post x pool m L pool' m' L'"
    using pool_free_live [OF L(3)] x L(4) by metis
  then have "pool_free x s = Some (src, pool', m')" "pool_rep (src, pool', m') (f(x := None))"
    using L by (auto simp: free_post_def pool_rep_def)
  then show "\<exists>s'. pool_free x s = Some s' \<and> pool_rep s' (f(x := None))" by blast
next
  fix s f assume "pool_rep s f"
  then show "separate f" by (auto elim!: pool_repE intro: live_separate)
qed

lemma pool_rep_tightI:
  "fresh_page_source src \<Longrightarrow> xv_inv pool m L \<Longrightarrow> no_empty m L \<Longrightarrow> used_pages m - dom L = base
     \<Longrightarrow> pool_rep_tight base (src, pool, m) (live m L)"
  unfolding pool_rep_tight_def by (simp only: prod.case) blast

lemma pool_rep_tight_pages:
  assumes "pool_rep_tight base s f"
  shows "\<exists>P. pool_pages base s P \<and> (\<forall>p. p \<in> P \<longleftrightarrow> (\<exists>o'. f (p, o') \<noteq> None))"
proof -
  from assms obtain src pool m L where L: "s = (src, pool, m)" "xv_inv pool m L" "no_empty m L" "f = live m L"
    "used_pages m - dom L = base" by (rule pool_rep_tightE)
  have "dom L \<subseteq> used_pages m" using L(2) by (auto simp: xv_inv_def)
  then have "used_pages m = base \<union> dom L" "base \<inter> dom L = {}" using L(5) by blast+
  then have "pool_pages base s (dom L)" using L(1,2) by (simp add: xv_inv_def pool_pages_def)
  moreover have in_dom: "p \<in> dom L" if "live m L (p, o') \<noteq> None" for p o'
    using that by (auto simp: live_def split: option.splits)
  have "p \<in> dom L \<longleftrightarrow> (\<exists>o'. f (p, o') \<noteq> None)" for p
    unfolding L(4) using L(3) [unfolded no_empty_def] in_dom by blast
  ultimately show ?thesis by blast
qed

interpretation xvr: reclaiming_allocator "pool_rep_tight base" pool_alloc pool_free 4088 "pool_pages base" for base
proof (unfold_locales)
  fix s f and n :: nat
  assume r: "pool_rep_tight base s f" and n: "n \<le> 4088"
  from r obtain src pool m L where L: "s = (src, pool, m)" "fresh_page_source src" "xv_inv pool m L"
    "no_empty m L" "f = live m L" "used_pages m - dom L = base" by (rule pool_rep_tightE)
  show "\<exists>r s'. pool_alloc n s = Some (r, s')
    \<and> (case r of None \<Rightarrow> pool_rep_tight base s' f | Some x \<Rightarrow> f x = None \<and> pool_rep_tight base s' (f(x \<mapsto> n)))"
  proof (cases rule: pool_alloc_cases [OF L(3,2), of n])
    case (1 x pool' m' L')
    have p: "xv_inv pool' m' L'" "live m L x = None" "live m' L' = (live m L)(x \<mapsto> n)" "used_pages m' - dom L' = used_pages m - dom L"
      using 1(2) unfolding malloc_post_def if_P [OF refl] by blast+
    from pool_rep_tightI [OF L(2) p(1) no_empty_malloc [OF L(4) 1(2)] p(4)] p(2,3) L(5,6)
    have "f x = None \<and> pool_rep_tight base (src, pool', m') (f(x \<mapsto> n))" by simp
    with 1(1) L(1) show ?thesis by (intro exI [of _ "Some x"] exI [of _ "(src, pool', m')"]) simp
  next
    case (2 pool' m' L')
    with n L(1) have "pool_alloc n s = Some (None, s)" by simp
    with r show ?thesis by (intro exI [of _ None] exI [of _ s]) simp
  qed
next
  fix s f x
  assume r: "pool_rep_tight base s f" and x: "f x \<noteq> None"
  from r obtain src pool m L where L: "s = (src, pool, m)" "fresh_page_source src" "xv_inv pool m L"
    "no_empty m L" "f = live m L" "used_pages m - dom L = base" by (rule pool_rep_tightE)
  obtain pool' m' L' where f: "pool_free x (src, pool, m) = Some (src, pool', m')"
    "free_post x pool m L pool' m' L'"
    using pool_free_live [OF L(3)] x L(5) by metis
  have e: "no_empty m' L'" using no_empty_free [OF L(4)] f(2) by (cases x) blast
  have p: "xv_inv pool' m' L'" "live m' L' = (live m L)(x := None)" "used_pages m' - dom L' = used_pages m - dom L"
    using f(2) by (simp_all add: free_post_def)
  from pool_rep_tightI [OF L(2) p(1) e p(3)] p(2) L(5,6) f(1) L(1)
  have "pool_free x s = Some (src, pool', m')" "pool_rep_tight base (src, pool', m') (f(x := None))" by simp_all
  then show "\<exists>s'. pool_free x s = Some s' \<and> pool_rep_tight base s' (f(x := None))" by blast
next
  fix s f assume "pool_rep_tight base s f"
  then show "separate f" by (auto elim!: pool_rep_tightE intro: live_separate)
next
  fix s f assume "pool_rep_tight base s f"
  then show "\<exists>P. pool_pages base s P \<and> (\<forall>p. p \<in> P \<longleftrightarrow> (\<exists>o'. f (p, o') \<noteq> None))" by (rule pool_rep_tight_pages)
qed

end
