(* ===== verification/Xv_Spec.thy ===== *)
theory Xv_Spec
  imports Xv_Allocator
begin

text \<open>
  The properties of xvmalloc, over the model of theory \<open>Xvmalloc\<close>: what a run of requests does
  (through the two allocator interfaces), what single calls do, and the two-level bitmap search
  against a linear scan.  \<open>sample_source\<close> and \<open>sample_memory\<close> are the concrete environment of
  the witnesses.
\<close>

section \<open>A concrete environment\<close>

definition sample_source :: page_source where
  "sample_source m = (if 7 \<notin> used_pages m then Some 7 else if 8 \<notin> used_pages m then Some 8 else None)"

definition sample_memory :: kmem where
  "sample_memory = \<lparr>heap_of = (\<lambda>_. \<lparr>bh_size = 0, bh_prev = 0, link_prev = (0, 0), link_next = (0, 0)\<rparr>),
     data_of = (\<lambda>_ _. 0), used_pages = {1}\<rparr>"

definition sample_pool :: xv_pool where
  "sample_pool = \<lparr>flbitmap = 0, slbitmap = replicate MAX_FLI 0,
     freelist = replicate NUM_FREE_LISTS (0, 0), total_pages = 0\<rparr>"

lemma sample_source_fresh [simp]: "fresh_page_source sample_source"
  by (auto simp: fresh_page_source_def sample_source_def)

lemma sample_source_first [simp]: "sample_source sample_memory = Some 7"
  by (simp add: sample_source_def sample_memory_def)

lemma sample_pool_created: "xv_create_pool True = Some sample_pool"
  by (simp add: xv_create_pool_def sample_pool_def)

lemma sample_pool_inv [simp]: "xv_inv sample_pool m (\<lambda>_. None)"
  by (rule xv_create_pool_inv [OF sample_pool_created])

lemma live_no_layout [simp]: "live m (\<lambda>_. None) = (\<lambda>_. None)"
  by (auto simp: live_def)

lemma pool_rep_created:
  "fresh_page_source src \<Longrightarrow> xv_create_pool True = Some pool
     \<Longrightarrow> pool_rep_tight (used_pages m) (src, pool, m) (\<lambda>_. None)"
  by (auto simp: pool_rep_tight_def no_empty_def intro!: exI [of _ "\<lambda>_. None"] xv_create_pool_inv)

lemma pool_rep_weaken: "pool_rep_tight base s f \<Longrightarrow> pool_rep s f"
  by (auto simp: pool_rep_tight_def pool_rep_def)

text \<open>The first object of the sample pool.\<close>

lemma sample_alloc:
  assumes "0 < n" and "n \<le> 4088"
  shows "\<exists>x s. pool_alloc n (sample_source, sample_pool, sample_memory) = Some (Some x, s)"
proof -
  obtain rc x pool' m' where c: "xv_malloc sample_source n (sample_pool, sample_memory) = ((rc, x), pool', m')"
    by (metis surj_pair)
  from xv_malloc_post [OF sample_pool_inv sample_source_fresh c] assms have "rc = 0" by simp
  with c show ?thesis by (simp add: pool_alloc_def)
qed

section \<open>Runs of requests\<close>

text \<open>
  C6: Safety of any run of xvmalloc.  Let a client of a pool fresh from \<open>xv_create_pool\<close> make any list of requests: objects of sizes up
  to \<open>XV_MAX_ALLOC_SIZE\<close>, and the freeing of any of the objects it holds by then.  Then every call returns, so no \<open>BUG_ON\<close> is
  hit; at the end the pool satisfies its invariant and its live objects are exactly those the client holds, no location handed
  out twice and no two objects overlapping.
\<close>

theorem xv_run_safe:
  assumes "fresh_page_source src" and "xv_create_pool True = Some pool" and "sizes_upto XV_MAX_ALLOC_SIZE rs"
  shows "\<exists>s os. serve pool_alloc pool_free rs (src, pool, m) [] = Some (s, os)
    \<and> pool_rep s (map_of os) \<and> distinct (map fst os) \<and> separate (map_of os)"
proof -
  have "pool_rep (src, pool, m) (map_of [])"
    using pool_rep_weaken [OF pool_rep_created [OF assms(1,2)]] by simp
  from xv.run_ok [OF this _ assms(3)] show ?thesis by simp
qed

text \<open>Two objects, the older one freed, a third one: the client holds the newer ones.\<close>

theorem xv_run_safe_witness:
  "\<exists>s os. serve pool_alloc pool_free [Alloc 100, Alloc 200, Free 1, Alloc 50] (sample_source, sample_pool, sample_memory) [] = Some (s, os)
     \<and> pool_rep s (map_of os) \<and> separate (map_of os)"
proof -
  have "sizes_upto XV_MAX_ALLOC_SIZE [Alloc 100, Alloc 200, Free 1, Alloc 50]" by (simp add: XV_MAX_ALLOC_SIZE_val)
  from xv_run_safe [OF sample_source_fresh sample_pool_created this, of sample_memory] show ?thesis by blast
qed

text \<open>
  C7: No page is kept for nothing.  After any run of requests of sizes up to 4088 bytes (larger ones leak, see C10), \<open>total_pages\<close> is the
  number of pages in which the client still holds an object, and these are the only pages that are in use beyond those
  in use at the start.  So once everything is freed, all pages are back with the kernel.
\<close>

theorem xv_run_reclaims:
  assumes "fresh_page_source src" and "xv_create_pool True = Some pool" and "sizes_upto 4088 rs"
  shows "\<exists>src' pool' m' os. serve pool_alloc pool_free rs (src, pool, m) [] = Some ((src', pool', m'), os)
    \<and> total_pages pool' = of_nat (card (fst ` fst ` set os))
    \<and> used_pages m' = used_pages m \<union> fst ` fst ` set os \<and> used_pages m \<inter> fst ` fst ` set os = {}"
proof -
  have "pool_rep_tight (used_pages m) (src, pool, m) (map_of [])" using pool_rep_created [OF assms(1,2)] by simp
  from xvr.run_reclaims [OF this _ assms(3)] obtain s' os where
    r: "serve pool_alloc pool_free rs (src, pool, m) [] = Some (s', os)" "pool_pages (used_pages m) s' (fst ` fst ` set os)" by auto
  obtain src' pool' m' where s': "s' = (src', pool', m')" by (metis prod_cases3)
  from r(2) have "total_pages pool' = of_nat (card (fst ` fst ` set os))" "used_pages m' = used_pages m \<union> fst ` fst ` set os"
    "used_pages m \<inter> fst ` fst ` set os = {}" by (simp_all add: s' pool_pages_def)
  with r(1) s' show ?thesis by blast
qed

text \<open>An object of 4000 bytes, freed again: the page is back.\<close>

theorem xv_run_reclaims_witness:
  "\<exists>src' pool' m'. serve pool_alloc pool_free [Alloc 4000, Free 0]
       (sample_source, sample_pool, sample_memory) [] = Some ((src', pool', m'), [])
     \<and> total_pages pool' = 0 \<and> used_pages m' = used_pages sample_memory"
proof -
  have l: "sizes_upto 4088 [Alloc 4000, Free 0]" by simp
  obtain x s1 where a: "pool_alloc 4000 (sample_source, sample_pool, sample_memory) = Some (Some x, s1)"
    using sample_alloc [of 4000] by (elim meta_impE exE) simp_all
  obtain src' pool' m' os where r: "serve pool_alloc pool_free [Alloc 4000, Free 0] (sample_source, sample_pool, sample_memory) []
      = Some ((src', pool', m'), os)"
    "total_pages pool' = of_nat (card (fst ` fst ` set os))" "used_pages m' = used_pages sample_memory \<union> fst ` fst ` set os"
    using xv_run_reclaims [OF sample_source_fresh sample_pool_created l, of sample_memory]
    by (elim exE conjE) (rule that; assumption)
  from r(1) have "os = []" unfolding serve.simps a option.case prod.case by (cases "pool_free x s1") simp_all
  with r show ?thesis by simp
qed

section \<open>Single calls\<close>

text \<open>
  C8: What a successful \<open>xv_malloc\<close> does.  It keeps the pool's invariant, adds one live object
  of the requested size where none was, inside one page and behind its header, at least four
  bytes away from every other object in it, and does not touch any data byte.
\<close>

theorem xv_malloc_success:
  assumes "xv_inv pool m L" and "fresh_page_source src"
    and "xv_malloc src n (pool, m) = ((0, (p, off)), pool', m')"
  shows "\<exists>L'. xv_inv pool' m' L' \<and> live m L (p, off) = None \<and> live m' L' = (live m L)((p, off) \<mapsto> n)
    \<and> 0 < n \<and> 4 \<le> off \<and> off + n \<le> PAGE_SIZE \<and> p \<in> used_pages m' \<and> data_of m' = data_of m
    \<and> (\<forall>o2 n2. live m L (p, o2) = Some n2 \<longrightarrow> off + n + 4 \<le> o2 \<or> o2 + n2 + 4 \<le> off)"
proof -
  from xv_malloc_post [OF assms] obtain L' where "malloc_post n 0 (p, off) pool m L pool' m' L'" by blast
  then have L': "xv_inv pool' m' L'" "live m L (p, off) = None" "live m' L' = (live m L)((p, off) \<mapsto> n)"
    "data_of m' = data_of m" by (simp_all add: malloc_post_def)
  have new: "live m' L' (p, off) = Some n" by (simp add: L'(3))
  have "off + n + 4 \<le> o2 \<or> o2 + n2 + 4 \<le> off" if "live m L (p, o2) = Some n2" for o2 n2
  proof -
    from that L'(2) have "off \<noteq> o2" by auto
    with that show ?thesis by (intro live_disjoint [OF L'(1) new]) (simp_all add: L'(3))
  qed
  with L' live_bounds [OF L'(1) new] show ?thesis by blast
qed

theorem xv_malloc_success_witness:
  "\<exists>p off pool' m' L'. xv_malloc sample_source 100 (sample_pool, sample_memory) = ((0, (p, off)), pool', m')
     \<and> xv_inv pool' m' L' \<and> live m' L' (p, off) = Some 100 \<and> off + 100 \<le> PAGE_SIZE"
proof -
  obtain x s where "pool_alloc 100 (sample_source, sample_pool, sample_memory) = Some (Some x, s)"
    using sample_alloc [of 100] by auto
  then obtain pool' m' where c: "xv_malloc sample_source 100 (sample_pool, sample_memory) = ((0, (fst x, snd x)), pool', m')"
    by (auto simp: pool_alloc_def Let_def split: prod.splits if_splits)
  from xv_malloc_success [OF sample_pool_inv sample_source_fresh c] c show ?thesis by fastforce
qed

text \<open>
  C9: When \<open>xv_malloc\<close> succeeds.  As long as the kernel has a page to give, every request from 1
  to 4088 bytes succeeds; a request that fails reports \<open>-ENOMEM\<close> and location \<open>(NULL, 0)\<close> and
  leaves the live objects alone, and up to 4088 bytes it changes nothing at all.
\<close>

theorem xv_malloc_result:
  assumes "xv_inv pool m L" and "fresh_page_source src"
    and "xv_malloc src n (pool, m) = ((rc, x), pool', m')"
  shows "(0 < n \<and> n \<le> 4088 \<and> src m \<noteq> None \<longrightarrow> rc = 0)
    \<and> (rc \<noteq> 0 \<longrightarrow> rc = - ENOMEM \<and> x = (0, 0) \<and> (\<exists>L'. xv_inv pool' m' L' \<and> live m' L' = live m L)
         \<and> (n \<le> 4088 \<longrightarrow> pool' = pool \<and> m' = m))"
proof -
  note post = xv_malloc_post [OF assms]
  then obtain L' where "malloc_post n rc x pool m L pool' m' L'" by blast
  then have "rc \<noteq> 0 \<longrightarrow> rc = - ENOMEM \<and> xv_inv pool' m' L' \<and> live m' L' = live m L"
    by (simp add: malloc_post_def)
  with post show ?thesis by blast
qed

text \<open>A request of no bytes fails, a request of 4088 succeeds.\<close>

theorem xv_malloc_result_witness:
  "fst (fst (xv_malloc sample_source 0 (sample_pool, sample_memory))) = - ENOMEM
   \<and> fst (fst (xv_malloc sample_source 4088 (sample_pool, sample_memory))) = 0"
proof
  obtain rc x pool' m' where c: "xv_malloc sample_source 4088 (sample_pool, sample_memory) = ((rc, x), pool', m')"
    by (metis surj_pair)
  from xv_malloc_result [OF sample_pool_inv sample_source_fresh c] c
  show "fst (fst (xv_malloc sample_source 4088 (sample_pool, sample_memory))) = 0" by simp
  have c0: "xv_malloc sample_source 0 (sample_pool, sample_memory) = ((- ENOMEM, (0, 0)), sample_pool, sample_memory)"
    by (simp add: xv_malloc_def)
  from xv_malloc_result [OF sample_pool_inv sample_source_fresh c0] c0
  show "fst (fst (xv_malloc sample_source 0 (sample_pool, sample_memory))) = - ENOMEM" by simp
qed

text \<open>
  C10: The largest sizes never succeed.  \<open>XV_MAX_ALLOC_SIZE\<close> is 4092, but a request of 4089 to
  4092 bytes is rounded up to a list that does not exist: it fails on every pool, and each
  attempt adds one more page to the pool.
\<close>

theorem xv_malloc_max_size_fails:
  assumes inv: "xv_inv pool m L" and src: "fresh_page_source src" "src m = Some p"
    and n: "4088 < n" "n \<le> XV_MAX_ALLOC_SIZE"
  shows "\<exists>pool' m'. xv_malloc src n (pool, m) = ((- ENOMEM, (0, 0)), pool', m')
    \<and> total_pages pool' = total_pages pool + 1 \<and> used_pages m' = insert p (used_pages m)"
proof -
  have n': "n \<le> 4092" using n by (simp add: XV_MAX_ALLOC_SIZE_val)
  then have sz: "ALIGN n 4 = 4092" using n(1) by (simp add: ALIGN_def)
  have idx: "get_index 4092 = 508" by (simp add: get_index_eq)
  have none: "find_block q 4092 (0, 0) = (0, (0, 0))" if "fl_inv q h S" for q h S
  proof -
    obtain i x where f: "find_block q 4092 (0, 0) = (i, x)" by (cases "find_block q 4092 (0, 0)") auto
    from find_block_cases [OF that _ f] idx have "x = (0, 0) \<and> i = 0" by (auto simp: first_fit_def)
    with f show ?thesis by simp
  qed
  obtain e pool1 m1 where g: "grow_pool src (pool, m) = (e, pool1, m1)" by (metis prod_cases3)
  note grown = grow_pool_ok [OF inv src g]
  have "find_block pool 4092 (0, 0) = (0, (0, 0))" "find_block pool1 4092 (0, 0) = (0, (0, 0))"
    using inv grown none by (auto simp: xv_inv_def)
  then have "xv_malloc src n (pool, m) = ((- ENOMEM, (0, 0)), pool1, m1)"
    using n(1) n' sz g grown by (simp add: xv_malloc_def xv_vals)
  moreover have "total_pages pool1 = total_pages pool + 1" "used_pages m1 = insert p (used_pages m)"
    using g src(2) by (auto simp: grow_pool_def insert_block_def Let_def split: if_splits)
  ultimately show ?thesis by blast
qed

theorem xv_malloc_max_size_fails_witness:
  "\<exists>pool' m'. xv_malloc sample_source XV_MAX_ALLOC_SIZE (sample_pool, sample_memory) = ((- ENOMEM, (0, 0)), pool', m')
    \<and> total_pages pool' = total_pages sample_pool + 1 \<and> used_pages m' = insert 7 (used_pages sample_memory)"
  by (rule xv_malloc_max_size_fails [OF sample_pool_inv sample_source_fresh sample_source_first])
    (simp_all add: XV_MAX_ALLOC_SIZE_val)

text \<open>
  C11: What \<open>xv_free\<close> does to a live object: no \<open>BUG_ON\<close>, the invariant is kept, exactly that
  object is gone, no data byte changes, and if it was the last object in its page, the page
  is no longer in the pool and is back with the kernel.
\<close>

theorem xv_free_live:
  assumes "xv_inv pool m L" and "live m L (p, off) = Some n"
  shows "\<exists>pool' m' L'. xv_free (p, off) (pool, m) = Some (pool', m') \<and> xv_inv pool' m' L'
    \<and> live m' L' = (live m L)((p, off) := None) \<and> data_of m' = data_of m
    \<and> ((\<forall>o'. o' \<noteq> off \<longrightarrow> live m L (p, o') = None) \<longrightarrow> p \<notin> dom L' \<and> p \<notin> used_pages m')"
proof -
  from xv_free_post [OF assms] obtain pool' m' L' where f: "xv_free (p, off) (pool, m) = Some (pool', m')"
    "free_post (p, off) pool m L pool' m' L'" .
  have "p \<in> dom L" using assms(2) by (auto simp: live_def split: option.splits)
  have "p \<notin> dom L' \<and> p \<notin> used_pages m'" if "\<forall>o'. o' \<noteq> off \<longrightarrow> live m L (p, o') = None"
  proof -
    have "live m' L' (p, o') = None" for o' using f(2) that by (simp add: free_post_def)
    with f(2) have "p \<notin> dom L'" by (simp add: free_post_def)
    with f(2) \<open>p \<in> dom L\<close> show ?thesis by (auto simp: free_post_def)
  qed
  with f show ?thesis by (auto simp: free_post_def)
qed

theorem xv_free_live_witness:
  "\<exists>p off pool m L pool' m'. live m L (p, off) = Some 100 \<and> xv_free (p, off) (pool, m) = Some (pool', m')
     \<and> p \<notin> used_pages m'"
proof -
  obtain x s where "pool_alloc 100 (sample_source, sample_pool, sample_memory) = Some (Some x, s)"
    using sample_alloc [of 100] by auto
  then obtain pool m where c: "xv_malloc sample_source 100 (sample_pool, sample_memory) = ((0, x), pool, m)"
    by (auto simp: pool_alloc_def Let_def split: prod.splits if_splits)
  from xv_malloc_post [OF sample_pool_inv sample_source_fresh c] obtain L where
    L: "xv_inv pool m L" "live m L = [x \<mapsto> 100]" by (auto simp: malloc_post_def)
  then have l: "live m L (fst x, snd x) = Some 100" by simp
  have "\<forall>o'. o' \<noteq> snd x \<longrightarrow> live m L (fst x, o') = None" using L(2) by (auto simp: prod_eq_iff)
  with xv_free_live [OF L(1) l] l show ?thesis by blast
qed

section \<open>Searching the free lists\<close>

text \<open>
  C12: The two-level bitmap search is a linear scan.  On a pool that satisfies the invariant,
  \<open>find_block\<close> returns the first non-empty free list at or above the list of the size, as a scan
  of the list heads would, and the block it returns is large enough.
\<close>

theorem find_block_linear:
  assumes inv: "xv_inv pool m L" and sz: "sz \<le> XV_MAX_ALLOC_SIZE"
  shows "find_block pool sz (0, 0) =
      (case find (\<lambda>i. fst (freelist pool ! i) \<noteq> 0) [get_index sz..<NUM_FREE_LISTS] of
         None \<Rightarrow> (0, (0, 0)) | Some i \<Rightarrow> (i, freelist pool ! i))
    \<and> (fst (snd (find_block pool sz (0, 0))) \<noteq> 0 \<longrightarrow>
         sz \<le> bh_size (heap_of m (snd (find_block pool sz (0, 0)))))"
proof -
  have sz': "sz \<le> 4092" using sz by (simp add: XV_MAX_ALLOC_SIZE_val)
  have fl: "fl_inv pool (heap_of m) (free_locs L)" using inv by (simp add: xv_inv_def)
  have ne: "free_locs L i \<noteq> {} \<longleftrightarrow> fst (freelist pool ! i) \<noteq> 0" if "i < 508" for i
    using fl that list_ok_empty unfolding fl_inv_def by metis
  obtain i x where f: "find_block pool sz (0, 0) = (i, x)" by (cases "find_block pool sz (0, 0)") auto
  from find_block_cases [OF fl sz' f] show ?thesis
  proof (elim disjE conjE)
    assume ff: "first_fit (\<lambda>i. i < 508 \<and> free_locs L i \<noteq> {}) (get_index sz) i"
      and x: "x = freelist pool ! i" "x \<in> free_locs L i" "fst x \<noteq> 0"
    from ff have i: "get_index sz \<le> i" "i < 508" by (auto simp: first_fit_def)
    have "find (\<lambda>i. fst (freelist pool ! i) \<noteq> 0) [get_index sz..<508] = Some i"
      using ff ne i by (auto simp: find_Some_iff first_fit_def intro!: exI [of _ "i - get_index sz"])
    moreover have "sz \<le> bh_size (heap_of m x)"
    proof -
      obtain cs s where c: "L (fst x) = Some cs" "(snd x, s, True) \<in> cells_at 0 cs" "32 \<le> s"
        "get_index_for_insert s = i"
        using x(2) by (cases x) (auto simp: free_locs_def free_cells_at_def)
      then obtain as bs where cs: "cs = as @ (s, True) # bs" "snd x = 0 + span as"
        using cells_at_split by blast
      note cell = page_ok_cell [of "heap_of m" "fst x" as s True bs]
      have ok: "page_ok (heap_of m) (fst x) (as @ (s, True) # bs)"
        using xv_inv_page [OF inv c(1)] cs(1) by simp
      have "x = (fst x, span as)" using cs(2) by (simp add: prod_eq_iff)
      then have "bh_size (heap_of m x) = s" "s \<le> 4092"
        using cell(1,4) [OF ok] by (simp_all add: cell_ok_def)
      with index_covers [OF _ c(3) _ sz'] i(1) c(4) show ?thesis by simp
    qed
    ultimately show ?thesis using f x(1) by (simp add: NUM_FREE_LISTS_val)
  next
    assume no: "x = (0, 0)" "i = 0" "\<forall>k. get_index sz \<le> k \<and> k < 508 \<longrightarrow> free_locs L k = {}"
    have "find (\<lambda>i. fst (freelist pool ! i) \<noteq> 0) [get_index sz..<508] = None"
    proof -
      have "\<not> fst (freelist pool ! k) \<noteq> 0" if "k \<in> set [get_index sz..<508]" for k
        using no(3) ne [of k] that by (metis atLeastLessThan_iff set_upt)
      then show ?thesis by (simp only: find_None_iff) blast
    qed
    then show ?thesis using f no by (simp add: NUM_FREE_LISTS_val)
  qed
qed

text \<open>In a pool of one page, a search for 100 bytes finds the block of that page.\<close>

theorem find_block_linear_witness:
  "\<exists>pool m. grow_pool sample_source (sample_pool, sample_memory) = (0, pool, m)
     \<and> fst (snd (find_block pool 100 (0, 0))) \<noteq> 0 \<and> 100 \<le> bh_size (heap_of m (snd (find_block pool 100 (0, 0))))"
proof -
  obtain rc pool m where g: "grow_pool sample_source (sample_pool, sample_memory) = (rc, pool, m)" by (metis prod_cases3)
  let ?L = "(\<lambda>_. None)(7 \<mapsto> [(4092, True)])"
  note grown = grow_pool_ok [OF sample_pool_inv sample_source_fresh sample_source_first g]
  then have inv: "xv_inv pool m ?L" and rc: "rc = 0" by simp_all
  have idx: "get_index_for_insert 4092 = 507" "get_index 100 \<le> 507" by (simp_all add: get_index_for_insert_def get_index_eq xv_vals)
  then have "free_locs ?L 507 \<noteq> {}" by (auto simp: free_locs_def)
  moreover have "list_ok (heap_of m) (freelist pool ! 507) (free_locs ?L 507)" using inv by (simp add: xv_inv_def fl_inv_def)
  ultimately have ne: "fst (freelist pool ! 507) \<noteq> 0" using list_ok_empty by metis
  have "find (\<lambda>i. fst (freelist pool ! i) \<noteq> 0) [get_index 100..<NUM_FREE_LISTS] \<noteq> None"
    using ne idx(2) by (auto simp: find_None_iff NUM_FREE_LISTS_val intro!: exI [of _ "507 :: nat"])
  then obtain i where i: "find (\<lambda>i. fst (freelist pool ! i) \<noteq> 0) [get_index 100..<NUM_FREE_LISTS] = Some i" by blast
  then have "fst (freelist pool ! i) \<noteq> 0" by (auto simp: find_Some_iff)
  moreover have "100 \<le> XV_MAX_ALLOC_SIZE" by (simp add: XV_MAX_ALLOC_SIZE_val)
  note fb = find_block_linear [OF inv this, unfolded i option.case]
  ultimately have "fst (snd (find_block pool 100 (0, 0))) \<noteq> 0" by simp
  with fb g rc show ?thesis by blast
qed

end
