(* ===== verification/Zram_Drv.thy ===== *)
theory Zram_Drv
  imports Xvmalloc Lzo_Compress Lzo_Decompress "HOL-Library.Monad_Syntax"
begin

text \<open>
  The compressed RAM block device (zram\_drv.c, zram\_drv.h).  Every handler is a function on
  the device and the kernel memory; its result is \<open>None\<close> where the C code would touch the
  page table outside its bounds or through \<open>NULL\<close>, overrun its compression buffer, read
  outside a compressed object or hit a \<open>BUG_ON\<close>.  Requests are handled one at a time (the
  locks are not represented).  What the kernel decides is in the record \<open>env\<close>: the page
  allocator, the address at which \<open>kmap_atomic\<close> maps a page, the size of the memory and
  whether each of the allocations of \<open>zram_init_device\<close> succeeds.
\<close>

section \<open>Data structures\<close>

datatype zram_pageflags = ZRAM_UNCOMPRESSED | ZRAM_ZERO

fun pageflag_nr :: "zram_pageflags \<Rightarrow> nat" where
  "pageflag_nr ZRAM_UNCOMPRESSED = 0"
| "pageflag_nr ZRAM_ZERO = 1"

record table_entry =
  te_page :: page
  te_offset :: nat
  te_count :: u8
  te_flags :: u8

record zram_stats =
  compr_size :: u64
  num_reads :: u64
  num_writes :: u64
  failed_reads :: u64
  failed_writes :: u64
  invalid_io :: u64
  notify_free :: u64
  discard :: u64
  pages_zero :: u32
  pages_stored :: u32
  good_compress :: u32
  pages_expand :: u32

text \<open>
  \<open>struct zram\<close> with the part of its \<open>gendisk\<close> the code sets.  The compressor's work memory
  holds absolute addresses.
\<close>

record zram =
  mem_pool :: "xv_pool option"
  compress_workmem :: "(nat \<Rightarrow> int) option"
  compress_buffer :: "bytes option"
  table :: "table_entry list option"
  init_done :: bool
  disksize :: u64
  stats :: zram_stats
  capacity :: u64
  queue_nonrot :: bool

type_synonym zstate = "zram \<times> kmem"

record env =
  alloc_page :: page_source
  kmap :: "page \<Rightarrow> int"
  totalram_pages :: u64
  workmem_ok :: bool
  buffer_ok :: bool
  table_ok :: bool
  pool_ok :: bool

text \<open>
  \<open>struct bio\<close>: the pages of its segments (lengths and offsets are not looked at), the
  direction, and what the driver reports: the \<open>BIO_UPTODATE\<close> flag and the argument of
  \<open>bio_endio\<close>.
\<close>

record bio =
  bi_sector :: u64
  bi_size :: nat
  bi_discard :: bool
  bi_write :: bool
  bi_io_vec :: "page list"
  bi_uptodate :: bool
  bi_end :: "int option"

definition EIO :: int where "EIO = 5"

definition bio_endio :: "int \<Rightarrow> bio \<Rightarrow> bio" where
  "bio_endio error b = b\<lparr>bi_end := Some error\<rparr>"

definition bio_io_error :: "bio \<Rightarrow> bio" where
  "bio_io_error = bio_endio (- EIO)"

definition set_uptodate :: "bio \<Rightarrow> bio" where
  "set_uptodate b = b\<lparr>bi_uptodate := True\<rparr>"

section \<open>Constants\<close>

definition sizeof_zobj_header :: nat where "sizeof_zobj_header = 0"
definition max_zpage_size :: nat where "max_zpage_size = PAGE_SIZE div 4 * 3"
definition default_disksize_perc_ram :: u64 where "default_disksize_perc_ram = 25"
definition SECTOR_SHIFT :: nat where "SECTOR_SHIFT = 9"
definition SECTORS_PER_PAGE_SHIFT :: nat where "SECTORS_PER_PAGE_SHIFT = PAGE_SHIFT - SECTOR_SHIFT"
definition SECTORS_PER_PAGE :: u64 where "SECTORS_PER_PAGE = push_bit SECTORS_PER_PAGE_SHIFT 1"
definition PAGE_MASK :: u64 where "PAGE_MASK = NOT 4095"
definition LZO1X_MEM_COMPRESS :: nat where "LZO1X_MEM_COMPRESS = 16384 * 8"

lemmas zram_consts = sizeof_zobj_header_def max_zpage_size_def default_disksize_perc_ram_def
  SECTOR_SHIFT_def SECTORS_PER_PAGE_SHIFT_def SECTORS_PER_PAGE_def kernel_consts

section \<open>Memory\<close>

definition mem_read :: "kmem \<Rightarrow> page \<Rightarrow> nat \<Rightarrow> nat \<Rightarrow> bytes" where
  "mem_read m p off n = map (data_of m p) [off..<off + n]"

definition mem_write :: "kmem \<Rightarrow> page \<Rightarrow> nat \<Rightarrow> bytes \<Rightarrow> kmem" where
  "mem_write m p off bs = m\<lparr>data_of := (data_of m)
     (p := (\<lambda>i. if off \<le> i \<and> i < off + length bs then bs ! (i - off) else data_of m p i))\<rparr>"

section \<open>Statistics, flags and table entries\<close>

definition zram_stat_inc :: "u32 \<Rightarrow> u32" where "zram_stat_inc v = v + 1"
definition zram_stat_dec :: "u32 \<Rightarrow> u32" where "zram_stat_dec v = v - 1"
definition zram_stat64_add :: "u64 \<Rightarrow> u64 \<Rightarrow> u64" where "zram_stat64_add inc v = v + inc"
definition zram_stat64_sub :: "u64 \<Rightarrow> u64 \<Rightarrow> u64" where "zram_stat64_sub dec v = v - dec"
definition zram_stat64_inc :: "u64 \<Rightarrow> u64" where "zram_stat64_inc v = zram_stat64_add 1 v"

lemmas stat_defs = zram_stat_inc_def zram_stat_dec_def zram_stat64_add_def zram_stat64_sub_def
  zram_stat64_inc_def

definition upd_stats :: "(zram_stats \<Rightarrow> zram_stats) \<Rightarrow> zram \<Rightarrow> zram" where
  "upd_stats f z = z\<lparr>stats := f (stats z)\<rparr>"

definition zram_test_flag :: "table_entry \<Rightarrow> zram_pageflags \<Rightarrow> bool" where
  "zram_test_flag e flag \<longleftrightarrow> te_flags e AND push_bit (pageflag_nr flag) 1 \<noteq> 0"

definition zram_set_flag :: "zram_pageflags \<Rightarrow> table_entry \<Rightarrow> table_entry" where
  "zram_set_flag flag e = e\<lparr>te_flags := te_flags e OR push_bit (pageflag_nr flag) 1\<rparr>"

definition zram_clear_flag :: "zram_pageflags \<Rightarrow> table_entry \<Rightarrow> table_entry" where
  "zram_clear_flag flag e = e\<lparr>te_flags := te_flags e AND NOT (push_bit (pageflag_nr flag) 1)\<rparr>"

text \<open>\<open>zram->table[index]\<close>, read and changed in place.\<close>

definition entry :: "zram \<Rightarrow> nat \<Rightarrow> table_entry option" where
  "entry z index =
     (case table z of None \<Rightarrow> None
      | Some t \<Rightarrow> if index < length t then Some (t ! index) else None)"

definition upd_entry :: "nat \<Rightarrow> (table_entry \<Rightarrow> table_entry) \<Rightarrow> zram \<Rightarrow> zram option" where
  "upd_entry index f z =
     (case table z of None \<Rightarrow> None
      | Some t \<Rightarrow> if index < length t then Some (z\<lparr>table := Some (t[index := f (t ! index)])\<rparr>) else None)"

text \<open>The scan over the 512 longs of a page; a long is read little-endian.\<close>

definition long_at :: "bytes \<Rightarrow> nat \<Rightarrow> ulong" where
  "long_at bs pos = horner_sum ucast 256 (take 8 (drop (8 * pos) bs))"

function zero_from :: "bytes \<Rightarrow> nat \<Rightarrow> bool" where
  "zero_from bs pos =
     (if pos \<ge> PAGE_SIZE div 8 then True
      else if long_at bs pos \<noteq> 0 then False else zero_from bs (Suc pos))"
  by pat_completeness auto
termination
  by (relation "measure (\<lambda>(bs, pos). PAGE_SIZE div 8 - pos)") auto

declare zero_from.simps [simp del]

definition page_zero_filled :: "bytes \<Rightarrow> bool" where
  "page_zero_filled bs = zero_from bs 0"

definition zram_set_disksize :: "u64 \<Rightarrow> zram \<Rightarrow> zram" where
  "zram_set_disksize totalram_bytes z =
     (let d = (if disksize z = 0 then default_disksize_perc_ram * (totalram_bytes div 100) else disksize z)
      in z\<lparr>disksize := d AND PAGE_MASK\<rparr>)"

section \<open>Freeing a page\<close>

text \<open>The code behind label \<open>out\<close>.\<close>

definition free_page_out :: "nat \<Rightarrow> nat \<Rightarrow> zstate \<Rightarrow> zstate option" where
  "free_page_out index clen = (\<lambda>(z, m). do {
     let z = upd_stats (compr_size_update (zram_stat64_sub (word_of_nat clen))) z;
     let z = upd_stats (pages_stored_update zram_stat_dec) z;
     z \<leftarrow> upd_entry index (\<lambda>e. e\<lparr>te_page := 0, te_offset := 0\<rparr>) z;
     Some (z, m) })"

definition zram_free_page :: "nat \<Rightarrow> zstate \<Rightarrow> zstate option" where
  "zram_free_page index = (\<lambda>(z, m). do {
     e \<leftarrow> entry z index;
     if te_page e = 0
     then if zram_test_flag e ZRAM_ZERO
          then do {
            z \<leftarrow> upd_entry index (zram_clear_flag ZRAM_ZERO) z;
            Some (upd_stats (pages_zero_update zram_stat_dec) z, m) }
          else Some (z, m)
     else if zram_test_flag e ZRAM_UNCOMPRESSED
     then do {
       let m = free_page (te_page e) m;
       z \<leftarrow> upd_entry index (zram_clear_flag ZRAM_UNCOMPRESSED) z;
       let z = upd_stats (pages_expand_update zram_stat_dec) z;
       free_page_out index PAGE_SIZE (z, m) }
     else do {
       let clen = sub32 (xv_get_object_size m (te_page e, te_offset e)) sizeof_zobj_header;
       pool \<leftarrow> mem_pool z;
       (pool, m) \<leftarrow> xv_free (te_page e, te_offset e) (pool, m);
       let z = z\<lparr>mem_pool := Some pool\<rparr>;
       let z = (if clen \<le> PAGE_SIZE div 2 then upd_stats (good_compress_update zram_stat_dec) z else z);
       free_page_out index clen (z, m) } })"

text \<open>\<open>index++\<close> on the \<open>u32\<close> index.\<close>

definition next_index :: "nat \<Rightarrow> nat" where
  "next_index index = trunc32 (index + 1)"

definition first_index :: "bio \<Rightarrow> nat" where
  "first_index b = trunc32 (unat (drop_bit SECTORS_PER_PAGE_SHIFT (bi_sector b)))"

fun discard_pages :: "nat \<Rightarrow> nat \<Rightarrow> zstate \<Rightarrow> zstate option" where
  "discard_pages 0 index s = Some s"
| "discard_pages (Suc n) index s = do {
     s \<leftarrow> zram_free_page index s;
     discard_pages n (next_index index) s }"

definition zram_discard :: "bio \<Rightarrow> zstate \<Rightarrow> (bio \<times> zstate) option" where
  "zram_discard b = (\<lambda>(z, m). do {
     (z, m) \<leftarrow> (if \<not> init_done z then Some (z, m)
                 else discard_pages (bi_size b div PAGE_SIZE) (first_index b) (z, m));
     Some (bio_endio 0 b, upd_stats (discard_update zram_stat64_inc) z, m) })"

section \<open>Reading\<close>

definition handle_zero_page :: "page \<Rightarrow> kmem \<Rightarrow> kmem" where
  "handle_zero_page p m = mem_write m p 0 (replicate PAGE_SIZE 0)"

definition handle_uncompressed_page :: "page \<Rightarrow> table_entry \<Rightarrow> kmem \<Rightarrow> kmem" where
  "handle_uncompressed_page p e m =
     mem_write m p 0 (mem_read m (te_page e) (te_offset e) PAGE_SIZE)"

text \<open>One segment of \<open>zram_read\<close>; the flag is \<open>False\<close> for \<open>goto out\<close>.\<close>

definition zram_read_page :: "page \<Rightarrow> nat \<Rightarrow> zstate \<Rightarrow> (bool \<times> zstate) option" where
  "zram_read_page p index = (\<lambda>(z, m). do {
     e \<leftarrow> entry z index;
     if zram_test_flag e ZRAM_ZERO then Some (True, z, handle_zero_page p m)
     else if te_page e = 0 then Some (True, z, m)
     else if zram_test_flag e ZRAM_UNCOMPRESSED
     then Some (True, z, handle_uncompressed_page p e m)
     else do {
       (ret, out) \<leftarrow> lzo1x_decompress_safe
         (mem_read m (te_page e) (te_offset e + sizeof_zobj_header)
            (sub32 (xv_get_object_size m (te_page e, te_offset e)) sizeof_zobj_header)) PAGE_SIZE;
       let m = mem_write m p 0 out;
       if ret \<noteq> LZO_E_OK
       then Some (False, upd_stats (failed_reads_update zram_stat64_inc) z, m)
       else Some (True, z, m) } })"

text \<open>\<open>bio_for_each_segment\<close> with the body \<open>f\<close>.\<close>

fun for_each_segment ::
  "(page \<Rightarrow> nat \<Rightarrow> zstate \<Rightarrow> (bool \<times> zstate) option) \<Rightarrow> page list \<Rightarrow> nat \<Rightarrow> zstate
     \<Rightarrow> (bool \<times> zstate) option" where
  "for_each_segment f [] index s = Some (True, s)"
| "for_each_segment f (p # ps) index s = do {
     (ok, s) \<leftarrow> f p index s;
     if ok then for_each_segment f ps (next_index index) s else Some (False, s) }"

definition end_request :: "bool \<Rightarrow> bio \<Rightarrow> bio" where
  "end_request ok b = (if ok then bio_endio 0 (set_uptodate b) else bio_io_error b)"

definition zram_read :: "bio \<Rightarrow> zstate \<Rightarrow> (int \<times> bio \<times> zstate) option" where
  "zram_read b = (\<lambda>(z, m).
     if \<not> init_done z then Some (0, end_request True b, z, m)
     else do {
       let z = upd_stats (num_reads_update zram_stat64_inc) z;
       (ok, s) \<leftarrow> for_each_segment zram_read_page (bi_io_vec b) (first_index b) (z, m);
       Some (0, end_request ok b, s) })"

section \<open>Writing\<close>

definition memstore :: "nat \<Rightarrow> nat \<Rightarrow> nat \<Rightarrow> bytes \<Rightarrow> zstate \<Rightarrow> (bool \<times> zstate) option" where
  "memstore index offset clen src = (\<lambda>(z, m). do {
     z \<leftarrow> upd_entry index (\<lambda>e. e\<lparr>te_offset := trunc16 offset\<rparr>) z;
     e \<leftarrow> entry z index;
     let m = mem_write m (te_page e) (te_offset e) (take clen src);
     let z = upd_stats (compr_size_update (zram_stat64_add (word_of_nat clen))) z;
     let z = upd_stats (pages_stored_update zram_stat_inc) z;
     let z = (if clen \<le> PAGE_SIZE div 2 then upd_stats (good_compress_update zram_stat_inc) z else z);
     Some (True, z, m) })"

definition write_failed :: "zstate \<Rightarrow> (bool \<times> zstate) option" where
  "write_failed = (\<lambda>(z, m). Some (False, upd_stats (failed_writes_update zram_stat64_inc) z, m))"

text \<open>Storing the page as it is.\<close>

definition store_uncompressed :: "env \<Rightarrow> page \<Rightarrow> nat \<Rightarrow> zstate \<Rightarrow> (bool \<times> zstate) option" where
  "store_uncompressed env p index = (\<lambda>(z, m).
     (case alloc_page env m of
        None \<Rightarrow> write_failed (z, m)
      | Some page_store \<Rightarrow> do {
          let m = m\<lparr>used_pages := insert page_store (used_pages m)\<rparr>;
          z \<leftarrow> upd_entry index (zram_set_flag ZRAM_UNCOMPRESSED) z;
          let z = upd_stats (pages_expand_update zram_stat_inc) z;
          z \<leftarrow> upd_entry index (\<lambda>e. e\<lparr>te_page := page_store\<rparr>) z;
          memstore index 0 PAGE_SIZE (mem_read m p 0 PAGE_SIZE) (z, m) }))"

text \<open>Storing the first \<open>clen\<close> bytes of the compression buffer in an object.\<close>

definition store_compressed :: "env \<Rightarrow> nat \<Rightarrow> nat \<Rightarrow> zstate \<Rightarrow> (bool \<times> zstate) option" where
  "store_compressed env clen index = (\<lambda>(z, m). do {
     pool \<leftarrow> mem_pool z;
     let ((rc, x), pool, m) = xv_malloc (alloc_page env) (clen + sizeof_zobj_header) (pool, m);
     let z = z\<lparr>mem_pool := Some pool\<rparr>;
     z \<leftarrow> upd_entry index (\<lambda>e. e\<lparr>te_page := fst x\<rparr>) z;
     if rc \<noteq> 0 then write_failed (z, m)
     else do {
       src \<leftarrow> compress_buffer z;
       memstore index (snd x) clen src (z, m) } })"

text \<open>The call of the compressor: it writes to the buffer and leaves its table behind.\<close>

definition compress_page ::
  "env \<Rightarrow> page \<Rightarrow> zstate \<Rightarrow> (int \<times> nat \<times> zstate) option" where
  "compress_page env p = (\<lambda>(z, m). do {
     workmem \<leftarrow> compress_workmem z;
     buffer \<leftarrow> compress_buffer z;
     let (ret, out, dict) = lzo1x_1_compress (mem_read m p 0 PAGE_SIZE) (\<lambda>i. workmem i - kmap env p);
     if length out > length buffer then None
     else Some (ret, length out,
       z\<lparr>compress_workmem := Some (\<lambda>i. dict i + kmap env p),
         compress_buffer := Some (out @ drop (length out) buffer)\<rparr>, m) })"

text \<open>One segment of \<open>zram_write\<close>.\<close>

definition zram_write_page :: "env \<Rightarrow> page \<Rightarrow> nat \<Rightarrow> zstate \<Rightarrow> (bool \<times> zstate) option" where
  "zram_write_page env p index = (\<lambda>(z, m). do {
     e \<leftarrow> entry z index;
     (z, m) \<leftarrow> (if te_page e \<noteq> 0 \<or> zram_test_flag e ZRAM_ZERO
                 then zram_free_page index (z, m) else Some (z, m));
     if page_zero_filled (mem_read m p 0 PAGE_SIZE)
     then do {
       let z = upd_stats (pages_zero_update zram_stat_inc) z;
       z \<leftarrow> upd_entry index (zram_set_flag ZRAM_ZERO) z;
       Some (True, z, m) }
     else do {
       (ret, clen, z, m) \<leftarrow> compress_page env p (z, m);
       if ret \<noteq> LZO_E_OK then write_failed (z, m)
       else if clen > max_zpage_size then store_uncompressed env p index (z, m)
       else store_compressed env clen index (z, m) } })"

section \<open>Reset and initialisation\<close>

fun reset_pages :: "nat \<Rightarrow> nat \<Rightarrow> zstate \<Rightarrow> zstate option" where
  "reset_pages 0 index s = Some s"
| "reset_pages (Suc n) index (z, m) = do {
     e \<leftarrow> entry z index;
     (z, m) \<leftarrow>
       (if te_page e = 0 then Some (z, m)
        else if zram_test_flag e ZRAM_UNCOMPRESSED then Some (z, free_page (te_page e) m)
        else do {
          pool \<leftarrow> mem_pool z;
          (pool, m) \<leftarrow> xv_free (te_page e, te_offset e) (pool, m);
          Some (z\<lparr>mem_pool := Some pool\<rparr>, m) });
     reset_pages n (Suc index) (z, m) }"

definition zero_stats :: zram_stats where
  "zero_stats = \<lparr>compr_size = 0, num_reads = 0, num_writes = 0, failed_reads = 0, failed_writes = 0,
     invalid_io = 0, notify_free = 0, discard = 0, pages_zero = 0, pages_stored = 0,
     good_compress = 0, pages_expand = 0\<rparr>"

definition num_pages :: "zram \<Rightarrow> nat" where
  "num_pages z = unat (drop_bit PAGE_SHIFT (disksize z))"

definition zram_reset_device :: "zstate \<Rightarrow> zstate option" where
  "zram_reset_device = (\<lambda>(z, m). do {
     let z = z\<lparr>init_done := False\<rparr>;
     let z = z\<lparr>compress_workmem := None, compress_buffer := None\<rparr>;
     (z, m) \<leftarrow> reset_pages (num_pages z) 0 (z, m);
     let z = z\<lparr>table := None\<rparr>;
     let z = z\<lparr>mem_pool := None\<rparr>;
     Some (z\<lparr>stats := zero_stats, disksize := 0\<rparr>, m) })"

text \<open>The path \<open>fail\<close> of \<open>zram_init_device\<close>.\<close>

definition init_fail :: "int \<Rightarrow> zstate \<Rightarrow> (int \<times> zstate) option" where
  "init_fail ret s = do { s \<leftarrow> zram_reset_device s; Some (ret, s) }"

definition zram_init_device :: "env \<Rightarrow> zstate \<Rightarrow> (int \<times> zstate) option" where
  "zram_init_device env = (\<lambda>(z, m).
     if init_done z then Some (0, z, m)
     else
       let z = zram_set_disksize (push_bit PAGE_SHIFT (totalram_pages env)) z;
           z = z\<lparr>compress_workmem := (if workmem_ok env then Some (\<lambda>_. 0) else None)\<rparr>
       in if compress_workmem z = None then init_fail (- ENOMEM) (z, m)
       else
       let z = z\<lparr>compress_buffer := (if buffer_ok env then Some (replicate (2 * PAGE_SIZE) 0) else None)\<rparr>
       in if compress_buffer z = None then init_fail (- ENOMEM) (z, m)
       else
       let z = z\<lparr>table := (if table_ok env
             then Some (replicate (num_pages z) \<lparr>te_page = 0, te_offset = 0, te_count = 0, te_flags = 0\<rparr>)
             else None)\<rparr>
       in if table z = None then init_fail (- ENOMEM) (z\<lparr>disksize := 0\<rparr>, m)
       else
       let z = z\<lparr>capacity := drop_bit SECTOR_SHIFT (disksize z), queue_nonrot := True\<rparr>;
           z = z\<lparr>mem_pool := xv_create_pool (pool_ok env)\<rparr>
       in if mem_pool z = None then init_fail (- ENOMEM) (z, m)
       else Some (0, z\<lparr>init_done := True\<rparr>, m))"

section \<open>The request handlers\<close>

definition zram_write :: "env \<Rightarrow> bio \<Rightarrow> zstate \<Rightarrow> (int \<times> bio \<times> zstate) option" where
  "zram_write env b = (\<lambda>(z, m). do {
     (ret, z, m) \<leftarrow> (if \<not> init_done z then zram_init_device env (z, m) else Some (0, z, m));
     if ret \<noteq> 0 then Some (0, end_request False b, z, m)
     else do {
       let z = upd_stats (num_writes_update zram_stat64_inc) z;
       (ok, s) \<leftarrow> for_each_segment (zram_write_page env) (bi_io_vec b) (first_index b) (z, m);
       Some (0, end_request ok b, s) } })"

definition valid_io_request :: "zram \<Rightarrow> bio \<Rightarrow> bool" where
  "valid_io_request z b \<longleftrightarrow>
     \<not> (bi_sector b \<ge> drop_bit SECTOR_SHIFT (disksize z)
        \<or> bi_sector b AND (SECTORS_PER_PAGE - 1) \<noteq> 0
        \<or> bi_size b AND (PAGE_SIZE - 1) \<noteq> 0)"

definition zram_make_request :: "env \<Rightarrow> bio \<Rightarrow> zstate \<Rightarrow> (int \<times> bio \<times> zstate) option" where
  "zram_make_request env b = (\<lambda>(z, m).
     if \<not> valid_io_request z b
     then Some (0, bio_io_error b, upd_stats (invalid_io_update zram_stat64_inc) z, m)
     else if bi_discard b then do { (b, s) \<leftarrow> zram_discard b (z, m); Some (0, b, s) }
     else if bi_write b then zram_write env b (z, m)
     else zram_read b (z, m))"

definition zram_slot_free_notify :: "nat \<Rightarrow> zstate \<Rightarrow> zstate option" where
  "zram_slot_free_notify index s = do {
     (z, m) \<leftarrow> zram_free_page index s;
     Some (upd_stats (notify_free_update zram_stat64_inc) z, m) }"

end
