(* ===== verification/Zram_Inv.thy ===== *)
theory Zram_Inv
  imports Zram_Drv Lzo_Bounds Xv_Allocator
begin

text \<open>
  The device invariant and the abstract view of a device.  The view \<open>contents\<close> maps a page
  index to the bytes the device holds for it, \<open>None\<close> where nothing has been written.  The
  invariant ties the table to the allocator: every compressed entry names its own live object,
  every live object belongs to an entry, an uncompressed entry owns a whole page, and the
  statistics are the sums over the table.
\<close>

section \<open>Memory\<close>

lemma length_mem_read [simp]: "length (mem_read m p off n) = n"
  by (simp add: mem_read_def)

lemma mem_write_simps [simp]:
  "heap_of (mem_write m p off bs) = heap_of m" "used_pages (mem_write m p off bs) = used_pages m"
  by (simp_all add: mem_write_def)

lemma data_of_mem_write_other: "q \<noteq> p \<Longrightarrow> data_of (mem_write m p off bs) q = data_of m q"
  by (simp add: mem_write_def)

lemma mem_read_cong: "(\<And>i. off \<le> i \<Longrightarrow> i < off + n \<Longrightarrow> data_of m' p i = data_of m p i) \<Longrightarrow>
    mem_read m' p off n = mem_read m p off n"
  by (simp add: mem_read_def)

lemma mem_read_data: "data_of m' = data_of m \<Longrightarrow> mem_read m' = mem_read m"
  by (intro ext) (simp add: mem_read_def)

lemma mem_read_write [simp]: "mem_read (mem_write m p off bs) p off (length bs) = bs"
  by (intro nth_equalityI) (auto simp: mem_read_def mem_write_def)

lemma mem_read_write_other:
  "q \<noteq> p \<or> o' + n \<le> off \<or> off + length bs \<le> o' \<Longrightarrow>
     mem_read (mem_write m p off bs) q o' n = mem_read m q o' n"
  by (intro mem_read_cong) (auto simp: mem_write_def)

section \<open>Flags\<close>

lemma zram_test_flag_bit: "zram_test_flag e f \<longleftrightarrow> bit (te_flags e) (pageflag_nr f)"
  by (simp add: zram_test_flag_def bit_iff_and_push_bit_not_eq_0)

lemma pageflag_nr_less: "pageflag_nr f < 8"
  by (cases f) simp_all

lemma pageflag_nr_inj: "pageflag_nr f = pageflag_nr g \<longleftrightarrow> f = g"
  by (cases f; cases g) simp_all

named_theorems entry_simps "reading a table entry after writing it"

lemma zram_test_set_flag [entry_simps]: "zram_test_flag (zram_set_flag g e) f \<longleftrightarrow> f = g \<or> zram_test_flag e f"
  using pageflag_nr_less [of f]
  by (auto simp: zram_test_flag_bit zram_set_flag_def bit_simps pageflag_nr_inj)

lemma zram_test_clear_flag [entry_simps]:
  "zram_test_flag (zram_clear_flag g e) f \<longleftrightarrow> f \<noteq> g \<and> zram_test_flag e f"
  using pageflag_nr_less [of f]
  by (auto simp: zram_test_flag_bit zram_clear_flag_def bit_simps pageflag_nr_inj)

lemma entry_fields [entry_simps]:
  "te_page (zram_set_flag g e) = te_page e" "te_offset (zram_set_flag g e) = te_offset e"
  "te_page (zram_clear_flag g e) = te_page e" "te_offset (zram_clear_flag g e) = te_offset e"
  by (simp_all add: zram_set_flag_def zram_clear_flag_def)

lemma zram_test_flag_upd [entry_simps]:
  "zram_test_flag (e\<lparr>te_page := p\<rparr>) f = zram_test_flag e f"
  "zram_test_flag (e\<lparr>te_offset := n\<rparr>) f = zram_test_flag e f"
  by (simp_all add: zram_test_flag_def)

section \<open>Zero pages\<close>

lemma horner_ucast_0_iff:
  fixes bs :: bytes
  shows "length bs \<le> 8 \<Longrightarrow> unat (horner_sum ucast 256 bs :: ulong) = horner_sum unat 256 bs
    \<and> horner_sum unat 256 bs < 256 ^ length bs"
proof (induction bs)
  case Nil
  then show ?case by simp
next
  case (Cons b bs)
  let ?h = "horner_sum ucast 256 bs :: ulong" and ?n = "horner_sum unat 256 bs :: nat"
  have IH: "unat ?h = ?n" "?n < 256 ^ length bs" using Cons by simp_all
  have b: "unat b < 256" by (rule unat_byte_less)
  have "unat b + 256 * ?n < 256 * (?n + 1)"
    using b by (simp add: distrib_left)
  also have "\<dots> \<le> 256 * 256 ^ length bs"
    using IH(2) by (intro mult_le_mono2) simp
  finally have bound: "unat b + 256 * ?n < 256 ^ Suc (length bs)" by (simp only: power_Suc)
  have "(256 :: nat) ^ Suc (length bs) \<le> 256 ^ 8"
    using Cons.prems by (intro power_increasing) simp_all
  then have small: "unat b + 256 * ?n < 18446744073709551616" using bound by simp
  have ub: "unat (ucast b :: ulong) = unat b" 
  proof -
    have "unat b < 2 ^ 64" by (rule less_le_trans [OF b]) simp
    then have "take_bit 64 (unat b) = unat b" by (rule take_bit_nat_eq_self)
    then show ?thesis by (simp add: unsigned_ucast_eq)
  qed
  have "unat (256 * ?h) = 256 * ?n"
    using small IH(1) by (simp add: unat_word_ariths)
  then have "unat (ucast b + 256 * ?h :: ulong) = unat b + 256 * ?n"
    using small ub by (simp add: unat_word_ariths)
  with bound show ?case by simp
qed

lemma horner_nat_0_iff: "horner_sum unat (256 :: nat) (bs :: bytes) = 0 \<longleftrightarrow> (\<forall>b\<in>set bs. b = 0)"
  by (induction bs) (auto simp: unat_eq_zero)

lemma long_at_0_iff: "long_at bs pos = 0 \<longleftrightarrow> (\<forall>b\<in>set (take 8 (drop (8 * pos) bs)). b = 0)"
proof -
  let ?l = "take 8 (drop (8 * pos) bs)"
  have "long_at bs pos = 0 \<longleftrightarrow> unat (horner_sum ucast 256 ?l :: ulong) = 0"
    by (simp add: long_at_def unat_eq_zero)
  also have "\<dots> \<longleftrightarrow> horner_sum unat (256 :: nat) ?l = 0"
    using horner_ucast_0_iff [of ?l] by simp
  finally show ?thesis by (simp add: horner_nat_0_iff)
qed

lemma zero_from_iff:
  "length bs = PAGE_SIZE \<Longrightarrow> zero_from bs pos \<longleftrightarrow> (\<forall>b\<in>set (drop (8 * pos) bs). b = 0)"
proof (induction bs pos rule: zero_from.induct)
  case (1 bs pos)
  show ?case
  proof (cases "pos \<ge> PAGE_SIZE div 8")
    case True
    with "1.prems" show ?thesis by (simp add: zero_from.simps [of bs pos] kernel_consts)
  next
    case False
    have "drop (8 * pos) bs = take 8 (drop (8 * pos) bs) @ drop (8 * Suc pos) bs"
      by (metis add.commute append_take_drop_id drop_drop mult_Suc_right)
    then have split: "(\<forall>b\<in>set (drop (8 * pos) bs). b = 0) \<longleftrightarrow>
        long_at bs pos = 0 \<and> (\<forall>b\<in>set (drop (8 * Suc pos) bs). b = 0)"
      by (metis Un_iff long_at_0_iff set_append)
    show ?thesis
    proof (cases "long_at bs pos = 0")
      case True
      with False "1.IH" "1.prems" split show ?thesis by (simp add: zero_from.simps [of bs pos])
    next
      case nz: False
      with False split show ?thesis by (simp add: zero_from.simps [of bs pos])
    qed
  qed
qed

lemma page_zero_filled_iff:
  "length bs = PAGE_SIZE \<Longrightarrow> page_zero_filled bs \<longleftrightarrow> bs = replicate PAGE_SIZE 0"
  by (auto simp: page_zero_filled_def zero_from_iff replicate_eqI)

section \<open>The abstract view\<close>

abbreviation is_zero :: "table_entry \<Rightarrow> bool" where "is_zero e \<equiv> zram_test_flag e ZRAM_ZERO"
abbreviation is_raw :: "table_entry \<Rightarrow> bool" where "is_raw e \<equiv> zram_test_flag e ZRAM_UNCOMPRESSED"
abbreviation te_loc :: "table_entry \<Rightarrow> loc" where "te_loc e \<equiv> (te_page e, te_offset e)"

definition content :: "kmem \<Rightarrow> table_entry \<Rightarrow> bytes option" where
  "content m e =
     (if is_zero e then Some (replicate PAGE_SIZE 0)
      else if te_page e = 0 then None
      else if is_raw e then Some (mem_read m (te_page e) (te_offset e) PAGE_SIZE)
      else map_option snd (lzo1x_decompress_safe
             (mem_read m (te_page e) (te_offset e) (xv_get_object_size m (te_loc e))) PAGE_SIZE))"

definition contents :: "zram \<Rightarrow> kmem \<Rightarrow> nat \<Rightarrow> bytes option" where
  "contents z m i = (case entry z i of None \<Rightarrow> None | Some e \<Rightarrow> content m e)"

section \<open>The invariant\<close>

definition entry_ok :: "kmem \<Rightarrow> layout \<Rightarrow> table_entry \<Rightarrow> bool" where
  "entry_ok m L e \<longleftrightarrow>
     (if te_page e = 0 then \<not> is_raw e
      else \<not> is_zero e \<and>
        (if is_raw e then te_offset e = 0 \<and> te_page e \<in> used_pages m \<and> te_page e \<notin> dom L
         else (\<exists>n bs. live m L (te_loc e) = Some n \<and> n \<le> max_zpage_size \<and> length bs = PAGE_SIZE
                \<and> lzo1x_decompress_safe (mem_read m (te_page e) (te_offset e) n) PAGE_SIZE
                    = Some (LZO_E_OK, bs))))"

definition raw_pages :: "table_entry list \<Rightarrow> page set" where
  "raw_pages t = {p. \<exists>e\<in>set t. te_page e = p \<and> p \<noteq> 0 \<and> is_raw e}"

definition table_inv :: "table_entry list \<Rightarrow> kmem \<Rightarrow> layout \<Rightarrow> bool" where
  "table_inv t m L \<longleftrightarrow>
     (\<forall>i<length t. entry_ok m L (t ! i))
     \<and> (\<forall>i<length t. \<forall>j<length t. i \<noteq> j \<and> te_page (t ! i) \<noteq> 0 \<longrightarrow> te_loc (t ! i) \<noteq> te_loc (t ! j))
     \<and> (\<forall>x\<in>dom (live m L). \<exists>i<length t. te_page (t ! i) \<noteq> 0 \<and> \<not> is_raw (t ! i) \<and> te_loc (t ! i) = x)"

text \<open>The size an entry accounts for, and the statistics.\<close>

definition stored_len :: "kmem \<Rightarrow> layout \<Rightarrow> table_entry \<Rightarrow> nat" where
  "stored_len m L e =
     (if te_page e = 0 then 0 else if is_raw e then PAGE_SIZE
      else case live m L (te_loc e) of None \<Rightarrow> 0 | Some n \<Rightarrow> n)"

definition one_if :: "bool \<Rightarrow> 'w::len word" where
  "one_if b = (if b then 1 else 0)"

definition stats_inv :: "zram_stats \<Rightarrow> table_entry list \<Rightarrow> kmem \<Rightarrow> layout \<Rightarrow> bool" where
  "stats_inv s t m L \<longleftrightarrow>
     pages_stored s = sum_list (map (\<lambda>e. one_if (te_page e \<noteq> 0)) t)
     \<and> pages_zero s = sum_list (map (\<lambda>e. one_if (is_zero e)) t)
     \<and> pages_expand s = sum_list (map (\<lambda>e. one_if (te_page e \<noteq> 0 \<and> is_raw e)) t)
     \<and> good_compress s = sum_list (map (\<lambda>e. one_if (te_page e \<noteq> 0 \<and> stored_len m L e \<le> PAGE_SIZE div 2)) t)
     \<and> compr_size s = sum_list (map (\<lambda>e. word_of_nat (stored_len m L e)) t)"

definition buffers_ok :: "zram \<Rightarrow> bool" where
  "buffers_ok z \<longleftrightarrow> (\<exists>w b. compress_workmem z = Some w \<and> compress_buffer z = Some b \<and> length b = 2 * PAGE_SIZE)"

definition zram_inv :: "zram \<Rightarrow> kmem \<Rightarrow> layout \<Rightarrow> bool" where
  "zram_inv z m L \<longleftrightarrow>
     init_done z \<and> buffers_ok z
     \<and> (\<exists>pool t. mem_pool z = Some pool \<and> table z = Some t \<and> length t = num_pages z
          \<and> xv_inv pool m L \<and> no_empty m L \<and> table_inv t m L \<and> stats_inv (stats z) t m L)"

text \<open>The pages the device owns; all others are left alone.\<close>

definition owned :: "zram \<Rightarrow> layout \<Rightarrow> page set" where
  "owned z L = dom L \<union> (case table z of None \<Rightarrow> {} | Some t \<Rightarrow> raw_pages t)"

definition user_page :: "zram \<Rightarrow> kmem \<Rightarrow> layout \<Rightarrow> page \<Rightarrow> bool" where
  "user_page z m L p \<longleftrightarrow> p \<in> used_pages m \<and> p \<notin> owned z L"

end
