(* ===== verification/Zram_Update.thy ===== *)
theory Zram_Update
  imports Zram_Inv
begin

text \<open>
  How the invariant moves when one table entry changes: the other entries keep their objects
  and their bytes, the statistics change by the difference of the two entries.
\<close>

section \<open>Sums over a table\<close>

lemma sum_list_upd:
  fixes f g :: "'a \<Rightarrow> 'w::len word"
  assumes i: "i < length t" and same: "\<And>j. j < length t \<Longrightarrow> j \<noteq> i \<Longrightarrow> g (t ! j) = f (t ! j)"
  shows "sum_list (map g (t[i := e])) = sum_list (map f t) - f (t ! i) + g e"
proof -
  have "map g (take i t) = map f (take i t)"
    using i same by (auto simp: list_eq_iff_nth_eq)
  moreover have "map g (drop (Suc i) t) = map f (drop (Suc i) t)"
    using i same by (auto simp: list_eq_iff_nth_eq)
  moreover have "t[i := e] = take i t @ e # drop (Suc i) t" "t = take i t @ t ! i # drop (Suc i) t"
    using i by (simp_all add: upd_conv_take_nth_drop id_take_nth_drop [symmetric])
  ultimately have "sum_list (map g (t[i := e])) = sum_list (map f (take i t)) + (g e + sum_list (map f (drop (Suc i) t)))"
    "sum_list (map f t) = sum_list (map f (take i t)) + (f (t ! i) + sum_list (map f (drop (Suc i) t)))"
    by (metis list.simps(9) map_append sum_list.Cons sum_list.append)+
  then show ?thesis by (simp add: algebra_simps)
qed

lemma stats_change:
  assumes inv: "stats_inv s t m L" and i: "i < length t"
    and same: "\<And>j. j < length t \<Longrightarrow> j \<noteq> i \<Longrightarrow> stored_len m' L' (t ! j) = stored_len m L (t ! j)"
    and "pages_stored s' = pages_stored s - one_if (te_page (t ! i) \<noteq> 0) + one_if (te_page e \<noteq> 0)"
    and "pages_zero s' = pages_zero s - one_if (is_zero (t ! i)) + one_if (is_zero e)"
    and "pages_expand s' = pages_expand s - one_if (te_page (t ! i) \<noteq> 0 \<and> is_raw (t ! i))
       + one_if (te_page e \<noteq> 0 \<and> is_raw e)"
    and "good_compress s' = good_compress s
       - one_if (te_page (t ! i) \<noteq> 0 \<and> stored_len m L (t ! i) \<le> PAGE_SIZE div 2)
       + one_if (te_page e \<noteq> 0 \<and> stored_len m' L' e \<le> PAGE_SIZE div 2)"
    and "compr_size s' = compr_size s - word_of_nat (stored_len m L (t ! i))
       + word_of_nat (stored_len m' L' e)"
  shows "stats_inv s' (t[i := e]) m' L'"
  using assms(1,4-) same unfolding stats_inv_def
  by (simp add: sum_list_upd [OF i, where f = "\<lambda>e. one_if (te_page e \<noteq> 0)"]
      sum_list_upd [OF i, where f = "\<lambda>e. one_if (is_zero e)"]
      sum_list_upd [OF i, where f = "\<lambda>e. one_if (te_page e \<noteq> 0 \<and> is_raw e)"]
      sum_list_upd [OF i, where f = "\<lambda>e. one_if (te_page e \<noteq> 0 \<and> stored_len m L e \<le> PAGE_SIZE div 2)"]
      sum_list_upd [OF i, where f = "\<lambda>e. word_of_nat (stored_len m L e)"])

section \<open>The entries that do not change\<close>

lemma live_object_size:
  assumes "xv_inv pool m L" and "live m L x = Some n"
  shows "xv_get_object_size m x = n"
proof -
  obtain p off where x: "x = (p, off)" by (cases x)
  note b = live_bounds [OF assms(1), of p off n]
  have "sub32 off 4 = off - 4"
    using b assms(2) x by (intro sub32_id) (auto simp: PAGE_SIZE_def)
  with assms(2) show ?thesis
    by (auto simp: x live_def xv_get_object_size_def XV_ALIGN_def split: option.splits if_splits)
qed

text \<open>An entry whose object and bytes are still there.\<close>

definition kept :: "kmem \<Rightarrow> layout \<Rightarrow> kmem \<Rightarrow> layout \<Rightarrow> table_entry \<Rightarrow> bool" where
  "kept m L m' L' e \<longleftrightarrow>
     (te_page e \<noteq> 0 \<longrightarrow>
        (if is_raw e
         then te_page e \<in> used_pages m' \<and> te_page e \<notin> dom L'
           \<and> mem_read m' (te_page e) 0 PAGE_SIZE = mem_read m (te_page e) 0 PAGE_SIZE
         else \<forall>n. live m L (te_loc e) = Some n \<longrightarrow> live m' L' (te_loc e) = Some n
           \<and> mem_read m' (te_page e) (te_offset e) n = mem_read m (te_page e) (te_offset e) n))"

lemma kept_entry:
  assumes k: "kept m L m' L' e" and ok: "entry_ok m L e" and inv: "xv_inv pool m L" "xv_inv pool' m' L'"
  shows "entry_ok m' L' e" "content m' e = content m e" "stored_len m' L' e = stored_len m L e"
proof -
  show "entry_ok m' L' e"
    using k ok unfolding kept_def entry_ok_def by (auto split: if_splits)
  show "stored_len m' L' e = stored_len m L e"
    using k ok unfolding kept_def entry_ok_def stored_len_def by (auto split: if_splits)
  show "content m' e = content m e"
  proof (cases "te_page e = 0 \<or> is_raw e")
    case True
    with k ok show ?thesis unfolding kept_def entry_ok_def content_def by (auto split: if_splits)
  next
    case False
    with ok obtain n where n: "live m L (te_loc e) = Some n" by (auto simp: entry_ok_def)
    with False k have n': "live m' L' (te_loc e) = Some n"
      "mem_read m' (te_page e) (te_offset e) n = mem_read m (te_page e) (te_offset e) n"
      by (auto simp: kept_def)
    show ?thesis
      using False live_object_size [OF inv(1) n] live_object_size [OF inv(2) n'(1)] n'(2)
      by (simp add: content_def)
  qed
qed

section \<open>One entry changes\<close>

lemma table_change:
  assumes tinv: "table_inv t m L" and i: "i < length t"
    and inv: "xv_inv pool m L" "xv_inv pool' m' L'"
    and kept: "\<And>j. j < length t \<Longrightarrow> j \<noteq> i \<Longrightarrow> kept m L m' L' (t ! j)"
    and ok: "entry_ok m' L' e"
    and loc: "\<And>j. te_page e \<noteq> 0 \<Longrightarrow> j < length t \<Longrightarrow> j \<noteq> i \<Longrightarrow> te_loc e \<noteq> te_loc (t ! j)"
    and live: "\<And>x. x \<in> dom (live m' L') \<Longrightarrow>
      (te_page e \<noteq> 0 \<and> \<not> is_raw e \<and> te_loc e = x)
      \<or> (x \<in> dom (live m L) \<and> \<not> (te_page (t ! i) \<noteq> 0 \<and> \<not> is_raw (t ! i) \<and> te_loc (t ! i) = x))"
  shows "table_inv (t[i := e]) m' L'"
  unfolding table_inv_def
proof (intro conjI allI impI ballI)
  fix j assume "j < length (t[i := e])"
  then show "entry_ok m' L' (t[i := e] ! j)"
    using kept_entry(1) [OF kept _ inv] ok tinv by (cases "j = i") (auto simp: table_inv_def)
next
  fix j k assume jk: "j < length (t[i := e])" "k < length (t[i := e])"
    "j \<noteq> k \<and> te_page (t[i := e] ! j) \<noteq> 0"
  consider "j = i" | "k = i" "j \<noteq> i" | "j \<noteq> i" "k \<noteq> i" by blast
  then show "te_loc (t[i := e] ! j) \<noteq> te_loc (t[i := e] ! k)"
  proof cases
    case 1
    with jk i loc [of k] show ?thesis by auto
  next
    case 2
    with jk i loc [of j] show ?thesis by (cases "te_page e = 0") auto
  next
    case 3
    with jk tinv show ?thesis by (auto simp: table_inv_def)
  qed
next
  fix x assume "x \<in> dom (live m' L')"
  from live [OF this] show "\<exists>j<length (t[i := e]). te_page (t[i := e] ! j) \<noteq> 0
      \<and> \<not> is_raw (t[i := e] ! j) \<and> te_loc (t[i := e] ! j) = x"
  proof
    assume "te_page e \<noteq> 0 \<and> \<not> is_raw e \<and> te_loc e = x"
    with i show ?thesis by (intro exI [of _ i]) simp
  next
    assume *: "x \<in> dom (live m L) \<and> \<not> (te_page (t ! i) \<noteq> 0 \<and> \<not> is_raw (t ! i) \<and> te_loc (t ! i) = x)"
    with tinv obtain j where j: "j < length t" "te_page (t ! j) \<noteq> 0" "\<not> is_raw (t ! j)" "te_loc (t ! j) = x"
      unfolding table_inv_def by blast
    with * have "j \<noteq> i" by blast
    with j show ?thesis by (intro exI [of _ j]) simp
  qed
qed

lemma contents_table: "table z = Some t \<Longrightarrow> contents z m i = (if i < length t then content m (t ! i) else None)"
  by (simp add: contents_def entry_def)

lemma raw_pages_nth: "raw_pages t = {p. \<exists>i<length t. te_page (t ! i) = p \<and> p \<noteq> 0 \<and> is_raw (t ! i)}"
  unfolding raw_pages_def by (auto simp: in_set_conv_nth) (metis nth_mem)

lemma raw_pages_upd:
  assumes "i < length t" and "te_page (t ! i) = 0 \<or> \<not> is_raw (t ! i)"
  shows "raw_pages (t[i := e]) = raw_pages t \<union> (if te_page e \<noteq> 0 \<and> is_raw e then {te_page e} else {})"
proof (rule set_eqI)
  fix p
  have "p \<in> raw_pages (t[i := e]) \<longleftrightarrow> (\<exists>j<length t. j \<noteq> i \<and> te_page (t ! j) = p \<and> p \<noteq> 0 \<and> is_raw (t ! j))
      \<or> (te_page e = p \<and> p \<noteq> 0 \<and> is_raw e)"
    using assms(1) by (auto simp: raw_pages_nth nth_list_update)
  moreover have "p \<in> raw_pages t \<longleftrightarrow> (\<exists>j<length t. j \<noteq> i \<and> te_page (t ! j) = p \<and> p \<noteq> 0 \<and> is_raw (t ! j))"
    using assms(2) by (auto simp: raw_pages_nth)
  ultimately show "p \<in> raw_pages (t[i := e]) \<longleftrightarrow>
      p \<in> raw_pages t \<union> (if te_page e \<noteq> 0 \<and> is_raw e then {te_page e} else {})" by auto
qed

lemma raw_pages_del:
  assumes tinv: "table_inv t m L" and i: "i < length t" "te_page (t ! i) \<noteq> 0" "is_raw (t ! i)"
    and e: "te_page e = 0"
  shows "raw_pages (t[i := e]) = raw_pages t - {te_page (t ! i)}"
proof -
  have ne: "te_page (t ! j) \<noteq> te_page (t ! i)" if "j < length t" "j \<noteq> i" "te_page (t ! j) \<noteq> 0" "is_raw (t ! j)" for j
  proof -
    have "te_loc (t ! i) \<noteq> te_loc (t ! j)" using tinv i that unfolding table_inv_def by blast
    moreover have "te_offset (t ! i) = 0" "te_offset (t ! j) = 0"
      using tinv i that by (auto simp: table_inv_def entry_ok_def)
    ultimately show ?thesis by auto
  qed
  show ?thesis
  proof (rule set_eqI)
    fix p
    have "p \<in> raw_pages (t[i := e]) \<longleftrightarrow> (\<exists>j<length t. j \<noteq> i \<and> te_page (t ! j) = p \<and> p \<noteq> 0 \<and> is_raw (t ! j))"
      using i(1) e by (auto simp: raw_pages_nth nth_list_update)
    moreover have "p \<in> raw_pages t \<longleftrightarrow> (\<exists>j<length t. te_page (t ! j) = p \<and> p \<noteq> 0 \<and> is_raw (t ! j))"
      by (simp add: raw_pages_nth)
    ultimately show "p \<in> raw_pages (t[i := e]) \<longleftrightarrow> p \<in> raw_pages t - {te_page (t ! i)}"
      using ne i by (cases "p = te_page (t ! i)") (simp_all, metis+)
  qed
qed

text \<open>The effect of one page-level step on the device and on everything else.\<close>

definition page_step ::
  "nat \<Rightarrow> bytes option \<Rightarrow> zram \<Rightarrow> kmem \<Rightarrow> layout \<Rightarrow> zram \<Rightarrow> kmem \<Rightarrow> layout \<Rightarrow> bool" where
  "page_step i c z m L z' m' L' \<longleftrightarrow>
     zram_inv z' m' L' \<and> contents z' m' = (contents z m)(i := c) \<and> disksize z' = disksize z
     \<and> used_pages m' - owned z' L' = used_pages m - owned z L
     \<and> (\<forall>p \<in> used_pages m - owned z L. data_of m' p = data_of m p)"

lemma page_stepI:
  assumes inv: "zram_inv z m L" and t: "table z = Some t" "i < length t"
    and pool: "mem_pool z = Some pool" "mem_pool z' = Some pool'" "xv_inv pool' m' L'" "no_empty m' L'"
    and z': "init_done z'" "buffers_ok z'" "disksize z' = disksize z" "table z' = Some (t[i := e])"
    and kept: "\<And>j. j < length t \<Longrightarrow> j \<noteq> i \<Longrightarrow> kept m L m' L' (t ! j)"
    and tinv: "table_inv (t[i := e]) m' L'" and stats: "stats_inv (stats z') (t[i := e]) m' L'"
    and own: "used_pages m' - (dom L' \<union> raw_pages (t[i := e])) = used_pages m - (dom L \<union> raw_pages t)"
    and data: "\<And>p. p \<in> used_pages m - (dom L \<union> raw_pages t) \<Longrightarrow> data_of m' p = data_of m p"
    and c: "content m' e = c"
  shows "page_step i c z m L z' m' L'"
proof -
  have len: "length t = num_pages z" and xinv: "xv_inv pool m L" and tok: "table_inv t m L"
    using inv t pool by (auto simp: zram_inv_def)
  have "zram_inv z' m' L'"
    using pool z' tinv stats len by (simp add: zram_inv_def num_pages_def)
  moreover have "contents z' m' j = ((contents z m)(i := c)) j" for j
  proof (cases "j = i \<or> \<not> j < length t")
    case True
    with t z' c show ?thesis by (auto simp: contents_table)
  next
    case False
    then have "entry_ok m L (t ! j)" using tok by (auto simp: table_inv_def)
    with False kept have "content m' (t ! j) = content m (t ! j)"
      using kept_entry(2) [OF _ _ xinv pool(3)] by blast
    with False t z' show ?thesis by (simp add: contents_table)
  qed
  ultimately show ?thesis
    using z' t own data by (simp add: page_step_def owned_def fun_eq_iff)
qed

lemma page_step_trans:
  "page_step i c z m L z1 m1 L1 \<Longrightarrow> page_step i c' z1 m1 L1 z' m' L' \<Longrightarrow> page_step i c' z m L z' m' L'"
  by (simp add: page_step_def)

lemma page_step_user_page: "page_step i c z m L z' m' L' \<Longrightarrow> user_page z' m' L' p \<longleftrightarrow> user_page z m L p"
  by (auto simp: page_step_def user_page_def)

end
