(* ===== verification/Zram_Pages.thy ===== *)
theory Zram_Pages
  imports Zram_Update
begin

text \<open>
  The page-level operations of the driver against the abstract view: \<open>zram_free_page\<close> forgets
  a page, \<open>zram_write_page\<close> stores one (or forgets it, when it fails) and \<open>zram_read_page\<close>
  delivers exactly what the view holds.  None of them meets undefined behaviour.
\<close>

section \<open>Freeing a page\<close>

lemma kept_refl: "entry_ok m L e \<Longrightarrow> kept m L m L e"
  by (auto simp: entry_ok_def kept_def split: if_splits)

lemma upd_entry_Some: "table z = Some t \<Longrightarrow> i < length t \<Longrightarrow> upd_entry i f z = Some (z\<lparr>table := Some (t[i := f (t ! i)])\<rparr>)"
  by (simp add: upd_entry_def)

lemma upd_stats_simps [simp]:
  "table (upd_stats f z) = table z" "mem_pool (upd_stats f z) = mem_pool z"
  "init_done (upd_stats f z) = init_done z" "disksize (upd_stats f z) = disksize z"
  "compress_workmem (upd_stats f z) = compress_workmem z" "compress_buffer (upd_stats f z) = compress_buffer z"
  "stats (upd_stats f z) = f (stats z)" "capacity (upd_stats f z) = capacity z"
  by (simp_all add: upd_stats_def)

lemma buffers_ok_cong:
  "compress_workmem z' = compress_workmem z \<Longrightarrow> compress_buffer z' = compress_buffer z \<Longrightarrow> buffers_ok z' = buffers_ok z"
  by (simp add: buffers_ok_def)

lemma zram_invE:
  assumes "zram_inv z m L"
  obtains pool t where "init_done z" "buffers_ok z" "mem_pool z = Some pool" "table z = Some t"
    "length t = num_pages z" "xv_inv pool m L" "no_empty m L" "table_inv t m L" "stats_inv (stats z) t m L"
  using assms by (auto simp: zram_inv_def)

text \<open>A kernel that has handed out finitely many pages and always finds another one.\<close>

definition plenty :: "page_source \<Rightarrow> kmem \<Rightarrow> bool" where
  "plenty src m \<longleftrightarrow> finite (used_pages m) \<and> (\<forall>m'. finite (used_pages m') \<longrightarrow> src m' \<noteq> None)"

lemma plenty_source: "plenty src m \<Longrightarrow> src m \<noteq> None"
  by (simp add: plenty_def)

lemma owned_finite:
  assumes "zram_inv z m L"
  shows "finite (owned z L)"
proof -
  obtain pool t where t: "table z = Some t" "xv_inv pool m L" using assms by (rule zram_invE)
  have "raw_pages t \<subseteq> te_page ` set t" by (auto simp: raw_pages_def)
  then have "finite (raw_pages t)" by (rule finite_subset) simp
  with t show ?thesis by (simp add: owned_def xv_inv_def)
qed

lemma plenty_kept:
  assumes "zram_inv z m L" and "zram_inv z' m' L'"
    and "used_pages m' - owned z' L' = used_pages m - owned z L" and "plenty src m"
  shows "plenty src m'"
proof -
  have "finite (used_pages m - owned z L)" using assms(4) by (simp add: plenty_def)
  then have "finite (used_pages m')"
    using assms(3) owned_finite [OF assms(2)] by (metis finite_Diff2)
  with assms(4) show ?thesis by (simp add: plenty_def)
qed

lemma table_inv_entry: "table_inv t m L \<Longrightarrow> i < length t \<Longrightarrow> entry_ok m L (t ! i)"
  by (simp add: table_inv_def)

lemma table_inv_loc:
  "table_inv t m L \<Longrightarrow> i < length t \<Longrightarrow> j < length t \<Longrightarrow> i \<noteq> j \<Longrightarrow> te_page (t ! i) \<noteq> 0 \<Longrightarrow>
     te_loc (t ! i) \<noteq> te_loc (t ! j)"
  unfolding table_inv_def by blast

lemma table_inv_raw_page:
  assumes "table_inv t m L" and "i < length t" and "j < length t" and "i \<noteq> j"
    and "te_page (t ! i) \<noteq> 0" "is_raw (t ! i)" "te_page (t ! j) \<noteq> 0" "is_raw (t ! j)"
  shows "te_page (t ! i) \<noteq> te_page (t ! j)"
  using table_inv_loc [OF assms(1-5)] table_inv_entry [OF assms(1,2)] table_inv_entry [OF assms(1,3)] assms(5-8)
  by (auto simp: entry_ok_def)

text \<open>A raw page leaves the device.\<close>

lemma xv_inv_free_page: "xv_inv pool m L \<Longrightarrow> p \<notin> dom L \<Longrightarrow> xv_inv pool (free_page p m) L"
  by (auto simp: xv_inv_def free_page_def)

lemma live_heap: "heap_of m' = heap_of m \<Longrightarrow> live m' L = live m L"
  by (simp only: live_def)

lemma live_free_page [simp]: "live (free_page p m) L = live m L"
  by (rule live_heap) (simp add: free_page_def)

lemma live_mem_write [simp]: "live (mem_write m p off bs) L = live m L"
  by (rule live_heap) simp

lemma free_page_simps [simp]:
  "data_of (free_page p m) = data_of m" "used_pages (free_page p m) = used_pages m - {p}"
  by (simp_all add: free_page_def)

lemma mem_read_free_page [simp]: "mem_read (free_page p m) = mem_read m"
  by (rule mem_read_data) simp

lemma no_empty_cong: "live m' L = live m L \<Longrightarrow> no_empty m' L = no_empty m L"
  by (simp add: no_empty_def)

definition emptied :: "nat \<Rightarrow> zram \<Rightarrow> bool" where
  "emptied i z \<longleftrightarrow> (\<exists>e. entry z i = Some e \<and> te_page e = 0 \<and> \<not> is_zero e)"

lemma free_zero_ok:
  assumes inv: "zram_inv z m L" and t: "table z = Some t" "i < length t"
    and e: "te_page (t ! i) = 0" "is_zero (t ! i)"
  shows "\<exists>z'. zram_free_page i (z, m) = Some (z', m) \<and> page_step i None z m L z' m L \<and> emptied i z'"
proof -
  let ?e = "zram_clear_flag ZRAM_ZERO (t ! i)"
  let ?z = "upd_stats (pages_zero_update zram_stat_dec) (z\<lparr>table := Some (t[i := ?e])\<rparr>)"
  obtain pool where z: "init_done z" "buffers_ok z" "mem_pool z = Some pool" "xv_inv pool m L" "no_empty m L"
    "table_inv t m L" "stats_inv (stats z) t m L"
    using inv t by (auto elim!: zram_invE)
  have ok: "entry_ok m L (t ! i)" using table_inv_entry z(6) t(2) .
  have kept: "kept m L m L (t ! j)" if "j < length t" for j
    using kept_refl table_inv_entry z(6) that by blast
  have nr: "\<not> is_raw (t ! i)" using ok e by (simp add: entry_ok_def)
  have "page_step i None z m L ?z m L"
  proof (rule page_stepI [OF inv t z(3) _ z(4,5)])
    show "table_inv (t[i := ?e]) m L"
      using e nr by (intro table_change [OF z(6) t(2) z(4) z(4)] kept) (auto simp: entry_ok_def entry_simps)
    show "stats_inv (stats ?z) (t[i := ?e]) m L"
      using e nr by (intro stats_change [OF z(7) t(2)])
        (simp_all add: entry_simps stored_len_def one_if_def stat_defs)
    show "used_pages m - (dom L \<union> raw_pages (t[i := ?e])) = used_pages m - (dom L \<union> raw_pages t)"
      using t(2) nr e by (simp add: raw_pages_upd entry_simps)
  qed (use z e kept in \<open>simp_all add: content_def entry_simps buffers_ok_def\<close>)
  moreover have "zram_free_page i (z, m) = Some (?z, m)"
    using t e by (simp add: zram_free_page_def entry_def upd_entry_def)
  moreover have "emptied i ?z" using t e by (simp add: emptied_def entry_def entry_simps)
  ultimately show ?thesis by blast
qed

lemma free_raw_ok:
  assumes inv: "zram_inv z m L" and t: "table z = Some t" "i < length t"
    and e: "te_page (t ! i) \<noteq> 0" "is_raw (t ! i)"
  shows "\<exists>z'. zram_free_page i (z, m) = Some (z', free_page (te_page (t ! i)) m)
    \<and> page_step i None z m L z' (free_page (te_page (t ! i)) m) L \<and> emptied i z'"
proof -
  let ?p = "te_page (t ! i)" and ?c = "zram_clear_flag ZRAM_UNCOMPRESSED (t ! i)"
  let ?e = "?c\<lparr>te_page := 0, te_offset := 0\<rparr>" and ?m = "free_page ?p m"
  let ?z = "(upd_stats (pages_stored_update zram_stat_dec)
      (upd_stats (compr_size_update (zram_stat64_sub (word_of_nat PAGE_SIZE)))
        (upd_stats (pages_expand_update zram_stat_dec) (z\<lparr>table := Some (t[i := ?c])\<rparr>))))
    \<lparr>table := Some (t[i := ?e])\<rparr>"
  obtain pool where z: "init_done z" "buffers_ok z" "mem_pool z = Some pool" "xv_inv pool m L" "no_empty m L"
    "table_inv t m L" "stats_inv (stats z) t m L"
    using inv t by (auto elim!: zram_invE)
  have ok: "entry_ok m L (t ! i)" using table_inv_entry z(6) t(2) .
  then have p: "?p \<in> used_pages m" "?p \<notin> dom L" "\<not> is_zero (t ! i)" using e by (auto simp: entry_ok_def)
  note xinv = xv_inv_free_page [OF z(4) p(2)]
  have kept: "kept m L ?m L (t ! j)" if "j < length t" "j \<noteq> i" for j
    using table_inv_entry [OF z(6) that(1)] table_inv_raw_page [OF z(6) t(2) that(1)] that e
    by (auto simp: kept_def entry_ok_def split: if_splits)
  have "page_step i None z m L ?z ?m L"
  proof (rule page_stepI [OF inv t z(3) _ xinv])
    show "table_inv (t[i := ?e]) ?m L"
      using e by (intro table_change [OF z(6) t(2) z(4) xinv kept]) (auto simp: entry_ok_def entry_simps)
    have len: "stored_len ?m L (t ! j) = stored_len m L (t ! j)" for j by (simp add: stored_len_def)
    show "stats_inv (stats ?z) (t[i := ?e]) ?m L"
      using e p by (intro stats_change [OF z(7) t(2)])
        (simp_all add: len entry_simps stored_len_def one_if_def stat_defs PAGE_SIZE_def)
    have "raw_pages (t[i := ?e]) = raw_pages t - {?p}"
      by (rule raw_pages_del [OF z(6) t(2) e]) simp
    moreover have "?p \<in> raw_pages t" using e t(2) by (auto simp: raw_pages_nth)
    ultimately show "used_pages ?m - (dom L \<union> raw_pages (t[i := ?e])) = used_pages m - (dom L \<union> raw_pages t)"
      using p by auto
    show "content ?m ?e = None" using p by (simp add: content_def entry_simps)
  qed (use z kept in \<open>simp_all add: buffers_ok_def no_empty_def\<close>)
  moreover have "zram_free_page i (z, m) = Some (?z, ?m)"
    using t e by (simp add: zram_free_page_def entry_def upd_entry_def free_page_out_def upd_stats_def)
  moreover have "emptied i ?z" using t p by (simp add: emptied_def entry_def entry_simps)
  ultimately show ?thesis by blast
qed

lemma free_compressed_ok:
  assumes inv: "zram_inv z m L" and t: "table z = Some t" "i < length t"
    and e: "te_page (t ! i) \<noteq> 0" "\<not> is_raw (t ! i)"
  shows "\<exists>z' m' L'. zram_free_page i (z, m) = Some (z', m') \<and> page_step i None z m L z' m' L'
    \<and> emptied i z' \<and> data_of m' = data_of m \<and> used_pages m' \<subseteq> used_pages m"
proof -
  let ?p = "te_page (t ! i)" and ?x = "te_loc (t ! i)"
  let ?e = "(t ! i)\<lparr>te_page := 0, te_offset := 0\<rparr>"
  obtain pool where z: "init_done z" "buffers_ok z" "mem_pool z = Some pool" "xv_inv pool m L" "no_empty m L"
    "table_inv t m L" "stats_inv (stats z) t m L"
    using inv t by (auto elim!: zram_invE)
  have ok: "entry_ok m L (t ! i)" using table_inv_entry z(6) t(2) .
  then obtain n where n: "live m L ?x = Some n" "n \<le> max_zpage_size" and nz: "\<not> is_zero (t ! i)"
    using e by (auto simp: entry_ok_def)
  obtain pool' m' L' where free: "xv_free ?x (pool, m) = Some (pool', m')"
    and post: "free_post ?x pool m L pool' m' L'"
    using xv_free_post [OF z(4) n(1)] .
  have xinv: "xv_inv pool' m' L'" and data: "data_of m' = data_of m" and sub: "used_pages m' \<subseteq> used_pages m"
    and live: "live m' L' = (live m L)(?x := None)" and dom: "dom L' \<subseteq> dom L"
    and used: "used_pages m' - dom L' = used_pages m - dom L"
    using post by (auto simp: free_post_def)
  have clen: "sub32 (xv_get_object_size m ?x) sizeof_zobj_header = n"
    using n by (simp add: live_object_size [OF z(4) n(1)] zram_consts)
  define z1 where "z1 = (if n \<le> PAGE_SIZE div 2
    then upd_stats (good_compress_update zram_stat_dec) (z\<lparr>mem_pool := Some pool'\<rparr>) else z\<lparr>mem_pool := Some pool'\<rparr>)"
  define z2 where "z2 = (upd_stats (pages_stored_update zram_stat_dec)
      (upd_stats (compr_size_update (zram_stat64_sub (word_of_nat n))) z1))\<lparr>table := Some (t[i := ?e])\<rparr>"
  have z1: "table z1 = Some t" "init_done z1" "mem_pool z1 = Some pool'" "disksize z1 = disksize z"
    "compress_workmem z1 = compress_workmem z" "compress_buffer z1 = compress_buffer z"
    using t z by (simp_all add: z1_def)
  have kept: "kept m L m' L' (t ! j)" if "j < length t" "j \<noteq> i" for j
  proof -
    have "te_page (t ! j) \<noteq> 0 \<Longrightarrow> te_loc (t ! j) \<noteq> ?x"
      using table_inv_loc [OF z(6) that(1) t(2) that(2)] .
    then show ?thesis
      using table_inv_entry [OF z(6) that(1)] used dom mem_read_data [OF data]
      by (auto simp: kept_def entry_ok_def live split: if_splits)
  qed
  have "page_step i None z m L z2 m' L'"
  proof (rule page_stepI [OF inv t z(3) _ xinv no_empty_free [OF z(5) post]])
    show "table_inv (t[i := ?e]) m' L'"
      using e by (intro table_change [OF z(6) t(2) z(4) xinv kept])
        (auto simp: entry_ok_def entry_simps live split: if_splits)
    have len: "stored_len m' L' (t ! j) = stored_len m L (t ! j)" if "j < length t" "j \<noteq> i" for j
      using kept_entry(3) [OF kept [OF that] table_inv_entry [OF z(6) that(1)] z(4) xinv] .
    have sl: "stored_len m L (t ! i) = n" "stored_len m' L' ?e = 0"
      using e n(1) by (simp_all add: stored_len_def)
    show "stats_inv (stats z2) (t[i := ?e]) m' L'"
      using e nz len by (intro stats_change [OF z(7) t(2)])
        (simp_all add: sl z2_def z1_def entry_simps one_if_def stat_defs)
    show "used_pages m' - (dom L' \<union> raw_pages (t[i := ?e])) = used_pages m - (dom L \<union> raw_pages t)"
      using t(2) e used by (auto simp: raw_pages_upd entry_simps)
    show "content m' ?e = None" using nz by (simp add: content_def entry_simps)
  qed (use z z1 kept data in \<open>simp_all add: buffers_ok_def z2_def\<close>)
  moreover have "zram_free_page i (z, m) = Some (z2, m')"
    using t e z1 free z(3) clen
    by (simp add: zram_free_page_def entry_def upd_entry_def free_page_out_def z2_def z1_def [symmetric] Let_def)
  moreover have "emptied i z2" using t nz by (simp add: emptied_def entry_def entry_simps z2_def)
  ultimately show ?thesis using data sub by blast
qed

lemma zram_free_page_ok:
  assumes inv: "zram_inv z m L" and i: "i < num_pages z"
  shows "\<exists>z' m' L'. zram_free_page i (z, m) = Some (z', m') \<and> page_step i None z m L z' m' L'
    \<and> emptied i z' \<and> data_of m' = data_of m \<and> used_pages m' \<subseteq> used_pages m"
proof -
  obtain t where t: "table z = Some t" "i < length t" using inv i by (auto elim!: zram_invE)
  consider "te_page (t ! i) = 0" "\<not> is_zero (t ! i)" | "te_page (t ! i) = 0" "is_zero (t ! i)"
    | "te_page (t ! i) \<noteq> 0" "is_raw (t ! i)" | "te_page (t ! i) \<noteq> 0" "\<not> is_raw (t ! i)" by blast
  then show ?thesis
  proof cases
    case 1
    with t have "zram_free_page i (z, m) = Some (z, m)" "emptied i z"
      by (simp_all add: zram_free_page_def entry_def emptied_def)
    moreover have "contents z m i = None" using t 1 by (simp add: contents_table content_def)
    then have "page_step i None z m L z m L" using inv by (simp add: page_step_def fun_upd_idem)
    ultimately show ?thesis by blast
  next
    case 2
    with free_zero_ok [OF inv t] show ?thesis by blast
  next
    case 3
    with free_raw_ok [OF inv t] show ?thesis
      by (metis Diff_subset free_page_simps)
  next
    case 4
    with free_compressed_ok [OF inv t] show ?thesis by blast
  qed
qed

end
