(* ===== verification/Zram_Store.thy ===== *)
theory Zram_Store
  imports Zram_Pages
begin

text \<open>
  The write path after the old page has been freed: a zero page is a flag, an incompressible
  page gets a page of its own, any other a new object of the pool.
\<close>

section \<open>The common tail\<close>

lemma xv_inv_more_pages:
  "xv_inv pool m L \<Longrightarrow> heap_of m' = heap_of m \<Longrightarrow> used_pages m \<subseteq> used_pages m' \<Longrightarrow> xv_inv pool m' L"
  by (auto simp: xv_inv_def)

lemma owned_used: "zram_inv z m L \<Longrightarrow> owned z L \<subseteq> used_pages m"
  by (force simp: owned_def raw_pages_nth entry_ok_def table_inv_def xv_inv_def dom_def elim!: zram_invE)

text \<open>The device after \<open>memstore\<close>.\<close>

definition stored_stats :: "nat \<Rightarrow> zram \<Rightarrow> zram" where
  "stored_stats clen z =
     (let z = upd_stats (compr_size_update (zram_stat64_add (word_of_nat clen))) z;
          z = upd_stats (pages_stored_update zram_stat_inc) z
      in if clen \<le> PAGE_SIZE div 2 then upd_stats (good_compress_update zram_stat_inc) z else z)"

lemma stored_stats_simps [simp]:
  "table (stored_stats n z) = table z" "mem_pool (stored_stats n z) = mem_pool z"
  "init_done (stored_stats n z) = init_done z" "disksize (stored_stats n z) = disksize z"
  "compress_workmem (stored_stats n z) = compress_workmem z"
  "compress_buffer (stored_stats n z) = compress_buffer z"
  by (simp_all add: stored_stats_def Let_def)

lemma memstore_eq:
  assumes "table z = Some t" and "i < length t" and "te_page (t ! i) = q" and "off < 65536"
  shows "memstore i off n src (z, m) =
    Some (True, stored_stats n (z\<lparr>table := Some (t[i := (t ! i)\<lparr>te_offset := off\<rparr>])\<rparr>),
      mem_write m q off (take n src))"
  using assms
  by (simp add: memstore_def upd_entry_def entry_def stored_stats_def Let_def)

lemma emptied_nth:
  assumes "zram_inv z m L" and "table z = Some t" and "i < length t" and "emptied i z"
  shows "te_page (t ! i) = 0" "\<not> is_zero (t ! i)" "\<not> is_raw (t ! i)" "contents z m i = None"
  using assms by (auto simp: emptied_def entry_def zram_inv_def table_inv_def entry_ok_def contents_def content_def)

section \<open>Storing a page uncompressed\<close>

lemma page_step_failed:
  assumes inv: "zram_inv z m L" and none: "contents z m i = None"
  shows "page_step i None z m L (upd_stats (failed_writes_update f) z) m L"
  using inv none
  by (auto simp: page_step_def zram_inv_def owned_def num_pages_def buffers_ok_def stats_inv_def
      contents_def entry_def fun_eq_iff)

lemma store_uncompressed_ok:
  assumes inv: "zram_inv z m L" and i: "i < num_pages z" and emp: "emptied i z"
    and p: "user_page z m L p" and src: "fresh_page_source (alloc_page env)"
  shows "\<exists>ok z' m'. store_uncompressed env p i (z, m) = Some (ok, z', m')
    \<and> page_step i (if ok then Some (mem_read m p 0 PAGE_SIZE) else None) z m L z' m' L
    \<and> (alloc_page env m \<noteq> None \<longrightarrow> ok)"
proof -
  obtain pool t where z: "init_done z" "buffers_ok z" "mem_pool z = Some pool" "table z = Some t"
    "length t = num_pages z" "xv_inv pool m L" "no_empty m L" "table_inv t m L" "stats_inv (stats z) t m L"
    using inv by (rule zram_invE)
  note ti = i [folded z(5)]
  note old = emptied_nth [OF inv z(4) ti emp]
  show ?thesis
  proof (cases "alloc_page env m")
    case None
    then show ?thesis
      using page_step_failed [OF inv old(4)] by (auto simp: store_uncompressed_def write_failed_def)
  next
    case (Some q)
    then have q: "q \<noteq> 0" "q \<notin> used_pages m" using src by (auto simp: fresh_page_source_def)
    then have "q \<notin> owned z L" using owned_used [OF inv] by blast
    then have qd: "q \<notin> dom L" "q \<notin> raw_pages t" using z(4) by (auto simp: owned_def)
    have qp: "q \<noteq> p" using p q by (auto simp: user_page_def)
    let ?m1 = "m\<lparr>used_pages := insert q (used_pages m)\<rparr>"
    let ?e = "(zram_set_flag ZRAM_UNCOMPRESSED (t ! i))\<lparr>te_page := q, te_offset := 0\<rparr>"
    let ?bs = "mem_read m p 0 PAGE_SIZE"
    let ?m2 = "mem_write ?m1 q 0 ?bs"
    let ?z1 = "upd_stats (pages_expand_update zram_stat_inc) (z\<lparr>table := Some (t[i := zram_set_flag ZRAM_UNCOMPRESSED (t ! i)])\<rparr>)"
    let ?z2 = "stored_stats PAGE_SIZE (?z1\<lparr>table := Some (t[i := ?e])\<rparr>)"
    have res: "store_uncompressed env p i (z, m) = Some (True, ?z2, ?m2)"
      using Some z(4) ti
      by (simp add: store_uncompressed_def upd_entry_def memstore_eq [where t = "t[i := (zram_set_flag ZRAM_UNCOMPRESSED (t ! i))\<lparr>te_page := q\<rparr>]" and q = q]
          mem_read_data [of ?m1 m])
    have xinv: "xv_inv pool ?m2 L" by (rule xv_inv_more_pages [OF z(6)]) auto
    have live: "live ?m1 L = live m L" by (rule live_heap) simp
    have data: "data_of ?m2 q' = data_of m q'" if "q' \<noteq> q" for q'
      using that by (simp add: data_of_mem_write_other)
    have kept: "kept m L ?m2 L (t ! j)" if "j < length t" "j \<noteq> i" for j
    proof -
      have ok: "entry_ok m L (t ! j)" by (rule table_inv_entry [OF z(8) that(1)])
      have "te_page (t ! j) \<noteq> q" if "te_page (t ! j) \<noteq> 0"
      proof (cases "is_raw (t ! j)")
        case True
        with ok that q show ?thesis by (auto simp: entry_ok_def)
      next
        case False
        with ok that obtain n where "live m L (te_loc (t ! j)) = Some n" by (auto simp: entry_ok_def)
        then have "te_page (t ! j) \<in> used_pages m" using live_bounds(5) [OF z(6)] by blast
        with q show ?thesis by blast
      qed
      with ok show ?thesis
        by (auto simp: kept_def entry_ok_def live mem_read_write_other mem_read_data [of ?m1 m] split: if_splits)
    qed
    have "page_step i (Some ?bs) z m L ?z2 ?m2 L"
    proof (rule page_stepI [OF inv z(4) ti z(3) _ xinv])
      show "table_inv (t[i := ?e]) ?m2 L"
      proof (rule table_change [OF z(8) ti z(6) xinv kept])
        show "entry_ok ?m2 L ?e" using q qd old by (auto simp: entry_ok_def entry_simps)
        show "te_loc ?e \<noteq> te_loc (t ! j)" if "te_page ?e \<noteq> 0" "j < length t" "j \<noteq> i" for j
          using table_inv_entry [OF z(8) that(2)] q live_bounds(5) [OF z(6)]
          by (auto simp: entry_ok_def split: if_splits)
      qed (use old q in \<open>auto simp: live entry_simps\<close>)
      show "stats_inv (stats ?z2) (t[i := ?e]) ?m2 L"
        using old q by (intro stats_change [OF z(9) ti])
          (simp_all add: live entry_simps stored_len_def one_if_def stat_defs stored_stats_def PAGE_SIZE_def Let_def)
      show "used_pages ?m2 - (dom L \<union> raw_pages (t[i := ?e])) = used_pages m - (dom L \<union> raw_pages t)"
        using old q qd ti by (auto simp: raw_pages_upd entry_simps)
      have "mem_read ?m2 q 0 PAGE_SIZE = ?bs" using mem_read_write [of ?m1 q 0 ?bs] by simp
      then show "content ?m2 ?e = Some ?bs" using old q by (simp add: content_def entry_simps)
      show "data_of ?m2 q' = data_of m q'" if "q' \<in> used_pages m - (dom L \<union> raw_pages t)" for q'
        using that q by (intro data) auto
    qed (use z kept in \<open>simp_all add: buffers_ok_def no_empty_def live\<close>)
    with res show ?thesis by (intro exI [of _ True] exI [of _ ?z2] exI [of _ ?m2]) simp
  qed
qed

section \<open>Storing a compressed page\<close>

lemma store_compressed_ok:
  assumes inv: "zram_inv z m L" and i: "i < num_pages z" and emp: "emptied i z"
    and src: "fresh_page_source (alloc_page env)"
    and buf: "compress_buffer z = Some b" "take n b = out" "length out = n" "0 < n" "n \<le> max_zpage_size"
    and dec: "lzo1x_decompress_safe out PAGE_SIZE = Some (LZO_E_OK, bs)" "length bs = PAGE_SIZE"
  shows "\<exists>ok z' m' L'. store_compressed env n i (z, m) = Some (ok, z', m')
    \<and> page_step i (if ok then Some bs else None) z m L z' m' L'
    \<and> (alloc_page env m \<noteq> None \<longrightarrow> ok)"
proof -
  obtain pool t where z: "init_done z" "buffers_ok z" "mem_pool z = Some pool" "table z = Some t"
    "length t = num_pages z" "xv_inv pool m L" "no_empty m L" "table_inv t m L" "stats_inv (stats z) t m L"
    using inv by (rule zram_invE)
  note ti = i [folded z(5)]
  note old = emptied_nth [OF inv z(4) ti emp]
  have n: "n \<le> 3072" "n \<le> 4088" using buf(5) by (simp_all add: zram_consts)
  obtain rc x pool' m1 where mal: "xv_malloc (alloc_page env) n (pool, m) = ((rc, x), pool', m1)"
    by (metis prod.collapse)
  note post = xv_malloc_post [OF z(6) src mal]
  show ?thesis
  proof (cases "rc = 0")
    case False
    with post n have same: "x = (0, 0)" "pool' = pool" "m1 = m" by auto
    let ?z = "upd_stats (failed_writes_update zram_stat64_inc) z"
    have zeq: "z\<lparr>mem_pool := Some pool, table := Some t\<rparr> = z" using z(3,4) by simp
    have "t[i := (t ! i)\<lparr>te_page := 0\<rparr>] = t"
      using old(1) by (metis list_update_id table_entry.surjective table_entry.update_convs(1))
    then have "store_compressed env n i (z, m) = Some (False, ?z, m)"
      using False mal same z(3,4) ti
      by (simp add: store_compressed_def upd_entry_def write_failed_def zram_consts zeq)
    moreover have "page_step i None z m L ?z m L" by (rule page_step_failed [OF inv old(4)])
    moreover have "alloc_page env m = None" using post n buf(4) False by auto
    ultimately show ?thesis by (intro exI [of _ False] exI [of _ ?z] exI [of _ m] exI [of _ L]) simp
  next
    case True
    with post obtain L' where mp: "malloc_post n 0 x pool m L pool' m1 L'" by auto
    then have xinv1: "xv_inv pool' m1 L'" and data1: "data_of m1 = data_of m"
      and fresh: "live m L x = None" and live1: "live m1 L' = (live m L)(x \<mapsto> n)"
      and dom: "dom L' = insert (fst x) (dom L)" and used: "used_pages m1 - dom L' = used_pages m - dom L"
      and more: "used_pages m \<subseteq> used_pages m1"
      by (auto simp: malloc_post_def)
    obtain q off where x: "x = (q, off)" by (cases x)
    have lx: "live m1 L' (q, off) = Some n" by (simp add: live1 x)
    note bd = live_bounds [OF xinv1 lx]
    have off: "off < 65536" using bd(2) by (simp add: PAGE_SIZE_def)
    have q: "q \<in> dom L'" using dom x by simp
    let ?e = "(t ! i)\<lparr>te_page := q, te_offset := off\<rparr>"
    let ?m2 = "mem_write m1 q off out"
    let ?z1 = "z\<lparr>mem_pool := Some pool'\<rparr>"
    let ?z2 = "stored_stats n (?z1\<lparr>table := Some (t[i := ?e])\<rparr>)"
    have res: "store_compressed env n i (z, m) = Some (True, ?z2, ?m2)"
      using True mal z(3,4) ti x off buf(1,2)
      by (simp add: store_compressed_def upd_entry_def zram_consts
          memstore_eq [where t = "t[i := (t ! i)\<lparr>te_page := q\<rparr>]" and q = q])
    have xinv: "xv_inv pool' ?m2 L'" by (rule xv_inv_more_pages [OF xinv1]) auto
    have rd: "mem_read ?m2 q' o' k = mem_read m q' o' k"
      if "q' \<noteq> q \<or> o' + k \<le> off \<or> off + n \<le> o'" for q' o' k
      using that buf(3) by (simp add: mem_read_write_other mem_read_data [OF data1])
    have kept: "kept m L ?m2 L' (t ! j)" if j: "j < length t" "j \<noteq> i" for j
    proof -
      have ok: "entry_ok m L (t ! j)" by (rule table_inv_entry [OF z(8) j(1)])
      show ?thesis
      proof (cases "is_raw (t ! j)")
        case True
        have "te_page (t ! j) \<in> used_pages m1 \<and> te_page (t ! j) \<notin> dom L'
            \<and> mem_read ?m2 (te_page (t ! j)) 0 PAGE_SIZE = mem_read m (te_page (t ! j)) 0 PAGE_SIZE"
          if "te_page (t ! j) \<noteq> 0"
        proof -
          have *: "te_page (t ! j) \<in> used_pages m1" "te_page (t ! j) \<notin> dom L'"
            using ok that True used by (auto simp: entry_ok_def)
          then have "te_page (t ! j) \<noteq> q" using q by blast
          with * rd show ?thesis by simp
        qed
        with True show ?thesis by (simp add: kept_def)
      next
        case False
        have "live m1 L' (te_loc (t ! j)) = Some k \<and> mem_read ?m2 (te_page (t ! j)) (te_offset (t ! j)) k
            = mem_read m (te_page (t ! j)) (te_offset (t ! j)) k"
          if k: "live m L (te_loc (t ! j)) = Some k" for k
        proof -
          have ne: "te_loc (t ! j) \<noteq> x" using fresh k by auto
          with k live1 have lk: "live m1 L' (te_loc (t ! j)) = Some k" by simp
          have "te_page (t ! j) \<noteq> q \<or> te_offset (t ! j) + k \<le> off \<or> off + n \<le> te_offset (t ! j)"
            using live_disjoint [OF xinv1, of q "te_offset (t ! j)" k off n] lk lx ne x by auto
          with lk rd show ?thesis by simp
        qed
        with False show ?thesis by (auto simp: kept_def)
      qed
    qed
    have "page_step i (Some bs) z m L ?z2 ?m2 L'"
    proof (rule page_stepI [OF inv z(4) ti z(3) _ xinv])
      have mr: "mem_read ?m2 q off n = out" using mem_read_write [of m1 q off out] buf(3) by simp
      show "table_inv (t[i := ?e]) ?m2 L'"
      proof (rule table_change [OF z(8) ti z(6) xinv kept])
        show "entry_ok ?m2 L' ?e"
          using bd old buf(5) dec lx mr by (auto simp: entry_ok_def entry_simps)
        show "te_loc ?e \<noteq> te_loc (t ! j)" if "te_page ?e \<noteq> 0" "j < length t" "j \<noteq> i" for j
        proof
          assume *: "te_loc ?e = te_loc (t ! j)"
          then have "te_page (t ! j) = q" "te_loc (t ! j) = x" by (simp_all add: x)
          with table_inv_entry [OF z(8) that(2)] used q fresh bd show False
            by (auto simp: entry_ok_def split: if_splits)
        qed
        show "te_page ?e \<noteq> 0 \<and> \<not> is_raw ?e \<and> te_loc ?e = y
            \<or> y \<in> dom (live m L) \<and> \<not> (te_page (t ! i) \<noteq> 0 \<and> \<not> is_raw (t ! i) \<and> te_loc (t ! i) = y)"
          if "y \<in> dom (live ?m2 L')" for y
          using that old bd by (cases "y = x") (auto simp: live1 x entry_simps)
      qed
      have len: "stored_len ?m2 L' (t ! j) = stored_len m L (t ! j)" if "j < length t" "j \<noteq> i" for j
        using kept_entry(3) [OF kept [OF that] table_inv_entry [OF z(8) that(1)] z(6) xinv] .
      have sl: "stored_len ?m2 L' ?e = n" "stored_len m L (t ! i) = 0"
        using old bd lx by (simp_all add: stored_len_def entry_simps)
      show "stats_inv (stats ?z2) (t[i := ?e]) ?m2 L'"
        using old bd len by (intro stats_change [OF z(9) ti])
          (simp_all add: sl entry_simps one_if_def stat_defs stored_stats_def Let_def)
      show "used_pages ?m2 - (dom L' \<union> raw_pages (t[i := ?e])) = used_pages m - (dom L \<union> raw_pages t)"
        using old ti used by (auto simp: raw_pages_upd entry_simps)
      have "xv_get_object_size ?m2 (q, off) = n" using live_object_size [OF xinv, of "(q, off)" n] lx by simp
      then show "content ?m2 ?e = Some bs" using old bd dec mr by (simp add: content_def entry_simps)
      show "data_of ?m2 q' = data_of m q'" if "q' \<in> used_pages m - (dom L \<union> raw_pages t)" for q'
      proof -
        have "q' \<noteq> q" using that used q by auto
        then show ?thesis by (simp add: data_of_mem_write_other data1)
      qed
      show "no_empty ?m2 L'" using no_empty_malloc [OF z(7) mp] by (simp add: no_empty_def)
    qed (use z kept in \<open>simp_all add: buffers_ok_def\<close>)
    with res show ?thesis
      by (intro exI [of _ True] exI [of _ ?z2] exI [of _ ?m2] exI [of _ L']) simp
  qed
qed

section \<open>Storing a zero page\<close>

lemma store_zero_ok:
  assumes inv: "zram_inv z m L" and i: "i < num_pages z" and emp: "emptied i z"
  shows "\<exists>z'. upd_entry i (zram_set_flag ZRAM_ZERO) (upd_stats (pages_zero_update zram_stat_inc) z) = Some z'
    \<and> page_step i (Some (replicate PAGE_SIZE 0)) z m L z' m L"
proof -
  obtain pool t where z: "init_done z" "buffers_ok z" "mem_pool z = Some pool" "table z = Some t"
    "length t = num_pages z" "xv_inv pool m L" "no_empty m L" "table_inv t m L" "stats_inv (stats z) t m L"
    using inv by (rule zram_invE)
  note ti = i [folded z(5)]
  note old = emptied_nth [OF inv z(4) ti emp]
  let ?e = "zram_set_flag ZRAM_ZERO (t ! i)"
  let ?z = "(upd_stats (pages_zero_update zram_stat_inc) z)\<lparr>table := Some (t[i := ?e])\<rparr>"
  have kept: "kept m L m L (t ! j)" if "j < length t" for j
    using kept_refl table_inv_entry z(8) that by blast
  have "page_step i (Some (replicate PAGE_SIZE 0)) z m L ?z m L"
  proof (rule page_stepI [OF inv z(4) ti z(3) _ z(6,7)])
    show "table_inv (t[i := ?e]) m L"
      using old by (intro table_change [OF z(8) ti z(6) z(6)] kept) (auto simp: entry_ok_def entry_simps)
    show "stats_inv (stats ?z) (t[i := ?e]) m L"
      using old by (intro stats_change [OF z(9) ti])
        (simp_all add: entry_simps stored_len_def one_if_def stat_defs)
    show "used_pages m - (dom L \<union> raw_pages (t[i := ?e])) = used_pages m - (dom L \<union> raw_pages t)"
      using ti old by (simp add: raw_pages_upd entry_simps)
  qed (use z kept in \<open>simp_all add: content_def entry_simps buffers_ok_def\<close>)
  moreover have "upd_entry i (zram_set_flag ZRAM_ZERO) (upd_stats (pages_zero_update zram_stat_inc) z) = Some ?z"
    using z(4) ti by (simp add: upd_entry_def)
  ultimately show ?thesis by blast
qed

section \<open>Compressing\<close>

lemma zram_inv_buffers:
  "zram_inv z m L \<Longrightarrow> length b = 2 * PAGE_SIZE \<Longrightarrow>
     zram_inv (z\<lparr>compress_workmem := Some w, compress_buffer := Some b\<rparr>) m L"
  by (auto simp: zram_inv_def buffers_ok_def num_pages_def)

lemma lzo_compress_eof: "lzo1x_1_compress inp dict = (rc, out, dict') \<Longrightarrow> 3 \<le> length out"
  by (auto simp: lzo1x_1_compress_def Let_def split: prod.splits)

text \<open>The compressed page fits the two pages of the buffer and decompresses to the page.\<close>

lemma compress_page_ok:
  assumes inv: "zram_inv z m L"
  shows "\<exists>out w b. compress_page env p (z, m) =
      Some (LZO_E_OK, length out, z\<lparr>compress_workmem := Some w, compress_buffer := Some b\<rparr>, m)
    \<and> length b = 2 * PAGE_SIZE \<and> take (length out) b = out \<and> 3 \<le> length out
    \<and> lzo1x_decompress_safe out PAGE_SIZE = Some (LZO_E_OK, mem_read m p 0 PAGE_SIZE)"
proof -
  obtain w b where wb: "compress_workmem z = Some w" "compress_buffer z = Some b" "length b = 2 * PAGE_SIZE"
    using inv by (auto simp: zram_inv_def buffers_ok_def)
  let ?inp = "mem_read m p 0 PAGE_SIZE" and ?dict = "\<lambda>i. w i - kmap env p"
  have "lzo1x_worst_compress (length ?inp) \<le> length b"
    by (simp add: wb(3) lzo1x_worst_compress_def PAGE_SIZE_def)
  from lzo.through_buffer [OF this, of ?dict] obtain out dict' where
    c: "lzo1x_1_compress ?inp ?dict = (LZO_E_OK, out, dict')" and room: "length out \<le> length b"
    and d: "lzo1x_decompress_safe out PAGE_SIZE = Some (LZO_E_OK, ?inp)" by (metis length_mem_read)
  from wb c room d lzo_compress_eof [OF c] show ?thesis
    by (intro exI [of _ out] exI [of _ "\<lambda>i. dict' i + kmap env p"] exI [of _ "out @ drop (length out) b"])
      (simp add: compress_page_def)
qed

section \<open>Writing a page\<close>

lemma page_step_buffers:
  assumes "page_step i c (z\<lparr>compress_workmem := Some w, compress_buffer := Some b\<rparr>) m L z' m' L'"
  shows "page_step i c z m L z' m' L'"
  using assms by (simp add: page_step_def contents_def entry_def owned_def fun_eq_iff)

lemma zram_write_page_ok:
  assumes inv: "zram_inv z m L" and i: "i < num_pages z" and p: "user_page z m L p"
    and src: "fresh_page_source (alloc_page env)"
  shows "\<exists>ok z' m' L'. zram_write_page env p i (z, m) = Some (ok, z', m')
    \<and> page_step i (if ok then Some (mem_read m p 0 PAGE_SIZE) else None) z m L z' m' L'
    \<and> (plenty (alloc_page env) m \<longrightarrow> ok)"
proof -
  obtain t where t: "table z = Some t" "i < length t" using inv i by (auto elim!: zram_invE)
  obtain z1 m1 L1 where free:
    "(if te_page (t ! i) \<noteq> 0 \<or> is_zero (t ! i) then zram_free_page i (z, m) else Some (z, m)) = Some (z1, m1)"
    and step1: "page_step i None z m L z1 m1 L1" and emp: "emptied i z1" and data: "data_of m1 = data_of m"
  proof (cases "te_page (t ! i) \<noteq> 0 \<or> is_zero (t ! i)")
    case True
    with zram_free_page_ok [OF inv i] that show thesis by metis
  next
    case False
    then have "emptied i z" "contents z m i = None"
      using t by (simp_all add: emptied_def entry_def contents_table content_def)
    moreover from this(2) have "page_step i None z m L z m L"
      using inv by (simp add: page_step_def fun_upd_idem)
    ultimately show thesis using False that by auto
  qed
  let ?bs = "mem_read m p 0 PAGE_SIZE"
  have bs: "mem_read m1 p 0 PAGE_SIZE = ?bs" using mem_read_data [OF data] by simp
  have inv1: "zram_inv z1 m1 L1" and i1: "i < num_pages z1"
    using step1 i by (auto simp: page_step_def num_pages_def)
  have p1: "user_page z1 m1 L1 p" using page_step_user_page [OF step1] p by simp
  have e: "entry z i = Some (t ! i)" using t by (simp add: entry_def)
  show ?thesis
  proof (cases "page_zero_filled ?bs")
    case True
    then have zero: "?bs = replicate PAGE_SIZE 0" by (simp add: page_zero_filled_iff)
    obtain z' where z': "upd_entry i (zram_set_flag ZRAM_ZERO) (upd_stats (pages_zero_update zram_stat_inc) z1) = Some z'"
      and step: "page_step i (Some ?bs) z1 m1 L1 z' m1 L1"
      using store_zero_ok [OF inv1 i1 emp] zero by auto
    have "zram_write_page env p i (z, m) = Some (True, z', m1)"
      using e free True z' bs by (simp add: zram_write_page_def del: split_paired_All)
    with page_step_trans [OF step1 step] show ?thesis
      by (intro exI [of _ True] exI [of _ z'] exI [of _ m1] exI [of _ L1]) simp
  next
    case False
    obtain out w b where c: "compress_page env p (z1, m1) =
        Some (LZO_E_OK, length out, z1\<lparr>compress_workmem := Some w, compress_buffer := Some b\<rparr>, m1)"
      and b: "length b = 2 * PAGE_SIZE" "take (length out) b = out" "3 \<le> length out"
      and d: "lzo1x_decompress_safe out PAGE_SIZE = Some (LZO_E_OK, ?bs)"
      using compress_page_ok [OF inv1, of env p] unfolding bs by blast
    let ?z2 = "z1\<lparr>compress_workmem := Some w, compress_buffer := Some b\<rparr>"
    have inv2: "zram_inv ?z2 m1 L1" by (rule zram_inv_buffers [OF inv1 b(1)])
    have i2: "i < num_pages ?z2" using i1 by (simp add: num_pages_def)
    have emp2: "emptied i ?z2" using emp by (simp add: emptied_def entry_def)
    have p2: "user_page ?z2 m1 L1 p" using p1 by (simp add: user_page_def owned_def)
    have w: "zram_write_page env p i (z, m) =
        (if length out > max_zpage_size then store_uncompressed env p i (?z2, m1)
         else store_compressed env (length out) i (?z2, m1))"
      using e free False c bs by (simp add: zram_write_page_def)
    have "\<exists>ok z' m' L'. zram_write_page env p i (z, m) = Some (ok, z', m')
      \<and> page_step i (if ok then Some ?bs else None) ?z2 m1 L1 z' m' L'
      \<and> (alloc_page env m1 \<noteq> None \<longrightarrow> ok)"
    proof (cases "length out > max_zpage_size")
      case True
      with store_uncompressed_ok [OF inv2 i2 emp2 p2 src] w bs show ?thesis
        by (simp only: if_True) blast
    next
      case small: False
      then have "length out \<le> max_zpage_size" by simp
      moreover have "0 < length out" "compress_buffer ?z2 = Some b" using less_le_trans [OF _ b(3), of 0] by simp_all
      moreover have "zram_write_page env p i (z, m) = store_compressed env (length out) i (?z2, m1)"
        using w small by simp
      ultimately show ?thesis
        using store_compressed_ok [OF inv2 i2 emp2 src _ b(2) refl _ _ d] by (metis length_mem_read)
    qed
    then obtain ok z' m' L' where "zram_write_page env p i (z, m) = Some (ok, z', m')"
      and step: "page_step i (if ok then Some ?bs else None) ?z2 m1 L1 z' m' L'"
      and "alloc_page env m1 \<noteq> None \<longrightarrow> ok" by blast
    moreover have "plenty (alloc_page env) m \<Longrightarrow> plenty (alloc_page env) m1"
      using plenty_kept [OF inv inv1] step1 by (simp add: page_step_def)
    ultimately show ?thesis
      using page_step_trans [OF step1 page_step_buffers [OF step]] plenty_source by blast
  qed
qed

end
