(* ===== verification/Zram_Requests.thy ===== *)
theory Zram_Requests
  imports Zram_Store
begin

text \<open>
  Whole requests: reading, writing and discarding ranges of pages, against the abstract view.
\<close>

section \<open>Reading a page\<close>

lemma content_length: "entry_ok m L e \<Longrightarrow> xv_inv pool m L \<Longrightarrow> content m e = Some bs \<Longrightarrow> length bs = PAGE_SIZE"
  using live_object_size [of pool m L "te_loc e"]
  by (auto simp: entry_ok_def content_def split: if_splits)

lemma contents_length: "zram_inv z m L \<Longrightarrow> contents z m i = Some bs \<Longrightarrow> length bs = PAGE_SIZE"
  by (erule zram_invE) (auto simp: contents_table table_inv_def split: if_splits intro: content_length)

text \<open>The device does not see what happens to pages it does not own.\<close>

lemma user_write_inv:
  assumes inv: "zram_inv z m L" and p: "user_page z m L p"
  shows "zram_inv z (mem_write m p off bs) L" "contents z (mem_write m p off bs) = contents z m"
proof -
  let ?m = "mem_write m p off bs"
  obtain pool t where z: "init_done z" "buffers_ok z" "mem_pool z = Some pool" "table z = Some t"
    "length t = num_pages z" "xv_inv pool m L" "no_empty m L" "table_inv t m L" "stats_inv (stats z) t m L"
    using inv by (rule zram_invE)
  have xinv: "xv_inv pool ?m L" by (rule xv_inv_more_pages [OF z(6)]) auto
  have kept: "kept m L ?m L (t ! j)" if "j < length t" for j
  proof -
    have ok: "entry_ok m L (t ! j)" using table_inv_entry z(8) that .
    have "te_page (t ! j) \<noteq> p" if nz: "te_page (t ! j) \<noteq> 0"
    proof (cases "is_raw (t ! j)")
      case True
      then have "te_page (t ! j) \<in> raw_pages t" using nz \<open>j < length t\<close> by (auto simp: raw_pages_nth)
      with p z(4) show ?thesis by (auto simp: user_page_def owned_def)
    next
      case False
      with ok nz obtain n where "live m L (te_loc (t ! j)) = Some n" by (auto simp: entry_ok_def)
      then have "te_page (t ! j) \<in> dom L" by (auto simp: live_def split: option.splits)
      with p show ?thesis by (auto simp: user_page_def owned_def)
    qed
    with ok show ?thesis by (auto simp: kept_def entry_ok_def mem_read_write_other split: if_splits)
  qed
  note same = kept_entry [OF kept table_inv_entry [OF z(8)] z(6) xinv]
  have "table_inv t ?m L" using z(8) same(1) unfolding table_inv_def by simp
  moreover have "stored_len ?m L = stored_len m L" by (intro ext) (simp add: stored_len_def)
  then have "stats_inv (stats z) t ?m L" using z(9) by (simp add: stats_inv_def)
  ultimately show "zram_inv z ?m L"
    using z xinv by (simp add: zram_inv_def no_empty_def)
  show "contents z ?m = contents z m"
    using same(2) by (auto simp: contents_table [OF z(4)])
qed

definition deliver :: "page \<Rightarrow> bytes option \<Rightarrow> kmem \<Rightarrow> kmem" where
  "deliver p c m = (case c of None \<Rightarrow> m | Some bs \<Rightarrow> mem_write m p 0 bs)"

lemma zram_read_page_ok:
  assumes inv: "zram_inv z m L" and i: "i < num_pages z"
  shows "zram_read_page p i (z, m) = Some (True, z, deliver p (contents z m i) m)"
proof -
  obtain pool t where z: "table z = Some t" "length t = num_pages z" "xv_inv pool m L" "table_inv t m L"
    using inv by (auto elim!: zram_invE)
  have ti: "i < length t" using i z(2) by simp
  have ok: "entry_ok m L (t ! i)" using table_inv_entry z(4) ti .
  show ?thesis
  proof (cases "is_zero (t ! i) \<or> te_page (t ! i) = 0 \<or> is_raw (t ! i)")
    case True
    with z ti show ?thesis
      by (auto simp: zram_read_page_def entry_def contents_table content_def deliver_def
          handle_zero_page_def handle_uncompressed_page_def)
  next
    case False
    with ok obtain n bs where n: "live m L (te_loc (t ! i)) = Some n"
      and d: "lzo1x_decompress_safe (mem_read m (te_page (t ! i)) (te_offset (t ! i)) n) PAGE_SIZE = Some (LZO_E_OK, bs)"
      by (auto simp: entry_ok_def)
    have sz: "xv_get_object_size m (te_loc (t ! i)) = n" by (rule live_object_size [OF z(3) n])
    have "n \<le> PAGE_SIZE" using live_bounds(2) [OF z(3), of "te_page (t ! i)" "te_offset (t ! i)" n] n by simp
    then have "sub32 n 0 = n" by (simp add: PAGE_SIZE_def)
    with False z(1) ti sz d show ?thesis
      by (simp add: zram_read_page_def entry_def contents_table content_def deliver_def
          sizeof_zobj_header_def)
  qed
qed

section \<open>Loops over segments\<close>

text \<open>Page indices below \<open>2\<^sup>3\<^sup>2\<close>: the \<open>u32\<close> index does not wrap inside the device.\<close>

definition in_range :: "zram \<Rightarrow> nat \<Rightarrow> nat \<Rightarrow> bool" where
  "in_range z i n \<longleftrightarrow> i + n \<le> num_pages z \<and> num_pages z \<le> 4294967296"

lemma next_index_in_range: "in_range z i (Suc n) \<Longrightarrow> i < num_pages z \<and> (0 < n \<longrightarrow> next_index i = Suc i)"
  by (auto simp: in_range_def next_index_def)

lemma deliver_simps [simp]:
  "heap_of (deliver p c m) = heap_of m" "used_pages (deliver p c m) = used_pages m"
  by (simp_all add: deliver_def split: option.split)

lemma data_of_deliver_other: "q \<noteq> p \<Longrightarrow> data_of (deliver p c m) q = data_of m q"
  by (simp add: deliver_def data_of_mem_write_other split: option.split)

lemma deliver_inv:
  assumes "zram_inv z m L" and "user_page z m L p"
  shows "zram_inv z (deliver p c m) L" "contents z (deliver p c m) = contents z m"
    "user_page z (deliver p c m) L q \<longleftrightarrow> user_page z m L q"
  using assms user_write_inv [OF assms]
  by (auto simp: deliver_def user_page_def split: option.split)

lemma mem_read_deliver:
  assumes "zram_inv z m L" and "c = contents z m i"
  shows "mem_read (deliver p c m) p 0 PAGE_SIZE = (case c of None \<Rightarrow> mem_read m p 0 PAGE_SIZE | Some bs \<Rightarrow> bs)"
proof (cases c)
  case (Some bs)
  then have "contents z m i = Some bs" using assms(2) by simp
  from contents_length [OF assms(1) this] mem_read_write [of m p 0 bs] Some show ?thesis
    by (simp add: deliver_def)
qed (simp add: deliver_def)

lemma mem_read_page_eq: "data_of m' p = data_of m p \<Longrightarrow> mem_read m' p off n = mem_read m p off n"
  by (simp add: mem_read_def)

lemma read_loop_ok:
  assumes "zram_inv z m L" and "ps \<noteq> [] \<Longrightarrow> in_range z i (length ps)"
    and "\<forall>p\<in>set ps. user_page z m L p" and "distinct ps"
  shows "\<exists>m'. for_each_segment zram_read_page ps i (z, m) = Some (True, z, m')
    \<and> zram_inv z m' L \<and> contents z m' = contents z m
    \<and> heap_of m' = heap_of m \<and> used_pages m' = used_pages m
    \<and> (\<forall>k<length ps. mem_read m' (ps ! k) 0 PAGE_SIZE =
         (case contents z m (i + k) of None \<Rightarrow> mem_read m (ps ! k) 0 PAGE_SIZE | Some bs \<Rightarrow> bs))
    \<and> (\<forall>q. q \<notin> set ps \<longrightarrow> data_of m' q = data_of m q)"
  using assms
proof (induction ps arbitrary: i m)
  case Nil
  then show ?case by simp
next
  case (Cons p ps)
  let ?c = "contents z m i" and ?m = "deliver p (contents z m i) m"
  have rng: "in_range z i (Suc (length ps))" using Cons.prems(2) by simp
  note ni = next_index_in_range [OF rng]
  have up: "user_page z m L p" using Cons.prems(3) by simp
  note d = deliver_inv [OF Cons.prems(1) up]
  have rng': "ps \<noteq> [] \<Longrightarrow> in_range z (next_index i) (length ps)"
    using rng ni by (auto simp: in_range_def)
  have ups: "\<forall>q\<in>set ps. user_page z ?m L q" using Cons.prems(3) d(3) by simp
  obtain m' where m': "for_each_segment zram_read_page ps (next_index i) (z, ?m) = Some (True, z, m')"
    "zram_inv z m' L" "contents z m' = contents z ?m" "heap_of m' = heap_of ?m" "used_pages m' = used_pages ?m"
    "\<forall>k<length ps. mem_read m' (ps ! k) 0 PAGE_SIZE =
      (case contents z ?m (next_index i + k) of None \<Rightarrow> mem_read ?m (ps ! k) 0 PAGE_SIZE | Some bs \<Rightarrow> bs)"
    "\<forall>q. q \<notin> set ps \<longrightarrow> data_of m' q = data_of ?m q"
    using Cons.IH [OF d(1) rng' ups] Cons.prems(4) unfolding distinct.simps by blast
  have "mem_read m' ((p # ps) ! k) 0 PAGE_SIZE =
      (case contents z m (i + k) of None \<Rightarrow> mem_read m ((p # ps) ! k) 0 PAGE_SIZE | Some bs \<Rightarrow> bs)"
    if k: "k < length (p # ps)" for k
  proof (cases k)
    case 0
    have "mem_read m' p 0 PAGE_SIZE = mem_read ?m p 0 PAGE_SIZE"
      using m'(7) Cons.prems(4) by (intro mem_read_page_eq) simp
    with 0 mem_read_deliver [OF Cons.prems(1) refl, of p i] show ?thesis by (simp split: option.split)
  next
    case (Suc k')
    with k have k': "k' < length ps" "next_index i = Suc i" using ni by auto
    have "ps ! k' \<noteq> p" using k'(1) Cons.prems(4) by (metis distinct.simps(2) nth_mem)
    then have "mem_read ?m (ps ! k') 0 PAGE_SIZE = mem_read m (ps ! k') 0 PAGE_SIZE"
      by (intro mem_read_page_eq data_of_deliver_other)
    with Suc k' m'(6) d(2) show ?thesis by (simp split: option.split)
  qed
  moreover have "\<forall>q. q \<notin> set (p # ps) \<longrightarrow> data_of m' q = data_of m q"
    using m'(7) by (simp add: data_of_deliver_other)
  moreover have "for_each_segment zram_read_page (p # ps) i (z, m) = Some (True, z, m')"
    using m'(1) zram_read_page_ok [OF Cons.prems(1)] ni by simp
  ultimately show ?case using m' d(2) by auto
qed

text \<open>The view after the first \<open>k\<close> pages of a write; a failing page is lost.\<close>

definition written :: "nat \<Rightarrow> bytes list \<Rightarrow> bool \<Rightarrow> (nat \<Rightarrow> bytes option) \<Rightarrow> nat \<Rightarrow> bytes option" where
  "written i bss ok c j =
     (if i \<le> j \<and> j < i + length bss then Some (bss ! (j - i))
      else if \<not> ok \<and> j = i + length bss then None else c j)"

lemma written_Cons: "written i (b # bss) ok c = written (Suc i) bss ok (c(i \<mapsto> b))"
proof
  fix j
  show "written i (b # bss) ok c j = written (Suc i) bss ok (c(i \<mapsto> b)) j"
    by (cases "j = i") (auto simp: written_def nth_Cons' Suc_diff_Suc)
qed

lemma written_Nil [simp]: "written i [] True c = c"
  by (auto simp: written_def fun_eq_iff)

lemma write_loop_ok:
  assumes "zram_inv z m L" and "ps \<noteq> [] \<Longrightarrow> in_range z i (length ps)"
    and "\<forall>p\<in>set ps. user_page z m L p" and "fresh_page_source (alloc_page env)"
  shows "\<exists>ok k z' m' L'. for_each_segment (zram_write_page env) ps i (z, m) = Some (ok, z', m')
    \<and> zram_inv z' m' L' \<and> k \<le> length ps \<and> (ok \<longrightarrow> k = length ps) \<and> (\<not> ok \<longrightarrow> k < length ps)
    \<and> contents z' m' = written i (map (\<lambda>p. mem_read m p 0 PAGE_SIZE) (take k ps)) ok (contents z m)
    \<and> used_pages m' - owned z' L' = used_pages m - owned z L
    \<and> (\<forall>q \<in> used_pages m - owned z L. data_of m' q = data_of m q) \<and> disksize z' = disksize z
    \<and> (plenty (alloc_page env) m \<longrightarrow> ok)"
  using assms
proof (induction ps arbitrary: i z m L)
  case Nil
  then show ?case
    by (intro exI [of _ True] exI [of _ 0] exI [of _ z] exI [of _ m] exI [of _ L])
      auto
next
  case (Cons p ps)
  have rng: "in_range z i (Suc (length ps))" using Cons.prems(2) by simp
  note ni = next_index_in_range [OF rng]
  have up: "user_page z m L p" using Cons.prems(3) by simp
  obtain ok1 z1 m1 L1 where w: "zram_write_page env p i (z, m) = Some (ok1, z1, m1)"
    and step: "page_step i (if ok1 then Some (mem_read m p 0 PAGE_SIZE) else None) z m L z1 m1 L1"
    and alloc: "plenty (alloc_page env) m \<longrightarrow> ok1"
    using zram_write_page_ok [OF Cons.prems(1) _ up Cons.prems(4)] ni by blast
  have s: "zram_inv z1 m1 L1" "disksize z1 = disksize z"
    "used_pages m1 - owned z1 L1 = used_pages m - owned z L"
    "\<And>q. q \<in> used_pages m - owned z L \<Longrightarrow> data_of m1 q = data_of m q"
    "contents z1 m1 = (contents z m)(i := if ok1 then Some (mem_read m p 0 PAGE_SIZE) else None)"
    using step by (auto simp: page_step_def)
  show ?case
  proof (cases ok1)
    case False
    have "contents z1 m1 = written i (map (\<lambda>p. mem_read m p 0 PAGE_SIZE) (take 0 (p # ps))) False (contents z m)"
      using False s(5) by (auto simp: written_def)
    with w False s alloc show ?thesis
      by (intro exI [of _ False] exI [of _ "0 :: nat"] exI [of _ z1] exI [of _ m1] exI [of _ L1]) auto
  next
    case True
    have rng': "ps \<noteq> [] \<Longrightarrow> in_range z1 (next_index i) (length ps)"
      using rng ni s(2) by (auto simp: in_range_def num_pages_def)
    have ups: "\<forall>q\<in>set ps. user_page z1 m1 L1 q"
      using Cons.prems(3) page_step_user_page [OF step] by simp
    obtain ok k z' m' L' where r: "for_each_segment (zram_write_page env) ps (next_index i) (z1, m1) = Some (ok, z', m')"
      "zram_inv z' m' L'" "k \<le> length ps" "ok \<longrightarrow> k = length ps" "\<not> ok \<longrightarrow> k < length ps"
      "contents z' m' = written (next_index i) (map (\<lambda>p. mem_read m1 p 0 PAGE_SIZE) (take k ps)) ok (contents z1 m1)"
      "used_pages m' - owned z' L' = used_pages m1 - owned z1 L1"
      "\<forall>q \<in> used_pages m1 - owned z1 L1. data_of m' q = data_of m1 q" "disksize z' = disksize z1"
      "plenty (alloc_page env) m1 \<longrightarrow> ok"
      using Cons.IH [OF s(1) rng' ups Cons.prems(4)] by blast
    have same: "mem_read m1 q 0 PAGE_SIZE = mem_read m q 0 PAGE_SIZE" if "q \<in> set ps" for q
      using Cons.prems(3) that by (intro mem_read_page_eq s(4)) (auto simp: user_page_def)
    have map_eq: "map (\<lambda>p. mem_read m1 p 0 PAGE_SIZE) (take k ps) = map (\<lambda>p. mem_read m p 0 PAGE_SIZE) (take k ps)"
      using same by (auto dest: in_set_takeD)
    have idx: "written (next_index i) bss ok c = written (Suc i) bss ok c"
      if "bss = map f (take k ps)" for bss f c
    proof (cases "ps = []")
      case True
      with r(4,5) that show ?thesis by (auto simp: written_def fun_eq_iff)
    next
      case False
      with ni show ?thesis by simp
    qed
    have "contents z' m' =
        written i (map (\<lambda>p. mem_read m p 0 PAGE_SIZE) (take (Suc k) (p # ps))) ok (contents z m)"
      unfolding r(6) idx [OF refl] map_eq s(5) using True by (simp add: written_Cons)
    moreover have "plenty (alloc_page env) m \<longrightarrow> plenty (alloc_page env) m1"
      using plenty_kept [OF Cons.prems(1) s(1,3)] by blast
    ultimately show ?thesis using w r s True alloc
      by (intro exI [of _ ok] exI [of _ "Suc k"] exI [of _ z'] exI [of _ m'] exI [of _ L']) auto
  qed
qed

end
