(* ===== verification/Zram_Lifecycle.thy ===== *)
theory Zram_Lifecycle
  imports Zram_Requests
begin

text \<open>
  Discarding, and the life of a device: initialisation establishes the invariant with an empty
  view, reset gives every page back and leaves an idle device.
\<close>

section \<open>Discarding\<close>

definition discarded :: "nat \<Rightarrow> nat \<Rightarrow> (nat \<Rightarrow> bytes option) \<Rightarrow> nat \<Rightarrow> bytes option" where
  "discarded i n c j = (if i \<le> j \<and> j < i + n then None else c j)"

lemma discarded_0 [simp]: "discarded i 0 c = c"
  by (rule ext) (auto simp: discarded_def)

lemma discarded_Suc: "discarded i (Suc n) c = discarded (Suc i) n (c(i := None))"
  by (auto simp: discarded_def fun_eq_iff)

lemma discard_pages_ok:
  assumes "zram_inv z m L" and "0 < n \<Longrightarrow> in_range z i n"
  shows "\<exists>z' m' L'. discard_pages n i (z, m) = Some (z', m') \<and> zram_inv z' m' L'
    \<and> contents z' m' = discarded i n (contents z m) \<and> disksize z' = disksize z
    \<and> data_of m' = data_of m \<and> used_pages m' - owned z' L' = used_pages m - owned z L
    \<and> used_pages m' \<subseteq> used_pages m"
  using assms
proof (induction n arbitrary: i z m L)
  case 0
  then show ?case by auto
next
  case (Suc n)
  have rng: "in_range z i (Suc n)" using Suc.prems(2) by simp
  note ni = next_index_in_range [OF rng]
  obtain z1 m1 L1 where f: "zram_free_page i (z, m) = Some (z1, m1)" "page_step i None z m L z1 m1 L1"
    "data_of m1 = data_of m" "used_pages m1 \<subseteq> used_pages m"
    using zram_free_page_ok [OF Suc.prems(1), of i] ni by blast
  have s: "zram_inv z1 m1 L1" "disksize z1 = disksize z" "contents z1 m1 = (contents z m)(i := None)"
    "used_pages m1 - owned z1 L1 = used_pages m - owned z L"
    using f(2) by (auto simp: page_step_def)
  have rng': "0 < n \<Longrightarrow> in_range z1 (next_index i) n"
    using rng ni s(2) by (auto simp: in_range_def num_pages_def)
  obtain z' m' L' where r: "discard_pages n (next_index i) (z1, m1) = Some (z', m')" "zram_inv z' m' L'"
    "contents z' m' = discarded (next_index i) n (contents z1 m1)" "disksize z' = disksize z1"
    "data_of m' = data_of m1" "used_pages m' - owned z' L' = used_pages m1 - owned z1 L1"
    "used_pages m' \<subseteq> used_pages m1"
    using Suc.IH [OF s(1) rng'] by blast
  have "discarded (next_index i) n c = discarded (Suc i) n c" for c
    using ni by (cases "n = 0") simp_all
  with r(3) s(3) have "contents z' m' = discarded i (Suc n) (contents z m)"
    by (simp add: discarded_Suc)
  with f r s show ?case
    by (intro exI [of _ z'] exI [of _ m'] exI [of _ L']) auto
qed

section \<open>Reset\<close>

text \<open>A device without contents: before initialisation and after a reset.\<close>

definition idle :: "zram \<Rightarrow> bool" where
  "idle z \<longleftrightarrow> \<not> init_done z \<and> pages_stored (stats z) = 0 \<and> pages_zero (stats z) = 0
     \<and> pages_expand (stats z) = 0 \<and> good_compress (stats z) = 0 \<and> compr_size (stats z) = 0"

lemma idle_zero_stats: "\<not> init_done z \<Longrightarrow> stats z = zero_stats \<Longrightarrow> idle z"
  by (simp add: idle_def zero_stats_def)

lemma table_inv_Cons:
  assumes tinv: "table_inv (e # ts) m L"
    and inv: "xv_inv pool m L" "xv_inv pool' m' L'"
    and kept: "\<And>j. j < length ts \<Longrightarrow> kept m L m' L' (ts ! j)"
    and live: "\<And>x. x \<in> dom (live m' L') \<Longrightarrow> x \<in> dom (live m L) \<and> \<not> (te_page e \<noteq> 0 \<and> \<not> is_raw e \<and> te_loc e = x)"
  shows "table_inv ts m' L'"
  unfolding table_inv_def
proof (intro conjI allI impI ballI)
  fix j assume j: "j < length ts"
  then have "entry_ok m L ((e # ts) ! Suc j)" using table_inv_entry [OF tinv, of "Suc j"] by simp
  with kept_entry(1) [OF kept [OF j] _ inv] show "entry_ok m' L' (ts ! j)" by simp
next
  fix j k assume "j < length ts" "k < length ts" "j \<noteq> k \<and> te_page (ts ! j) \<noteq> 0"
  then show "te_loc (ts ! j) \<noteq> te_loc (ts ! k)"
    using table_inv_loc [OF tinv, of "Suc j" "Suc k"] by simp
next
  fix x assume "x \<in> dom (live m' L')"
  note x = live [OF this]
  with tinv obtain j where j: "j < length (e # ts)" "te_page ((e # ts) ! j) \<noteq> 0" "\<not> is_raw ((e # ts) ! j)"
    "te_loc ((e # ts) ! j) = x"
    unfolding table_inv_def by blast
  with x show "\<exists>j<length ts. te_page (ts ! j) \<noteq> 0 \<and> \<not> is_raw (ts ! j) \<and> te_loc (ts ! j) = x"
    by (cases j) auto
qed

lemma raw_pages_Cons: "raw_pages (e # ts) = raw_pages ts \<union> (if te_page e \<noteq> 0 \<and> is_raw e then {te_page e} else {})"
  by (auto simp: raw_pages_def)

text \<open>One round of the loop frees what the entry holds.\<close>

lemma reset_entry_ok:
  assumes inv: "xv_inv pool m L" "no_empty m L" "table_inv (e # ts) m L" and pool: "mem_pool z = Some pool"
  shows "\<exists>z' pool' m' L'.
      (if te_page e = 0 then Some (z, m)
       else if is_raw e then Some (z, free_page (te_page e) m)
       else do {
         pool \<leftarrow> mem_pool z;
         (pool, m) \<leftarrow> xv_free (te_page e, te_offset e) (pool, m);
         Some (z\<lparr>mem_pool := Some pool\<rparr>, m) }) = Some (z', m')
    \<and> mem_pool z' = Some pool' \<and> table z' = table z \<and> disksize z' = disksize z
    \<and> capacity z' = capacity z \<and> init_done z' = init_done z
    \<and> xv_inv pool' m' L' \<and> no_empty m' L' \<and> table_inv ts m' L' \<and> data_of m' = data_of m
    \<and> used_pages m' \<subseteq> used_pages m
    \<and> used_pages m' - (dom L' \<union> raw_pages ts) = used_pages m - (dom L \<union> raw_pages (e # ts))"
proof -
  have ok: "entry_ok m L e" using table_inv_entry [OF inv(3), of 0] by simp
  have oks: "entry_ok m L (ts ! j)" if "j < length ts" for j
    using table_inv_entry [OF inv(3), of "Suc j"] that by simp
  consider "te_page e = 0" | "te_page e \<noteq> 0" "is_raw e" | "te_page e \<noteq> 0" "\<not> is_raw e" by blast
  then show ?thesis
  proof cases
    case 1
    have "table_inv ts m L"
      by (rule table_inv_Cons [OF inv(3,1,1)]) (use 1 oks kept_refl in auto)
    with 1 inv pool show ?thesis
      by (intro exI [of _ z] exI [of _ pool] exI [of _ m] exI [of _ L]) (simp add: raw_pages_Cons)
  next
    case 2
    let ?p = "te_page e" and ?m = "free_page (te_page e) m"
    have p: "?p \<in> used_pages m" "?p \<notin> dom L" using ok 2 by (auto simp: entry_ok_def)
    note xinv = xv_inv_free_page [OF inv(1) p(2)]
    have ne: "te_page (ts ! j) \<noteq> ?p" if "j < length ts" "te_page (ts ! j) \<noteq> 0" "is_raw (ts ! j)" for j
      using table_inv_raw_page [OF inv(3), of 0 "Suc j"] that 2 by simp
    have "table_inv ts ?m L"
    proof (rule table_inv_Cons [OF inv(3,1) xinv])
      show "kept m L ?m L (ts ! j)" if "j < length ts" for j
        using oks [OF that] ne [OF that] by (auto simp: kept_def entry_ok_def split: if_splits)
    qed (use 2 in simp)
    moreover have "?p \<notin> raw_pages ts" using ne by (auto simp: raw_pages_nth) metis
    then have "used_pages ?m - (dom L \<union> raw_pages ts) = used_pages m - (dom L \<union> raw_pages (e # ts))"
      using 2 by (auto simp: raw_pages_Cons)
    ultimately show ?thesis
      using 2 inv pool xinv
      by (intro exI [of _ z] exI [of _ pool] exI [of _ ?m] exI [of _ L]) (auto simp: no_empty_def)
  next
    case 3
    let ?x = "te_loc e"
    obtain n where n: "live m L ?x = Some n" using ok 3 by (auto simp: entry_ok_def)
    obtain pool' m' L' where free: "xv_free ?x (pool, m) = Some (pool', m')"
      and post: "free_post ?x pool m L pool' m' L'"
      using xv_free_post [OF inv(1) n] .
    have xinv: "xv_inv pool' m' L'" and data: "data_of m' = data_of m" and sub: "used_pages m' \<subseteq> used_pages m"
      and live: "live m' L' = (live m L)(?x := None)" and dom: "dom L' \<subseteq> dom L"
      and used: "used_pages m' - dom L' = used_pages m - dom L"
      using post by (auto simp: free_post_def)
    have "table_inv ts m' L'"
    proof (rule table_inv_Cons [OF inv(3,1) xinv])
      show "kept m L m' L' (ts ! j)" if "j < length ts" for j
        using oks [OF that] used dom mem_read_data [OF data] table_inv_loc [OF inv(3), of "Suc j" 0] that
        by (auto simp: kept_def entry_ok_def live split: if_splits)
    qed (use 3 in \<open>auto simp: live split: if_splits\<close>)
    moreover have "used_pages m' - (dom L' \<union> raw_pages ts) = used_pages m - (dom L \<union> raw_pages (e # ts))"
      using 3 used by (auto simp: raw_pages_Cons)
    ultimately show ?thesis
      using 3 free pool xinv no_empty_free [OF inv(2) post] data sub
      by (intro exI [of _ "z\<lparr>mem_pool := Some pool'\<rparr>"] exI [of _ pool'] exI [of _ m'] exI [of _ L']) simp
  qed
qed

lemma reset_pages_ok:
  assumes "mem_pool z = Some pool" and "table z = Some t" and "ts = drop k t" and "k \<le> length t"
    and "xv_inv pool m L" and "no_empty m L" and "table_inv ts m L"
  shows "\<exists>z' m'. reset_pages (length ts) k (z, m) = Some (z', m')
    \<and> used_pages m' = used_pages m - (dom L \<union> raw_pages ts) \<and> data_of m' = data_of m
    \<and> init_done z' = init_done z \<and> capacity z' = capacity z"
  using assms
proof (induction ts arbitrary: z k m pool L)
  case Nil
  have "x \<notin> dom (live m L)" for x using Nil.prems(7) unfolding table_inv_def by (cases x) simp
  then have "live m L x = None" for x by (simp add: domIff)
  then have "dom L = {}" using Nil.prems(6) by (simp add: no_empty_def)
  then show ?case by (simp add: raw_pages_def)
next
  case (Cons e ts)
  have k: "k < length t" "t ! k = e" "drop (Suc k) t = ts"
    using Cons.prems(3) by (metis drop_all list.discI not_le, metis nth_via_drop, metis drop_Suc list.sel(3) tl_drop)
  obtain z1 pool1 m1 L1 where s:
      "(if te_page e = 0 then Some (z, m)
       else if is_raw e then Some (z, free_page (te_page e) m)
       else do {
         pool \<leftarrow> mem_pool z;
         (pool, m) \<leftarrow> xv_free (te_page e, te_offset e) (pool, m);
         Some (z\<lparr>mem_pool := Some pool\<rparr>, m) }) = Some (z1, m1)"
    "mem_pool z1 = Some pool1" "table z1 = table z" "capacity z1 = capacity z" "init_done z1 = init_done z"
    "xv_inv pool1 m1 L1" "no_empty m1 L1" "table_inv ts m1 L1" "data_of m1 = data_of m"
    "used_pages m1 - (dom L1 \<union> raw_pages ts) = used_pages m - (dom L \<union> raw_pages (e # ts))"
    using reset_entry_ok [OF Cons.prems(5-7,1)] by blast
  have "\<exists>z' m'. reset_pages (length ts) (Suc k) (z1, m1) = Some (z', m')
    \<and> used_pages m' = used_pages m1 - (dom L1 \<union> raw_pages ts) \<and> data_of m' = data_of m1
    \<and> init_done z' = init_done z1 \<and> capacity z' = capacity z1"
    by (rule Cons.IH [OF s(2) _ k(3) [symmetric] _ s(6-8)]) (use s(3) Cons.prems(2) k(1) in auto)
  moreover have "entry z k = Some e" using Cons.prems(2) k by (simp add: entry_def)
  ultimately show ?case using s by auto
qed

lemma zram_reset_ok:
  assumes inv: "zram_inv z m L"
  shows "\<exists>z' m'. zram_reset_device (z, m) = Some (z', m') \<and> idle z' \<and> disksize z' = 0
    \<and> table z' = None \<and> mem_pool z' = None
    \<and> used_pages m' = used_pages m - owned z L \<and> data_of m' = data_of m"
proof -
  obtain pool t where z: "mem_pool z = Some pool" "table z = Some t"
    "length t = num_pages z" "xv_inv pool m L" "no_empty m L" "table_inv t m L"
    using inv by (auto elim!: zram_invE)
  let ?z = "z\<lparr>init_done := False, compress_workmem := None, compress_buffer := None\<rparr>"
  have "\<exists>z' m'. reset_pages (length t) 0 (?z, m) = Some (z', m')
    \<and> used_pages m' = used_pages m - (dom L \<union> raw_pages t) \<and> data_of m' = data_of m
    \<and> init_done z' = init_done ?z \<and> capacity z' = capacity ?z"
    by (rule reset_pages_ok [of ?z pool t t 0]) (use z in simp_all)
  then obtain z' m' where r: "reset_pages (num_pages z) 0 (?z, m) = Some (z', m')"
    "used_pages m' = used_pages m - (dom L \<union> raw_pages t)" "data_of m' = data_of m" "\<not> init_done z'"
    using z(3) by auto
  have "num_pages ?z = num_pages z" by (simp add: num_pages_def)
  then show ?thesis
    using r z(2) by (auto simp: zram_reset_device_def owned_def num_pages_def intro!: idle_zero_stats)
qed

section \<open>Initialisation\<close>

definition empty_entry :: table_entry where
  "empty_entry = \<lparr>te_page = 0, te_offset = 0, te_count = 0, te_flags = 0\<rparr>"

lemma empty_entry_simps: "te_page empty_entry = 0" "\<not> zram_test_flag empty_entry f"
  by (simp_all add: empty_entry_def zram_test_flag_def)

lemma sum_list_replicate_0: "sum_list (replicate n (0 :: 'w::len word)) = 0"
  by (induction n) simp_all

text \<open>The outcomes of \<open>zram_init_device\<close> on an idle device.\<close>

lemma zram_init_ok:
  assumes idle: "idle z" and ok: "workmem_ok env" "buffer_ok env" "table_ok env" "pool_ok env"
  shows "\<exists>z'. zram_init_device env (z, m) = Some (0, z', m) \<and> zram_inv z' m (\<lambda>_. None)
    \<and> contents z' m = (\<lambda>_. None) \<and> owned z' (\<lambda>_. None) = {}
    \<and> disksize z' = disksize (zram_set_disksize (push_bit PAGE_SHIFT (totalram_pages env)) z)
    \<and> stats z' = stats z"
proof -
  obtain pool where pool: "xv_create_pool True = Some pool" by (simp add: xv_create_pool_def)
  have xinv: "xv_inv pool m (\<lambda>_. None)" by (rule xv_create_pool_inv [OF pool])
  have live: "live m (\<lambda>_. None) = (\<lambda>_. None)" by (auto simp: live_def)
  let ?z1 = "zram_set_disksize (push_bit PAGE_SHIFT (totalram_pages env)) z"
  let ?t = "replicate (num_pages ?z1) empty_entry"
  let ?z' = "?z1\<lparr>compress_workmem := Some (\<lambda>_. 0), compress_buffer := Some (replicate (2 * PAGE_SIZE) 0),
     table := Some ?t, capacity := drop_bit SECTOR_SHIFT (disksize ?z1), queue_nonrot := True,
     mem_pool := Some pool, init_done := True\<rparr>"
  have st: "stats ?z' = stats z" by (simp add: zram_set_disksize_def Let_def)
  have "zram_init_device env (z, m) = Some (0, ?z', m)"
    using idle ok pool
    by (simp add: zram_init_device_def idle_def Let_def empty_entry_def zram_set_disksize_def num_pages_def)
  moreover have "stats_inv (stats z) ?t m (\<lambda>_. None)"
    using idle unfolding idle_def stats_inv_def
    by (simp add: sum_list_replicate_0 empty_entry_simps stored_len_def one_if_def)
  then have "zram_inv ?z' m (\<lambda>_. None)"
    using xinv st live
    by (simp add: zram_inv_def buffers_ok_def num_pages_def no_empty_def table_inv_def entry_ok_def empty_entry_simps)
  moreover have "contents ?z' m = (\<lambda>_. None)"
    by (simp add: contents_def entry_def content_def empty_entry_simps fun_eq_iff)
  moreover have "owned ?z' (\<lambda>_. None) = {}"
    by (auto simp: owned_def raw_pages_def empty_entry_simps)
  ultimately show ?thesis using st by (intro exI [of _ ?z']) simp
qed

end
