(* ===== verification/Zram_Machine.thy ===== *)
theory Zram_Machine
  imports Zram_Lifecycle
begin

text \<open>
  The device as a state machine: every request, slot-free notification, reset and change of the
  disk size, in any order.  Requests use pages of a fixed set \<open>U\<close> that the kernel has handed out
  to others.  In every reachable state the device is idle or satisfies the invariant, and no
  operation whose range lies inside the device meets undefined behaviour, except the write that initialises a device
  for which the work memory or the buffer cannot be allocated.
\<close>

section \<open>Initialisation that fails\<close>

lemma reset_pages_empty:
  "table z = Some (replicate N empty_entry) \<Longrightarrow> i + n \<le> N \<Longrightarrow> reset_pages n i (z, m) = Some (z, m)"
  by (induction n arbitrary: i) (simp_all add: entry_def empty_entry_simps)

lemma zram_init_fails:
  assumes idle: "idle z" and ok: "workmem_ok env" "buffer_ok env" and fail: "\<not> table_ok env \<or> \<not> pool_ok env"
  shows "\<exists>z'. zram_init_device env (z, m) = Some (- ENOMEM, z', m) \<and> idle z' \<and> disksize z' = 0 \<and> table z' = None"
proof (cases "table_ok env")
  case False
  with idle ok show ?thesis
    by (auto simp: zram_init_device_def idle_def Let_def init_fail_def zram_reset_device_def num_pages_def
        zero_stats_def)
next
  case True
  with fail have np: "\<not> pool_ok env" by simp
  have np_cong: "num_pages (z\<lparr>init_done := a, compress_workmem := b, compress_buffer := c, table := d,
      capacity := e, queue_nonrot := f, mem_pool := g\<rparr>) = num_pages z" for z :: zram and a b c d e f g
    by (simp add: num_pages_def)
  show ?thesis
    using idle ok True np
    by (auto simp: zram_init_device_def idle_def Let_def init_fail_def zram_reset_device_def num_pages_def
        xv_create_pool_def zero_stats_def empty_entry_def [symmetric]
        reset_pages_empty [where N = "unat (drop_bit PAGE_SHIFT (disksize (zram_set_disksize (push_bit PAGE_SHIFT (totalram_pages env)) z)))"])
qed

text \<open>A failure before the table is allocated: the reset walks a table that does not exist.\<close>

lemma zram_init_null_table:
  assumes "idle z" and "table z = None" and "\<not> (workmem_ok env \<and> buffer_ok env)"
    and "0 < num_pages (zram_set_disksize (push_bit PAGE_SHIFT (totalram_pages env)) z)"
  shows "zram_init_device env (z, m) = None"
proof -
  let ?z = "zram_set_disksize (push_bit PAGE_SHIFT (totalram_pages env)) z"
  obtain n where n: "num_pages ?z = Suc n" using assms(4) gr0_implies_Suc by blast
  have null: "reset_pages (Suc n) 0 (z', m) = None" if "table z' = None" for z'
    using that by (simp add: entry_def)
  have t: "table ?z = None" using assms(2) by (simp add: zram_set_disksize_def Let_def)
  have np: "num_pages (?z\<lparr>compress_workmem := a, compress_buffer := b, init_done := c\<rparr>) = Suc n"
    "num_pages (?z\<lparr>compress_workmem := a, compress_buffer := b\<rparr>) = Suc n" for a b c
    using n by (simp_all add: num_pages_def)
  show ?thesis
    using assms(1,3) t n null
    by (auto simp: zram_init_device_def idle_def init_fail_def zram_reset_device_def Let_def num_pages_def
        simp del: reset_pages.simps)
qed

section \<open>Statistics that do not describe the table\<close>

lemma zram_inv_io_stats:
  "zram_inv (upd_stats (num_reads_update f) z) m L = zram_inv z m L"
  "zram_inv (upd_stats (num_writes_update f) z) m L = zram_inv z m L"
  "zram_inv (upd_stats (invalid_io_update f) z) m L = zram_inv z m L"
  "zram_inv (upd_stats (discard_update f) z) m L = zram_inv z m L"
  "zram_inv (upd_stats (notify_free_update f) z) m L = zram_inv z m L"
  by (simp_all add: zram_inv_def num_pages_def buffers_ok_def stats_inv_def)

lemma upd_stats_view [simp]:
  "contents (upd_stats f z) = contents z" "owned (upd_stats f z) = owned z"
  "num_pages (upd_stats f z) = num_pages z" "user_page (upd_stats f z) = user_page z"
  by (simp_all add: contents_def entry_def owned_def num_pages_def user_page_def fun_eq_iff)

lemma in_range_upd_stats [simp]: "in_range (upd_stats f z) i n = in_range z i n"
  by (simp add: in_range_def)

section \<open>Requests on an initialised device\<close>

text \<open>What a request is about lies inside the device.\<close>

definition wf_request :: "page set \<Rightarrow> zram \<Rightarrow> bio \<Rightarrow> bool" where
  "wf_request U z b \<longleftrightarrow>
     (if bi_discard b then bi_size b div PAGE_SIZE = 0 \<or> in_range z (first_index b) (bi_size b div PAGE_SIZE)
      else (bi_io_vec b = [] \<or> in_range z (first_index b) (length (bi_io_vec b)))
        \<and> set (bi_io_vec b) \<subseteq> U \<and> distinct (bi_io_vec b))"

definition users :: "page set \<Rightarrow> zram \<Rightarrow> kmem \<Rightarrow> layout \<Rightarrow> bool" where
  "users U z m L \<longleftrightarrow> (\<forall>p\<in>U. user_page z m L p)"

lemma read_request_ok:
  assumes inv: "zram_inv z m L" and U: "users U z m L" and wf: "wf_request U z b" "\<not> bi_discard b"
  shows "\<exists>z' m'. zram_read b (z, m) = Some (0, end_request True b, z', m')
    \<and> zram_inv z' m' L \<and> contents z' m' = contents z m \<and> users U z' m' L \<and> disksize z' = disksize z
    \<and> (\<forall>k<length (bi_io_vec b). mem_read m' (bi_io_vec b ! k) 0 PAGE_SIZE =
         (case contents z m (first_index b + k) of
            None \<Rightarrow> mem_read m (bi_io_vec b ! k) 0 PAGE_SIZE | Some bs \<Rightarrow> bs))
    \<and> (\<forall>q. q \<notin> set (bi_io_vec b) \<longrightarrow> data_of m' q = data_of m q)"
proof -
  let ?z = "upd_stats (num_reads_update zram_stat64_inc) z"
  have inv': "zram_inv ?z m L" using inv by (simp add: zram_inv_io_stats)
  have rng: "bi_io_vec b \<noteq> [] \<Longrightarrow> in_range ?z (first_index b) (length (bi_io_vec b))"
    using wf by (simp add: wf_request_def)
  have up: "\<forall>p\<in>set (bi_io_vec b). user_page ?z m L p" "distinct (bi_io_vec b)"
    using wf U by (auto simp: wf_request_def users_def)
  obtain m' where r: "for_each_segment zram_read_page (bi_io_vec b) (first_index b) (?z, m) = Some (True, ?z, m')"
    "zram_inv ?z m' L" "contents ?z m' = contents ?z m" "heap_of m' = heap_of m" "used_pages m' = used_pages m"
    "\<forall>k<length (bi_io_vec b). mem_read m' (bi_io_vec b ! k) 0 PAGE_SIZE =
         (case contents ?z m (first_index b + k) of
            None \<Rightarrow> mem_read m (bi_io_vec b ! k) 0 PAGE_SIZE | Some bs \<Rightarrow> bs)"
    "\<forall>q. q \<notin> set (bi_io_vec b) \<longrightarrow> data_of m' q = data_of m q"
    using read_loop_ok [OF inv' rng up] by blast
  have "init_done z" using inv by (simp add: zram_inv_def)
  then have "zram_read b (z, m) = Some (0, end_request True b, ?z, m')"
    using r(1) by (simp add: zram_read_def)
  moreover have "users U ?z m' L" using U r(5) by (simp add: users_def user_page_def)
  ultimately show ?thesis using r by (intro exI [of _ ?z] exI [of _ m']) simp
qed

lemma write_request_ok:
  assumes inv: "zram_inv z m L" and U: "users U z m L" and wf: "wf_request U z b" "\<not> bi_discard b"
    and src: "fresh_page_source (alloc_page env)"
  shows "\<exists>ok k z' m' L'. zram_write env b (z, m) = Some (0, end_request ok b, z', m')
    \<and> zram_inv z' m' L' \<and> k \<le> length (bi_io_vec b)
    \<and> (ok \<longrightarrow> k = length (bi_io_vec b)) \<and> (\<not> ok \<longrightarrow> k < length (bi_io_vec b))
    \<and> contents z' m' =
        written (first_index b) (map (\<lambda>p. mem_read m p 0 PAGE_SIZE) (take k (bi_io_vec b))) ok (contents z m)
    \<and> users U z' m' L' \<and> disksize z' = disksize z
    \<and> (\<forall>p\<in>U. data_of m' p = data_of m p) \<and> (plenty (alloc_page env) m \<longrightarrow> ok)"
proof -
  let ?z = "upd_stats (num_writes_update zram_stat64_inc) z"
  have inv': "zram_inv ?z m L" using inv by (simp add: zram_inv_io_stats)
  have rng: "bi_io_vec b \<noteq> [] \<Longrightarrow> in_range ?z (first_index b) (length (bi_io_vec b))"
    using wf by (simp add: wf_request_def)
  have up: "\<forall>p\<in>set (bi_io_vec b). user_page ?z m L p"
    using wf U by (auto simp: wf_request_def users_def)
  obtain ok k z' m' L' where r: "for_each_segment (zram_write_page env) (bi_io_vec b) (first_index b) (?z, m) = Some (ok, z', m')"
    "zram_inv z' m' L'" "k \<le> length (bi_io_vec b)" "ok \<longrightarrow> k = length (bi_io_vec b)"
    "\<not> ok \<longrightarrow> k < length (bi_io_vec b)"
    "contents z' m' = written (first_index b) (map (\<lambda>p. mem_read m p 0 PAGE_SIZE) (take k (bi_io_vec b))) ok (contents ?z m)"
    "used_pages m' - owned z' L' = used_pages m - owned ?z L"
    "\<forall>q \<in> used_pages m - owned ?z L. data_of m' q = data_of m q" "disksize z' = disksize ?z"
    "plenty (alloc_page env) m \<longrightarrow> ok"
    using write_loop_ok [OF inv' rng up src] by blast
  have "init_done z" using inv by (simp add: zram_inv_def)
  then have "zram_write env b (z, m) = Some (0, end_request ok b, z', m')"
    using r(1) by (simp add: zram_write_def)
  moreover have "users U z' m' L'" "\<forall>p\<in>U. data_of m' p = data_of m p"
    using U r(7,8) by (auto simp: users_def user_page_def)
  ultimately show ?thesis
    using r by (intro exI [of _ ok] exI [of _ k] exI [of _ z'] exI [of _ m'] exI [of _ L']) simp
qed

lemma discard_request_ok:
  assumes inv: "zram_inv z m L" and U: "users U z m L" and wf: "wf_request U z b" "bi_discard b"
  shows "\<exists>z' m' L'. zram_discard b (z, m) = Some (bio_endio 0 b, z', m') \<and> zram_inv z' m' L'
    \<and> contents z' m' = discarded (first_index b) (bi_size b div PAGE_SIZE) (contents z m)
    \<and> users U z' m' L' \<and> disksize z' = disksize z \<and> data_of m' = data_of m"
proof -
  have rng: "0 < bi_size b div PAGE_SIZE \<Longrightarrow> in_range z (first_index b) (bi_size b div PAGE_SIZE)"
    using wf by (auto simp: wf_request_def)
  obtain z1 m' L' where r: "discard_pages (bi_size b div PAGE_SIZE) (first_index b) (z, m) = Some (z1, m')"
    "zram_inv z1 m' L'" "contents z1 m' = discarded (first_index b) (bi_size b div PAGE_SIZE) (contents z m)"
    "disksize z1 = disksize z" "data_of m' = data_of m"
    "used_pages m' - owned z1 L' = used_pages m - owned z L" "used_pages m' \<subseteq> used_pages m"
    using discard_pages_ok [OF inv rng] by blast
  let ?z = "upd_stats (discard_update zram_stat64_inc) z1"
  have "init_done z" using inv by (simp add: zram_inv_def)
  then have "zram_discard b (z, m) = Some (bio_endio 0 b, ?z, m')"
    using r(1) by (simp add: zram_discard_def)
  moreover have "users U ?z m' L'" using U r(6) by (auto simp: users_def user_page_def)
  ultimately show ?thesis
    using r by (intro exI [of _ ?z] exI [of _ m'] exI [of _ L']) (simp add: zram_inv_io_stats)
qed

end
