(* ===== verification/Zram_Sysfs.thy ===== *)
theory Zram_Sysfs
  imports Zram_Drv
begin

text \<open>
  The sysfs attributes of a device (zram\_sysfs.c): a store handler returns its return code
  and the device, a show handler the text it prints.  \<open>strict_strtoull\<close> and
  \<open>strict_strtoul\<close> belong to the kernel and are parameters: the return code and the value
  left in \<open>*res\<close>.  \<open>None\<close> is the dereference of a null pointer.
\<close>

section \<open>Finding the device\<close>

text \<open>\<open>devs\<close> are the \<open>struct device\<close> of the disks in \<open>devices\<close>; the result is an index.\<close>

fun find_from :: "nat \<Rightarrow> nat list \<Rightarrow> nat \<Rightarrow> nat option \<Rightarrow> nat option" where
  "find_from i [] dev zram = zram"
| "find_from i (d # ds) dev zram = (if d = dev then Some i else find_from (Suc i) ds dev (Some i))"

definition dev_to_zram :: "nat list \<Rightarrow> nat \<Rightarrow> nat option" where
  "dev_to_zram devs dev = find_from 0 devs dev None"

section \<open>Printing\<close>

function decimal :: "nat \<Rightarrow> string" where
  "decimal n = (if n < 10 then [char_of (48 + n)] else decimal (n div 10) @ [char_of (48 + n mod 10)])"
  by pat_completeness auto
termination
  by (relation "measure (\<lambda>n. n)") auto

declare decimal.simps [simp del]

definition print_u64 :: "u64 \<Rightarrow> string" where
  "print_u64 v = decimal (unat v) @ [CHR 0x0A]"

definition print_u32 :: "u32 \<Rightarrow> string" where
  "print_u32 v = decimal (unat v) @ [CHR 0x0A]"

definition zram_stat64_read :: "u64 \<Rightarrow> u64" where
  "zram_stat64_read v = v"

section \<open>Attributes\<close>

definition EBUSY :: int where "EBUSY = 16"
definition EINVAL :: int where "EINVAL = 22"

definition disksize_show :: "zram \<Rightarrow> string" where
  "disksize_show z = print_u64 (disksize z)"

definition disksize_store ::
  "(string \<Rightarrow> int \<times> u64) \<Rightarrow> string \<Rightarrow> zram \<Rightarrow> int \<times> zram" where
  "disksize_store strict_strtoull buf z =
     (if init_done z then (- EBUSY, z)
      else
        let (ret, v) = strict_strtoull buf; z = z\<lparr>disksize := v\<rparr>
        in if ret \<noteq> 0 then (ret, z)
           else let z = z\<lparr>disksize := disksize z AND PAGE_MASK\<rparr>
                in (int (length buf), z\<lparr>capacity := drop_bit SECTOR_SHIFT (disksize z)\<rparr>))"

definition initstate_show :: "zram \<Rightarrow> string" where
  "initstate_show z = print_u32 (if init_done z then 1 else 0)"

text \<open>\<open>bdev\<close> is what \<open>bdget_disk\<close> returns: \<open>None\<close> or the number of its holders.\<close>

definition reset_store ::
  "(string \<Rightarrow> int \<times> ulong) \<Rightarrow> nat option \<Rightarrow> string \<Rightarrow> zstate \<Rightarrow> (int \<times> zstate) option" where
  "reset_store strict_strtoul bdev buf = (\<lambda>(z, m). do {
     bd_holders \<leftarrow> bdev;
     if bd_holders \<noteq> 0 then Some (- EBUSY, z, m)
     else
       let (ret, do_reset) = strict_strtoul buf
       in if ret \<noteq> 0 then Some (ret, z, m)
          else if do_reset = 0 then Some (- EINVAL, z, m)
          else if init_done z
          then do { s \<leftarrow> zram_reset_device (z, m); Some (int (length buf), s) }
          else Some (int (length buf), z, m) })"

definition num_reads_show :: "zram \<Rightarrow> string" where
  "num_reads_show z = print_u64 (zram_stat64_read (num_reads (stats z)))"

definition num_writes_show :: "zram \<Rightarrow> string" where
  "num_writes_show z = print_u64 (zram_stat64_read (num_writes (stats z)))"

definition invalid_io_show :: "zram \<Rightarrow> string" where
  "invalid_io_show z = print_u64 (zram_stat64_read (invalid_io (stats z)))"

definition notify_free_show :: "zram \<Rightarrow> string" where
  "notify_free_show z = print_u64 (zram_stat64_read (notify_free (stats z)))"

definition discard_show :: "zram \<Rightarrow> string" where
  "discard_show z = print_u64 (zram_stat64_read (discard (stats z)))"

definition zero_pages_show :: "zram \<Rightarrow> string" where
  "zero_pages_show z = print_u32 (pages_zero (stats z))"

definition orig_data_size_show :: "zram \<Rightarrow> string" where
  "orig_data_size_show z = print_u64 (push_bit PAGE_SHIFT (ucast (pages_stored (stats z))))"

definition compr_data_size_show :: "zram \<Rightarrow> string" where
  "compr_data_size_show z = print_u64 (zram_stat64_read (compr_size (stats z)))"

definition mem_used_total :: "zram \<Rightarrow> u64 option" where
  "mem_used_total z =
     (if init_done z
      then do {
        pool \<leftarrow> mem_pool z;
        Some (xv_get_total_size_bytes pool + push_bit PAGE_SHIFT (ucast (pages_expand (stats z)))) }
      else Some 0)"

definition mem_used_total_show :: "zram \<Rightarrow> string option" where
  "mem_used_total_show z = map_option print_u64 (mem_used_total z)"

datatype attribute =
    Disksize | Initstate | Reset | Num_Reads | Num_Writes | Invalid_Io | Notify_Free | Discard
  | Zero_Pages | Orig_Data_Size | Compr_Data_Size | Mem_Used_Total

definition zram_disk_attrs :: "attribute list" where
  "zram_disk_attrs = [Disksize, Initstate, Reset, Num_Reads, Num_Writes, Invalid_Io, Notify_Free,
     Discard, Zero_Pages, Orig_Data_Size, Compr_Data_Size, Mem_Used_Total]"

text \<open>Reading an attribute; \<open>reset\<close> has no show handler, and reading it fails with \<open>EIO\<close>.\<close>

fun attr_show :: "attribute \<Rightarrow> zram \<Rightarrow> string option" where
  "attr_show Disksize z = Some (disksize_show z)"
| "attr_show Initstate z = Some (initstate_show z)"
| "attr_show Reset z = None"
| "attr_show Num_Reads z = Some (num_reads_show z)"
| "attr_show Num_Writes z = Some (num_writes_show z)"
| "attr_show Invalid_Io z = Some (invalid_io_show z)"
| "attr_show Notify_Free z = Some (notify_free_show z)"
| "attr_show Discard z = Some (discard_show z)"
| "attr_show Zero_Pages z = Some (zero_pages_show z)"
| "attr_show Orig_Data_Size z = Some (orig_data_size_show z)"
| "attr_show Compr_Data_Size z = Some (compr_data_size_show z)"
| "attr_show Mem_Used_Total z = mem_used_total_show z"

section \<open>Facts\<close>

lemma find_from_spec:
  "find_from i devs dev r =
     (if dev \<in> set devs then Some (i + length (takeWhile (\<lambda>d. d \<noteq> dev) devs))
      else if devs = [] then r else Some (i + length devs - 1))"
  by (induction i devs dev r rule: find_from.induct) auto

text \<open>The decimal notation determines the number.\<close>

definition dec_value :: "string \<Rightarrow> nat" where
  "dec_value s = foldl (\<lambda>a c. 10 * a + (of_char c - 48)) 0 s"

lemma dec_value_decimal: "dec_value (decimal n) = n"
proof (induction n rule: decimal.induct)
  case (1 n)
  show ?case
  proof (cases "n < 10")
    case True
    then show ?thesis by (simp add: decimal.simps [of n] dec_value_def)
  next
    case False
    then have "dec_value (decimal n) = 10 * dec_value (decimal (n div 10)) + n mod 10"
      by (simp add: decimal.simps [of n] dec_value_def)
    with 1 False show ?thesis by simp
  qed
qed

lemma decimal_inj: "decimal a = decimal b \<longleftrightarrow> a = b"
  by (metis dec_value_decimal)

end
