(* ===== verification/Zram_Correct.thy ===== *)
theory Zram_Correct
  imports Zram_Machine Zram_Sysfs
begin

text \<open>
  Reachability: from an idle device, through any sequence of requests inside the device,
  slot-free notifications, resets and disk-size changes, the invariant holds, and the one request that is
  undefined is known (\<open>first_write_fails\<close>).  Of the environment only one thing is assumed, that \<open>alloc_page\<close> returns
  unused pages; any allocation may fail.
\<close>

definition machine_inv :: "page set \<Rightarrow> zstate \<Rightarrow> bool" where
  "machine_inv U = (\<lambda>(z, m).
     (idle z \<and> table z = None \<and> disksize z AND PAGE_MASK = disksize z \<and> U \<subseteq> used_pages m)
     \<or> (\<exists>L. zram_inv z m L \<and> users U z m L))"

text \<open>
  A write that would initialise the device, when the work memory or the buffer of \<open>zram_init_device\<close> cannot be had.
\<close>

definition first_write_fails :: "env \<Rightarrow> zram \<Rightarrow> bio \<Rightarrow> bool" where
  "first_write_fails env z b \<longleftrightarrow> \<not> init_done z \<and> valid_io_request z b \<and> bi_write b \<and> \<not> bi_discard b
     \<and> \<not> (workmem_ok env \<and> buffer_ok env)"

inductive zram_step :: "page set \<Rightarrow> zstate \<Rightarrow> zstate \<Rightarrow> bool" for U where
  request: "fresh_page_source (alloc_page env) \<Longrightarrow> wf_request U z b \<Longrightarrow> zram_make_request env b (z, m) = Some (r, b', s') \<Longrightarrow>
    zram_step U (z, m) s'"
| notify: "init_done z \<Longrightarrow> i < num_pages z \<Longrightarrow> zram_slot_free_notify i (z, m) = Some s' \<Longrightarrow>
    zram_step U (z, m) s'"
| reset: "reset_store parse bdev buf (z, m) = Some (r, s') \<Longrightarrow> zram_step U (z, m) s'"
| set_disksize: "disksize_store parse buf z = (r, z') \<Longrightarrow> fst (parse buf) = 0 \<Longrightarrow> zram_step U (z, m) (z', m)"

inductive_cases zram_stepE: "zram_step U (z, m) s'"

inductive zram_reach :: "page set \<Rightarrow> zstate \<Rightarrow> zstate \<Rightarrow> bool" for U s where
  start: "zram_reach U s s"
| step: "zram_reach U s s' \<Longrightarrow> zram_step U s' s'' \<Longrightarrow> zram_reach U s s''"

section \<open>Idle devices\<close>

lemma PAGE_MASK_idem: "(d AND PAGE_MASK) AND PAGE_MASK = d AND PAGE_MASK"
  by (simp add: and.assoc)

lemma idle_upd_stats:
  "idle z \<Longrightarrow> idle (upd_stats (num_reads_update f) z)" "idle z \<Longrightarrow> idle (upd_stats (invalid_io_update f) z)"
  "idle z \<Longrightarrow> idle (upd_stats (discard_update f) z)"
  by (simp_all add: idle_def)

lemma users_more: "users U z m L \<Longrightarrow> zram_inv z m L \<Longrightarrow> U \<subseteq> used_pages m - owned z L"
  by (auto simp: users_def user_page_def)

lemma init_idle:
  assumes idle: "idle z" "disksize z AND PAGE_MASK = disksize z" "disksize z \<noteq> 0" "U \<subseteq> used_pages m"
    and env: "workmem_ok env" "buffer_ok env"
  shows "(\<exists>z' L. zram_init_device env (z, m) = Some (0, z', m) \<and> zram_inv z' m L \<and> users U z' m L
      \<and> disksize z' = disksize z)
    \<or> (\<exists>z'. zram_init_device env (z, m) = Some (- ENOMEM, z', m) \<and> idle z' \<and> disksize z' = 0 \<and> table z' = None)"
proof (cases "table_ok env \<and> pool_ok env")
  case True
  have "disksize (zram_set_disksize n z) = disksize z" for n
    using idle by (simp add: zram_set_disksize_def)
  with zram_init_ok [OF idle(1), of env m] True env obtain z' where z':
    "zram_init_device env (z, m) = Some (0, z', m)" "zram_inv z' m (\<lambda>_. None)"
    "owned z' (\<lambda>_. None) = {}" "disksize z' = disksize z"
    by auto
  moreover have "users U z' m (\<lambda>_. None)"
    using z'(3) idle(4) by (auto simp: users_def user_page_def)
  ultimately show ?thesis by blast
next
  case False
  with zram_init_fails [OF idle(1), of env m] env show ?thesis by auto
qed

text \<open>A disk size other than 0 is at least a page, since sizes are whole pages.\<close>

lemma num_pages_pos:
  assumes "disksize z AND PAGE_MASK = disksize z" and "disksize z \<noteq> 0"
  shows "0 < num_pages z"
proof -
  have "drop_bit 12 (disksize z) \<noteq> 0"
  proof
    assume "drop_bit 12 (disksize z) = 0"
    moreover have "disksize z AND NOT (mask 12) = push_bit 12 (drop_bit 12 (disksize z))"
      by (rule bit_word_eqI) (auto simp: bit_simps)
    ultimately have "disksize z AND NOT (mask 12) = 0" by simp
    moreover have "(PAGE_MASK :: u64) = NOT (mask 12)" by (simp add: PAGE_MASK_def mask_eq_exp_minus_1)
    ultimately show False using assms by simp
  qed
  then show ?thesis by (simp add: num_pages_def kernel_consts unat_gt_0)
qed

lemma init_undefined:
  assumes "idle z" and "table z = None" and "disksize z AND PAGE_MASK = disksize z" and "disksize z \<noteq> 0"
    and "\<not> (workmem_ok env \<and> buffer_ok env)"
  shows "zram_init_device env (z, m) = None"
proof (rule zram_init_null_table [OF assms(1,2,5)])
  let ?z = "zram_set_disksize (push_bit PAGE_SHIFT (totalram_pages env)) z"
  have "disksize ?z = disksize z" using assms by (simp add: zram_set_disksize_def)
  then show "0 < num_pages ?z" using num_pages_pos [of ?z] assms(3,4) by simp
qed

lemma wf_request_cong: "num_pages z' = num_pages z \<Longrightarrow> wf_request U z' b = wf_request U z b"
  by (simp add: wf_request_def in_range_def)

section \<open>Every step but that one is defined, and all keep the invariant\<close>

lemma zram_write_idle:
  assumes "idle z" and "zram_init_device env (z, m) = Some (0, z1, m1)" and "init_done z1"
  shows "zram_write env b (z, m) = zram_write env b (z1, m1)"
  using assms by (simp add: zram_write_def idle_def)

lemma make_request_undefined:
  assumes inv: "machine_inv U (z, m)" and ff: "first_write_fails env z b"
  shows "zram_make_request env b (z, m) = None"
proof -
  have b: "\<not> init_done z" "valid_io_request z b" "bi_write b" "\<not> bi_discard b" "\<not> (workmem_ok env \<and> buffer_ok env)"
    using ff by (auto simp: first_write_fails_def)
  then have "idle z" "table z = None" "disksize z AND PAGE_MASK = disksize z"
    using inv by (auto simp: machine_inv_def zram_inv_def)
  moreover have "disksize z \<noteq> 0" using b(2) by (auto simp: valid_io_request_def)
  ultimately have "zram_init_device env (z, m) = None" using b(5) by (rule init_undefined)
  with b(1-4) show ?thesis by (simp add: zram_make_request_def zram_write_def)
qed

lemma make_request_ok:
  assumes inv: "machine_inv U (z, m)" and wf: "wf_request U z b" and src: "fresh_page_source (alloc_page env)"
    and nf: "\<not> first_write_fails env z b"
  shows "\<exists>b' z' m'. zram_make_request env b (z, m) = Some (0, b', z', m') \<and> machine_inv U (z', m')"
proof (cases "valid_io_request z b")
  case False
  then have "zram_make_request env b (z, m)
      = Some (0, bio_io_error b, upd_stats (invalid_io_update zram_stat64_inc) z, m)"
    by (simp add: zram_make_request_def)
  moreover have "machine_inv U (upd_stats (invalid_io_update zram_stat64_inc) z, m)"
    using inv by (auto simp: machine_inv_def zram_inv_io_stats users_def idle_upd_stats)
  ultimately show ?thesis by blast
next
  case valid: True
  from inv consider (idle) "idle z" "disksize z AND PAGE_MASK = disksize z" "U \<subseteq> used_pages m" "table z = None"
    | (busy) L where "zram_inv z m L" "users U z m L" by (auto simp: machine_inv_def)
  then show ?thesis
  proof cases
    case busy
    show ?thesis
    proof (cases "bi_discard b")
      case True
      with discard_request_ok [OF busy wf] valid show ?thesis
        by (auto simp: zram_make_request_def machine_inv_def)
    next
      case rw: False
      show ?thesis
      proof (cases "bi_write b")
        case True
        from write_request_ok [OF busy wf rw src] obtain ok z' m' L' where
          "zram_write env b (z, m) = Some (0, end_request ok b, z', m')" "zram_inv z' m' L'" "users U z' m' L'"
          by blast
        with True rw valid show ?thesis by (auto simp: zram_make_request_def machine_inv_def)
      next
        case False
        from read_request_ok [OF busy wf rw] obtain z' m' where
          "zram_read b (z, m) = Some (0, end_request True b, z', m')" "zram_inv z' m' L" "users U z' m' L"
          by blast
        with False rw valid show ?thesis by (auto simp: zram_make_request_def machine_inv_def)
      qed
    qed
  next
    case idle
    have nz: "disksize z \<noteq> 0" using valid by (auto simp: valid_io_request_def)
    have nd: "\<not> init_done z" using idle by (simp add: idle_def)
    show ?thesis
    proof (cases "bi_discard b \<or> \<not> bi_write b")
      case True
      with idle nd valid show ?thesis
        by (auto simp: zram_make_request_def zram_discard_def zram_read_def machine_inv_def idle_upd_stats)
    next
      case False
      then have rw: "\<not> bi_discard b" "bi_write b" by auto
      have env: "workmem_ok env" "buffer_ok env" using nf nd valid rw by (auto simp: first_write_fails_def)
      from init_idle [OF idle(1,2) nz idle(3) env] show ?thesis
      proof (elim disjE exE conjE)
        fix z1 L assume z1: "zram_init_device env (z, m) = Some (0, z1, m)" "zram_inv z1 m L"
          "users U z1 m L" "disksize z1 = disksize z"
        have wf1: "wf_request U z1 b" using wf z1(4) wf_request_cong [of z1 z] by (simp add: num_pages_def)
        have d1: "init_done z1" using z1(2) by (simp add: zram_inv_def)
        from write_request_ok [OF z1(2,3) wf1 rw(1) src] obtain ok z' m' L' where
          "zram_write env b (z1, m) = Some (0, end_request ok b, z', m')" "zram_inv z' m' L'" "users U z' m' L'"
          by blast
        then show ?thesis
          using rw valid zram_write_idle [OF idle(1) z1(1) d1, of b]
          by (auto simp: zram_make_request_def machine_inv_def)
      next
        fix z1 assume z1: "zram_init_device env (z, m) = Some (- ENOMEM, z1, m)" "idle z1" "disksize z1 = 0" "table z1 = None"
        then have "zram_write env b (z, m) = Some (0, end_request False b, z1, m)"
          using nd by (simp add: zram_write_def ENOMEM_def)
        then show ?thesis
          using rw valid z1 idle by (auto simp: zram_make_request_def machine_inv_def)
      qed
    qed
  qed
qed

lemma notify_ok:
  assumes inv: "machine_inv U (z, m)" and i: "init_done z" "i < num_pages z"
  shows "\<exists>z' m'. zram_slot_free_notify i (z, m) = Some (z', m') \<and> machine_inv U (z', m')"
proof -
  from inv i obtain L where L: "zram_inv z m L" "users U z m L" by (auto simp: machine_inv_def idle_def)
  obtain z1 m' L' where f: "zram_free_page i (z, m) = Some (z1, m')" and step: "page_step i None z m L z1 m' L'"
    using zram_free_page_ok [OF L(1) i(2)] by blast
  let ?z = "upd_stats (notify_free_update zram_stat64_inc) z1"
  have "zram_inv ?z m' L'" using step by (simp add: page_step_def zram_inv_io_stats)
  moreover have "users U ?z m' L'"
    using L(2) page_step_user_page [OF step] by (simp add: users_def)
  ultimately show ?thesis using f by (auto simp: zram_slot_free_notify_def machine_inv_def)
qed

lemma reset_ok:
  assumes inv: "machine_inv U (z, m)"
  shows "\<exists>r z' m'. reset_store parse (Some holders) buf (z, m) = Some (r, z', m') \<and> machine_inv U (z', m')"
proof (cases "holders = 0 \<and> fst (parse buf) = 0 \<and> snd (parse buf) \<noteq> 0 \<and> init_done z")
  case False
  with inv show ?thesis
    by (auto simp: reset_store_def Let_def split: prod.splits)
next
  case True
  then obtain L where L: "zram_inv z m L" "users U z m L" using inv by (auto simp: machine_inv_def idle_def)
  obtain z' m' where r: "zram_reset_device (z, m) = Some (z', m')" "idle z'" "disksize z' = 0" "table z' = None"
    "used_pages m' = used_pages m - owned z L"
    using zram_reset_ok [OF L(1)] by blast
  have "machine_inv U (z', m')" using r users_more [OF L(2,1)] by (simp add: machine_inv_def)
  with True r show ?thesis by (auto simp: reset_store_def Let_def split: prod.splits)
qed

lemma disksize_store_ok:
  assumes inv: "machine_inv U (z, m)" and st: "disksize_store parse buf z = (r, z')" and ok: "fst (parse buf) = 0"
  shows "machine_inv U (z', m)"
proof (cases "init_done z")
  case True
  with inv st show ?thesis by (simp add: disksize_store_def)
next
  case False
  then have "idle z" "table z = None" "U \<subseteq> used_pages m" using inv by (auto simp: machine_inv_def zram_inv_def)
  with False st ok show ?thesis
    by (auto simp: disksize_store_def machine_inv_def idle_def Let_def PAGE_MASK_idem split: prod.splits)
qed

lemma zram_step_inv:
  assumes "zram_step U s s'" and "machine_inv U s"
  shows "machine_inv U s'"
  using assms
proof cases
  case (request env z b m r b')
  moreover have "\<not> first_write_fails env z b" using make_request_undefined [of U z m env b] request assms(2) by auto
  ultimately show ?thesis using make_request_ok [of U z m b env] assms(2) by auto
next
  case (notify z i m)
  with notify_ok [of U z m i] assms(2) show ?thesis by auto
next
  case (reset parse bdev buf z m r)
  then obtain h where "bdev = Some h" by (cases bdev) (simp_all add: reset_store_def)
  with reset reset_ok [of U z m parse h buf] assms(2) show ?thesis by auto
next
  case (set_disksize parse buf z r z' m)
  with disksize_store_ok [of U z m parse buf r z'] assms(2) show ?thesis by simp
qed

lemma zram_reach_inv: "zram_reach U s s' \<Longrightarrow> machine_inv U s \<Longrightarrow> machine_inv U s'"
  by (induction rule: zram_reach.induct) (auto intro: zram_step_inv)

section \<open>Statistics\<close>

lemma sum_list_one_if: "sum_list (map (\<lambda>e. one_if (P e)) t) = (of_nat (length (filter P t)) :: 'w::len word)"
  by (induction t) (simp_all add: one_if_def)

lemma sum_list_of_nat: "sum_list (map (\<lambda>e. of_nat (f e)) t) = (of_nat (sum_list (map f t)) :: 'w::len word)"
  by (induction t) simp_all

lemma card_raw_pages:
  assumes tinv: "table_inv t m L"
  shows "card (raw_pages t) = length (filter (\<lambda>e. te_page e \<noteq> 0 \<and> is_raw e) t)"
proof -
  let ?I = "{i. i < length t \<and> te_page (t ! i) \<noteq> 0 \<and> is_raw (t ! i)}"
  have "raw_pages t = (\<lambda>i. te_page (t ! i)) ` ?I" by (auto simp: raw_pages_nth)
  moreover have "inj_on (\<lambda>i. te_page (t ! i)) ?I"
    using table_inv_raw_page [OF tinv] by (auto simp: inj_on_def)
  ultimately have "card (raw_pages t) = card ?I" by (simp add: card_image)
  then show ?thesis by (simp add: length_filter_conv_card)
qed

lemma mem_used_total_ok:
  assumes inv: "zram_inv z m L" and small: "num_pages z < 4294967296"
  shows "mem_used_total z = Some (of_nat (PAGE_SIZE * card (owned z L)))"
proof -
  obtain pool t where z: "init_done z" "mem_pool z = Some pool" "table z = Some t"
    "length t = num_pages z" "xv_inv pool m L" "table_inv t m L" "stats_inv (stats z) t m L"
    using inv by (auto elim!: zram_invE)
  let ?k = "length (filter (\<lambda>e. te_page e \<noteq> 0 \<and> is_raw e) t)"
  have k: "?k < 4294967296" using length_filter_le [of _ t] z(4) small by (metis le_less_trans)
  have "ucast (pages_expand (stats z)) = (of_nat ?k :: u64)"
  proof -
    have "pages_expand (stats z) = of_nat ?k"
      using z(7) by (simp add: stats_inv_def sum_list_one_if)
    then have "unat (pages_expand (stats z)) = ?k"
      using k by (simp add: unat_of_nat)
    then show ?thesis by (metis of_nat_unat)
  qed
  moreover have "total_pages pool = of_nat (card (dom L))" "finite (dom L)"
    using z(5) by (auto simp: xv_inv_def)
  moreover have "dom L \<inter> raw_pages t = {}"
  proof -
    have "te_page (t ! i) \<notin> dom L" if "i < length t" "te_page (t ! i) \<noteq> 0" "is_raw (t ! i)" for i
      using table_inv_entry [OF z(6) that(1)] that(2,3) by (simp add: entry_ok_def)
    then show ?thesis by (auto simp: raw_pages_nth)
  qed
  moreover have "finite (raw_pages t)"
  proof -
    have "raw_pages t \<subseteq> te_page ` set t" by (auto simp: raw_pages_def)
    then show ?thesis by (rule finite_subset) simp
  qed
  ultimately show ?thesis
    using z card_raw_pages [OF z(6)]
    by (simp add: mem_used_total_def xv_get_total_size_bytes_def owned_def card_Un_disjoint
        push_bit_eq_mult kernel_consts algebra_simps)
qed

end
