(* ===== verification/Zram_Spec.thy ===== *)
theory Zram_Spec
  imports Zram_Correct
begin

text \<open>
  The properties of the block device: requests against the abstract view \<open>contents\<close>, the life
  cycle, the statistics, and the machine's safety.  The sample device of the witnesses has two
  pages, and its memory belongs to a kernel that never runs out of pages.
\<close>

section \<open>A concrete device\<close>

definition endless_source :: page_source where
  "endless_source m = (if finite (used_pages m) then Some (Suc (Max (insert 0 (used_pages m)))) else None)"

definition sample_env :: env where
  "sample_env = \<lparr>alloc_page = endless_source, kmap = (\<lambda>p. int p * 4096), totalram_pages = 1000,
     workmem_ok = True, buffer_ok = True, table_ok = True, pool_ok = True\<rparr>"

definition sample_mem :: kmem where
  "sample_mem = \<lparr>heap_of = (\<lambda>_. \<lparr>bh_size = 0, bh_prev = 0, link_prev = (0, 0), link_next = (0, 0)\<rparr>),
     data_of = (\<lambda>p i. if p = 1 then 42 else 0), used_pages = {1, 2}\<rparr>"

definition sample_idle :: zram where
  "sample_idle = \<lparr>mem_pool = None, compress_workmem = None, compress_buffer = None, table = None,
     init_done = False, disksize = 8192, stats = zero_stats, capacity = 16, queue_nonrot = False\<rparr>"

definition sample_bio :: "bool \<Rightarrow> bool \<Rightarrow> page list \<Rightarrow> bio" where
  "sample_bio d w ps = \<lparr>bi_sector = 0, bi_size = 4096 * length ps, bi_discard = d,
     bi_write = w, bi_io_vec = ps, bi_uptodate = False, bi_end = None\<rparr>"

lemma endless_source_fresh [simp]: "fresh_page_source endless_source"
  unfolding fresh_page_source_def endless_source_def
  by (auto split: if_splits) (metis Max_ge Suc_n_not_le_n finite_insert insertI2)

lemma sample_plenty [simp]: "plenty (alloc_page sample_env) sample_mem"
  by (simp add: plenty_def sample_env_def endless_source_def sample_mem_def)

lemma sample_idle [simp]: "idle sample_idle"
  by (simp add: idle_def sample_idle_def zero_stats_def)

lemma sample_disksize: "disksize sample_idle = 8192" "disksize sample_idle AND PAGE_MASK = disksize sample_idle"
  by (simp_all add: sample_idle_def PAGE_MASK_def)

text \<open>The sample device after its initialisation.\<close>

lemma sample_device:
  obtains z where "zram_init_device sample_env (sample_idle, sample_mem) = Some (0, z, sample_mem)"
    and "zram_inv z sample_mem (\<lambda>_. None)" and "users {1, 2} z sample_mem (\<lambda>_. None)" and "num_pages z = 2"
    and "disksize z = 8192" and "contents z sample_mem = (\<lambda>_. None)" and "owned z (\<lambda>_. None) = {}"
proof -
  have d: "disksize (zram_set_disksize n sample_idle) = 8192" for n
    using sample_disksize by (simp add: zram_set_disksize_def)
  obtain z where z: "zram_init_device sample_env (sample_idle, sample_mem) = Some (0, z, sample_mem)"
    "zram_inv z sample_mem (\<lambda>_. None)" "contents z sample_mem = (\<lambda>_. None)" "owned z (\<lambda>_. None) = {}"
    "disksize z = 8192"
    using zram_init_ok [OF sample_idle, of sample_env sample_mem] d by (auto simp: sample_env_def)
  moreover have "users {1, 2} z sample_mem (\<lambda>_. None)"
    using z(4) by (simp add: users_def user_page_def sample_mem_def)
  moreover have "num_pages z = 2"
    using z(5) by (simp add: num_pages_def kernel_consts)
  ultimately show thesis using that by blast
qed

lemma sample_bio_simps [simp]:
  "bi_discard (sample_bio d w ps) = d" "bi_write (sample_bio d w ps) = w" "bi_io_vec (sample_bio d w ps) = ps"
  "first_index (sample_bio d w ps) = 0" "bi_size (sample_bio d w ps) = 4096 * length ps"
  "bi_sector (sample_bio d w ps) = 0"
  by (simp_all add: sample_bio_def first_index_def)

lemma sample_wf:
  assumes "num_pages z = 2" and "length ps \<le> 2" and "set ps \<subseteq> {1, 2}" and "distinct ps"
  shows "wf_request {1, 2} z (sample_bio d w ps)"
  using assms by (auto simp: wf_request_def in_range_def kernel_consts)

lemma and_4095: "n AND 4095 = n mod (4096 :: nat)"
  using take_bit_eq_mask [of 12 n] by (simp add: take_bit_eq_mod mask_eq_exp_minus_1)

lemma sample_valid: "disksize z = 8192 \<Longrightarrow> valid_io_request z (sample_bio d w ps)"
  by (simp add: valid_io_request_def zram_consts and_4095)

text \<open>The sample device after page 1 of the memory, full of the byte 42, was written to its page 0.\<close>

lemma contents_owned:
  assumes inv: "zram_inv z m L" and c: "contents z m i = Some bs" "bs \<noteq> replicate PAGE_SIZE 0"
  shows "owned z L \<noteq> {}"
proof -
  obtain t where t: "table z = Some t" "table_inv t m L" using inv by (auto elim!: zram_invE)
  with c(1) have i: "i < length t" "content m (t ! i) = Some bs"
    by (auto simp: contents_def entry_def split: if_splits)
  then have p: "te_page (t ! i) \<noteq> 0" using c(2) by (auto simp: content_def split: if_splits)
  note ok = table_inv_entry [OF t(2) i(1)]
  show ?thesis
  proof (cases "is_raw (t ! i)")
    case True
    with p i(1) have "te_page (t ! i) \<in> raw_pages t" by (auto simp: raw_pages_nth)
    with t(1) show ?thesis by (auto simp: owned_def)
  next
    case False
    with ok p have "live m L (te_loc (t ! i)) \<noteq> None" by (auto simp: entry_ok_def)
    then have "L (te_page (t ! i)) \<noteq> None" by (auto simp: live_def split: option.splits)
    then have "te_page (t ! i) \<in> owned z L" by (auto simp: owned_def)
    then show ?thesis by blast
  qed
qed

lemma sample_written:
  obtains z m L where "zram_inv z m L" and "users {1, 2} z m L" and "num_pages z = 2"
    and "contents z m 0 = Some (replicate PAGE_SIZE 42)" and "owned z L \<noteq> {}"
proof -
  obtain z0 where z0: "zram_inv z0 sample_mem (\<lambda>_. None)" "users {1, 2} z0 sample_mem (\<lambda>_. None)" "num_pages z0 = 2"
    by (rule sample_device)
  let ?b = "sample_bio False True [1]"
  have wf: "wf_request {1, 2} z0 ?b" by (rule sample_wf [OF z0(3)]) simp_all
  have nd: "\<not> bi_discard ?b" and src: "fresh_page_source (alloc_page sample_env)" by (simp_all add: sample_env_def)
  obtain ok k z m L where w: "zram_inv z m L" "ok \<longrightarrow> k = length (bi_io_vec ?b)"
    "contents z m = written (first_index ?b) (map (\<lambda>p. mem_read sample_mem p 0 PAGE_SIZE) (take k (bi_io_vec ?b))) ok (contents z0 sample_mem)"
    "users {1, 2} z m L" "disksize z = disksize z0" "plenty (alloc_page sample_env) sample_mem \<longrightarrow> ok"
    using write_request_ok [OF z0(1,2) wf nd src] by blast
  then have "k = 1" by simp
  moreover have "mem_read sample_mem 1 0 PAGE_SIZE = replicate PAGE_SIZE 42"
    by (intro nth_equalityI) (simp_all add: mem_read_def sample_mem_def)
  ultimately have c: "contents z m 0 = Some (replicate PAGE_SIZE 42)" using w(3) by (simp add: written_def)
  moreover have "num_pages z = 2" using w(5) z0(3) by (simp add: num_pages_def)
  moreover have "replicate PAGE_SIZE (42 :: byte) \<noteq> replicate PAGE_SIZE 0" by (simp add: PAGE_SIZE_def replicate_eq_replicate)
  ultimately show thesis using that [OF w(1,4)] contents_owned [OF w(1) c] by blast
qed

section \<open>Safety\<close>

text \<open>
  C13: Exactly one request is undefined.  Start from an uninitialised device and take any sequence of
  requests inside the device, slot-free notifications, resets and disk-size changes, with any
  outcome of the kernel's allocations.  In the state reached, the invariant holds.  A
  further request inside the device is undefined if it is the write that initialises the device and the work memory or the
  buffer cannot be allocated (C19).  Every other request is handled: the driver stays inside its page table,
  buffers and objects, no \<open>BUG_ON\<close> is hit, and the invariant holds again.
\<close>

theorem zram_requests_defined:
  assumes "zram_reach U (z0, m0) (z, m)"
    and "idle z0" and "table z0 = None" and "disksize z0 AND PAGE_MASK = disksize z0" and "U \<subseteq> used_pages m0"
    and "wf_request U z b" and "fresh_page_source (alloc_page env)"
  shows "machine_inv U (z, m)
    \<and> (if first_write_fails env z b then zram_make_request env b (z, m) = None
       else \<exists>b' s'. zram_make_request env b (z, m) = Some (0, b', s') \<and> machine_inv U s')"
proof -
  have "machine_inv U (z0, m0)" using assms(2-5) by (simp add: machine_inv_def)
  from zram_reach_inv [OF assms(1) this] have "machine_inv U (z, m)" .
  with make_request_ok [OF this assms(6,7)] make_request_undefined [OF this] show ?thesis
    by (cases "first_write_fails env z b") auto
qed

text \<open>The first write: it is handled, and it is not when the buffer cannot be allocated.\<close>

theorem zram_requests_defined_witness:
  "\<exists>z m b' s'. zram_reach {1, 2} (sample_idle, sample_mem) (z, m)
     \<and> zram_make_request sample_env (sample_bio False True [1]) (z, m) = Some (0, b', s') \<and> machine_inv {1, 2} s'
     \<and> zram_make_request (sample_env\<lparr>buffer_ok := False\<rparr>) (sample_bio False True [1]) (z, m) = None"
proof -
  let ?env = "sample_env\<lparr>buffer_ok := False\<rparr>"
  have r: "zram_reach {1, 2} (sample_idle, sample_mem) (sample_idle, sample_mem)" by (rule zram_reach.start)
  have "num_pages sample_idle = 2" by (simp add: num_pages_def sample_idle_def kernel_consts)
  then have wf: "wf_request {1, 2} sample_idle (sample_bio False True [1])" by (rule sample_wf) simp_all
  have u: "{1, 2} \<subseteq> used_pages sample_mem" and t: "table sample_idle = None" and d: "\<not> init_done sample_idle"
    by (simp_all add: sample_mem_def sample_idle_def)
  have s: "fresh_page_source (alloc_page sample_env)" "fresh_page_source (alloc_page ?env)" by (simp_all add: sample_env_def)
  have nf: "\<not> first_write_fails sample_env sample_idle (sample_bio False True [1])"
    by (simp add: first_write_fails_def sample_env_def)
  have ff: "first_write_fails ?env sample_idle (sample_bio False True [1])"
    using sample_valid [OF sample_disksize(1)] d by (simp add: first_write_fails_def)
  from zram_requests_defined [OF r sample_idle t sample_disksize(2) u wf s(1)] nf obtain b' s' where
    "zram_make_request sample_env (sample_bio False True [1]) (sample_idle, sample_mem) = Some (0, b', s')" "machine_inv {1, 2} s'"
    by (auto simp del: One_nat_def)
  moreover have "zram_make_request ?env (sample_bio False True [1]) (sample_idle, sample_mem) = None"
    using zram_requests_defined [OF r sample_idle t sample_disksize(2) u wf s(2)] ff by simp
  ultimately show ?thesis using r by blast
qed

section \<open>Reading and writing\<close>

text \<open>
  C14: What was written is read back.  Two requests for the same sectors, a write and then a
  read, on an initialised device, with a kernel that does not run out of pages: both succeed,
  and the pages of the read request hold what the pages of the write request held, whatever
  the data is (zeros, compressible or not).
\<close>

theorem zram_write_then_read:
  assumes inv: "zram_inv z m L" and U: "users U z m L"
    and w: "wf_request U z w" "\<not> bi_discard w" "bi_write w" "valid_io_request z w"
    and r: "wf_request U z r" "\<not> bi_discard r" "\<not> bi_write r" "bi_sector r = bi_sector w"
      "bi_size r = bi_size w" "length (bi_io_vec r) = length (bi_io_vec w)"
    and src: "fresh_page_source (alloc_page env)" "plenty (alloc_page env) m"
  shows "\<exists>z1 m1 z2 m2.
    zram_make_request env w (z, m) = Some (0, end_request True w, z1, m1)
    \<and> zram_make_request env r (z1, m1) = Some (0, end_request True r, z2, m2)
    \<and> map (\<lambda>p. mem_read m2 p 0 PAGE_SIZE) (bi_io_vec r) = map (\<lambda>p. mem_read m p 0 PAGE_SIZE) (bi_io_vec w)"
proof -
  obtain k z1 m1 L1 where ww: "zram_write env w (z, m) = Some (0, end_request True w, z1, m1)"
    "zram_inv z1 m1 L1" "k = length (bi_io_vec w)" "users U z1 m1 L1" "disksize z1 = disksize z"
    "contents z1 m1 =
       written (first_index w) (map (\<lambda>p. mem_read m p 0 PAGE_SIZE) (take k (bi_io_vec w))) True (contents z m)"
    using write_request_ok [OF inv U w(1,2) src(1)] src(2) by metis
  have np: "num_pages z1 = num_pages z" using ww(5) by (simp add: num_pages_def)
  have wf1: "wf_request U z1 r" using r(1) wf_request_cong [OF np] by simp
  obtain z2 m2 where rr: "zram_read r (z1, m1) = Some (0, end_request True r, z2, m2)"
    "\<forall>k<length (bi_io_vec r). mem_read m2 (bi_io_vec r ! k) 0 PAGE_SIZE =
       (case contents z1 m1 (first_index r + k) of
          None \<Rightarrow> mem_read m1 (bi_io_vec r ! k) 0 PAGE_SIZE | Some bs \<Rightarrow> bs)"
    using read_request_ok [OF ww(2,4) wf1 r(2)] by blast
  have fi: "first_index r = first_index w" by (simp add: first_index_def r(4))
  have "zram_make_request env w (z, m) = Some (0, end_request True w, z1, m1)"
    using ww(1) w by (simp add: zram_make_request_def)
  moreover have "valid_io_request z1 r" using w(4) r(4,5) ww(5) by (simp add: valid_io_request_def)
  then have "zram_make_request env r (z1, m1) = Some (0, end_request True r, z2, m2)"
    using rr(1) r by (simp add: zram_make_request_def)
  moreover have "map (\<lambda>p. mem_read m2 p 0 PAGE_SIZE) (bi_io_vec r) = map (\<lambda>p. mem_read m p 0 PAGE_SIZE) (bi_io_vec w)"
    using rr(2) r(6) fi by (intro nth_equalityI) (simp_all add: ww(3,6) written_def)
  ultimately show ?thesis by blast
qed

text \<open>Page 1, full of the byte 42, is written and read back into page 2.\<close>

theorem zram_write_then_read_witness:
  "\<exists>z z1 m1 z2 m2. zram_init_device sample_env (sample_idle, sample_mem) = Some (0, z, sample_mem)
    \<and> zram_make_request sample_env (sample_bio False True [1]) (z, sample_mem)
        = Some (0, end_request True (sample_bio False True [1]), z1, m1)
    \<and> zram_make_request sample_env (sample_bio False False [2]) (z1, m1)
        = Some (0, end_request True (sample_bio False False [2]), z2, m2)
    \<and> mem_read m2 2 0 PAGE_SIZE = replicate PAGE_SIZE 42"
proof -
  obtain z where z: "zram_init_device sample_env (sample_idle, sample_mem) = Some (0, z, sample_mem)"
    "zram_inv z sample_mem (\<lambda>_. None)" "users {1, 2} z sample_mem (\<lambda>_. None)" "num_pages z = 2" "disksize z = 8192"
    by (rule sample_device)
  have page: "mem_read sample_mem 1 0 PAGE_SIZE = replicate PAGE_SIZE 42"
    by (intro nth_equalityI) (simp_all add: mem_read_def sample_mem_def)
  have "fresh_page_source (alloc_page sample_env)" by (simp add: sample_env_def)
  from zram_write_then_read [OF z(2,3) sample_wf [OF z(4), of "[1]" False True] _ _ sample_valid [OF z(5)]
      sample_wf [OF z(4), of "[2]" False False] _ _ _ _ _ this sample_plenty] z(1) page
  show ?thesis by fastforce
qed

text \<open>
  C15: What a write request does.  It reports success or failure; the pages before the first
  failure have the data of their segments, the page at the failure is empty (its old data is
  lost), every other page of the device keeps its data, and no page of the kernel's other users
  changes.  With a kernel that does not run out of pages it succeeds.
\<close>

theorem zram_write_effect:
  assumes "zram_inv z m L" and "users U z m L" and "wf_request U z b" and "\<not> bi_discard b"
    and "fresh_page_source (alloc_page env)"
  shows "\<exists>ok k z' m' L'. zram_write env b (z, m) = Some (0, end_request ok b, z', m') \<and> zram_inv z' m' L'
    \<and> (if ok then k = length (bi_io_vec b) else k < length (bi_io_vec b))
    \<and> (\<forall>j. contents z' m' j =
         (if first_index b \<le> j \<and> j < first_index b + k
          then Some (mem_read m (bi_io_vec b ! (j - first_index b)) 0 PAGE_SIZE)
          else if \<not> ok \<and> j = first_index b + k then None else contents z m j))
    \<and> (\<forall>p\<in>U. data_of m' p = data_of m p) \<and> (plenty (alloc_page env) m \<longrightarrow> ok)"
proof -
  obtain ok k z' m' L' where w: "zram_write env b (z, m) = Some (0, end_request ok b, z', m')" "zram_inv z' m' L'"
    "k \<le> length (bi_io_vec b)" "ok \<longrightarrow> k = length (bi_io_vec b)" "\<not> ok \<longrightarrow> k < length (bi_io_vec b)"
    "contents z' m' =
       written (first_index b) (map (\<lambda>p. mem_read m p 0 PAGE_SIZE) (take k (bi_io_vec b))) ok (contents z m)"
    "\<forall>p\<in>U. data_of m' p = data_of m p" "plenty (alloc_page env) m \<longrightarrow> ok"
    using write_request_ok [OF assms] by blast
  have "\<forall>j. contents z' m' j =
         (if first_index b \<le> j \<and> j < first_index b + k
          then Some (mem_read m (bi_io_vec b ! (j - first_index b)) 0 PAGE_SIZE)
          else if \<not> ok \<and> j = first_index b + k then None else contents z m j)"
    using w(3) by (auto simp: w(6) written_def)
  with w show ?thesis
    by (intro exI [of _ ok] exI [of _ k] exI [of _ z'] exI [of _ m'] exI [of _ L']) simp
qed

theorem zram_write_effect_witness:
  "\<exists>z z' m' L'. zram_write sample_env (sample_bio False True [1]) (z, sample_mem)
        = Some (0, end_request True (sample_bio False True [1]), z', m') \<and> zram_inv z' m' L'
      \<and> contents z' m' 0 = Some (mem_read sample_mem 1 0 PAGE_SIZE) \<and> contents z' m' 1 = None"
proof -
  obtain z where z: "zram_inv z sample_mem (\<lambda>_. None)" "users {1, 2} z sample_mem (\<lambda>_. None)" "num_pages z = 2"
    "contents z sample_mem = (\<lambda>_. None)"
    by (rule sample_device)
  have src: "fresh_page_source (alloc_page sample_env)" by (simp add: sample_env_def)
  let ?b = "sample_bio False True [1]"
  have wf: "wf_request {1, 2} z ?b" by (rule sample_wf [OF z(3)]) simp_all
  have nd: "\<not> bi_discard ?b" by simp
  obtain ok k z' m' L' where w: "zram_write sample_env ?b (z, sample_mem) = Some (0, end_request ok ?b, z', m')"
    "zram_inv z' m' L'" "if ok then k = length (bi_io_vec ?b) else k < length (bi_io_vec ?b)"
    "\<forall>j. contents z' m' j =
         (if first_index ?b \<le> j \<and> j < first_index ?b + k
          then Some (mem_read sample_mem (bi_io_vec ?b ! (j - first_index ?b)) 0 PAGE_SIZE)
          else if \<not> ok \<and> j = first_index ?b + k then None else contents z sample_mem j)"
    "plenty (alloc_page sample_env) sample_mem \<longrightarrow> ok"
    using zram_write_effect [OF z(1,2) wf nd src] by blast
  from w(5) have ok: "ok = True" by simp
  with w(3) have k: "k = 1" by simp
  have "contents z' m' 0 = Some (mem_read sample_mem 1 0 PAGE_SIZE)" "contents z' m' 1 = None"
    using w(4) k ok z(4) by auto
  with w(1,2) show ?thesis unfolding ok by blast
qed

text \<open>
  C16: What a read request does.  On an initialised device it always succeeds; each page of the
  request gets the data of its device page, and is left as it was where the device page was
  never written; the device's contents and all other memory are unchanged.
\<close>

theorem zram_read_effect:
  assumes "zram_inv z m L" and "users U z m L" and "wf_request U z b" and "\<not> bi_discard b"
  shows "\<exists>z' m'. zram_read b (z, m) = Some (0, end_request True b, z', m') \<and> zram_inv z' m' L
    \<and> contents z' m' = contents z m
    \<and> (\<forall>k<length (bi_io_vec b). mem_read m' (bi_io_vec b ! k) 0 PAGE_SIZE =
         (case contents z m (first_index b + k) of
            None \<Rightarrow> mem_read m (bi_io_vec b ! k) 0 PAGE_SIZE | Some bs \<Rightarrow> bs))
    \<and> (\<forall>q. q \<notin> set (bi_io_vec b) \<longrightarrow> data_of m' q = data_of m q)"
  using read_request_ok [OF assms] by blast

text \<open>Reading back what was written on the sample device.\<close>

theorem zram_read_effect_witness:
  "\<exists>z m z' m'. zram_read (sample_bio False False [2]) (z, m) = Some (0, end_request True (sample_bio False False [2]), z', m')
      \<and> mem_read m' 2 0 PAGE_SIZE = replicate PAGE_SIZE 42"
proof -
  obtain z m L where z: "zram_inv z m L" "users {1, 2} z m L" "num_pages z = 2" "contents z m 0 = Some (replicate PAGE_SIZE 42)"
    by (rule sample_written)
  from zram_read_effect [OF z(1,2) sample_wf [OF z(3), of "[2]" False False]] z(4) show ?thesis by fastforce
qed

text \<open>
  C17: Discarding and the slot-free notification.  A discard request empties exactly the pages
  of its range, a notification exactly its page; all other pages keep their data, no data byte
  in memory changes, and the invariant is kept, so every page and object they no longer need is
  back with the kernel or the allocator.
\<close>

theorem zram_discard_effect:
  assumes "zram_inv z m L" and "users U z m L" and "wf_request U z b" and "bi_discard b" and "i < num_pages z"
  shows "(\<exists>z' m' L'. zram_discard b (z, m) = Some (bio_endio 0 b, z', m') \<and> zram_inv z' m' L'
      \<and> contents z' m' = (\<lambda>j. if first_index b \<le> j \<and> j < first_index b + bi_size b div PAGE_SIZE
                                 then None else contents z m j)
      \<and> data_of m' = data_of m)
    \<and> (\<exists>z' m' L'. zram_slot_free_notify i (z, m) = Some (z', m') \<and> zram_inv z' m' L'
      \<and> contents z' m' = (contents z m)(i := None) \<and> data_of m' = data_of m)"
proof
  have "discarded i n c = (\<lambda>j. if i \<le> j \<and> j < i + n then None else c j)" for i n and c :: "nat \<Rightarrow> bytes option"
    by (simp add: fun_eq_iff discarded_def)
  with discard_request_ok [OF assms(1-4)]
  show "\<exists>z' m' L'. zram_discard b (z, m) = Some (bio_endio 0 b, z', m') \<and> zram_inv z' m' L'
      \<and> contents z' m' = (\<lambda>j. if first_index b \<le> j \<and> j < first_index b + bi_size b div PAGE_SIZE
                                 then None else contents z m j)
      \<and> data_of m' = data_of m" by (simp only:) blast
  obtain z1 m' L' where f: "zram_free_page i (z, m) = Some (z1, m')" "page_step i None z m L z1 m' L'"
    "data_of m' = data_of m"
    using zram_free_page_ok [OF assms(1,5)] by blast
  let ?z = "upd_stats (notify_free_update zram_stat64_inc) z1"
  have "zram_slot_free_notify i (z, m) = Some (?z, m')" using f(1) by (simp add: zram_slot_free_notify_def)
  moreover have "zram_inv ?z m' L'" "contents ?z m' = (contents z m)(i := None)"
    using f(2) by (simp_all add: page_step_def zram_inv_io_stats)
  ultimately show "\<exists>z' m' L'. zram_slot_free_notify i (z, m) = Some (z', m') \<and> zram_inv z' m' L'
      \<and> contents z' m' = (contents z m)(i := None) \<and> data_of m' = data_of m"
    using f(3) by blast
qed

theorem zram_discard_effect_witness:
  "\<exists>z m z' m'. contents z m 0 \<noteq> None \<and> zram_discard (sample_bio True False [1, 2]) (z, m)
        = Some (bio_endio 0 (sample_bio True False [1, 2]), z', m') \<and> contents z' m' 0 = None"
proof -
  obtain z m L where z: "zram_inv z m L" "users {1, 2} z m L" "num_pages z = 2" "contents z m 0 = Some (replicate PAGE_SIZE 42)"
    by (rule sample_written)
  have d: "wf_request {1, 2} z (sample_bio True False [1, 2])" by (rule sample_wf [OF z(3)]) simp_all
  have i: "bi_discard (sample_bio True False [1, 2])" "0 < num_pages z" using z(3) by simp_all
  obtain z' m' where "zram_discard (sample_bio True False [1, 2]) (z, m) = Some (bio_endio 0 (sample_bio True False [1, 2]), z', m')"
    "contents z' m' = (\<lambda>j. if first_index (sample_bio True False [1, 2]) \<le> j
        \<and> j < first_index (sample_bio True False [1, 2]) + bi_size (sample_bio True False [1, 2]) div PAGE_SIZE
      then None else contents z m j)"
    using zram_discard_effect [OF z(1,2) d i] by blast
  then have "zram_discard (sample_bio True False [1, 2]) (z, m) = Some (bio_endio 0 (sample_bio True False [1, 2]), z', m')"
    "contents z' m' 0 = None" by (simp_all add: PAGE_SIZE_def)
  with z(4) show ?thesis by blast
qed

section \<open>The life cycle\<close>

text \<open>
  C18: Initialisation.  On an idle device, when every allocation succeeds, \<open>zram_init_device\<close>
  returns 0 and establishes the invariant with an empty view and no pages owned; when the
  table or the pool cannot be allocated it returns \<open>-ENOMEM\<close>, the device is idle again with disk
  size 0, and nothing in memory has changed.
\<close>

theorem zram_init_effect:
  assumes "idle z" and "workmem_ok env" and "buffer_ok env"
  shows "if table_ok env \<and> pool_ok env
    then \<exists>z'. zram_init_device env (z, m) = Some (0, z', m) \<and> zram_inv z' m (\<lambda>_. None)
           \<and> contents z' m = (\<lambda>_. None) \<and> owned z' (\<lambda>_. None) = {}
    else \<exists>z'. zram_init_device env (z, m) = Some (- ENOMEM, z', m) \<and> idle z' \<and> disksize z' = 0"
  using zram_init_ok [OF assms, of m] zram_init_fails [OF assms, of m] by auto

theorem zram_init_effect_witness:
  "(\<exists>z'. zram_init_device sample_env (sample_idle, sample_mem) = Some (0, z', sample_mem))
   \<and> (\<exists>z'. zram_init_device (sample_env\<lparr>pool_ok := False\<rparr>) (sample_idle, sample_mem) = Some (- ENOMEM, z', sample_mem))"
proof
  have "workmem_ok sample_env" "buffer_ok sample_env" by (simp_all add: sample_env_def)
  from zram_init_effect [OF sample_idle this, of sample_mem]
  show "\<exists>z'. zram_init_device sample_env (sample_idle, sample_mem) = Some (0, z', sample_mem)"
    by (auto simp: sample_env_def)
  have "workmem_ok (sample_env\<lparr>pool_ok := False\<rparr>)" "buffer_ok (sample_env\<lparr>pool_ok := False\<rparr>)"
    by (simp_all add: sample_env_def)
  from zram_init_effect [OF sample_idle this, of sample_mem]
  show "\<exists>z'. zram_init_device (sample_env\<lparr>pool_ok := False\<rparr>) (sample_idle, sample_mem)
      = Some (- ENOMEM, z', sample_mem)" by auto
qed

text \<open>
  C19: A failed allocation of the work memory or of the compression buffer is not survived:
  the path \<open>fail\<close> resets the device, and the reset walks a page table that does not exist yet.
\<close>

theorem zram_init_fail_null_table:
  assumes "idle z" and "table z = None" and "\<not> workmem_ok env \<or> \<not> buffer_ok env"
    and "0 < num_pages (zram_set_disksize (push_bit PAGE_SHIFT (totalram_pages env)) z)"
  shows "zram_init_device env (z, m) = None"
  by (rule zram_init_null_table) (use assms in auto)

theorem zram_init_fail_null_table_witness:
  "zram_init_device (sample_env\<lparr>buffer_ok := False\<rparr>) (sample_idle, sample_mem) = None"
proof -
  have "table sample_idle = None" by (simp add: sample_idle_def)
  moreover have "\<not> workmem_ok (sample_env\<lparr>buffer_ok := False\<rparr>) \<or> \<not> buffer_ok (sample_env\<lparr>buffer_ok := False\<rparr>)"
    by simp
  moreover have "0 < num_pages (zram_set_disksize (push_bit PAGE_SHIFT (totalram_pages
      (sample_env\<lparr>buffer_ok := False\<rparr>))) sample_idle)"
    by (simp add: num_pages_def zram_set_disksize_def sample_idle_def PAGE_MASK_def kernel_consts)
  ultimately show ?thesis by (rule zram_init_fail_null_table [OF sample_idle])
qed

text \<open>
  C20: A reset gives everything back.  \<open>zram_reset_device\<close> on an initialised device succeeds,
  the pages in use are exactly those in use before less the pages the device owned, no data byte
  changes, and the device is idle with disk size 0, without table and pool.
\<close>

theorem zram_reset_effect:
  assumes "zram_inv z m L"
  shows "\<exists>z' m'. zram_reset_device (z, m) = Some (z', m') \<and> idle z' \<and> disksize z' = 0
    \<and> table z' = None \<and> mem_pool z' = None \<and> used_pages m' = used_pages m - owned z L \<and> data_of m' = data_of m"
  using zram_reset_ok [OF assms] .

text \<open>The device that holds a page of data gives back what it owns.\<close>

theorem zram_reset_effect_witness:
  "\<exists>z m L z' m'. contents z m 0 = Some (replicate PAGE_SIZE 42) \<and> owned z L \<noteq> {}
     \<and> zram_reset_device (z, m) = Some (z', m') \<and> idle z' \<and> used_pages m' = used_pages m - owned z L"
proof -
  obtain z m L where z: "zram_inv z m L" "contents z m 0 = Some (replicate PAGE_SIZE 42)" "owned z L \<noteq> {}"
    by (rule sample_written)
  from zram_reset_effect [OF z(1)] z(2,3) show ?thesis by blast
qed

section \<open>Statistics\<close>

text \<open>
  C21: The statistics are exact (modulo their width).  \<open>pages_stored\<close>, \<open>pages_zero\<close> and
  \<open>pages_expand\<close> count the table's entries with storage, of zeros and stored uncompressed, and
  \<open>compr_size\<close> is the sum of the sizes of the stored pages.  For a device of fewer than
  \<open>2^32\<close> pages, \<open>mem_used_total\<close> is the page size times the number of pages the device owns.
\<close>

theorem zram_statistics:
  assumes "zram_inv z m L" and "num_pages z < 4294967296"
  shows "\<exists>t. table z = Some t
    \<and> unat (pages_stored (stats z)) = length (filter (\<lambda>e. te_page e \<noteq> 0) t)
    \<and> unat (pages_zero (stats z)) = length (filter is_zero t)
    \<and> unat (pages_expand (stats z)) = length (filter (\<lambda>e. te_page e \<noteq> 0 \<and> is_raw e) t)
    \<and> compr_size (stats z) = of_nat (sum_list (map (stored_len m L) t))
    \<and> mem_used_total z = Some (of_nat (PAGE_SIZE * card (owned z L)))"
proof -
  obtain t where t: "table z = Some t" "length t = num_pages z" "stats_inv (stats z) t m L"
    using assms(1) by (auto elim!: zram_invE)
  have small: "unat (of_nat (length (filter P t)) :: u32) = length (filter P t)" for P
    using length_filter_le [of P t] t(2) assms(2) by (simp add: unat_of_nat)
  from t(3) have "pages_stored (stats z) = of_nat (length (filter (\<lambda>e. te_page e \<noteq> 0) t))"
    "pages_zero (stats z) = of_nat (length (filter is_zero t))"
    "pages_expand (stats z) = of_nat (length (filter (\<lambda>e. te_page e \<noteq> 0 \<and> is_raw e) t))"
    "compr_size (stats z) = of_nat (sum_list (map (stored_len m L) t))"
    by (simp_all only: stats_inv_def sum_list_one_if sum_list_of_nat)
  with t(1) small mem_used_total_ok [OF assms] show ?thesis by simp
qed

theorem zram_statistics_witness:
  "\<exists>z. zram_init_device sample_env (sample_idle, sample_mem) = Some (0, z, sample_mem)
     \<and> mem_used_total z = Some 0 \<and> compr_size (stats z) = 0"
proof -
  obtain z where z: "zram_init_device sample_env (sample_idle, sample_mem) = Some (0, z, sample_mem)"
    "zram_inv z sample_mem (\<lambda>_. None)" "owned z (\<lambda>_. None) = {}" "num_pages z = 2"
    by (rule sample_device)
  have "num_pages z < 4294967296" using z(4) by simp
  from zram_statistics [OF z(2) this] obtain t where
    "compr_size (stats z) = of_nat (sum_list (map (stored_len sample_mem (\<lambda>_. None)) t))"
    "mem_used_total z = Some (of_nat (PAGE_SIZE * card (owned z (\<lambda>_. None))))" 
    "table z = Some t" by blast
  moreover have "te_page e = 0" if "e \<in> set t" for e
  proof -
    have "table_inv t sample_mem (\<lambda>_. None)" using z(2) \<open>table z = Some t\<close> by (auto simp: zram_inv_def)
    with that have "entry_ok sample_mem (\<lambda>_. None) e" by (auto simp: table_inv_def in_set_conv_nth)
    moreover have "te_page e = 0 \<or> \<not> is_raw e"
      using that z(3) \<open>table z = Some t\<close> by (auto simp: owned_def raw_pages_def)
    ultimately show ?thesis by (cases "te_page e = 0") (simp_all add: entry_ok_def live_def)
  qed
  ultimately have "compr_size (stats z) = 0" "mem_used_total z = Some 0"
    using z(3) by (simp_all add: stored_len_def cong: map_cong)
  with z(1) show ?thesis by blast
qed

section \<open>Boundaries\<close>

text \<open>A loop over the segments fails at the last one.\<close>

lemma for_each_segment_snoc:
  "for_each_segment f xs i s = Some (True, s') \<Longrightarrow> i + length xs < 4294967296 \<Longrightarrow>
     f x (i + length xs) s' = None \<Longrightarrow> for_each_segment f (xs @ [x]) i s = None"
proof (induction xs arbitrary: i s)
  case Nil
  then show ?case by simp
next
  case (Cons y ys)
  then obtain s1 where s1: "f y i s = Some (True, s1)" "for_each_segment f ys (next_index i) s1 = Some (True, s')"
    by (auto split: bind_splits if_splits)
  have n: "next_index i = Suc i" using Cons.prems(2) by (simp add: next_index_def)
  from Cons.IH [OF s1(2)] Cons.prems n have "for_each_segment f (ys @ [x]) (next_index i) s1 = None" by simp
  with s1(1) show ?case by simp
qed

text \<open>
  C22: A request that starts inside the device but ends behind it is accepted.
  \<open>valid_io_request\<close> looks at the first sector only; the read of one page more than the device
  has reaches beyond the page table.
\<close>

theorem zram_read_past_end:
  assumes inv: "zram_inv z m L" and U: "users U z m L" and np: "0 < num_pages z" "num_pages z \<le> 4294967295"
    and b: "\<not> bi_discard b" "\<not> bi_write b" "bi_sector b = 0" "bi_size b = PAGE_SIZE * length (bi_io_vec b)"
    and ps: "bi_io_vec b = ps @ [p]" "length ps = num_pages z" "set ps \<subseteq> U" "distinct ps"
  shows "valid_io_request z b \<and> zram_make_request env b (z, m) = None"
proof
  have fi: "first_index b = 0" by (simp add: first_index_def b(3))
  have d: "drop_bit SECTOR_SHIFT (disksize z) \<noteq> 0"
  proof
    assume "drop_bit SECTOR_SHIFT (disksize z) = 0"
    then have "drop_bit 3 (drop_bit 9 (disksize z)) = 0" by (simp add: SECTOR_SHIFT_def)
    then have "drop_bit PAGE_SHIFT (disksize z) = 0" by (simp add: PAGE_SHIFT_def)
    with np(1) show False by (simp add: num_pages_def)
  qed
  then show v: "valid_io_request z b"
    using b(3,4) by (simp add: valid_io_request_def kernel_consts and_4095)
  let ?z = "upd_stats (num_reads_update zram_stat64_inc) z"
  have inv': "zram_inv ?z m L" using inv by (simp add: zram_inv_io_stats)
  have rng: "ps \<noteq> [] \<Longrightarrow> in_range ?z 0 (length ps)" using ps(2) np(2) by (simp add: in_range_def)
  have up: "\<forall>q\<in>set ps. user_page ?z m L q" using ps(3) U by (auto simp: users_def)
  obtain m' where r: "for_each_segment zram_read_page ps 0 (?z, m) = Some (True, ?z, m')"
    using read_loop_ok [OF inv' rng up ps(4)] by blast
  have "entry ?z (num_pages z) = None"
    using inv by (auto simp: zram_inv_def entry_def upd_stats_def)
  then have "zram_read_page p (num_pages z) (?z, m') = None" by (simp add: zram_read_page_def)
  then have "for_each_segment zram_read_page (ps @ [p]) 0 (?z, m) = None"
    using r ps(2) np(2) by (intro for_each_segment_snoc [OF r]) simp_all
  then show "zram_make_request env b (z, m) = None"
    using v b(1,2) inv fi ps(1) by (simp add: zram_make_request_def zram_read_def zram_inv_def)
qed

text \<open>Reading three pages from the sample device, which has two.\<close>

theorem zram_read_past_end_witness:
  "\<exists>z. zram_init_device sample_env (sample_idle, sample_mem) = Some (0, z, sample_mem)
     \<and> valid_io_request z (sample_bio False False [1, 2, 3])
     \<and> zram_make_request sample_env (sample_bio False False [1, 2, 3]) (z, sample_mem) = None"
proof -
  obtain z where z: "zram_init_device sample_env (sample_idle, sample_mem) = Some (0, z, sample_mem)"
    "zram_inv z sample_mem (\<lambda>_. None)" "users {1, 2} z sample_mem (\<lambda>_. None)" "num_pages z = 2"
    by (rule sample_device)
  have "valid_io_request z (sample_bio False False [1, 2, 3])
      \<and> zram_make_request sample_env (sample_bio False False [1, 2, 3]) (z, sample_mem) = None"
    by (rule zram_read_past_end [OF z(2,3), where ps = "[1, 2]" and p = 3]) (simp_all add: z(4) PAGE_SIZE_def)
  with z(1) show ?thesis by blast
qed

text \<open>
  The test for a page of zeros, which looks at 512 machine words, is exact: it holds for
  the page of zero bytes and for no other page.
\<close>

theorem page_zero_filled_exact:
  "page_zero_filled (mem_read m p 0 PAGE_SIZE) \<longleftrightarrow> (\<forall>i<PAGE_SIZE. data_of m p i = 0)"
proof -
  have "mem_read m p 0 PAGE_SIZE = replicate PAGE_SIZE 0 \<longleftrightarrow> (\<forall>i<PAGE_SIZE. data_of m p i = 0)"
    by (auto simp: list_eq_iff_nth_eq mem_read_def)
  then show ?thesis by (simp add: page_zero_filled_iff)
qed

theorem page_zero_filled_exact_witness:
  "page_zero_filled (mem_read sample_mem 2 0 PAGE_SIZE) \<and> \<not> page_zero_filled (mem_read sample_mem 1 0 PAGE_SIZE)"
proof
  show "page_zero_filled (mem_read sample_mem 2 0 PAGE_SIZE)"
    using page_zero_filled_exact [of sample_mem 2] by (simp add: sample_mem_def)
  have "data_of sample_mem 1 0 \<noteq> 0" "0 < PAGE_SIZE" by (simp_all add: sample_mem_def PAGE_SIZE_def)
  then show "\<not> page_zero_filled (mem_read sample_mem 1 0 PAGE_SIZE)"
    using page_zero_filled_exact [of sample_mem 1] by blast
qed

end
