(* ===== verification/Zram_Module.thy ===== *)
theory Zram_Module
  imports Zram_Lifecycle Zram_Sysfs
begin

text \<open>
  Loading and unloading the driver (zram\_drv.c: \<open>create_device\<close>, \<open>destroy_device\<close>,
  \<open>zram_init\<close>, \<open>zram_exit\<close>).  What the kernel holds for the driver is explicit, by device
  number: request queues, disks, disks that are registered, sysfs groups and the block device
  number.  Which allocations succeed is in the record \<open>load_env\<close>.
\<close>

section \<open>State\<close>

record request_queue =
  queuedata :: nat
  physical_block_size :: nat
  logical_block_size :: nat
  io_min :: nat
  io_opt :: nat
  discard_granularity :: nat
  max_discard_sectors :: nat
  queue_discard :: bool

record gendisk =
  disk_major :: int
  first_minor :: nat
  disk_name :: string

record device =
  dev_zram :: zram
  dev_queue :: "request_queue option"
  dev_disk :: "gendisk option"

record kernel =
  live_queues :: "nat set"
  live_disks :: "nat set"
  added_disks :: "nat set"
  sysfs_groups :: "nat set"
  blkdev :: bool

record load_env =
  queue_ok :: "nat \<Rightarrow> bool"
  disk_ok :: "nat \<Rightarrow> bool"
  sysfs_ret :: "nat \<Rightarrow> int"
  register_ret :: int
  devices_ok :: bool

definition max_num_devices :: nat where "max_num_devices = 32"

definition no_resources :: kernel where
  "no_resources = \<lparr>live_queues = {}, live_disks = {}, added_disks = {}, sysfs_groups = {}, blkdev = False\<rparr>"

definition zeroed_zram :: zram where
  "zeroed_zram = \<lparr>mem_pool = None, compress_workmem = None, compress_buffer = None, table = None,
     init_done = False, disksize = 0, stats = zero_stats, capacity = 0, queue_nonrot = False\<rparr>"

definition zeroed_device :: device where
  "zeroed_device = \<lparr>dev_zram = zeroed_zram, dev_queue = None, dev_disk = None\<rparr>"

section \<open>Creating and destroying one device\<close>

definition create_device ::
  "load_env \<Rightarrow> int \<Rightarrow> nat \<Rightarrow> device \<times> kernel \<Rightarrow> int \<times> device \<times> kernel" where
  "create_device env zram_major device_id = (\<lambda>(d, k).
     if \<not> queue_ok env device_id then (- ENOMEM, d\<lparr>dev_queue := None\<rparr>, k)
     else
       let q = \<lparr>queuedata = device_id, physical_block_size = 512, logical_block_size = 512,
                io_min = 512, io_opt = 0, discard_granularity = 0, max_discard_sectors = 0,
                queue_discard = False\<rparr>;
           d = d\<lparr>dev_queue := Some q\<rparr>;
           k = k\<lparr>live_queues := insert device_id (live_queues k)\<rparr>
       in if \<not> disk_ok env device_id
          then (- ENOMEM, d\<lparr>dev_disk := None\<rparr>, k\<lparr>live_queues := live_queues k - {device_id}\<rparr>)
          else
            let disk = \<lparr>disk_major = zram_major, first_minor = device_id,
                        disk_name = take 15 (''zram'' @ decimal device_id)\<rparr>;
                z = (dev_zram d)\<lparr>capacity := 0\<rparr>;
                q = q\<lparr>physical_block_size := PAGE_SIZE, logical_block_size := PAGE_SIZE,
                      io_min := PAGE_SIZE, io_opt := PAGE_SIZE, discard_granularity := PAGE_SIZE,
                      max_discard_sectors := 4294967295, queue_discard := True\<rparr>;
                d = d\<lparr>dev_disk := Some disk, dev_queue := Some q, dev_zram := z\<rparr>;
                k = k\<lparr>live_disks := insert device_id (live_disks k),
                      added_disks := insert device_id (added_disks k)\<rparr>;
                ret = sysfs_ret env device_id
            in if ret < 0 then (ret, d, k)
               else (ret, d\<lparr>dev_zram := z\<lparr>init_done := False\<rparr>\<rparr>,
                     k\<lparr>sysfs_groups := insert device_id (sysfs_groups k)\<rparr>))"

definition destroy_device :: "nat \<Rightarrow> device \<Rightarrow> kernel \<Rightarrow> kernel" where
  "destroy_device i d k =
     (let k = k\<lparr>sysfs_groups := sysfs_groups k - {i}\<rparr>;
          k = (if dev_disk d \<noteq> None
               then k\<lparr>added_disks := added_disks k - {i}, live_disks := live_disks k - {i}\<rparr> else k)
      in if dev_queue d \<noteq> None then k\<lparr>live_queues := live_queues k - {i}\<rparr> else k)"

section \<open>Loading and unloading\<close>

text \<open>The loop over the devices from \<open>dev_id\<close> on: the code, where it stopped, and the devices.\<close>

fun create_devices ::
  "load_env \<Rightarrow> int \<Rightarrow> nat \<Rightarrow> nat \<Rightarrow> device list \<times> kernel \<Rightarrow> int \<times> nat \<times> device list \<times> kernel" where
  "create_devices env zram_major 0 dev_id (ds, k) = (0, dev_id, ds, k)"
| "create_devices env zram_major (Suc n) dev_id (ds, k) =
     (let (ret, d, k) = create_device env zram_major dev_id (ds ! dev_id, k); ds = ds[dev_id := d]
      in if ret \<noteq> 0 then (ret, dev_id, ds, k)
         else create_devices env zram_major n (Suc dev_id) (ds, k))"

fun destroy_devices :: "nat \<Rightarrow> device list \<Rightarrow> kernel \<Rightarrow> kernel" where
  "destroy_devices 0 ds k = k"
| "destroy_devices (Suc i) ds k = destroy_devices i ds (destroy_device i (ds ! i) k)"

text \<open>The result: the return code, \<open>devices\<close> (freed again on failure) and the kernel's state.\<close>

definition zram_init ::
  "load_env \<Rightarrow> nat \<Rightarrow> kernel \<Rightarrow> int \<times> device list option \<times> kernel" where
  "zram_init env num_devices k =
     (if num_devices > max_num_devices then (- EINVAL, None, k)
      else
        let zram_major = register_ret env
        in if zram_major \<le> 0 then (- EBUSY, None, k)
           else
             let k = k\<lparr>blkdev := True\<rparr>;
                 n = (if num_devices = 0 then 1 else num_devices)
             in if \<not> devices_ok env then (- ENOMEM, None, k\<lparr>blkdev := False\<rparr>)
                else
                  let (ret, dev_id, ds, k) =
                        create_devices env zram_major n 0 (replicate n zeroed_device, k)
                  in if ret \<noteq> 0
                     then (ret, None, (destroy_devices dev_id ds k)\<lparr>blkdev := False\<rparr>)
                     else (0, Some ds, k))"

fun exit_devices :: "nat \<Rightarrow> device list \<Rightarrow> kernel \<times> kmem \<Rightarrow> (kernel \<times> kmem) option" where
  "exit_devices i [] s = Some s"
| "exit_devices i (d # ds) (k, m) = do {
     let k = destroy_device i d k;
     m \<leftarrow> (if init_done (dev_zram d) then map_option snd (zram_reset_device (dev_zram d, m)) else Some m);
     exit_devices (Suc i) ds (k, m) }"

definition zram_exit :: "device list \<Rightarrow> kernel \<times> kmem \<Rightarrow> (kernel \<times> kmem) option" where
  "zram_exit ds s = do {
     (k, m) \<leftarrow> exit_devices 0 ds s;
     Some (k\<lparr>blkdev := False\<rparr>, m) }"

section \<open>Creation\<close>

text \<open>The kernel's state when exactly the devices below \<open>n\<close> exist.\<close>

definition devices_up :: "nat \<Rightarrow> kernel \<Rightarrow> bool" where
  "devices_up n k \<longleftrightarrow> live_queues k = {..<n} \<and> live_disks k = {..<n} \<and> added_disks k = {..<n}
     \<and> sysfs_groups k = {..<n} \<and> blkdev k"

definition device_ready :: "int \<Rightarrow> nat \<Rightarrow> device \<Rightarrow> bool" where
  "device_ready major i d \<longleftrightarrow> idle (dev_zram d) \<and> disksize (dev_zram d) = 0
     \<and> (\<exists>q. dev_queue d = Some q \<and> queuedata q = i \<and> logical_block_size q = PAGE_SIZE)
     \<and> (\<exists>g. dev_disk d = Some g \<and> disk_major g = major \<and> first_minor g = i)"

lemma create_device_ok:
  assumes "create_device env major i (zeroed_device, k) = (0, d, k')" and "devices_up i k"
  shows "devices_up (Suc i) k' \<and> device_ready major i d"
proof -
  have *: "queue_ok env i" "disk_ok env i" "\<not> sysfs_ret env i < 0"
    using assms(1) by (auto simp: create_device_def Let_def ENOMEM_def split: if_splits)
  have "idle zeroed_zram" "disksize zeroed_zram = 0"
    by (simp_all add: zeroed_zram_def idle_zero_stats)
  then have "idle (zeroed_zram\<lparr>capacity := 0, init_done := False\<rparr>)"
    "disksize (zeroed_zram\<lparr>capacity := 0, init_done := False\<rparr>) = 0"
    by (simp_all add: idle_def)
  then show ?thesis
    using assms * by (simp add: create_device_def Let_def devices_up_def device_ready_def
        zeroed_device_def) (force simp: lessThan_Suc)
qed

text \<open>A failed creation undoes itself, unless it was the sysfs group that failed.\<close>

lemma create_device_fails:
  assumes "create_device env major i (zeroed_device, k) = (ret, d, k')" and "ret \<noteq> 0"
    and "devices_up i k" and "\<not> sysfs_ret env i < 0" "sysfs_ret env i \<le> 0"
  shows "k' = k"
proof -
  have *: "\<not> (queue_ok env i \<and> disk_ok env i)"
    using assms(1,2,4,5) by (auto simp: create_device_def Let_def)
  have "insert i (live_queues k) - {i} = live_queues k"
    using assms(3) by (simp add: devices_up_def)
  then have "k\<lparr>live_queues := insert i (live_queues k) - {i}\<rparr> = k" by simp
  with * assms(1) show ?thesis by (simp add: create_device_def Let_def split: if_splits)
qed

lemma create_devices_ok:
  assumes "create_devices env major n i (ds, k) = (ret, j, ds', k')"
    and "devices_up i k" and "length ds = i + n" and "\<forall>l<i. device_ready major l (ds ! l)"
    and "\<forall>l. i \<le> l \<and> l < i + n \<longrightarrow> ds ! l = zeroed_device"
  shows "length ds' = i + n \<and> (\<forall>l<j. device_ready major l (ds' ! l))
    \<and> (if ret = 0 then j = i + n \<and> devices_up j k'
       else j < i + n \<and> (\<exists>k1 d. devices_up j k1 \<and> create_device env major j (zeroed_device, k1) = (ret, d, k')))"
  using assms
proof (induction n arbitrary: i ds k)
  case 0
  then show ?case by auto
next
  case (Suc n)
  obtain r d k1 where c: "create_device env major i (zeroed_device, k) = (r, d, k1)"
    by (metis prod_cases3)
  have di: "ds ! i = zeroed_device" using Suc.prems(5) by simp
  show ?case
  proof (cases "r = 0")
    case True
    have up: "devices_up (Suc i) k1" "device_ready major i d"
      using create_device_ok [of env major i k d k1] c True Suc.prems(2) by auto
    have "create_devices env major n (Suc i) (ds[i := d], k1) = (ret, j, ds', k')"
      using Suc.prems(1) c True di by simp
    moreover have "length (ds[i := d]) = Suc i + n" using Suc.prems(3) by simp
    moreover have "\<forall>l<Suc i. device_ready major l (ds[i := d] ! l)"
    proof (intro allI impI)
      have li: "i < length ds" using Suc.prems(3) by simp
      fix l assume "l < Suc i"
      then show "device_ready major l (ds[i := d] ! l)"
        using Suc.prems(4) up(2) li by (cases "l = i") simp_all
    qed
    moreover have "\<forall>l. Suc i \<le> l \<and> l < Suc i + n \<longrightarrow> ds[i := d] ! l = zeroed_device"
      using Suc.prems(5) by simp
    ultimately have "length ds' = Suc i + n \<and> (\<forall>l<j. device_ready major l (ds' ! l))
      \<and> (if ret = 0 then j = Suc i + n \<and> devices_up j k'
         else j < Suc i + n \<and> (\<exists>k1 d. devices_up j k1 \<and> create_device env major j (zeroed_device, k1) = (ret, d, k')))"
      using \<open>create_devices env major n (Suc i) (ds[i := d], k1) = (ret, j, ds', k')\<close>
      by (intro Suc.IH [OF _ up(1)])
    then show ?thesis unfolding add_Suc_shift .
  next
    case False
    then have "ret = r" "j = i" "ds' = ds[i := d]" "k' = k1" using Suc.prems(1) c di by auto
    moreover have "\<exists>k1 d. devices_up i k1 \<and> create_device env major i (zeroed_device, k1) = (ret, d, k')"
      using c \<open>ret = r\<close> \<open>k' = k1\<close> Suc.prems(2) by blast
    ultimately show ?thesis using False Suc.prems(3,4) by simp
  qed
qed

lemma destroy_device_ready:
  assumes "device_ready major i d" and "devices_up (Suc i) k"
  shows "devices_up i (destroy_device i d k)"
proof -
  have "{..<Suc i} - {i} = {..<i}" by auto
  moreover have "dev_queue d \<noteq> None" "dev_disk d \<noteq> None" using assms(1) by (auto simp: device_ready_def)
  ultimately show ?thesis using assms(2) by (simp add: devices_up_def destroy_device_def)
qed

lemma destroy_devices_ok:
  "\<forall>l<i. device_ready major l (ds ! l) \<Longrightarrow> devices_up i k \<Longrightarrow> devices_up 0 (destroy_devices i ds k)"
proof (induction i arbitrary: k)
  case 0
  then show ?case by simp
next
  case (Suc i)
  then have "devices_up i (destroy_device i (ds ! i) k)" by (intro destroy_device_ready [of major]) simp_all
  with Suc show ?case by simp
qed

lemma devices_up_0: "devices_up 0 k \<Longrightarrow> k\<lparr>blkdev := False\<rparr> = no_resources"
  by (simp add: devices_up_def no_resources_def)

section \<open>Unloading\<close>

definition only_from :: "nat \<Rightarrow> nat \<Rightarrow> kernel \<Rightarrow> bool" where
  "only_from i n k \<longleftrightarrow> live_queues k = {i..<n} \<and> live_disks k = {i..<n} \<and> added_disks k = {i..<n}
     \<and> sysfs_groups k = {i..<n}"

lemma exit_devices_ok:
  assumes "exit_devices i ds (k, m) = Some (k', m')" and "only_from i (i + length ds) k"
    and "\<forall>d\<in>set ds. dev_disk d \<noteq> None \<and> dev_queue d \<noteq> None"
  shows "live_queues k' = {} \<and> live_disks k' = {} \<and> added_disks k' = {} \<and> sysfs_groups k' = {}"
  using assms
proof (induction ds arbitrary: i k m)
  case Nil
  then show ?case by (simp add: only_from_def)
next
  case (Cons d ds)
  obtain m1 where r: "exit_devices (Suc i) ds (destroy_device i d k, m1) = Some (k', m')"
    using Cons.prems(1) by (auto simp: Let_def bind_eq_Some_conv)
  have "only_from (Suc i) (Suc i + length ds) (destroy_device i d k)"
  proof -
    have "{i..<i + length (d # ds)} - {i} = {Suc i..<Suc i + length ds}" by auto
    moreover have "dev_queue d \<noteq> None" "dev_disk d \<noteq> None" using Cons.prems(3) by simp_all
    ultimately show ?thesis using Cons.prems(2) by (simp add: only_from_def destroy_device_def)
  qed
  with Cons.IH [OF r] Cons.prems(3) show ?case by simp
qed

lemma only_from_up: "devices_up n k \<Longrightarrow> only_from 0 n k"
  by (simp add: devices_up_def only_from_def atLeast0LessThan)

end
