(* ===== verification/Zram_Module_Spec.thy ===== *)
theory Zram_Module_Spec
  imports Zram_Module
begin

text \<open>
  The properties of the sysfs attributes and of loading and unloading the driver.
\<close>

section \<open>Attributes\<close>

lemma unat_less_u64: "unat (d :: u64) < 18446744073709551616"
  using unsigned_less [of d, where 'a = nat] by simp

text \<open>
  What an attribute prints can be read back: the text of a 64-bit or 32-bit value is a
  line whose characters are decimal digits, and the number they denote is the value.
\<close>

theorem print_read_back:
  "print_u64 v = decimal (unat v) @ [CHR 0x0A] \<and> dec_value (butlast (print_u64 v)) = unat v
   \<and> dec_value (butlast (print_u32 w)) = unat w
   \<and> (\<forall>c\<in>set (butlast (print_u64 v)). 48 \<le> (of_char c :: nat) \<and> (of_char c :: nat) \<le> 57)"
proof -
  have "\<forall>c\<in>set (decimal n). 48 \<le> (of_char c :: nat) \<and> (of_char c :: nat) \<le> 57" for n
  proof (induction n rule: decimal.induct)
    case (1 n)
    have "n mod 10 < 10" by simp
    with 1 show ?case by (auto simp: decimal.simps [of n])
  qed
  then show ?thesis by (simp add: print_u64_def print_u32_def dec_value_decimal)
qed

theorem print_read_back_witness: "dec_value (butlast (print_u64 4096)) = 4096"
  using print_read_back [of 4096 0, THEN conjunct2, THEN conjunct1] by simp

text \<open>
  The disk size attribute.  On an uninitialised device storing a number that parses sets the
  disk size to it, rounded down to whole pages, and the capacity to its sectors, and showing
  prints that size; on an initialised device storing fails with \<open>-EBUSY\<close> and changes nothing.
\<close>

theorem disksize_attribute:
  "disksize_store parse buf z =
     (if init_done z then (- EBUSY, z)
      else if fst (parse buf) \<noteq> 0 then (fst (parse buf), z\<lparr>disksize := snd (parse buf)\<rparr>)
      else (int (length buf), z\<lparr>disksize := snd (parse buf) AND PAGE_MASK,
              capacity := drop_bit 9 (snd (parse buf) AND PAGE_MASK)\<rparr>))
   \<and> unat (d AND PAGE_MASK) = unat d div 4096 * 4096
   \<and> (\<not> init_done z \<and> fst (parse buf) = 0 \<longrightarrow>
        dec_value (butlast (disksize_show (snd (disksize_store parse buf z))))
          = unat (snd (parse buf)) div 4096 * 4096)"
proof -
  have mask: "unat (d AND PAGE_MASK) = unat d div 4096 * 4096" for d
  proof -
    have pm: "PAGE_MASK = NOT (mask 12)" by (simp add: PAGE_MASK_def mask_eq_exp_minus_1)
    have "d AND PAGE_MASK = push_bit 12 (drop_bit 12 d)"
      unfolding pm by (rule bit_word_eqI) (auto simp: bit_simps)
    moreover have "unat (drop_bit 12 d) = unat d div 4096" by (simp add: drop_bit_eq_div unat_div_distrib)
    moreover have "unat (drop_bit 12 d) * 4096 < 2 ^ 64"
      using calculation(2) unat_less_u64 [of d] by simp
    ultimately show ?thesis by (simp add: push_bit_eq_mult unat_word_ariths mult.commute)
  qed
  have "disksize (snd (disksize_store parse buf z)) = snd (parse buf) AND PAGE_MASK"
    if "\<not> init_done z" "fst (parse buf) = 0"
    using that by (simp add: disksize_store_def Let_def split_def)
  then show ?thesis
    using mask by (auto simp: disksize_store_def Let_def split_def SECTOR_SHIFT_def disksize_show_def
        print_u64_def dec_value_decimal)
qed

theorem disksize_attribute_witness:
  "dec_value (butlast (disksize_show (snd (disksize_store (\<lambda>_. (0, 10000)) ''10000'' zeroed_zram)))) = 8192"
  using disksize_attribute [of "\<lambda>_. (0, 10000)" "''10000''" zeroed_zram 0, THEN conjunct2, THEN conjunct2]
  by (simp add: zeroed_zram_def)

text \<open>
  \<open>dev_to_zram\<close> finds the device whose disk has the given \<open>struct device\<close>, the first such
  one; when none matches it does not return \<open>NULL\<close> but the last device.
\<close>

theorem dev_to_zram_result:
  "dev_to_zram devs dev =
     (if dev \<in> set devs then Some (length (takeWhile (\<lambda>d. d \<noteq> dev) devs))
      else if devs = [] then None else Some (length devs - 1))"
  by (simp add: dev_to_zram_def find_from_spec)

section \<open>Loading the driver\<close>

text \<open>
  C23: Loading.  When \<open>zram_init\<close> succeeds, the requested number of devices (one for zero) is
  up: each has its queue with page-sized blocks and its disk, is registered with its sysfs
  group, idle and of disk size 0.  When it fails, and no sysfs group was refused, everything
  done so far is undone: no queue, disk, group or block device number is held.
\<close>

theorem zram_init_result:
  assumes "zram_init env n no_resources = (ret, ds, k)" and "\<forall>i. sysfs_ret env i \<le> 0"
  shows "if ret = 0
    then n \<le> 32 \<and> (\<exists>l. ds = Some l \<and> length l = max n 1 \<and> devices_up (length l) k
           \<and> (\<forall>i<length l. device_ready (register_ret env) i (l ! i)))
    else ds = None \<and> ((\<forall>i. sysfs_ret env i = 0) \<longrightarrow> k = no_resources)"
proof -
  have undo: "no_resources\<lparr>blkdev := True, blkdev := False\<rparr> = no_resources" by (simp add: no_resources_def)
  let ?n = "if n = 0 then 1 else n" and ?k = "no_resources\<lparr>blkdev := True\<rparr>"
  show ?thesis
  proof (cases "n > 32 \<or> register_ret env \<le> 0 \<or> \<not> devices_ok env")
    case True
    then show ?thesis
      using assms(1) undo by (auto simp: zram_init_def max_num_devices_def EINVAL_def EBUSY_def ENOMEM_def Let_def
          split: if_splits)
  next
    case False
    obtain r j l k1 where c: "create_devices env (register_ret env) ?n 0 (replicate ?n zeroed_device, ?k) = (r, j, l, k1)"
      by (metis prod_cases4)
    have up0: "devices_up 0 ?k" by (simp add: devices_up_def no_resources_def)
    have res: "(ret, ds, k) =
        (if r \<noteq> 0 then (r, None, (destroy_devices j l k1)\<lparr>blkdev := False\<rparr>) else (0, Some l, k1))"
      using assms(1) False c by (simp add: zram_init_def max_num_devices_def Let_def split: if_splits)
    have ok: "length l = ?n \<and> (\<forall>i<j. device_ready (register_ret env) i (l ! i))
      \<and> (if r = 0 then j = ?n \<and> devices_up j k1
         else j < ?n \<and> (\<exists>k2 d. devices_up j k2 \<and> create_device env (register_ret env) j (zeroed_device, k2) = (r, d, k1)))"
      using create_devices_ok [OF c up0] by (auto simp: nth_Cons')
    show ?thesis
    proof (cases "r = 0")
      case True
      with res ok False show ?thesis by (auto simp: max_def)
    next
      case nz: False
      with ok obtain k2 d where k2: "devices_up j k2"
        "create_device env (register_ret env) j (zeroed_device, k2) = (r, d, k1)" by auto
      have "k = no_resources" if "\<forall>i. sysfs_ret env i = 0"
      proof -
        have "k1 = k2" using create_device_fails [OF k2(2) nz k2(1)] that by simp
        with k2(1) ok have "devices_up 0 (destroy_devices j l k1)"
          by (intro destroy_devices_ok [of j "register_ret env"]) auto
        with res nz devices_up_0 show ?thesis by simp
      qed
      with res nz show ?thesis by simp
    qed
  qed
qed

definition sample_load :: load_env where
  "sample_load = \<lparr>queue_ok = (\<lambda>_. True), disk_ok = (\<lambda>i. i < 1), sysfs_ret = (\<lambda>_. 0), register_ret = 254,
     devices_ok = True\<rparr>"

text \<open>With one disk to be had, loading one device succeeds and loading two fails.\<close>

theorem zram_init_result_witness:
  "(\<exists>l k. zram_init sample_load 1 no_resources = (0, Some l, k) \<and> devices_up 1 k)
   \<and> (\<exists>ret. ret \<noteq> 0 \<and> zram_init sample_load 2 no_resources = (ret, None, no_resources))"
proof
  have s: "\<forall>i. sysfs_ret sample_load i \<le> 0" "\<forall>i. sysfs_ret sample_load i = 0" by (simp_all add: sample_load_def)
  obtain r1 d1 k1 where z1: "zram_init sample_load 1 no_resources = (r1, d1, k1)" by (metis prod_cases3)
  then have "r1 = 0"
    by (auto simp: zram_init_def max_num_devices_def sample_load_def create_device_def Let_def)
  with zram_init_result [OF z1 s(1)] z1
  show "\<exists>l k. zram_init sample_load 1 no_resources = (0, Some l, k) \<and> devices_up 1 k" by auto
  obtain r2 d2 k2 where z2: "zram_init sample_load 2 no_resources = (r2, d2, k2)" by (metis prod_cases3)
  then have "r2 \<noteq> 0"
    by (auto simp: zram_init_def max_num_devices_def sample_load_def create_device_def Let_def numeral_2_eq_2
        ENOMEM_def)
  with zram_init_result [OF z2 s(1)] z2 s(2)
  show "\<exists>ret. ret \<noteq> 0 \<and> zram_init sample_load 2 no_resources = (ret, None, no_resources)" by auto
qed

text \<open>
  A refused sysfs group leaks.  When \<open>sysfs_create_group\<close> fails for the first device,
  loading fails, but the device's queue and its registered disk are never released.
\<close>

theorem zram_init_sysfs_leak:
  assumes "sysfs_ret env 0 < 0" and "queue_ok env 0" and "disk_ok env 0" and "0 < register_ret env"
    and "devices_ok env" and "0 < n" and "n \<le> 32"
  shows "zram_init env n no_resources =
    (sysfs_ret env 0, None, no_resources\<lparr>live_queues := {0}, live_disks := {0}, added_disks := {0}\<rparr>)"
proof -
  obtain n' where n: "n = Suc n'" using assms(6) gr0_implies_Suc by blast
  show ?thesis
    using assms by (simp add: zram_init_def max_num_devices_def n create_device_def Let_def no_resources_def)
qed

theorem zram_init_sysfs_leak_witness:
  "live_disks (snd (snd (zram_init (sample_load\<lparr>sysfs_ret := \<lambda>_. -12\<rparr>) 1 no_resources))) = {0}"
  using zram_init_sysfs_leak [of "sample_load\<lparr>sysfs_ret := \<lambda>_. -12\<rparr>" 1] by (simp add: sample_load_def)

text \<open>
  Unloading.  After \<open>zram_exit\<close> on the devices that \<open>zram_init\<close> brought up, the kernel
  holds nothing for the driver any more.
\<close>

theorem zram_exit_result:
  assumes "zram_exit ds (k, m) = Some (k', m')" and "devices_up (length ds) k"
    and "\<forall>i<length ds. device_ready major i (ds ! i)"
  shows "k' = no_resources"
proof -
  obtain k1 where k1: "exit_devices 0 ds (k, m) = Some (k1, m')" "k' = k1\<lparr>blkdev := False\<rparr>"
    using assms(1) by (auto simp: zram_exit_def bind_eq_Some_conv)
  have "\<forall>d\<in>set ds. dev_disk d \<noteq> None \<and> dev_queue d \<noteq> None"
    using assms(3) unfolding device_ready_def by (metis in_set_conv_nth option.distinct(1))
  moreover have "only_from 0 (0 + length ds) k" using only_from_up [OF assms(2)] by simp
  ultimately have "live_queues k1 = {} \<and> live_disks k1 = {} \<and> added_disks k1 = {} \<and> sysfs_groups k1 = {}"
    using exit_devices_ok [OF k1(1)] by blast
  then show ?thesis by (simp add: k1(2) no_resources_def)
qed

theorem zram_exit_result_witness:
  "\<exists>l k (m :: kmem) m'. zram_init sample_load 1 no_resources = (0, Some l, k) \<and> zram_exit l (k, m) = Some (no_resources, m')"
proof -
  obtain r d k where z: "zram_init sample_load 1 no_resources = (r, d, k)" by (metis prod_cases3)
  then obtain l where l: "r = 0" "d = Some l" "length l = 1" "devices_up (length l) k"
    "\<forall>i<length l. device_ready 254 i (l ! i)" "\<not> init_done (dev_zram (l ! 0))"
    by (auto simp: zram_init_def max_num_devices_def sample_load_def create_device_def Let_def devices_up_def
        no_resources_def device_ready_def zeroed_device_def zeroed_zram_def idle_def zero_stats_def lessThan_Suc)
  fix m :: kmem
  obtain k' where e: "zram_exit l (k, m) = Some (k', m)"
    using l(3,6) by (cases l) (auto simp: zram_exit_def)
  with zram_exit_result [OF e l(4,5)] z l(1,2) show ?thesis by blast
qed

end
