(* ===== verification/Zsmalloc.thy ===== *)
theory Zsmalloc
  imports Kernel_Prelude "HOL-Library.Monad_Syntax"
begin

text \<open>
  The zsmalloc allocator (sub-projects/allocators/zsmalloc-kmod/zsmalloc.c, zsmalloc\_int.h).
  Objects of one size class are packed into \<open>zspages\<close>, groups of up to four system pages that
  are linked through their \<open>struct page\<close>.  Memory is explicit: the \<open>struct page\<close> of every page
  (pages are numbered by their frame number, 0 being \<open>NULL\<close>), the links \<open>struct link_free\<close>
  inside the pages by byte offset, and the pages the kernel has handed out.  A result \<open>None\<close>
  is a \<open>BUG_ON\<close>, a spinlock taken twice, or an access through \<open>NULL\<close> or out of bounds.
\<close>

section \<open>zsmalloc\_int.h\<close>

definition ZS_ALIGN :: nat where "ZS_ALIGN = 8"
definition ZS_MIN_ALLOC_SIZE :: nat where "ZS_MIN_ALLOC_SIZE = 32"
definition ZS_MAX_ALLOC_SIZE :: nat where "ZS_MAX_ALLOC_SIZE = PAGE_SIZE"
definition ZS_SIZE_CLASS_DELTA :: nat where "ZS_SIZE_CLASS_DELTA = 16"
definition ZS_SIZE_CLASSES :: nat where
  "ZS_SIZE_CLASSES = (ZS_MAX_ALLOC_SIZE - ZS_MIN_ALLOC_SIZE) div ZS_SIZE_CLASS_DELTA + 1"
definition max_zspage_order :: nat where "max_zspage_order = 4"
definition fullness_threshold_frac :: nat where "fullness_threshold_frac = 4"

lemmas zs_consts = ZS_ALIGN_def ZS_MIN_ALLOC_SIZE_def ZS_MAX_ALLOC_SIZE_def ZS_SIZE_CLASS_DELTA_def
  ZS_SIZE_CLASSES_def max_zspage_order_def fullness_threshold_frac_def kernel_consts

datatype fullness_group =
  ZS_ALMOST_FULL | ZS_ALMOST_EMPTY | NR_FULLNESS_GROUPS | ZS_EMPTY | ZS_FULL

fun fg_nr :: "fullness_group \<Rightarrow> nat" where
  "fg_nr ZS_ALMOST_FULL = 0"
| "fg_nr ZS_ALMOST_EMPTY = 1"
| "fg_nr NR_FULLNESS_GROUPS = 2"
| "fg_nr ZS_EMPTY = 3"
| "fg_nr ZS_FULL = 4"

lemma fg_nr_inj: "fg_nr a = fg_nr b \<longleftrightarrow> a = b"
  by (cases a; cases b) simp_all

text \<open>The code compares fullness groups by their numbers.\<close>

instantiation fullness_group :: linorder
begin

definition less_eq_fullness_group :: "fullness_group \<Rightarrow> fullness_group \<Rightarrow> bool" where
  "less_eq_fullness_group a b \<longleftrightarrow> fg_nr a \<le> fg_nr b"

definition less_fullness_group :: "fullness_group \<Rightarrow> fullness_group \<Rightarrow> bool" where
  "less_fullness_group a b \<longleftrightarrow> fg_nr a < fg_nr b"

instance
  by standard (auto simp: less_eq_fullness_group_def less_fullness_group_def fg_nr_inj)

end

text \<open>
  \<open>struct size_class\<close>: \<open>sc_vm\<close> says whether its VM area is there, \<open>sc_ptes\<close> are the two pages mapped
  in it, \<open>sc_vm_addr\<close> what \<open>vm_addr\<close> points to, \<open>sc_locked\<close> whether its spinlock is held.
\<close>

type_synonym zpfn = nat
type_synonym handle = ulong

datatype vm_target = Vm_Null | Vm_Kmap zpfn | Vm_Area

record size_class =
  sc_size :: nat
  sc_index :: nat
  zspage_order :: nat
  sc_locked :: bool
  sc_vm :: bool
  sc_ptes :: "zpfn \<times> zpfn"
  sc_vm_addr :: vm_target
  pages_allocated :: u64
  fullness_list :: "zpfn list"

text \<open>
  \<open>flags\<close> of the pool only reaches \<open>alloc_page\<close> and \<open>name\<close> is never read; both are left out.
\<close>

record zs_pool =
  size_class_of :: "size_class list"

text \<open>
  The fields of the kernel's \<open>struct page\<close> the code uses; \<open>index\<close> and \<open>freelist\<close> as well as
  \<open>private\<close> and \<open>first_page\<close> share storage there, but no page uses both of a pair.
\<close>

record zpage =
  pg_private :: bool
  pg_private_2 :: bool
  zp_private :: zpfn
  zp_mapping :: ulong
  zp_first_page :: zpfn
  zp_index :: nat
  zp_freelist :: handle
  zp_inuse :: u16
  zp_objects :: u16
  lru_prev :: zpfn
  lru_next :: zpfn

record zmem =
  zpages :: "zpfn \<Rightarrow> zpage"
  zlinks :: "zpfn \<times> nat \<Rightarrow> handle"
  zused :: "zpfn set"

definition upd_page :: "zpfn \<Rightarrow> (zpage \<Rightarrow> zpage) \<Rightarrow> zmem \<Rightarrow> zmem" where
  "upd_page p f m = m\<lparr>zpages := (zpages m)(p := f (zpages m p))\<rparr>"

text \<open>\<open>alloc_page\<close>: the page and its \<open>struct page\<close> as the kernel hands it out.\<close>

type_synonym zsource = "zmem \<Rightarrow> (zpfn \<times> zpage) option"

definition take_page :: "zpfn \<Rightarrow> zpage \<Rightarrow> zmem \<Rightarrow> zmem" where
  "take_page p d m = m\<lparr>zpages := (zpages m)(p := d), zused := insert p (zused m)\<rparr>"

definition give_page :: "zpfn \<Rightarrow> zmem \<Rightarrow> zmem" where
  "give_page p m = m\<lparr>zused := zused m - {p}\<rparr>"

text \<open>The kernel's doubly linked lists, on \<open>page->lru\<close>.\<close>

definition set_next :: "zpfn \<Rightarrow> zpfn \<Rightarrow> zmem \<Rightarrow> zmem" where
  "set_next p q = upd_page p (\<lambda>d. d\<lparr>lru_next := q\<rparr>)"

definition set_prev :: "zpfn \<Rightarrow> zpfn \<Rightarrow> zmem \<Rightarrow> zmem" where
  "set_prev p q = upd_page p (\<lambda>d. d\<lparr>lru_prev := q\<rparr>)"

definition init_lru :: "zpfn \<Rightarrow> zmem \<Rightarrow> zmem" where
  "init_lru p m = set_prev p p (set_next p p m)"

definition lru_insert :: "zpfn \<Rightarrow> zpfn \<Rightarrow> zpfn \<Rightarrow> zmem \<Rightarrow> zmem" where
  "lru_insert new prev next m = set_next prev new (set_prev new prev (set_next new next (set_prev next new m)))"

definition lru_add :: "zpfn \<Rightarrow> zpfn \<Rightarrow> zmem \<Rightarrow> zmem" where
  "lru_add new head m = lru_insert new head (lru_next (zpages m head)) m"

definition lru_add_tail :: "zpfn \<Rightarrow> zpfn \<Rightarrow> zmem \<Rightarrow> zmem" where
  "lru_add_tail new head m = lru_insert new (lru_prev (zpages m head)) head m"

definition lru_del :: "zpfn \<Rightarrow> zmem \<Rightarrow> zmem" where
  "lru_del p m =
     (let prev = lru_prev (zpages m p); next = lru_next (zpages m p)
      in set_next prev next (set_prev next prev m))"

definition lru_del_init :: "zpfn \<Rightarrow> zmem \<Rightarrow> zmem" where
  "lru_del_init p m = init_lru p (lru_del p m)"

definition lru_empty :: "zpfn \<Rightarrow> zmem \<Rightarrow> bool" where
  "lru_empty p m \<longleftrightarrow> lru_next (zpages m p) = p"

section \<open>Encodings\<close>

definition CLASS_IDX_BITS :: nat where "CLASS_IDX_BITS = 28"
definition FULLNESS_BITS :: nat where "FULLNESS_BITS = 4"
definition CLASS_IDX_MASK :: u32 where "CLASS_IDX_MASK = push_bit CLASS_IDX_BITS 1 - 1"
definition FULLNESS_MASK :: u32 where "FULLNESS_MASK = push_bit FULLNESS_BITS 1 - 1"

text \<open>\<open>MAX_PHYSMEM_BITS\<close> is 46 on x86-64.\<close>

definition PFN_BITS :: nat where "PFN_BITS = 46 - PAGE_SHIFT"
definition OBJ_INDEX_BITS :: nat where "OBJ_INDEX_BITS = BITS_PER_LONG - PFN_BITS"
definition OBJ_INDEX_MASK :: ulong where "OBJ_INDEX_MASK = push_bit OBJ_INDEX_BITS 1 - 1"

lemmas zs_encoding = CLASS_IDX_BITS_def FULLNESS_BITS_def CLASS_IDX_MASK_def FULLNESS_MASK_def
  PFN_BITS_def OBJ_INDEX_BITS_def OBJ_INDEX_MASK_def kernel_consts

definition is_first_page :: "zpfn \<Rightarrow> zmem \<Rightarrow> bool" where
  "is_first_page p m = pg_private (zpages m p)"

definition is_last_page :: "zpfn \<Rightarrow> zmem \<Rightarrow> bool" where
  "is_last_page p m = pg_private_2 (zpages m p)"

text \<open>A number that is no fullness group (never written) is \<open>None\<close>.\<close>

definition fg_of :: "ulong \<Rightarrow> fullness_group option" where
  "fg_of n = (if n = 0 then Some ZS_ALMOST_FULL else if n = 1 then Some ZS_ALMOST_EMPTY
     else if n = 2 then Some NR_FULLNESS_GROUPS else if n = 3 then Some ZS_EMPTY
     else if n = 4 then Some ZS_FULL else None)"

definition get_zspage_mapping :: "zpfn \<Rightarrow> zmem \<Rightarrow> (nat \<times> fullness_group) option" where
  "get_zspage_mapping p m =
     (if \<not> is_first_page p m then None
      else let v = zp_mapping (zpages m p)
           in do {
             fullness \<leftarrow> fg_of (v AND ucast FULLNESS_MASK);
             Some (unat (drop_bit FULLNESS_BITS v AND ucast CLASS_IDX_MASK), fullness) })"

definition set_zspage_mapping :: "zpfn \<Rightarrow> nat \<Rightarrow> fullness_group \<Rightarrow> zmem \<Rightarrow> zmem option" where
  "set_zspage_mapping p class_idx fullness m =
     (if \<not> is_first_page p m then None
      else let v = push_bit FULLNESS_BITS (word_of_nat class_idx AND CLASS_IDX_MASK)
                     OR (word_of_nat (fg_nr fullness) AND FULLNESS_MASK)
           in Some (upd_page p (\<lambda>d. d\<lparr>zp_mapping := ucast v\<rparr>) m))"

definition get_size_class_index :: "nat \<Rightarrow> nat" where
  "get_size_class_index sz =
     (if sz > ZS_MIN_ALLOC_SIZE then DIV_ROUND_UP (sz - ZS_MIN_ALLOC_SIZE) ZS_SIZE_CLASS_DELTA else 0)"

text \<open>\<open>page_to_pfn\<close> and \<open>pfn_to_page\<close> are the identity here.\<close>

definition obj_location_to_handle :: "zpfn \<Rightarrow> nat \<Rightarrow> handle option" where
  "obj_location_to_handle p obj_idx =
     (if p = 0 then (if obj_idx \<noteq> 0 then None else Some 0)
      else Some (push_bit OBJ_INDEX_BITS (word_of_nat p) OR (word_of_nat obj_idx AND OBJ_INDEX_MASK)))"

definition obj_handle_to_location :: "handle \<Rightarrow> zpfn \<times> nat" where
  "obj_handle_to_location h = (unat (drop_bit OBJ_INDEX_BITS h), unat (h AND OBJ_INDEX_MASK))"

definition obj_idx_to_offset :: "zpfn \<Rightarrow> nat \<Rightarrow> nat \<Rightarrow> zmem \<Rightarrow> nat" where
  "obj_idx_to_offset p obj_idx class_size m =
     (if \<not> is_first_page p m then zp_index (zpages m p) else 0) + obj_idx * class_size"

section \<open>Fullness groups\<close>

definition get_fullness_group :: "zpfn \<Rightarrow> zmem \<Rightarrow> fullness_group option" where
  "get_fullness_group p m =
     (if \<not> is_first_page p m then None
      else let inuse = unat (zp_inuse (zpages m p)); max_objects = unat (zp_objects (zpages m p))
           in Some (if inuse = 0 then ZS_EMPTY
                    else if inuse = max_objects then ZS_FULL
                    else if inuse \<le> max_objects div fullness_threshold_frac then ZS_ALMOST_EMPTY
                    else ZS_ALMOST_FULL))"

definition insert_zspage :: "zpfn \<Rightarrow> size_class \<Rightarrow> fullness_group \<Rightarrow> zmem \<Rightarrow> (size_class \<times> zmem) option" where
  "insert_zspage p c fullness m =
     (if \<not> is_first_page p m then None
      else if fullness \<ge> NR_FULLNESS_GROUPS then Some (c, m)
      else let head = fullness_list c ! fg_nr fullness;
               m = (if head \<noteq> 0 then lru_add_tail p head m else m)
           in Some (c\<lparr>fullness_list := (fullness_list c)[fg_nr fullness := p]\<rparr>, m))"

definition remove_zspage :: "zpfn \<Rightarrow> size_class \<Rightarrow> fullness_group \<Rightarrow> zmem \<Rightarrow> (size_class \<times> zmem) option" where
  "remove_zspage p c fullness m =
     (if \<not> is_first_page p m then None
      else if fullness \<ge> NR_FULLNESS_GROUPS then Some (c, m)
      else let head = fullness_list c ! fg_nr fullness
           in if head = 0 then None
              else let head' = (if lru_empty head m then 0
                                else if head = p then lru_next (zpages m head) else head)
                   in Some (c\<lparr>fullness_list := (fullness_list c)[fg_nr fullness := head']\<rparr>, lru_del_init p m))"

definition upd_class :: "nat \<Rightarrow> (size_class \<Rightarrow> size_class) \<Rightarrow> zs_pool \<Rightarrow> zs_pool" where
  "upd_class i f pool = pool\<lparr>size_class_of := (size_class_of pool)[i := f (size_class_of pool ! i)]\<rparr>"

definition class_at :: "nat \<Rightarrow> zs_pool \<Rightarrow> size_class option" where
  "class_at i pool = (if i < length (size_class_of pool) then Some (size_class_of pool ! i) else None)"

definition fix_fullness_group ::
  "zpfn \<Rightarrow> zs_pool \<times> zmem \<Rightarrow> (fullness_group \<times> zs_pool \<times> zmem) option" where
  "fix_fullness_group p = (\<lambda>(pool, m). do {
     (class_idx, currfg) \<leftarrow> get_zspage_mapping p m;
     newfg \<leftarrow> get_fullness_group p m;
     if newfg = currfg then Some (newfg, pool, m)
     else do {
       c \<leftarrow> class_at class_idx pool;
       (c, m) \<leftarrow> remove_zspage p c currfg m;
       (c, m) \<leftarrow> insert_zspage p c newfg m;
       m \<leftarrow> set_zspage_mapping p class_idx newfg m;
       Some (newfg, upd_class class_idx (\<lambda>_. c) pool, m) } })"

section \<open>Zspages\<close>

definition usedpc :: "nat \<Rightarrow> nat \<Rightarrow> nat" where
  "usedpc class_size i =
     (let zspage_size = i * PAGE_SIZE; waste = zspage_size mod class_size
      in (zspage_size - waste) * 100 div zspage_size)"

fun order_from :: "nat \<Rightarrow> nat list \<Rightarrow> nat \<Rightarrow> nat \<Rightarrow> nat" where
  "order_from class_size [] max_usedpc max_usedpc_order = max_usedpc_order"
| "order_from class_size (i # is) max_usedpc max_usedpc_order =
     (if usedpc class_size i > max_usedpc then order_from class_size is (usedpc class_size i) i
      else order_from class_size is max_usedpc max_usedpc_order)"

definition get_zspage_order :: "nat \<Rightarrow> nat" where
  "get_zspage_order class_size = order_from class_size [1..<max_zspage_order + 1] 0 1"

definition get_first_page :: "zpfn \<Rightarrow> zmem \<Rightarrow> zpfn" where
  "get_first_page p m = (if is_first_page p m then p else zp_first_page (zpages m p))"

definition get_next_page :: "zpfn \<Rightarrow> zmem \<Rightarrow> zpfn" where
  "get_next_page p m =
     (if is_last_page p m then 0
      else if is_first_page p m then zp_private (zpages m p)
      else lru_next (zpages m p))"

text \<open>
  \<open>list_for_each_entry_safe(nextp, tmp, &nextp->lru, lru)\<close>: the macro compares the position with
  its argument \<open>head\<close>, here \<open>&nextp->lru\<close> for the same \<open>nextp\<close> that the loop moves.
\<close>

partial_function (option) free_sub_loop :: "zpfn \<Rightarrow> zpfn \<Rightarrow> zmem \<Rightarrow> zmem option" where
  "free_sub_loop nextp tmp m =
     (let head = nextp
      in if nextp \<noteq> head
         then let m = lru_del nextp m;
                  m = upd_page nextp (\<lambda>d. d\<lparr>pg_private_2 := False, zp_index := 0\<rparr>) m;
                  m = give_page nextp m
              in free_sub_loop tmp (lru_next (zpages m tmp)) m
         else Some m)"

text \<open>\<open>reset_page_mapcount\<close> sets \<open>_mapcount\<close> to -1, in which \<open>inuse\<close> and \<open>objects\<close> live.\<close>

definition free_zspage :: "zpfn \<Rightarrow> zmem \<Rightarrow> zmem option" where
  "free_zspage first m =
     (if \<not> is_first_page first m \<or> zp_inuse (zpages m first) \<noteq> 0 then None
      else
        let nextp = zp_private (zpages m first);
            m = upd_page first (\<lambda>d. d\<lparr>pg_private := False, pg_private_2 := False, zp_private := 0,
                  zp_mapping := 0, zp_freelist := 0, zp_inuse := -1, zp_objects := -1\<rparr>) m;
            m = give_page first m
        in if nextp = 0 then Some m
           else let pos = lru_next (zpages m nextp) in free_sub_loop pos (lru_next (zpages m pos)) m)"

text \<open>Writing \<open>link->next\<close>; the pointer arithmetic is in units of the eight bytes of a link.\<close>

definition link_slot :: "nat \<Rightarrow> nat" where "link_slot off = off div 8 * 8"

definition write_link :: "zpfn \<Rightarrow> nat \<Rightarrow> handle \<Rightarrow> zmem \<Rightarrow> zmem option" where
  "write_link p off h m =
     (if link_slot off + 8 \<le> PAGE_SIZE then Some (m\<lparr>zlinks := (zlinks m)((p, link_slot off) := h)\<rparr>) else None)"

definition read_link :: "zpfn \<Rightarrow> nat \<Rightarrow> zmem \<Rightarrow> handle option" where
  "read_link p off m =
     (if link_slot off + 8 \<le> PAGE_SIZE then Some (zlinks m (p, link_slot off)) else None)"

text \<open>The inner loop of \<open>init_zspage\<close>: \<open>n\<close> iterations are left, \<open>link\<close> is the pointer as an offset.\<close>

fun init_links :: "zpfn \<Rightarrow> nat \<Rightarrow> nat \<Rightarrow> nat \<Rightarrow> nat \<Rightarrow> nat \<Rightarrow> zmem \<Rightarrow> (nat \<times> nat \<times> zmem) option" where
  "init_links p sz i 0 off link m = Some (off, link, m)"
| "init_links p sz i (Suc n) off link m =
     (let off = off + sz
      in if off < PAGE_SIZE
         then do {
           h \<leftarrow> obj_location_to_handle p i;
           m \<leftarrow> write_link p link h m;
           init_links p sz (Suc i) n off (link + sz div 8 * 8) m }
         else init_links p sz (Suc i) n off link m)"

partial_function (option) init_pages :: "zpfn \<Rightarrow> nat \<Rightarrow> zpfn \<Rightarrow> nat \<Rightarrow> zmem \<Rightarrow> zmem option" where
  "init_pages first sz p off m =
     (if p = 0 then Some m
      else do {
        let m = (if p \<noteq> first then upd_page p (\<lambda>d. d\<lparr>zp_index := off\<rparr>) m else m);
        (off, link, m) \<leftarrow> init_links p sz 1 ((PAGE_SIZE - off) div sz) off (link_slot off) m;
        let next_page = get_next_page p m;
        h \<leftarrow> obj_location_to_handle next_page 0;
        m \<leftarrow> write_link p link h m;
        init_pages first sz next_page ((off + sz) mod PAGE_SIZE) m })"

definition init_zspage :: "zpfn \<Rightarrow> size_class \<Rightarrow> zmem \<Rightarrow> zmem option" where
  "init_zspage first c m = (if \<not> is_first_page first m then None else init_pages first (sc_size c) first 0 m)"

text \<open>
  The loop of \<open>alloc_zspage\<close> from page number \<open>i\<close> on; the flag is \<open>False\<close> for \<open>goto cleanup\<close>.
\<close>

fun alloc_pages_from :: "zsource \<Rightarrow> nat \<Rightarrow> nat \<Rightarrow> nat \<Rightarrow> zpfn \<Rightarrow> zpfn \<Rightarrow> zmem \<Rightarrow> bool \<times> zpfn \<times> zmem" where
  "alloc_pages_from src order 0 i first prev m = (True, first, m)"
| "alloc_pages_from src order (Suc n) i first prev m =
     (case src m of
        None \<Rightarrow> (False, first, m)
      | Some (p, d) \<Rightarrow>
          (let m = take_page p d m;
               m = init_lru p m;
               m = (if i = 0 then upd_page p (\<lambda>d. d\<lparr>pg_private := True, zp_private := 0\<rparr>) m else m);
               first = (if i = 0 then p else first);
               m = (if i = 1 then upd_page first (\<lambda>d. d\<lparr>zp_private := p\<rparr>) m else m);
               m = (if i \<ge> 1 then upd_page p (\<lambda>d. d\<lparr>zp_first_page := first\<rparr>) m else m);
               m = (if i \<ge> 2 then lru_add p prev m else m);
               m = (if i = order - 1 then upd_page p (\<lambda>d. d\<lparr>pg_private_2 := True\<rparr>) m else m)
           in alloc_pages_from src order n (Suc i) first p m))"

definition alloc_zspage :: "zsource \<Rightarrow> size_class \<Rightarrow> zmem \<Rightarrow> (zpfn \<times> zmem) option" where
  "alloc_zspage src c m =
     (let (ok, first, m) = alloc_pages_from src (zspage_order c) (zspage_order c) 0 0 0 m
      in if ok then do {
           m \<leftarrow> init_zspage first c m;
           h \<leftarrow> obj_location_to_handle first 0;
           Some (first, upd_page first (\<lambda>d. d\<lparr>zp_freelist := h, zp_inuse := 0,
             zp_objects := word_of_nat (zspage_order c * PAGE_SIZE div sc_size c)\<rparr>) m) }
         else if first \<noteq> 0 then do { m \<leftarrow> free_zspage first m; Some (first, m) }
         else Some (first, m))"

definition find_get_zspage :: "size_class \<Rightarrow> zpfn" where
  "find_get_zspage c = (if fullness_list c ! 0 \<noteq> 0 then fullness_list c ! 0 else fullness_list c ! 1)"

section \<open>The interface\<close>

definition new_class :: "nat \<Rightarrow> size_class" where
  "new_class i =
     (let sz = ZS_MIN_ALLOC_SIZE + i * ZS_SIZE_CLASS_DELTA;
          sz = (if sz > ZS_MAX_ALLOC_SIZE then ZS_MAX_ALLOC_SIZE else sz)
      in \<lparr>sc_size = sz, sc_index = i, zspage_order = get_zspage_order sz, sc_locked = False,
          sc_vm = True, sc_ptes = (0, 0), sc_vm_addr = Vm_Null, pages_allocated = 0, fullness_list = [0, 0]\<rparr>)"

text \<open>
  Creating and destroying a pool, with the VM areas that exist, by class.  \<open>kzalloc\<close> and
  \<open>alloc_vm_area\<close> belong to the kernel.
\<close>

definition zeroed_class :: size_class where
  "zeroed_class = \<lparr>sc_size = 0, sc_index = 0, zspage_order = 0, sc_locked = False, sc_vm = False,
     sc_ptes = (0, 0), sc_vm_addr = Vm_Null, pages_allocated = 0, fullness_list = [0, 0]\<rparr>"

fun create_classes :: "(nat \<Rightarrow> bool) \<Rightarrow> nat \<Rightarrow> nat \<Rightarrow> zs_pool \<Rightarrow> nat set \<Rightarrow> bool \<times> zs_pool \<times> nat set" where
  "create_classes vm_ok 0 i pool vms = (True, pool, vms)"
| "create_classes vm_ok (Suc n) i pool vms =
     (if \<not> vm_ok i then (False, upd_class i (\<lambda>_. (new_class i)\<lparr>sc_vm := False\<rparr>) pool, vms)
      else create_classes vm_ok n (Suc i) (upd_class i (\<lambda>_. new_class i) pool) (insert i vms))"

fun destroy_classes :: "size_class list \<Rightarrow> nat \<Rightarrow> nat set \<Rightarrow> nat set" where
  "destroy_classes [] i vms = vms"
| "destroy_classes (c # cs) i vms = destroy_classes cs (Suc i) (if sc_vm c then vms - {i} else vms)"

definition zs_destroy_pool :: "zs_pool \<Rightarrow> nat set \<Rightarrow> nat set" where
  "zs_destroy_pool pool vms = destroy_classes (size_class_of pool) 0 vms"

definition zs_create_pool ::
  "string option \<Rightarrow> bool \<Rightarrow> (nat \<Rightarrow> bool) \<Rightarrow> nat set \<Rightarrow> zs_pool option \<times> nat set" where
  "zs_create_pool name kzalloc_ok vm_ok vms =
     (if name = None \<or> \<not> kzalloc_ok then (None, vms)
      else
        let (ok, pool, vms) =
              create_classes vm_ok ZS_SIZE_CLASSES 0
                \<lparr>size_class_of = replicate ZS_SIZE_CLASSES zeroed_class\<rparr> vms
        in if ok then (Some pool, vms) else (None, zs_destroy_pool pool vms))"

definition lock_class :: "nat \<Rightarrow> zs_pool \<Rightarrow> zs_pool option" where
  "lock_class i pool = do {
     c \<leftarrow> class_at i pool;
     if sc_locked c then None else Some (upd_class i (\<lambda>c. c\<lparr>sc_locked := True\<rparr>) pool) }"

definition unlock_class :: "nat \<Rightarrow> zs_pool \<Rightarrow> zs_pool" where
  "unlock_class i pool = upd_class i (\<lambda>c. c\<lparr>sc_locked := False\<rparr>) pool"

definition POISON :: handle where "POISON = 0x5A5A5A5A5A5A5A5A"

text \<open>The part of \<open>zs_malloc\<close> under the lock: take the first free object of a zspage.\<close>

definition take_object :: "nat \<Rightarrow> zpfn \<Rightarrow> zs_pool \<times> zmem \<Rightarrow> (handle \<times> zs_pool \<times> zmem) option" where
  "take_object class_idx first = (\<lambda>(pool, m). do {
     c \<leftarrow> class_at class_idx pool;
     let obj = zp_freelist (zpages m first);
     let (m_page, m_objidx) = obj_handle_to_location obj;
     let m_offset = obj_idx_to_offset m_page m_objidx (sc_size c) m;
     next \<leftarrow> read_link m_page m_offset m;
     let m = upd_page first (\<lambda>d. d\<lparr>zp_freelist := next\<rparr>) m;
     m \<leftarrow> write_link m_page m_offset POISON m;
     let m = upd_page first (\<lambda>d. d\<lparr>zp_inuse := zp_inuse d + 1\<rparr>) m;
     (_, pool, m) \<leftarrow> fix_fullness_group first (pool, m);
     Some (obj, unlock_class class_idx pool, m) })"

definition zs_malloc :: "zsource \<Rightarrow> nat \<Rightarrow> zs_pool \<times> zmem \<Rightarrow> (handle \<times> zs_pool \<times> zmem) option" where
  "zs_malloc src sz = (\<lambda>(pool, m).
     if sz = 0 \<or> sz > ZS_MAX_ALLOC_SIZE then Some (0, pool, m)
     else do {
       let class_idx = get_size_class_index sz;
       c \<leftarrow> class_at class_idx pool;
       if class_idx \<noteq> sc_index c then None
       else do {
         pool \<leftarrow> lock_class class_idx pool;
         let first = find_get_zspage c;
         if first \<noteq> 0 then take_object class_idx first (pool, m)
         else do {
           let pool = unlock_class class_idx pool;
           (first, m) \<leftarrow> alloc_zspage src c m;
           if first = 0 then Some (0, pool, m)
           else do {
             m \<leftarrow> set_zspage_mapping first (sc_index c) ZS_EMPTY m;
             pool \<leftarrow> lock_class class_idx pool;
             let pool = upd_class class_idx
                   (\<lambda>c. c\<lparr>pages_allocated := pages_allocated c + word_of_nat (zspage_order c)\<rparr>) pool;
             take_object class_idx first (pool, m) } } } })"

definition zs_free :: "handle \<Rightarrow> zs_pool \<times> zmem \<Rightarrow> (zs_pool \<times> zmem) option" where
  "zs_free obj = (\<lambda>(pool, m).
     if obj = 0 then Some (pool, m)
     else do {
       let (f_page, f_objidx) = obj_handle_to_location obj;
       let first = get_first_page f_page m;
       (class_idx, _) \<leftarrow> get_zspage_mapping first m;
       c \<leftarrow> class_at class_idx pool;
       let f_offset = obj_idx_to_offset f_page f_objidx (sc_size c) m;
       pool \<leftarrow> lock_class class_idx pool;
       m \<leftarrow> write_link f_page f_offset (zp_freelist (zpages m first)) m;
       let m = upd_page first (\<lambda>d. d\<lparr>zp_freelist := obj\<rparr>) m;
       let m = upd_page first (\<lambda>d. d\<lparr>zp_inuse := zp_inuse d - 1\<rparr>) m;
       (fullness, pool, m) \<leftarrow> fix_fullness_group first (pool, m);
       let pool = (if fullness = ZS_EMPTY
         then upd_class class_idx
           (\<lambda>c. c\<lparr>pages_allocated := pages_allocated c - word_of_nat (zspage_order c)\<rparr>) pool
         else pool);
       let pool = unlock_class class_idx pool;
       m \<leftarrow> (if fullness = ZS_EMPTY then free_zspage first m else Some m);
       Some (pool, m) })"

text \<open>
  The address of a mapped object: where \<open>vm_addr\<close> points, and the offset.  An object that spans two
  pages leaves its class locked until it is unmapped.
\<close>

definition zs_map_object :: "handle \<Rightarrow> zs_pool \<times> zmem \<Rightarrow> ((vm_target \<times> nat) \<times> zs_pool) option" where
  "zs_map_object h = (\<lambda>(pool, m).
     if h = 0 then None
     else do {
       let (p, obj_idx) = obj_handle_to_location h;
       (class_idx, _) \<leftarrow> get_zspage_mapping (get_first_page p m) m;
       c \<leftarrow> class_at class_idx pool;
       let off = obj_idx_to_offset p obj_idx (sc_size c) m;
       if off + sc_size c \<le> PAGE_SIZE
       then Some ((Vm_Kmap p, off), upd_class class_idx (\<lambda>c. c\<lparr>sc_vm_addr := Vm_Kmap p\<rparr>) pool)
       else do {
         let nextp = get_next_page p m;
         if nextp = 0 then None
         else do {
           pool \<leftarrow> lock_class class_idx pool;
           Some ((Vm_Area, off),
             upd_class class_idx (\<lambda>c. c\<lparr>sc_ptes := (p, nextp), sc_vm_addr := Vm_Area\<rparr>) pool) } } })"

definition zs_unmap_object :: "handle \<Rightarrow> zs_pool \<times> zmem \<Rightarrow> zs_pool option" where
  "zs_unmap_object h = (\<lambda>(pool, m).
     if h = 0 then None
     else do {
       let (p, obj_idx) = obj_handle_to_location h;
       (class_idx, _) \<leftarrow> get_zspage_mapping (get_first_page p m) m;
       c \<leftarrow> class_at class_idx pool;
       let off = obj_idx_to_offset p obj_idx (sc_size c) m;
       if off + sc_size c \<le> PAGE_SIZE then Some pool
       else Some (unlock_class class_idx (upd_class class_idx (\<lambda>c. c\<lparr>sc_ptes := (0, 0)\<rparr>) pool)) })"

definition zs_get_total_size_bytes :: "zs_pool \<Rightarrow> u64" where
  "zs_get_total_size_bytes pool = push_bit PAGE_SHIFT (sum_list (map pages_allocated (size_class_of pool)))"

end
