(* ===== verification/Zs_Layout.thy ===== *)
theory Zs_Layout
  imports Zsmalloc
begin

text \<open>
  What \<open>init_zspage\<close> leaves behind: the free list of a new zspage runs through its objects in the
  order of their addresses.  The objects are numbered by page and index; where the code's
  offsets put them is compared with the address \<open>k * size\<close> of the \<open>k\<close>-th object.
\<close>

section \<open>The objects of a zspage\<close>

text \<open>Object \<open>i\<close> of page number \<open>j\<close>, with the page and the offset: \<open>(j, page, i, offset)\<close>.\<close>

type_synonym zobj = "nat \<times> zpfn \<times> nat \<times> nat"

definition objs_on :: "nat \<Rightarrow> nat \<Rightarrow> nat" where
  "objs_on sz off = (let n = (PAGE_SIZE - off) div sz in if off + n * sz < PAGE_SIZE then n + 1 else n)"

definition next_off :: "nat \<Rightarrow> nat \<Rightarrow> nat" where
  "next_off sz off = (off + (PAGE_SIZE - off) div sz * sz + sz) mod PAGE_SIZE"

fun zs_objs :: "nat \<Rightarrow> nat \<Rightarrow> nat \<Rightarrow> zpfn list \<Rightarrow> zobj list" where
  "zs_objs sz j off [] = []"
| "zs_objs sz j off (p # ps) =
     map (\<lambda>i. (j, p, i, off + i * sz)) [0..<objs_on sz off] @ zs_objs sz (Suc j) (next_off sz off) ps"

definition obj_addr :: "zobj \<Rightarrow> nat" where
  "obj_addr = (\<lambda>(j, p, i, off). j * PAGE_SIZE + off)"

definition hnd :: "zpfn \<Rightarrow> nat \<Rightarrow> handle" where
  "hnd p i = push_bit OBJ_INDEX_BITS (word_of_nat p) OR (word_of_nat i AND OBJ_INDEX_MASK)"

lemma hnd_eq: "p \<noteq> 0 \<Longrightarrow> obj_location_to_handle p i = Some (hnd p i)"
  by (simp add: obj_location_to_handle_def hnd_def)

fun linked :: "zmem \<Rightarrow> zobj list \<Rightarrow> handle \<Rightarrow> bool" where
  "linked m [] t = True"
| "linked m ((j, p, i, off) # xs) t =
     (zlinks m (p, off) = (case xs of [] \<Rightarrow> t | (j', p', i', off') # _ \<Rightarrow> hnd p' i') \<and> linked m xs t)"

definition head_hnd :: "zobj list \<Rightarrow> handle \<Rightarrow> handle" where
  "head_hnd xs t = (case xs of [] \<Rightarrow> t | (j, p, i, off) # _ \<Rightarrow> hnd p i)"

lemma linked_append: "linked m (xs @ ys) t \<longleftrightarrow> linked m xs (head_hnd ys t) \<and> linked m ys t"
proof (induction xs)
  case Nil
  then show ?case by simp
next
  case (Cons x xs)
  obtain j p i off where "x = (j, p, i, off)" by (metis prod_cases4)
  with Cons show ?case by (auto simp: head_hnd_def split: list.splits)
qed

lemma linked_cong:
  "(\<And>j p i off. (j, p, i, off) \<in> set xs \<Longrightarrow> zlinks m' (p, off) = zlinks m (p, off)) \<Longrightarrow>
     linked m' xs t = linked m xs t"
proof (induction m xs t rule: linked.induct)
  case (2 m j p i off xs t)
  have "linked m' xs t = linked m xs t" by (rule "2.IH") (use "2.prems" in auto)
  moreover have "zlinks m' (p, off) = zlinks m (p, off)" using "2.prems" by auto
  ultimately show ?case by simp
qed simp

text \<open>A run of objects in one page.\<close>

lemma linked_page:
  "(\<And>i. i < n \<Longrightarrow> zlinks m (p, off + i * sz) = (if Suc i < n then hnd p (a + Suc i) else t)) \<Longrightarrow>
     linked m (map (\<lambda>i. (j, p, a + i, off + i * sz)) [0..<n]) t"
proof (induction n arbitrary: off a)
  case 0
  then show ?case by simp
next
  case (Suc n)
  have split: "map (\<lambda>i. (j, p, a + i, off + i * sz)) [0..<Suc n] =
      (j, p, a, off) # map (\<lambda>i. (j, p, Suc a + i, (off + sz) + i * sz)) [0..<n]"
    by (simp only: upt_conv_Cons [of 0 "Suc n"] map_Suc_upt [symmetric] zero_less_Suc list.map map_map)
      (simp add: comp_def algebra_simps)
  have "linked m (map (\<lambda>i. (j, p, Suc a + i, (off + sz) + i * sz)) [0..<n]) t"
  proof (rule Suc.IH)
    fix i assume "i < n"
    with Suc.prems [of "Suc i"]
    show "zlinks m (p, off + sz + i * sz) = (if Suc i < n then hnd p (Suc a + Suc i) else t)"
      by (simp add: algebra_simps)
  qed
  with Suc.prems [of 0] show ?case unfolding split
    by (cases n) (simp_all add: upt_conv_Cons del: upt_Suc)
qed

section \<open>One page\<close>

lemma link_slot_id: "8 dvd off \<Longrightarrow> link_slot off = off"
  by (simp add: link_slot_def)

lemma write_link_ok:
  assumes "8 dvd off" and "off < PAGE_SIZE"
  shows "write_link p off h m = Some (m\<lparr>zlinks := (zlinks m)((p, off) := h)\<rparr>)"
proof -
  have "off + 8 \<le> 4096" using assms by (auto simp: PAGE_SIZE_def elim!: dvdE)
  with assms show ?thesis by (simp add: write_link_def link_slot_id PAGE_SIZE_def)
qed

text \<open>The links of a page, up to the last object on it.\<close>

lemma init_links_ok:
  assumes "8 dvd off" and "8 dvd sz" and "0 < sz" and "off < PAGE_SIZE" and "off + n * sz \<le> PAGE_SIZE" and "p \<noteq> 0"
  shows "\<exists>m'. init_links p sz i n off off m = Some (off + n * sz,
      (if off + n * sz < PAGE_SIZE then off + n * sz else off + (n - 1) * sz), m')
    \<and> (\<forall>k<n. off + Suc k * sz < PAGE_SIZE \<longrightarrow> zlinks m' (p, off + k * sz) = hnd p (i + k))
    \<and> (\<forall>q o'. q \<noteq> p \<or> o' < off \<longrightarrow> zlinks m' (q, o') = zlinks m (q, o'))
    \<and> zpages m' = zpages m \<and> zused m' = zused m"
  using assms
proof (induction n arbitrary: i off m)
  case 0
  then show ?case by simp
next
  case (Suc n)
  show ?case
  proof (cases "off + sz < PAGE_SIZE")
    case False
    moreover have "off + sz + n * sz \<le> PAGE_SIZE" using Suc.prems(5) by (simp add: algebra_simps)
    ultimately have n: "n * sz = 0" "off + sz = PAGE_SIZE" by linarith+
    then have "n = 0" using Suc.prems(3) by simp
    with n False show ?thesis by simp
  next
    case True
    let ?m = "m\<lparr>zlinks := (zlinks m)((p, off) := hnd p i)\<rparr>"
    have "8 dvd off + sz" "off + sz + n * sz \<le> PAGE_SIZE" using Suc.prems by (simp_all add: algebra_simps)
    from Suc.IH [OF this(1) Suc.prems(2,3) True this(2) Suc.prems(6), of "Suc i" ?m] obtain m' where m':
      "init_links p sz (Suc i) n (off + sz) (off + sz) ?m = Some (off + sz + n * sz,
        (if off + sz + n * sz < PAGE_SIZE then off + sz + n * sz else off + sz + (n - 1) * sz), m')"
      "\<forall>k<n. off + sz + Suc k * sz < PAGE_SIZE \<longrightarrow> zlinks m' (p, off + sz + k * sz) = hnd p (Suc i + k)"
      "\<forall>q o'. q \<noteq> p \<or> o' < off + sz \<longrightarrow> zlinks m' (q, o') = zlinks ?m (q, o')"
      "zpages m' = zpages m" "zused m' = zused m" by auto
    have step: "init_links p sz i (Suc n) off off m = init_links p sz (Suc i) n (off + sz) (off + sz) ?m"
      using True Suc.prems by (simp add: Let_def hnd_eq write_link_ok dvd_div_mult_self)
    have n0: "n = 0 \<Longrightarrow> off + sz < PAGE_SIZE" using True by simp
    have "zlinks m' (p, off + k * sz) = hnd p (i + k)" if "k < Suc n" "off + Suc k * sz < PAGE_SIZE" for k
    proof (cases k)
      case 0
      with m'(3) Suc.prems(3) show ?thesis by simp
    next
      case (Suc k')
      with m'(2) that show ?thesis by (simp add: algebra_simps)
    qed
    moreover have "zlinks m' (q, o') = zlinks m (q, o')" if "q \<noteq> p \<or> o' < off" for q o'
      using m'(3) that by auto
    ultimately show ?thesis
      unfolding step using m'(1,4,5) n0 by (cases n) (auto simp: algebra_simps)
  qed
qed

section \<open>All pages\<close>

definition first_of :: "zpfn list \<Rightarrow> zpfn" where
  "first_of ps = (case ps of [] \<Rightarrow> 0 | p # _ \<Rightarrow> p)"

lemma first_of_simps [simp]: "first_of [] = 0" "first_of (p # ps) = p"
  by (simp_all add: first_of_def)

fun zchain :: "zpfn \<Rightarrow> zpfn list \<Rightarrow> zmem \<Rightarrow> bool" where
  "zchain first [] m = True"
| "zchain first (p # ps) m =
     (p \<noteq> 0 \<and> (is_first_page p m \<longleftrightarrow> p = first) \<and> get_next_page p m = first_of ps \<and> zchain first ps m)"

text \<open>The fields that make the chain.\<close>

definition same_shape :: "zmem \<Rightarrow> zmem \<Rightarrow> bool" where
  "same_shape m m' \<longleftrightarrow> zused m' = zused m \<and> (\<forall>q. \<exists>i. zpages m' q = (zpages m q)\<lparr>zp_index := i\<rparr>)"

lemma same_index [simp]: "\<exists>i. d = d\<lparr>zp_index := i\<rparr>" for d :: zpage
  by (rule exI [of _ "zp_index d"]) simp

lemma same_shape_refl [simp]: "same_shape m m"
  by (simp add: same_shape_def)

lemma same_shape_trans: "same_shape m1 m2 \<Longrightarrow> same_shape m2 m3 \<Longrightarrow> same_shape m1 m3"
  unfolding same_shape_def by (metis zpage.update_convs(6) zpage.surjective)

lemma same_shape_simps:
  assumes "same_shape m m'"
  shows "is_first_page p m' = is_first_page p m" "get_next_page p m' = get_next_page p m"
    "get_first_page p m' = get_first_page p m"
proof -
  obtain i where "zpages m' p = (zpages m p)\<lparr>zp_index := i\<rparr>" using assms by (auto simp: same_shape_def)
  then show "is_first_page p m' = is_first_page p m" "get_next_page p m' = get_next_page p m"
    "get_first_page p m' = get_first_page p m"
    by (simp_all add: is_first_page_def is_last_page_def get_next_page_def get_first_page_def)
qed

lemma zchain_same_shape: "same_shape m m' \<Longrightarrow> zchain first ps m' = zchain first ps m"
  by (induction ps) (simp_all add: same_shape_simps)

lemma same_shape_links [simp]: "same_shape m (m'\<lparr>zlinks := l\<rparr>) = same_shape m m'"
  by (simp add: same_shape_def)

lemma objs_on_pos:
  assumes "off < PAGE_SIZE" and "0 < sz"
  shows "0 < objs_on sz off"
  using assms by (cases "(PAGE_SIZE - off) div sz = 0") (simp_all add: objs_on_def Let_def)

lemma next_off_ok: "8 dvd off \<Longrightarrow> 8 dvd sz \<Longrightarrow> next_off sz off < PAGE_SIZE \<and> 8 dvd next_off sz off"
  by (simp add: next_off_def PAGE_SIZE_def dvd_mod)

text \<open>One page in one step: the index, the links of the page, and the link to the next page.\<close>

lemma init_page_step:
  assumes sz: "8 dvd sz" "0 < sz" and off: "8 dvd off" "off < PAGE_SIZE" "p = first \<Longrightarrow> off = 0"
    and p: "p \<noteq> 0" "is_first_page p m \<longleftrightarrow> p = first" and nxt: "get_next_page p m = q"
  obtains m' where "init_pages first sz p off m = init_pages first sz q (next_off sz off) m'"
    and "same_shape m m'" and "linked m' (map (\<lambda>i. (j, p, i, off + i * sz)) [0..<objs_on sz off]) (if q = 0 then 0 else hnd q 0)"
    and "\<And>q o'. q \<noteq> p \<Longrightarrow> zlinks m' (q, o') = zlinks m (q, o')"
    and "\<And>q. q \<noteq> p \<or> q = first \<Longrightarrow> zpages m' q = zpages m q"
    and "\<And>i. obj_idx_to_offset p i sz m' = off + i * sz"
proof -
  let ?n = "(PAGE_SIZE - off) div sz" and ?c = "objs_on sz off"
  define m1 where "m1 = (if p \<noteq> first then upd_page p (\<lambda>d. d\<lparr>zp_index := off\<rparr>) m else m)"
  have shape1: "same_shape m m1"
    unfolding m1_def same_shape_def upd_page_def
    by auto
  have "(PAGE_SIZE - off) div sz * sz \<le> PAGE_SIZE - off" by simp
  then have "off + ?n * sz \<le> PAGE_SIZE" using off(2) by linarith
  from init_links_ok [OF off(1) sz off(2) this p(1), of 1 m1] obtain m2 where m2:
    "init_links p sz 1 ?n off off m1 = Some (off + ?n * sz,
      (if off + ?n * sz < PAGE_SIZE then off + ?n * sz else off + (?n - 1) * sz), m2)"
    "\<forall>k<?n. off + Suc k * sz < PAGE_SIZE \<longrightarrow> zlinks m2 (p, off + k * sz) = hnd p (1 + k)"
    "\<forall>q o'. q \<noteq> p \<or> o' < off \<longrightarrow> zlinks m2 (q, o') = zlinks m1 (q, o')"
    "zpages m2 = zpages m1" "zused m2 = zused m1" by blast
  have cpos: "0 < ?c" by (rule objs_on_pos [OF off(2) sz(2)])
  have link: "(if off + ?n * sz < PAGE_SIZE then off + ?n * sz else off + (?n - 1) * sz) = off + (?c - 1) * sz"
    by (simp add: objs_on_def Let_def)
  have last: "off + (?c - 1) * sz < PAGE_SIZE"
  proof (cases "off + ?n * sz < PAGE_SIZE")
    case True
    then show ?thesis by (simp add: objs_on_def Let_def)
  next
    case False
    then have "off + ?n * sz = PAGE_SIZE" "?c = ?n" using \<open>off + ?n * sz \<le> PAGE_SIZE\<close> by (auto simp: objs_on_def Let_def)
    then have "off + (?c - 1) * sz + sz = PAGE_SIZE" by (metis Suc_diff_1 add.assoc add.commute cpos mult_Suc)
    then show ?thesis using sz(2) by linarith
  qed
  have dvd: "8 dvd off + (?c - 1) * sz" using off(1) sz(1) by simp
  let ?h = "if q = 0 then 0 else hnd q 0"
  define m3 where "m3 = m2\<lparr>zlinks := (zlinks m2)((p, off + (?c - 1) * sz) := ?h)\<rparr>"
  have shape2: "same_shape m m2"
    using shape1 m2(4,5) by (auto simp: same_shape_def)
  then have shape: "same_shape m m3" by (simp add: m3_def)
  have nx: "get_next_page p m2 = q" using nxt same_shape_simps(2) [OF shape2] by simp
  have hq: "obj_location_to_handle q 0 = Some ?h" by (simp add: hnd_def obj_location_to_handle_def)
  have "init_pages first sz p off m = init_pages first sz q (next_off sz off) m3"
    using p(1) m2(1) nx hq write_link_ok [OF dvd last, of p ?h m2] off(1)
    by (subst init_pages.simps)
      (simp add: m1_def [symmetric] m3_def link link_slot_id next_off_def Let_def split del: if_split)
  moreover have "linked m3 (map (\<lambda>i. (j, p, 0 + i, off + i * sz)) [0..<?c]) ?h"
  proof (rule linked_page)
    fix i assume i: "i < ?c"
    show "zlinks m3 (p, off + i * sz) = (if Suc i < ?c then hnd p (0 + Suc i) else ?h)"
    proof (cases "Suc i < ?c")
      case True
      then have "i < ?n" by (auto simp: objs_on_def Let_def split: if_splits)
      moreover have "Suc i * sz \<le> (?c - 1) * sz" using True by (intro mult_le_mono1) simp
      then have "off + Suc i * sz < PAGE_SIZE" using last by linarith
      moreover have "i * sz \<noteq> (?c - 1) * sz" using True sz(2) by simp
      ultimately show ?thesis using True m2(2) by (simp add: m3_def)
    next
      case False
      with i have "i = ?c - 1" by simp
      then show ?thesis using False by (simp add: m3_def)
    qed
  qed
  then have "linked m3 (map (\<lambda>i. (j, p, i, off + i * sz)) [0..<?c]) ?h" by simp
  moreover have "zlinks m3 (q', o') = zlinks m (q', o')" if "q' \<noteq> p" for q' o'
    using that m2(3) by (simp add: m3_def m1_def upd_page_def)
  moreover have "zpages m3 q' = zpages m q'" if "q' \<noteq> p \<or> q' = first" for q'
    using that m2(4) by (auto simp: m3_def m1_def upd_page_def)
  moreover have "obj_idx_to_offset p i sz m3 = off + i * sz" for i
  proof (cases "p = first")
    case True
    then show ?thesis
      using off(3) p(2) same_shape_simps(1) [OF shape] by (simp add: obj_idx_to_offset_def)
  next
    case False
    then have "zp_index (zpages m3 p) = off" by (simp add: m3_def m2(4) m1_def upd_page_def)
    with False p(2) same_shape_simps(1) [OF shape] show ?thesis by (simp add: obj_idx_to_offset_def)
  qed
  ultimately show thesis using that shape by blast
qed

lemma obj_idx_to_offset_cong:
  "zpages m' p = zpages m p \<Longrightarrow> obj_idx_to_offset p i sz m' = obj_idx_to_offset p i sz m"
  by (simp add: obj_idx_to_offset_def is_first_page_def)

lemma zs_objs_pages: "(k, p, i, o') \<in> set (zs_objs sz j off ps) \<Longrightarrow> p \<in> set ps"
  by (induction sz j off ps rule: zs_objs.induct) auto

lemma init_pages_ok:
  assumes "8 dvd sz" and "0 < sz" and "8 dvd off" and "off < PAGE_SIZE"
    and "zchain first ps m" and "distinct ps" and "first \<notin> set (tl ps)"
    and "ps \<noteq> [] \<and> first_of ps = first \<longrightarrow> off = 0"
  shows "\<exists>m'. init_pages first sz (first_of ps) off m = Some m' \<and> same_shape m m'
    \<and> linked m' (zs_objs sz j off ps) 0
    \<and> (\<forall>q. q \<notin> set ps \<longrightarrow> zpages m' q = zpages m q \<and> (\<forall>o'. zlinks m' (q, o') = zlinks m (q, o')))
    \<and> (\<forall>(k, p, i, o') \<in> set (zs_objs sz j off ps). obj_idx_to_offset p i sz m' = o')"
  using assms(3-)
proof (induction ps arbitrary: off j m)
  case Nil
  then show ?case by (simp add: init_pages.simps)
next
  case (Cons p ps)
  have p: "p \<noteq> 0" "is_first_page p m \<longleftrightarrow> p = first" "get_next_page p m = first_of ps" "zchain first ps m"
    "p = first \<Longrightarrow> off = 0"
    using Cons.prems(3,6) by simp_all
  obtain m1 where m1: "init_pages first sz p off m = init_pages first sz (first_of ps) (next_off sz off) m1"
    "same_shape m m1"
    "linked m1 (map (\<lambda>i. (j, p, i, off + i * sz)) [0..<objs_on sz off]) (if first_of ps = 0 then 0 else hnd (first_of ps) 0)"
    "\<And>q o'. q \<noteq> p \<Longrightarrow> zlinks m1 (q, o') = zlinks m (q, o')"
    "\<And>q. q \<noteq> p \<or> q = first \<Longrightarrow> zpages m1 q = zpages m q"
    "\<And>i. obj_idx_to_offset p i sz m1 = off + i * sz"
    by (rule init_page_step [OF assms(1,2) Cons.prems(1,2) p(5,1,2,3), where j = j]) (assumption, rule that)
  have off': "8 dvd next_off sz off" "next_off sz off < PAGE_SIZE"
    using next_off_ok [OF Cons.prems(1) assms(1)] by simp_all
  have ch: "zchain first ps m1" using p(4) zchain_same_shape [OF m1(2)] by simp
  have nf: "first \<notin> set ps" and np: "p \<notin> set ps" and d: "distinct ps" using Cons.prems(4,5) by simp_all
  have "first \<notin> set (tl ps)" "ps \<noteq> [] \<and> first_of ps = first \<longrightarrow> next_off sz off = 0"
    using nf by (cases ps; simp)+
  from Cons.IH [OF off' ch d this, of "Suc j"] obtain m2 where m2:
    "init_pages first sz (first_of ps) (next_off sz off) m1 = Some m2" "same_shape m1 m2"
    "linked m2 (zs_objs sz (Suc j) (next_off sz off) ps) 0"
    "\<forall>q. q \<notin> set ps \<longrightarrow> zpages m2 q = zpages m1 q \<and> (\<forall>o'. zlinks m2 (q, o') = zlinks m1 (q, o'))"
    "\<forall>(k, p, i, o') \<in> set (zs_objs sz (Suc j) (next_off sz off) ps). obj_idx_to_offset p i sz m2 = o'"
    by blast
  have "head_hnd (zs_objs sz (Suc j) (next_off sz off) ps) 0 = (if first_of ps = 0 then 0 else hnd (first_of ps) 0)"
  proof (cases ps)
    case (Cons q qs)
    moreover have "0 < objs_on sz (next_off sz off)" by (rule objs_on_pos [OF off'(2) assms(2)])
    ultimately show ?thesis using ch by (simp add: head_hnd_def upt_conv_Cons)
  qed (simp add: head_hnd_def)
  moreover have "linked m2 (map (\<lambda>i. (j, p, i, off + i * sz)) [0..<objs_on sz off]) t =
      linked m1 (map (\<lambda>i. (j, p, i, off + i * sz)) [0..<objs_on sz off]) t" for t
    by (rule linked_cong) (use m2(4) np in auto)
  ultimately have "linked m2 (zs_objs sz j off (p # ps)) 0"
    using m1(3) m2(3) by (simp add: linked_append)
  moreover have "\<forall>q. q \<notin> set (p # ps) \<longrightarrow> zpages m2 q = zpages m q \<and> (\<forall>o'. zlinks m2 (q, o') = zlinks m (q, o'))"
    using m2(4) m1(4,5) by simp
  moreover have "obj_idx_to_offset p i sz m2 = off + i * sz" for i
    using obj_idx_to_offset_cong [of m2 p m1] m1(6) m2(4) np by simp
  then have "\<forall>(k, p, i, o') \<in> set (zs_objs sz j off (p # ps)). obj_idx_to_offset p i sz m2 = o'"
    using m2(5) by auto
  ultimately show ?case
    using m1(1) m2(1) same_shape_trans [OF m1(2) m2(2)] by (intro exI [of _ m2]) simp
qed

section \<open>Addresses\<close>

text \<open>
  Seen as one block of memory, the objects are contiguous as long as no page but the last is filled
  exactly: then \<open>next_off\<close> would start the next page one object too late.
\<close>

lemma objs_on_step:
  assumes "off < PAGE_SIZE" and "0 < sz"
  shows "PAGE_SIZE \<le> off + objs_on sz off * sz" and "off + objs_on sz off * sz < PAGE_SIZE + sz"
proof -
  let ?n = "(PAGE_SIZE - off) div sz"
  have "?n * sz \<le> PAGE_SIZE - off" "PAGE_SIZE - off < ?n * sz + sz"
    using assms(2) div_mult_mod_eq [of "PAGE_SIZE - off" sz] mod_less_divisor [of sz "PAGE_SIZE - off"] by linarith+
  then have "off + ?n * sz \<le> PAGE_SIZE" "PAGE_SIZE < off + (?n + 1) * sz"
    using assms(1) unfolding add_mult_distrib by linarith+
  then show "PAGE_SIZE \<le> off + objs_on sz off * sz" "off + objs_on sz off * sz < PAGE_SIZE + sz"
    using assms by (simp_all add: objs_on_def Let_def add_mult_distrib)
qed

lemma next_off_step:
  assumes "off < PAGE_SIZE" and "0 < sz" and "sz \<le> PAGE_SIZE" and "off + objs_on sz off * sz \<noteq> PAGE_SIZE"
  shows "off + objs_on sz off * sz = PAGE_SIZE + next_off sz off"
proof -
  have n: "off + (PAGE_SIZE - off) div sz * sz < PAGE_SIZE"
  proof (rule ccontr)
    assume full: "\<not> off + (PAGE_SIZE - off) div sz * sz < PAGE_SIZE"
    then have "objs_on sz off = (PAGE_SIZE - off) div sz" by (simp add: objs_on_def Let_def)
    moreover have "(PAGE_SIZE - off) div sz * sz \<le> PAGE_SIZE - off" by simp
    then have "off + (PAGE_SIZE - off) div sz * sz \<le> PAGE_SIZE" using assms(1) by linarith
    ultimately show False using assms(4) full by simp
  qed
  then have "off + objs_on sz off * sz = off + (PAGE_SIZE - off) div sz * sz + sz"
    by (simp add: objs_on_def Let_def)
  moreover have "(a :: nat) mod PAGE_SIZE = a - PAGE_SIZE" if "PAGE_SIZE \<le> a" "a < PAGE_SIZE + PAGE_SIZE" for a
    using that by (simp add: mod_if)
  ultimately show ?thesis
    using n assms(3) objs_on_step [OF assms(1,2)] by (simp add: next_off_def)
qed

lemma map_add_upt_nat: "map (\<lambda>i. f (k + i)) [0..<n] = map f [k..<k + n]"
  by (induction n) simp_all

lemma objs_contiguous:
  assumes "0 < sz" and "sz \<le> PAGE_SIZE" and "off < PAGE_SIZE" and "k * sz = j * PAGE_SIZE + off"
    and "\<And>i. j < i \<Longrightarrow> i < j + length ps \<Longrightarrow> \<not> sz dvd i * PAGE_SIZE"
  shows "\<exists>K \<ge> k. map obj_addr (zs_objs sz j off ps) = map (\<lambda>i. i * sz) [k..<K]
    \<and> (ps \<noteq> [] \<longrightarrow> (j + length ps) * PAGE_SIZE \<le> K * sz)"
  using assms(3-)
proof (induction ps arbitrary: j off k)
  case Nil
  then show ?case by (intro exI [of _ k]) simp
next
  case (Cons p ps)
  let ?c = "objs_on sz off"
  have here: "map obj_addr (map (\<lambda>i. (j, p, i, off + i * sz)) [0..<?c]) = map (\<lambda>i. i * sz) [k..<k + ?c]"
    using Cons.prems(2)
    by (simp add: obj_addr_def comp_def map_add_upt_nat [of "\<lambda>i. i * sz" k ?c, symmetric] add_mult_distrib add.assoc)
  have reach: "Suc j * PAGE_SIZE \<le> (k + ?c) * sz"
    using objs_on_step(1) [OF Cons.prems(1) assms(1)] Cons.prems(2) by (simp add: add_mult_distrib)
  show ?case
  proof (cases "ps = []")
    case True
    with here reach show ?thesis by (intro exI [of _ "k + ?c"]) simp
  next
    case False
    have "off + ?c * sz \<noteq> PAGE_SIZE"
    proof
      assume "off + ?c * sz = PAGE_SIZE"
      then have "Suc j * PAGE_SIZE = (k + ?c) * sz" using Cons.prems(2) by (simp add: add_mult_distrib)
      then have "sz dvd Suc j * PAGE_SIZE" by simp
      with Cons.prems(3) [of "Suc j"] False show False by simp
    qed
    from next_off_step [OF Cons.prems(1) assms(1,2) this] Cons.prems(2)
    have nx: "(k + ?c) * sz = Suc j * PAGE_SIZE + next_off sz off" by (simp add: add_mult_distrib)
    have "next_off sz off < PAGE_SIZE" by (simp add: next_off_def PAGE_SIZE_def)
    from Cons.IH [OF this nx] Cons.prems(3)
    obtain K where K: "K \<ge> k + ?c" "map obj_addr (zs_objs sz (Suc j) (next_off sz off) ps) = map (\<lambda>i. i * sz) [k + ?c..<K]"
      "ps \<noteq> [] \<longrightarrow> (Suc j + length ps) * PAGE_SIZE \<le> K * sz"
      by (metis Suc_lessD add_Suc_shift length_Cons)
    have "[k..<K] = [k..<k + ?c] @ [k + ?c..<K]" using K(1) by (metis le_add_diff_inverse upt_add_eq_append le_add1)
    with K here False show ?thesis by (intro exI [of _ K]) simp
  qed
qed

section \<open>The order of a size class\<close>

lemma usedpc_le: "usedpc sz i \<le> 100"
proof (cases "i = 0")
  case False
  have "(i * PAGE_SIZE - i * PAGE_SIZE mod sz) * 100 div (i * PAGE_SIZE) \<le> (i * PAGE_SIZE * 100) div (i * PAGE_SIZE)"
    by (intro div_le_mono mult_le_mono1) simp
  also have "\<dots> = 100" using False by (simp add: PAGE_SIZE_def)
  finally show ?thesis by (simp add: usedpc_def Let_def)
qed (simp add: usedpc_def)

lemma usedpc_full: "0 < i \<Longrightarrow> sz dvd i * PAGE_SIZE \<Longrightarrow> usedpc sz i = 100"
  by (simp add: usedpc_def Let_def PAGE_SIZE_def dvd_imp_mod_0)

lemma order_cases:
  "get_zspage_order sz = order_from sz [1, 2, 3, 4] 0 1"
proof -
  have "[1..<4 + 1] = [1, 2, 3, 4 :: nat]" by (simp add: upt_rec)
  then show ?thesis unfolding get_zspage_order_def max_zspage_order_def by (simp only:)
qed

lemma order_bounds: "1 \<le> get_zspage_order sz" "get_zspage_order sz \<le> 4"
  unfolding order_cases by (simp_all split: if_split)

lemma order_best: "1 \<le> i \<Longrightarrow> i \<le> 4 \<Longrightarrow> usedpc sz i \<le> usedpc sz (get_zspage_order sz)"
proof -
  assume "1 \<le> i" "i \<le> 4"
  then have "i = 1 \<or> i = 2 \<or> i = 3 \<or> i = 4" by linarith
  then show ?thesis unfolding order_cases by auto
qed

lemma order_first: "1 \<le> i \<Longrightarrow> i < get_zspage_order sz \<Longrightarrow> usedpc sz i < usedpc sz (get_zspage_order sz)"
proof -
  assume i: "1 \<le> i" "i < get_zspage_order sz"
  with order_bounds(2) [of sz] have "i = 1 \<or> i = 2 \<or> i = 3" by linarith
  with i(2) show ?thesis unfolding order_cases by (auto split: if_splits)
qed

lemma order_no_tiling:
  assumes "0 < i" and "i < get_zspage_order sz"
  shows "\<not> sz dvd i * PAGE_SIZE"
  using order_first [of i sz] usedpc_full [of i sz] usedpc_le [of sz "get_zspage_order sz"] assms by auto

end
