(* ===== verification/Zs_Zspage.thy ===== *)
theory Zs_Zspage
  imports Zs_Layout
begin

text \<open>
  \<open>alloc_zspage\<close>: the pages it takes form the chain that \<open>get_next_page\<close> walks, and its free list
  visits the objects in the order of their addresses.  The kernel's \<open>alloc_page\<close> is a parameter;
  a page it hands out is unused, has a frame number of \<open>PFN_BITS\<close> bits and no flags set.
\<close>

definition fresh_src :: "zsource \<Rightarrow> bool" where
  "fresh_src src \<longleftrightarrow> (\<forall>m p d. src m = Some (p, d) \<longrightarrow>
     p \<noteq> 0 \<and> p < 2 ^ PFN_BITS \<and> p \<notin> zused m \<and> \<not> pg_private d \<and> \<not> pg_private_2 d)"

section \<open>The chain of pages\<close>

lemma zchain_nth:
  "zchain first ps m \<longleftrightarrow> (\<forall>k<length ps. ps ! k \<noteq> 0 \<and> (is_first_page (ps ! k) m \<longleftrightarrow> ps ! k = first)
     \<and> get_next_page (ps ! k) m = (if Suc k < length ps then ps ! Suc k else 0))"
proof (induction ps)
  case (Cons p ps)
  have "first_of ps = (if 0 < length ps then ps ! 0 else 0)" by (cases ps) simp_all
  with Cons show ?case by (simp add: All_less_Suc2)
qed simp

text \<open>What holds while the pages \<open>ps\<close> have been taken, of \<open>order\<close> pages in all.\<close>

definition taking :: "nat \<Rightarrow> zpfn list \<Rightarrow> zmem \<Rightarrow> zmem \<Rightarrow> bool" where
  "taking order ps m0 m \<longleftrightarrow> distinct ps \<and> set ps \<inter> zused m0 = {} \<and> zused m = zused m0 \<union> set ps \<and> zlinks m = zlinks m0
     \<and> (\<forall>q. q \<notin> set ps \<longrightarrow> zpages m q = zpages m0 q)
     \<and> (\<forall>q \<in> set ps. q \<noteq> 0 \<and> q < 2 ^ PFN_BITS \<and> lru_next (zpages m q) \<in> set ps
          \<and> (pg_private (zpages m q) \<longleftrightarrow> q = hd ps)
          \<and> (pg_private_2 (zpages m q) \<longleftrightarrow> length ps = order \<and> q = last ps)
          \<and> (q \<noteq> hd ps \<longrightarrow> zp_first_page (zpages m q) = hd ps))
     \<and> (ps \<noteq> [] \<longrightarrow> zp_private (zpages m (hd ps)) = (if 2 \<le> length ps then ps ! 1 else 0)
          \<and> lru_next (zpages m (hd ps)) = hd ps \<and> lru_prev (zpages m (hd ps)) = hd ps
          \<and> (\<forall>q \<in> set ps. q \<noteq> hd ps \<longrightarrow> lru_next (zpages m q) \<noteq> hd ps))
     \<and> (\<forall>k. 1 \<le> k \<and> Suc k < length ps \<longrightarrow> lru_next (zpages m (ps ! k)) = ps ! Suc k)"

lemma taking_nil: "taking order [] m m"
  by (simp add: taking_def)

lemma taking_page:
  assumes "taking order ps m0 m" and "q \<in> set ps"
  shows "q \<noteq> 0" "q < 2 ^ PFN_BITS" "lru_next (zpages m q) \<in> set ps"
    "pg_private (zpages m q) \<longleftrightarrow> q = hd ps" "pg_private_2 (zpages m q) \<longleftrightarrow> length ps = order \<and> q = last ps"
    "q \<noteq> hd ps \<Longrightarrow> zp_first_page (zpages m q) = hd ps"
  using assms unfolding taking_def by metis+

lemma taking_zchain:
  assumes "taking order ps m0 m" and "length ps = order"
  shows "zchain (hd ps) ps m"
  unfolding zchain_nth
proof (intro allI impI)
  fix k assume k: "k < length ps"
  then have kp: "ps ! k \<in> set ps" by simp
  have ne: "ps \<noteq> []" using k by auto
  have hd: "ps ! k = hd ps \<longleftrightarrow> k = 0"
    using assms(1) k ne by (simp add: taking_def hd_conv_nth nth_eq_iff_index_eq)
  have last: "ps ! k = last ps \<longleftrightarrow> Suc k = length ps"
    using assms(1) k ne by (auto simp: taking_def last_conv_nth nth_eq_iff_index_eq)
  have "get_next_page (ps ! k) m = (if Suc k < length ps then ps ! Suc k else 0)"
  proof (cases "Suc k < length ps")
    case False
    then have "is_last_page (ps ! k) m" using taking_page(5) [OF assms(1) kp] last k assms(2) by (simp add: is_last_page_def)
    with False show ?thesis by (simp add: get_next_page_def)
  next
    case True
    then have "\<not> is_last_page (ps ! k) m" using kp last assms(1) by (auto simp: is_last_page_def taking_def)
    moreover have "is_first_page (ps ! k) m \<longleftrightarrow> k = 0" using kp hd assms(1) by (auto simp: is_first_page_def taking_def)
    ultimately show ?thesis
      using assms(1) True ne hd by (cases k) (auto simp: get_next_page_def taking_def hd_conv_nth)
  qed
  with kp assms(1) show "ps ! k \<noteq> 0 \<and> is_first_page (ps ! k) m = (ps ! k = hd ps) \<and>
      get_next_page (ps ! k) m = (if Suc k < length ps then ps ! Suc k else 0)"
    by (auto simp: taking_def is_first_page_def)
qed

lemmas lru_defs = init_lru_def lru_add_def lru_insert_def set_next_def set_prev_def

text \<open>The body of the loop, for a page \<open>p\<close>.\<close>

definition add_page :: "nat \<Rightarrow> nat \<Rightarrow> zpfn \<Rightarrow> zpfn \<Rightarrow> zpfn \<Rightarrow> zpage \<Rightarrow> zmem \<Rightarrow> zmem" where
  "add_page order i first prev p d m =
     (let m = take_page p d m;
          m = init_lru p m;
          m = (if i = 0 then upd_page p (\<lambda>d. d\<lparr>pg_private := True, zp_private := 0\<rparr>) m else m);
          m = (if i = 1 then upd_page first (\<lambda>d. d\<lparr>zp_private := p\<rparr>) m else m);
          m = (if i \<ge> 1 then upd_page p (\<lambda>d. d\<lparr>zp_first_page := first\<rparr>) m else m);
          m = (if i \<ge> 2 then lru_add p prev m else m)
      in if i = order - 1 then upd_page p (\<lambda>d. d\<lparr>pg_private_2 := True\<rparr>) m else m)"

lemma alloc_pages_step:
  "src m = Some (p, d) \<Longrightarrow> first' = (if i = 0 then p else first) \<Longrightarrow>
   alloc_pages_from src order (Suc n) i first prev m =
     alloc_pages_from src order n (Suc i) first' p (add_page order i first' prev p d m)"
  by (simp add: Let_def add_page_def)

lemma add_page_0:
  assumes "taking order [] m0 m" and "p \<noteq> 0" "p < 2 ^ PFN_BITS" "p \<notin> zused m" "\<not> pg_private d" "\<not> pg_private_2 d"
    and "0 < order"
  shows "taking order [p] m0 (add_page order 0 p prev p d m)"
  using assms
  by (auto simp: taking_def add_page_def Let_def take_page_def upd_page_def lru_defs)

lemma add_page_1:
  assumes "taking order [first] m0 m" and "p \<noteq> 0" "p < 2 ^ PFN_BITS" "p \<notin> zused m" "\<not> pg_private d" "\<not> pg_private_2 d"
    and "1 < order"
  shows "taking order [first, p] m0 (add_page order 1 first prev p d m)"
  using assms
  by (auto simp: taking_def add_page_def Let_def take_page_def upd_page_def lru_defs)

lemma lru_add_at:
  assumes "p \<noteq> prev" and "p \<noteq> nx" and "nx = lru_next (zpages m prev)"
  shows "zpages (lru_add p prev m) q =
    (if q = p then (zpages m p)\<lparr>lru_prev := prev, lru_next := nx\<rparr>
     else (zpages m q)\<lparr>lru_prev := if q = nx then p else lru_prev (zpages m q),
        lru_next := if q = prev then p else lru_next (zpages m q)\<rparr>)"
  using assms by (simp add: lru_add_def lru_insert_def set_next_def set_prev_def upd_page_def)

lemma lru_add_frame [simp]: "zused (lru_add p prev m) = zused m" "zlinks (lru_add p prev m) = zlinks m"
  by (simp_all add: lru_add_def lru_insert_def set_next_def set_prev_def upd_page_def)

lemma add_page_late:
  "2 \<le> i \<Longrightarrow> add_page order i first prev p d m =
     (let m = lru_add p prev (m\<lparr>zused := insert p (zused m),
            zpages := (zpages m)(p := d\<lparr>lru_next := p, lru_prev := p, zp_first_page := first\<rparr>)\<rparr>)
      in if i = order - 1 then upd_page p (\<lambda>d. d\<lparr>pg_private_2 := True\<rparr>) m else m)"
  by (simp add: add_page_def Let_def take_page_def init_lru_def set_next_def set_prev_def upd_page_def)

lemma add_page_ge2:
  assumes T: "taking order ps m0 m" and len: "2 \<le> length ps" "length ps < order"
    and p: "p \<noteq> 0" "p < 2 ^ PFN_BITS" "p \<notin> zused m" "\<not> pg_private d" "\<not> pg_private_2 d"
  shows "taking order (ps @ [p]) m0 (add_page order (length ps) (hd ps) (last ps) p d m)"
proof -
  let ?m = "add_page order (length ps) (hd ps) (last ps) p d m"
  note m_eq = add_page_late [OF len(1), of order "hd ps" "last ps" p d m]
  have ne: "ps \<noteq> []" using len by auto
  have lastp: "last ps \<in> set ps" "hd ps \<in> set ps" "last ps \<noteq> hd ps"
    using T len ne by (auto simp: taking_def last_conv_nth hd_conv_nth nth_eq_iff_index_eq)
  have pn: "p \<notin> set ps" "p \<notin> zused m0" using T p(3) by (auto simp: taking_def)
  let ?nx = "lru_next (zpages m (last ps))"
  have nx: "?nx \<in> set ps" using T lastp by (simp add: taking_def)
  have pl: "p \<noteq> last ps" "p \<noteq> ?nx" using pn nx lastp by auto
  have nh: "?nx \<noteq> hd ps" "p \<noteq> hd ps" using T lastp ne pn by (auto simp: taking_def)
  have shape: "zused ?m = insert p (zused m)" "zlinks ?m = zlinks m"
    unfolding m_eq by (simp_all add: Let_def upd_page_def)
  have pagep: "pg_private (zpages ?m p) = pg_private d" "zp_first_page (zpages ?m p) = hd ps"
    "lru_next (zpages ?m p) = ?nx" "pg_private_2 (zpages ?m p) \<longleftrightarrow> Suc (length ps) = order"
    unfolding m_eq using pl p(5) len by (auto simp: Let_def upd_page_def lru_add_at [where nx = ?nx])
  have pageq: "zpages ?m q = (zpages m q)\<lparr>lru_prev := if q = ?nx then p else lru_prev (zpages m q),
      lru_next := if q = last ps then p else lru_next (zpages m q)\<rparr>" if "q \<noteq> p" for q
    unfolding m_eq using pl that by (simp add: Let_def upd_page_def lru_add_at [where nx = ?nx])
  have old: "lru_next (zpages ?m q) = (if q = last ps then p else lru_next (zpages m q))"
    "pg_private (zpages ?m q) = pg_private (zpages m q)" "pg_private_2 (zpages ?m q) = pg_private_2 (zpages m q)"
    "zp_first_page (zpages ?m q) = zp_first_page (zpages m q)" "zp_private (zpages ?m q) = zp_private (zpages m q)"
    "q \<noteq> ?nx \<Longrightarrow> lru_prev (zpages ?m q) = lru_prev (zpages m q)"
    if "q \<in> set ps" for q
  proof -
    have "q \<noteq> p" using that pn by auto
    then show "lru_next (zpages ?m q) = (if q = last ps then p else lru_next (zpages m q))"
      "pg_private (zpages ?m q) = pg_private (zpages m q)" "pg_private_2 (zpages ?m q) = pg_private_2 (zpages m q)"
      "zp_first_page (zpages ?m q) = zp_first_page (zpages m q)" "zp_private (zpages ?m q) = zp_private (zpages m q)"
      "q \<noteq> ?nx \<Longrightarrow> lru_prev (zpages ?m q) = lru_prev (zpages m q)"
      by (simp_all add: pageq)
  qed
  have frame: "zpages ?m q = zpages m q" if "q \<notin> set ps" "q \<noteq> p" for q
    using pageq [of q] that nx lastp by auto
  have links: "lru_next (zpages ?m ((ps @ [p]) ! k)) = (ps @ [p]) ! Suc k"
    if "1 \<le> k" "Suc k < length (ps @ [p])" for k
  proof (cases "Suc k = length ps")
    case True
    then have "ps ! k = last ps" using ne by (metis diff_Suc_1 last_conv_nth)
    with True show ?thesis using old(1) lastp by (simp add: nth_append)
  next
    case False
    with that have k: "Suc k < length ps" by simp
    then have "ps ! k \<noteq> last ps" using T ne by (auto simp: taking_def last_conv_nth nth_eq_iff_index_eq)
    then show ?thesis using k that(1) old(1) [of "ps ! k"] T by (simp add: nth_append taking_def)
  qed
  have each: "q \<noteq> 0 \<and> q < 2 ^ PFN_BITS \<and> lru_next (zpages ?m q) \<in> set (ps @ [p])
      \<and> (pg_private (zpages ?m q) \<longleftrightarrow> q = hd ps)
      \<and> (pg_private_2 (zpages ?m q) \<longleftrightarrow> Suc (length ps) = order \<and> q = p)
      \<and> (q \<noteq> hd ps \<longrightarrow> zp_first_page (zpages ?m q) = hd ps)" if "q \<in> set (ps @ [p])" for q
  proof (cases "q = p")
    case True
    then show ?thesis using pagep p nx lastp(2) pn by auto
  next
    case False
    then have q: "q \<in> set ps" using that by simp
    with T len show ?thesis using old [OF q] False by (auto simp: taking_def)
  qed
  have away: "lru_next (zpages ?m q) \<noteq> hd ps" if "q \<in> set (ps @ [p])" "q \<noteq> hd ps" for q
  proof (cases "q = p")
    case False
    then have "q \<in> set ps" using that(1) by simp
    with T that(2) ne nh(2) show ?thesis using old(1) by (auto simp: taking_def)
  qed (use pagep(3) nh(1) in simp)
  have "lru_prev (zpages ?m (hd ps)) = hd ps" using old(6) [OF lastp(2)] nh(1) T ne by (auto simp: taking_def)
  then show ?thesis
    unfolding taking_def
    using away T each links frame shape old [OF lastp(2)] lastp(3) pn p(3) ne len
    by (auto simp: taking_def nth_append hd_append)
qed

lemma add_page_taking:
  assumes T: "taking order ps m0 m" and len: "length ps < order"
    and p: "p \<noteq> 0" "p < 2 ^ PFN_BITS" "p \<notin> zused m" "\<not> pg_private d" "\<not> pg_private_2 d"
  shows "taking order (ps @ [p]) m0 (add_page order (length ps) (hd (ps @ [p])) (last (0 # ps)) p d m)"
proof (cases ps)
  case Nil
  with add_page_0 [OF T [unfolded Nil] p] len show ?thesis by simp
next
  case (Cons a qs)
  show ?thesis
  proof (cases qs)
    case Nil
    with Cons T len have "taking order [a] m0 m" "1 < order" by simp_all
    with add_page_1 [OF this(1) p this(2)] Cons Nil show ?thesis by simp
  next
    case more: (Cons b rs)
    have "2 \<le> length ps" using Cons more by simp
    from add_page_ge2 [OF T this len p] Cons show ?thesis by simp
  qed
qed

text \<open>The pages taken until the request is met, or until \<open>alloc_page\<close> fails.\<close>

lemma alloc_pages_taking:
  assumes "fresh_src src" and "taking order ps m0 m" and "n + length ps = order"
  shows "\<exists>ok ps' m'. alloc_pages_from src order n (length ps) (first_of ps) (last (0 # ps)) m = (ok, first_of ps', m')
    \<and> taking order ps' m0 m' \<and> length ps' \<le> order \<and> (ok \<longleftrightarrow> length ps' = order) \<and> (\<not> ok \<longrightarrow> src m' = None)"
  using assms(2,3)
proof (induction n arbitrary: ps m)
  case 0
  then show ?case by (intro exI [of _ True] exI [of _ ps] exI [of _ m]) simp
next
  case (Suc n)
  show ?case
  proof (cases "src m")
    case None
    with Suc.prems show ?thesis by (intro exI [of _ False] exI [of _ ps] exI [of _ m]) simp
  next
    case (Some r)
    obtain p d where r: "r = (p, d)" by (cases r)
    have p: "p \<noteq> 0" "p < 2 ^ PFN_BITS" "p \<notin> zused m" "\<not> pg_private d" "\<not> pg_private_2 d"
      using assms(1) Some unfolding r fresh_src_def by blast+
    have len: "length ps < order" using Suc.prems(2) by simp
    have first': "first_of (ps @ [p]) = (if length ps = 0 then p else first_of ps)"
      "hd (ps @ [p]) = first_of (ps @ [p])" by (cases ps; simp)+
    have T: "taking order (ps @ [p]) m0 (add_page order (length ps) (first_of (ps @ [p])) (last (0 # ps)) p d m)"
      using add_page_taking [OF Suc.prems(1) len p] first'(2) by simp
    have len': "n + length (ps @ [p]) = order" using Suc.prems(2) by simp
    have "alloc_pages_from src order (Suc n) (length ps) (first_of ps) (last (0 # ps)) m =
        alloc_pages_from src order n (Suc (length ps)) (first_of (ps @ [p])) p
          (add_page order (length ps) (first_of (ps @ [p])) (last (0 # ps)) p d m)"
      by (rule alloc_pages_step) (use Some r first'(1) in simp_all)
    with Suc.IH [OF T len'] show ?thesis by simp
  qed
qed

lemma alloc_pages_ok:
  assumes "fresh_src src"
  obtains ok ps m' where "alloc_pages_from src order order 0 0 0 m = (ok, first_of ps, m')"
    and "taking order ps m m'" and "length ps \<le> order" and "ok \<longleftrightarrow> length ps = order" and "\<not> ok \<Longrightarrow> src m' = None"
  using alloc_pages_taking [OF assms taking_nil [of order m], of order] by auto

section \<open>A new zspage\<close>

text \<open>\<open>ps\<close> are the pages of an empty zspage of class \<open>c\<close> whose free list holds all its objects.\<close>

definition new_zspage :: "size_class \<Rightarrow> zpfn list \<Rightarrow> zmem \<Rightarrow> bool" where
  "new_zspage c ps m \<longleftrightarrow> length ps = zspage_order c \<and> distinct ps \<and> zchain (hd ps) ps m \<and> is_first_page (hd ps) m
     \<and> (\<forall>q \<in> set ps. q < 2 ^ PFN_BITS \<and> get_first_page q m = hd ps)
     \<and> zp_freelist (zpages m (hd ps)) = hnd (hd ps) 0 \<and> zp_inuse (zpages m (hd ps)) = 0
     \<and> unat (zp_objects (zpages m (hd ps))) = zspage_order c * PAGE_SIZE div sc_size c
     \<and> lru_next (zpages m (hd ps)) = hd ps \<and> lru_prev (zpages m (hd ps)) = hd ps
     \<and> linked m (zs_objs (sc_size c) 0 0 ps) 0
     \<and> (\<forall>(k, p, i, off) \<in> set (zs_objs (sc_size c) 0 0 ps). obj_idx_to_offset p i (sc_size c) m = off)"

text \<open>A class as \<open>zs_create_pool\<close> makes it.\<close>

definition class_ok :: "size_class \<Rightarrow> bool" where
  "class_ok c \<longleftrightarrow> 8 dvd sc_size c \<and> 0 < sc_size c \<and> sc_size c \<le> PAGE_SIZE \<and> 32 \<le> sc_size c
     \<and> zspage_order c = get_zspage_order (sc_size c) \<and> sc_index c < ZS_SIZE_CLASSES"

lemma linked_same: "zlinks m' = zlinks m \<Longrightarrow> linked m' xs t = linked m xs t"
  by (rule linked_cong) simp

lemma zchain_cong:
  "(\<And>q. q \<in> set ps \<Longrightarrow> is_first_page q m' = is_first_page q m \<and> get_next_page q m' = get_next_page q m) \<Longrightarrow>
   zchain first ps m' = zchain first ps m"
  by (induction ps) auto

lemma objects_word:
  assumes "class_ok c"
  shows "unat (word_of_nat (zspage_order c * PAGE_SIZE div sc_size c) :: u16) = zspage_order c * PAGE_SIZE div sc_size c"
    and "0 < zspage_order c * PAGE_SIZE div sc_size c"
proof -
  have o: "1 \<le> zspage_order c" "zspage_order c \<le> 4" using assms order_bounds by (simp_all add: class_ok_def)
  have "zspage_order c * PAGE_SIZE div sc_size c \<le> zspage_order c * PAGE_SIZE div 32"
    using assms by (intro div_le_mono2) (simp_all add: class_ok_def)
  also have "\<dots> \<le> 512" using o by (simp add: PAGE_SIZE_def)
  finally show "unat (word_of_nat (zspage_order c * PAGE_SIZE div sc_size c) :: u16) = zspage_order c * PAGE_SIZE div sc_size c"
    by (simp add: unat_of_nat take_bit_nat_eq_self)
  show "0 < zspage_order c * PAGE_SIZE div sc_size c"
  proof -
    have "sc_size c \<le> 1 * PAGE_SIZE" using assms by (simp add: class_ok_def)
    also have "\<dots> \<le> zspage_order c * PAGE_SIZE" using o(1) by (rule mult_le_mono1)
    finally show ?thesis using assms by (simp add: div_greater_zero_iff class_ok_def)
  qed
qed

lemma alloc_zspage_ok:
  assumes src: "fresh_src src" and c: "class_ok c"
    and pages: "alloc_pages_from src (zspage_order c) (zspage_order c) 0 0 0 m = (True, first, m1)"
  obtains ps m' where "alloc_zspage src c m = Some (hd ps, m')" and "new_zspage c ps m'" and "set ps \<inter> zused m = {}"
    and "zused m' = zused m \<union> set ps" and "\<And>q. q \<notin> set ps \<Longrightarrow> zpages m' q = zpages m q \<and> (\<forall>o'. zlinks m' (q, o') = zlinks m (q, o'))"
proof -
  obtain ps where ps: "first = first_of ps" "taking (zspage_order c) ps m m1" "length ps = zspage_order c"
    using alloc_pages_ok [OF src, of "zspage_order c" m] pages by (metis prod.inject)
  have "1 \<le> zspage_order c" using c order_bounds by (simp add: class_ok_def)
  then have ne: "ps \<noteq> []" using ps(3) by auto
  then have first: "first = hd ps" using ps(1) by (cases ps) simp_all
  have hdp: "hd ps \<in> set ps" using ne by simp
  have chain: "zchain first ps m1" using taking_zchain [OF ps(2,3)] first by simp
  have d: "distinct ps" "first \<notin> set (tl ps)" using ps(2) ne unfolding first by (cases ps; simp add: taking_def)+
  have fp: "is_first_page first m1" using taking_page(4) [OF ps(2) hdp] first by (simp add: is_first_page_def)
  have "8 dvd sc_size c" "0 < sc_size c" "(8 :: nat) dvd 0" "0 < PAGE_SIZE" "ps \<noteq> [] \<and> first_of ps = first \<longrightarrow> (0 :: nat) = 0"
    using c by (simp_all add: class_ok_def PAGE_SIZE_def)
  from init_pages_ok [OF this(1-4) chain d this(5), of 0] obtain m2 where m2:
    "init_pages first (sc_size c) first 0 m1 = Some m2" "same_shape m1 m2"
    "linked m2 (zs_objs (sc_size c) 0 0 ps) 0"
    "\<forall>q. q \<notin> set ps \<longrightarrow> zpages m2 q = zpages m1 q \<and> (\<forall>o'. zlinks m2 (q, o') = zlinks m1 (q, o'))"
    "\<forall>(k, p, i, o') \<in> set (zs_objs (sc_size c) 0 0 ps). obj_idx_to_offset p i (sc_size c) m2 = o'"
    unfolding ps(1) [symmetric] by blast
  let ?f = "\<lambda>d. d\<lparr>zp_freelist := hnd first 0, zp_inuse := 0,
             zp_objects := word_of_nat (zspage_order c * PAGE_SIZE div sc_size c)\<rparr>"
  define m3 where "m3 = upd_page first ?f m2"
  have fields: "zp_freelist (zpages m3 first) = hnd first 0" "zp_inuse (zpages m3 first) = 0"
    "zp_objects (zpages m3 first) = word_of_nat (zspage_order c * PAGE_SIZE div sc_size c)"
    "zlinks m3 = zlinks m2" by (simp_all add: m3_def upd_page_def)
  have first0: "first \<noteq> 0" using chain ne first by (cases ps) simp_all
  have run: "alloc_zspage src c m = Some (hd ps, m3)"
    using pages fp m2(1) first0 by (simp add: alloc_zspage_def init_zspage_def hnd_eq first [symmetric] m3_def)
  have shape: "is_first_page q m3 = is_first_page q m1" "get_next_page q m3 = get_next_page q m1"
    "get_first_page q m3 = get_first_page q m1" "lru_next (zpages m3 q) = lru_next (zpages m1 q)"
    "lru_prev (zpages m3 q) = lru_prev (zpages m1 q)" for q
  proof -
    have "is_first_page q m3 = is_first_page q m2" "get_next_page q m3 = get_next_page q m2"
      "get_first_page q m3 = get_first_page q m2" "lru_next (zpages m3 q) = lru_next (zpages m2 q)"
      "lru_prev (zpages m3 q) = lru_prev (zpages m2 q)"
      by (auto simp: is_first_page_def is_last_page_def get_next_page_def get_first_page_def upd_page_def m3_def)
    moreover obtain i where "zpages m2 q = (zpages m1 q)\<lparr>zp_index := i\<rparr>" using m2(2) unfolding same_shape_def by metis
    then have "lru_next (zpages m2 q) = lru_next (zpages m1 q)" "lru_prev (zpages m2 q) = lru_prev (zpages m1 q)" by simp_all
    ultimately show "is_first_page q m3 = is_first_page q m1" "get_next_page q m3 = get_next_page q m1"
      "get_first_page q m3 = get_first_page q m1" "lru_next (zpages m3 q) = lru_next (zpages m1 q)"
      "lru_prev (zpages m3 q) = lru_prev (zpages m1 q)"
      using same_shape_simps [OF m2(2)] by simp_all
  qed
  have "get_first_page q m1 = hd ps" if "q \<in> set ps" for q
    using taking_page(4,6) [OF ps(2) that] by (auto simp: get_first_page_def is_first_page_def)
  moreover have "obj_idx_to_offset p i (sc_size c) m3 = obj_idx_to_offset p i (sc_size c) m2" for p i
    by (simp add: obj_idx_to_offset_def is_first_page_def upd_page_def m3_def)
  moreover have "lru_next (zpages m1 (hd ps)) = hd ps" "lru_prev (zpages m1 (hd ps)) = hd ps" using ps(2) ne by (simp_all add: taking_def)
  ultimately have "new_zspage c ps m3"
    using ps(3) d(1) chain fp first m2(3,5) taking_page(2) [OF ps(2)] objects_word(1) [OF c]
      zchain_cong [of ps m3 m1 first] linked_same [of m3 m2, OF fields(4)] shape fields
    unfolding new_zspage_def by auto
  moreover have "set ps \<inter> zused m = {}" "zused m3 = zused m \<union> set ps"
    using ps(2) m2(2) by (simp_all add: taking_def same_shape_def upd_page_def m3_def)
  moreover have "zpages m3 q = zpages m q \<and> (\<forall>o'. zlinks m3 (q, o') = zlinks m (q, o'))" if "q \<notin> set ps" for q
    using that m2(4) ps(2) hdp first by (auto simp: taking_def upd_page_def m3_def)
  ultimately show thesis using that run by blast
qed

end
