(* ===== verification/Zs_Cycle.thy ===== *)
theory Zs_Cycle
  imports Zs_Zspage
begin

text \<open>
  The encodings of handles and of the mapping word lose nothing, and with them one object's life:
  \<open>zs_malloc\<close> in a class without zspages followed by \<open>zs_free\<close>, step by step.
\<close>

unbundle bit_operations_syntax

section \<open>Encodings\<close>

lemma index_mask: "OBJ_INDEX_MASK = mask 30"
  by (simp add: zs_encoding mask_eq_exp_minus_1)

lemma class_mask: "CLASS_IDX_MASK = mask 28"
  by (simp add: zs_encoding mask_eq_exp_minus_1)

lemma index_bits: "OBJ_INDEX_BITS = 30" and pfn_bits: "PFN_BITS = 34"
  by (simp_all add: zs_encoding)

lemma hnd_location:
  assumes "p < 2 ^ PFN_BITS" and "i < 2 ^ OBJ_INDEX_BITS"
  shows "obj_handle_to_location (hnd p i) = (p, i)"
proof -
  have p: "take_bit 34 (word_of_nat p :: ulong) = word_of_nat p" using assms(1) by (intro take_bit_word_of_nat) (simp add: pfn_bits)
  have i: "(word_of_nat i :: ulong) AND mask 30 = word_of_nat i"
    using take_bit_word_of_nat [of i 30, where 'a = 64] assms(2) by (simp add: index_bits take_bit_eq_mask [symmetric])
  have "unat (word_of_nat p :: ulong) = p" "unat (word_of_nat i :: ulong) = i"
    using assms by (simp_all add: pfn_bits index_bits unat_of_nat take_bit_nat_eq_self)
  then show ?thesis
    using word_pack [OF p, of 30 "word_of_nat i"] by (simp add: obj_handle_to_location_def hnd_def index_mask index_bits i)
qed

lemma hnd_nonzero: "p \<noteq> 0 \<Longrightarrow> p < 2 ^ PFN_BITS \<Longrightarrow> hnd p i \<noteq> 0"
proof
  assume p: "p \<noteq> 0" "p < 2 ^ PFN_BITS" and "hnd p i = 0"
  then have "drop_bit 30 (push_bit 30 (word_of_nat p) OR (word_of_nat i AND mask 30)) = (0 :: ulong)"
    by (simp add: hnd_def index_mask index_bits)
  moreover have "take_bit 34 (word_of_nat p :: ulong) = word_of_nat p" using p(2) by (intro take_bit_word_of_nat) (simp add: pfn_bits)
  ultimately have "(word_of_nat p :: ulong) = 0" using word_pack(1) [of 34 "word_of_nat p" 30 "word_of_nat i"] by simp
  then have "unat (word_of_nat p :: ulong) = 0" by simp
  then show False using p by (simp add: pfn_bits unat_of_nat take_bit_nat_eq_self)
qed

lemma fg_of_nr: "fg_of (word_of_nat (fg_nr fg)) = Some fg"
  by (cases fg) (simp_all add: fg_of_def)

lemma mapping_word:
  fixes c f :: u32
  assumes "f AND FULLNESS_MASK = f" and "c AND CLASS_IDX_MASK = c"
  shows "ucast (push_bit FULLNESS_BITS (c AND CLASS_IDX_MASK) OR (f AND FULLNESS_MASK)) AND (ucast FULLNESS_MASK :: ulong) = ucast f"
    and "drop_bit FULLNESS_BITS (ucast (push_bit FULLNESS_BITS (c AND CLASS_IDX_MASK) OR (f AND FULLNESS_MASK)))
           AND (ucast CLASS_IDX_MASK :: ulong) = ucast c"
proof -
  have masks: "FULLNESS_MASK = mask 4" "CLASS_IDX_MASK = mask 28" "(ucast FULLNESS_MASK :: ulong) = mask 4"
    "(ucast CLASS_IDX_MASK :: ulong) = mask 28"
    by (simp_all add: zs_encoding mask_eq_exp_minus_1)
  have f: "bit f n \<Longrightarrow> n < 4" and c: "bit c n \<Longrightarrow> n < 28" for n
    using assms unfolding masks by (metis bit_and_iff bit_mask_iff)+
  show "ucast (push_bit FULLNESS_BITS (c AND CLASS_IDX_MASK) OR (f AND FULLNESS_MASK)) AND (ucast FULLNESS_MASK :: ulong) = ucast f"
    unfolding assms masks(3) FULLNESS_BITS_def by (rule bit_word_eqI) (auto simp: bit_simps dest: f)
  show "drop_bit FULLNESS_BITS (ucast (push_bit FULLNESS_BITS (c AND CLASS_IDX_MASK) OR (f AND FULLNESS_MASK)))
           AND (ucast CLASS_IDX_MASK :: ulong) = ucast c"
    unfolding assms masks(4) FULLNESS_BITS_def by (rule bit_word_eqI) (auto simp: bit_simps dest: f c)
qed

lemma mapping_roundtrip:
  assumes "is_first_page p m" and "ci < 2 ^ CLASS_IDX_BITS"
  shows "\<exists>m'. set_zspage_mapping p ci fg m = Some m' \<and> get_zspage_mapping p m' = Some (ci, fg)
    \<and> (\<exists>v. m' = upd_page p (\<lambda>d. d\<lparr>zp_mapping := v\<rparr>) m)"
proof -
  have c: "(word_of_nat ci :: u32) AND CLASS_IDX_MASK = word_of_nat ci"
    using take_bit_word_of_nat [of ci 28, where 'a = 32] assms(2)
    unfolding class_mask CLASS_IDX_BITS_def take_bit_eq_mask .
  have f: "(word_of_nat (fg_nr fg) :: u32) AND FULLNESS_MASK = word_of_nat (fg_nr fg)"
    by (cases fg) (simp_all add: zs_encoding)
  have uf: "ucast (word_of_nat (fg_nr fg) :: u32) = (word_of_nat (fg_nr fg) :: ulong)"
    by (cases fg) simp_all
  have uc: "unat (ucast (word_of_nat ci :: u32) :: ulong) = ci"
    using assms(2) by (simp add: CLASS_IDX_BITS_def unsigned_ucast_eq unat_of_nat take_bit_nat_eq_self)
  from mapping_word [OF f c] assms(1) show ?thesis
    by (auto simp: set_zspage_mapping_def get_zspage_mapping_def upd_page_def is_first_page_def Let_def uf uc fg_of_nr)
qed

section \<open>One class of a pool\<close>

lemma upd_class_at:
  "class_at i pool = Some c \<Longrightarrow> class_at i (upd_class i f pool) = Some (f c)"
  "class_at i pool = Some c \<Longrightarrow> upd_class i g (upd_class i f pool) = upd_class i (\<lambda>_. g (f c)) pool"
  "class_at i pool = Some c \<Longrightarrow> upd_class i (\<lambda>_. c) pool = pool"
  "class_at i pool = Some c \<Longrightarrow> upd_class i f pool = upd_class i (\<lambda>_. f c) pool"
  by (auto simp: class_at_def upd_class_def split: if_splits)

lemma lock_class_at:
  "class_at i pool = Some c \<Longrightarrow> \<not> sc_locked c \<Longrightarrow> lock_class i pool = Some (upd_class i (\<lambda>_. c\<lparr>sc_locked := True\<rparr>) pool)"
  using upd_class_at(4) [of i pool c "\<lambda>c. c\<lparr>sc_locked := True\<rparr>"] by (simp add: lock_class_def)

lemma unlock_class_at:
  "class_at i pool = Some c \<Longrightarrow> unlock_class i pool = upd_class i (\<lambda>_. c\<lparr>sc_locked := False\<rparr>) pool"
  unfolding unlock_class_def by (rule upd_class_at(4))

section \<open>The first object of a new zspage\<close>

text \<open>The fullness group of a zspage with one object in use, and the class that keeps it.\<close>

definition one_used :: "nat \<Rightarrow> fullness_group" where
  "one_used n = (if n = 1 then ZS_FULL else if 1 \<le> n div fullness_threshold_frac then ZS_ALMOST_EMPTY else ZS_ALMOST_FULL)"

lemma one_used_group: "one_used n \<noteq> ZS_EMPTY" "one_used n \<noteq> NR_FULLNESS_GROUPS"
  by (simp_all add: one_used_def)

definition filed :: "zpfn \<Rightarrow> fullness_group \<Rightarrow> size_class \<Rightarrow> size_class" where
  "filed p fg c = (if fg = ZS_FULL then c else c\<lparr>fullness_list := (fullness_list c)[fg_nr fg := p]\<rparr>)"

lemma filed_simps [simp]:
  "sc_size (filed p fg c) = sc_size c" "sc_index (filed p fg c) = sc_index c" "zspage_order (filed p fg c) = zspage_order c"
  "sc_locked (filed p fg c) = sc_locked c" "pages_allocated (filed p fg c) = pages_allocated c"
  by (simp_all add: filed_def)

lemma fg_ge_NR: "fg \<ge> NR_FULLNESS_GROUPS \<longleftrightarrow> fg = NR_FULLNESS_GROUPS \<or> fg = ZS_EMPTY \<or> fg = ZS_FULL"
  by (cases fg) (simp_all add: less_eq_fullness_group_def)

lemma insert_zspage_first:
  assumes "is_first_page p m" and "fullness_list c = [0, 0]" and "fg \<noteq> ZS_EMPTY" and "fg \<noteq> NR_FULLNESS_GROUPS"
  shows "insert_zspage p c fg m = Some (filed p fg c, m)"
  using assms by (cases fg) (simp_all add: insert_zspage_def filed_def fg_ge_NR less_eq_fullness_group_def)

text \<open>Locations in the first page of a zspage start at offset 0.\<close>

lemma first_page_offset: "is_first_page p m \<Longrightarrow> obj_idx_to_offset p 0 sz m = 0"
  by (simp add: obj_idx_to_offset_def)

lemma link_at_0: "write_link p 0 h m = Some (m\<lparr>zlinks := (zlinks m)((p, 0) := h)\<rparr>)" "read_link p 0 m = Some (zlinks m (p, 0))"
  by (simp_all add: write_link_def read_link_def link_slot_def PAGE_SIZE_def)

lemma take_first_object:
  assumes c: "class_at ci pool = Some c" "sc_locked c" "fullness_list c = [0, 0]" and ci: "ci < 2 ^ CLASS_IDX_BITS"
    and p: "is_first_page p m" "p \<noteq> 0" "p < 2 ^ PFN_BITS" "zp_freelist (zpages m p) = hnd p 0" "zp_inuse (zpages m p) = 0"
    and n: "unat (zp_objects (zpages m p)) = n" "0 < n"
    and map: "get_zspage_mapping p m = Some (ci, ZS_EMPTY)"
  shows "\<exists>m'. take_object ci p (pool, m) =
      Some (hnd p 0, upd_class ci (\<lambda>_. (filed p (one_used n) c)\<lparr>sc_locked := False\<rparr>) pool, m')
    \<and> get_zspage_mapping p m' = Some (ci, one_used n) \<and> is_first_page p m' \<and> zp_inuse (zpages m' p) = 1
    \<and> zused m' = zused m \<and> (\<forall>q. lru_next (zpages m' q) = lru_next (zpages m q) \<and> zp_private (zpages m' q) = zp_private (zpages m q))
    \<and> (\<forall>q. q \<noteq> p \<longrightarrow> zpages m' q = zpages m q)"
proof -
  have loc: "obj_handle_to_location (hnd p 0) = (p, 0)" using p(3) by (rule hnd_location) simp
  define m1 where "m1 = upd_page p (\<lambda>d. d\<lparr>zp_inuse := zp_inuse d + 1\<rparr>)
    ((upd_page p (\<lambda>d. d\<lparr>zp_freelist := zlinks m (p, 0)\<rparr>) m)\<lparr>zlinks := (zlinks m)((p, 0) := POISON)\<rparr>)"
  have m1: "is_first_page p m1" "zp_inuse (zpages m1 p) = 1" "zp_objects (zpages m1 p) = zp_objects (zpages m p)"
    "zused m1 = zused m" "get_zspage_mapping p m1 = Some (ci, ZS_EMPTY)"
    "lru_next (zpages m1 q) = lru_next (zpages m q)" "zp_private (zpages m1 q) = zp_private (zpages m q)"
    "q \<noteq> p \<Longrightarrow> zpages m1 q = zpages m q" for q
    using p(1,5) map by (simp_all add: m1_def upd_page_def is_first_page_def get_zspage_mapping_def)
  have group: "get_fullness_group p m1 = Some (one_used n)"
    using m1(1-3) n by (auto simp: get_fullness_group_def one_used_def Let_def)
  obtain m2 v where m2: "set_zspage_mapping p ci (one_used n) m1 = Some m2" "get_zspage_mapping p m2 = Some (ci, one_used n)"
    "m2 = upd_page p (\<lambda>d. d\<lparr>zp_mapping := v\<rparr>) m1"
    using mapping_roundtrip [OF m1(1) ci] by blast
  have fix': "fix_fullness_group p (pool, m1) = Some (one_used n, upd_class ci (\<lambda>_. filed p (one_used n) c) pool, m2)"
    using m1(1,5) group c(1) m2(1) one_used_group [of n] insert_zspage_first [OF m1(1) c(3), of "one_used n"]
    by (simp add: fix_fullness_group_def remove_zspage_def fg_ge_NR)
  have "class_at ci (upd_class ci (\<lambda>_. filed p (one_used n) c) pool) = Some (filed p (one_used n) c)"
    using c(1) by (rule upd_class_at(1))
  from unlock_class_at [OF this] have unlock: "unlock_class ci (upd_class ci (\<lambda>_. filed p (one_used n) c) pool) =
      upd_class ci (\<lambda>_. (filed p (one_used n) c)\<lparr>sc_locked := False\<rparr>) pool"
    using c(1) by (simp add: upd_class_at(2))
  have "take_object ci p (pool, m) = Some (hnd p 0, upd_class ci (\<lambda>_. (filed p (one_used n) c)\<lparr>sc_locked := False\<rparr>) pool, m2)"
    unfolding take_object_def using c(1) p(1,4) loc fix' unlock
    by (simp add: Let_def first_page_offset link_at_0 m1_def upd_page_def)
  moreover have "is_first_page p m2" "zp_inuse (zpages m2 p) = 1" "zused m2 = zused m"
    using m1 by (simp_all add: m2(3) upd_page_def is_first_page_def)
  moreover have "lru_next (zpages m2 q) = lru_next (zpages m q)" "zp_private (zpages m2 q) = zp_private (zpages m q)"
    "q \<noteq> p \<Longrightarrow> zpages m2 q = zpages m q" for q
    using m1(6-8) by (simp_all add: m2(3) upd_page_def)
  ultimately show ?thesis using m2(2) by blast
qed

text \<open>\<open>zs_malloc\<close> in a class without zspages.\<close>

lemma zs_malloc_new:
  assumes sz: "0 < sz" "sz \<le> ZS_MAX_ALLOC_SIZE" and ci: "ci = get_size_class_index sz" "ci < 2 ^ CLASS_IDX_BITS"
    and c: "class_at ci pool = Some c" "class_ok c" "sc_index c = ci" "\<not> sc_locked c" "fullness_list c = [0, 0]"
    and src: "fresh_src src" and pages: "alloc_pages_from src (zspage_order c) (zspage_order c) 0 0 0 m = (True, first, m1)"
  defines "n \<equiv> zspage_order c * PAGE_SIZE div sc_size c"
  obtains p ps m' where "zs_malloc src sz (pool, m) = Some (hnd p 0, upd_class ci (\<lambda>_. filed p (one_used n)
        (c\<lparr>pages_allocated := pages_allocated c + word_of_nat (zspage_order c)\<rparr>)) pool, m')"
    and "get_zspage_mapping p m' = Some (ci, one_used n)" and "is_first_page p m'" and "zp_inuse (zpages m' p) = 1"
    and "zused m' = zused m \<union> set ps" and "set ps \<inter> zused m = {}" and "distinct ps" and "length ps = zspage_order c"
    and "p = hd ps" and "p \<noteq> 0" and "p < 2 ^ PFN_BITS" and "lru_next (zpages m' p) = p"
proof -
  obtain ps m2 where m2: "alloc_zspage src c m = Some (hd ps, m2)" "new_zspage c ps m2" "set ps \<inter> zused m = {}"
    "zused m2 = zused m \<union> set ps"
    using alloc_zspage_ok [OF src c(2) pages] by metis
  let ?p = "hd ps"
  have ne: "ps \<noteq> []" using m2(2) c(2) order_bounds(1) [of "sc_size c"] by (auto simp: new_zspage_def class_ok_def)
  have p: "is_first_page ?p m2" "?p \<noteq> 0" "?p < 2 ^ PFN_BITS" "zp_freelist (zpages m2 ?p) = hnd ?p 0" "zp_inuse (zpages m2 ?p) = 0"
    "unat (zp_objects (zpages m2 ?p)) = n" "lru_next (zpages m2 ?p) = ?p"
    using m2(2) ne unfolding new_zspage_def n_def by (cases ps; simp)+
  obtain m3 v where m3: "set_zspage_mapping ?p ci ZS_EMPTY m2 = Some m3" "get_zspage_mapping ?p m3 = Some (ci, ZS_EMPTY)"
    "m3 = upd_page ?p (\<lambda>d. d\<lparr>zp_mapping := v\<rparr>) m2"
    using mapping_roundtrip [OF p(1) ci(2)] by blast
  let ?c = "c\<lparr>sc_locked := True, pages_allocated := pages_allocated c + word_of_nat (zspage_order c)\<rparr>"
  let ?pool = "upd_class ci (\<lambda>_. ?c) pool"
  have at: "class_at ci ?pool = Some ?c" using c(1) by (rule upd_class_at(1))
  have n: "0 < n" unfolding n_def using c(2) by (rule objects_word(2))
  obtain m' where m': "take_object ci ?p (?pool, m3) = Some (hnd ?p 0, upd_class ci (\<lambda>_. (filed ?p (one_used n) ?c)\<lparr>sc_locked := False\<rparr>) ?pool, m')"
    "get_zspage_mapping ?p m' = Some (ci, one_used n)" "is_first_page ?p m'" "zp_inuse (zpages m' ?p) = 1"
    "zused m' = zused m3" "lru_next (zpages m' ?p) = lru_next (zpages m3 ?p)"
    using take_first_object [OF at _ _ ci(2) _ p(2,3) _ _ _ n m3(2)] p c(5)
    by (auto simp: m3(3) upd_page_def is_first_page_def)
  have final: "upd_class ci (\<lambda>_. (filed ?p (one_used n) ?c)\<lparr>sc_locked := False\<rparr>) ?pool = upd_class ci (\<lambda>_. filed ?p (one_used n)
        (c\<lparr>pages_allocated := pages_allocated c + word_of_nat (zspage_order c)\<rparr>)) pool"
    using c(1,4) by (cases c) (simp add: upd_class_at(2) filed_def)
  have "unlock_class ci (upd_class ci (\<lambda>_. c\<lparr>sc_locked := True\<rparr>) pool) = pool"
    using c(1,4) upd_class_at(3) [OF c(1)] by (cases c) (simp add: unlock_class_def upd_class_at(2) upd_class_at(1))
  moreover have "upd_class ci (\<lambda>c. c\<lparr>pages_allocated := pages_allocated c + word_of_nat (zspage_order c)\<rparr>)
      (upd_class ci (\<lambda>_. c\<lparr>sc_locked := True\<rparr>) pool) = ?pool"
    using c(1) by (simp add: upd_class_at(2))
  ultimately have run: "zs_malloc src sz (pool, m) = Some (hnd ?p 0, upd_class ci (\<lambda>_. filed ?p (one_used n)
        (c\<lparr>pages_allocated := pages_allocated c + word_of_nat (zspage_order c)\<rparr>)) pool, m')"
    using sz c lock_class_at [OF c(1,4)] m2(1) m3(1) m'(1) p(2)
    by (simp add: zs_malloc_def find_get_zspage_def final ci(1) [symmetric] Let_def)
  have tail: "lru_next (zpages m' ?p) = ?p" "zused m' = zused m \<union> set ps" "distinct ps" "length ps = zspage_order c"
    using m'(5,6) m2(2,4) p(7) by (simp_all add: m3(3) upd_page_def new_zspage_def)
  show thesis
    by (rule that [of ?p m' ps, OF run m'(2-4) tail(2) m2(3) tail(3,4) refl p(2,3) tail(1)])
qed

text \<open>\<open>list_for_each_entry_safe\<close> in \<open>free_zspage\<close> ends at once.\<close>

lemma free_sub_loop_stops: "free_sub_loop p tmp m = Some m"
  by (subst free_sub_loop.simps) simp

lemma free_zspage_frees_first:
  assumes "is_first_page p m" and "zp_inuse (zpages m p) = 0"
  shows "\<exists>m'. free_zspage p m = Some m' \<and> zused m' = zused m - {p}"
  using assms by (simp add: free_zspage_def free_sub_loop_stops Let_def upd_page_def give_page_def)

lemma remove_zspage_only:
  assumes "is_first_page p m" and "lru_next (zpages m p) = p" and "p \<noteq> 0" and "fullness_list c = [0, 0]"
    and "fg \<noteq> ZS_EMPTY" and "fg \<noteq> NR_FULLNESS_GROUPS"
  shows "\<exists>m'. remove_zspage p (filed p fg c) fg m = Some (c, m') \<and> zused m' = zused m
    \<and> is_first_page p m' \<and> zp_inuse (zpages m' p) = zp_inuse (zpages m p)"
proof (cases "fg = ZS_FULL")
  case True
  with assms show ?thesis by (simp add: remove_zspage_def filed_def fg_ge_NR)
next
  case False
  then have group: "\<not> fg \<ge> NR_FULLNESS_GROUPS" using assms(5,6) by (simp add: fg_ge_NR)
  have "fullness_list (filed p fg c) ! fg_nr fg = p"
    and "(filed p fg c)\<lparr>fullness_list := (fullness_list (filed p fg c))[fg_nr fg := 0]\<rparr> = c"
    using False assms(4-6) by (cases fg; cases c; simp add: filed_def)+
  with group assms(1-3) show ?thesis
    by (simp add: remove_zspage_def lru_empty_def lru_del_init_def lru_del_def lru_defs upd_page_def is_first_page_def Let_def)
qed

text \<open>\<open>zs_free\<close> of the only object of a zspage: the class is as before, the first page is returned.\<close>

lemma zs_free_last:
  assumes c: "class_at ci pool = Some c" "\<not> sc_locked c" "fullness_list c = [0, 0]" and ci: "ci < 2 ^ CLASS_IDX_BITS"
    and p: "is_first_page p m" "p \<noteq> 0" "p < 2 ^ PFN_BITS" "zp_inuse (zpages m p) = 1" "lru_next (zpages m p) = p"
    and map: "get_zspage_mapping p m = Some (ci, one_used n)"
  shows "\<exists>m'. zs_free (hnd p 0) (upd_class ci (\<lambda>_. filed p (one_used n) c) pool, m) =
      Some (upd_class ci (\<lambda>_. c\<lparr>pages_allocated := pages_allocated c - word_of_nat (zspage_order c)\<rparr>) pool, m')
    \<and> zused m' = zused m - {p}"
proof -
  let ?fg = "one_used n" and ?c = "filed p (one_used n) c"
  let ?pool = "upd_class ci (\<lambda>_. ?c) pool"
  let ?lc = "filed p (one_used n) (c\<lparr>sc_locked := True\<rparr>)"
  have loc: "obj_handle_to_location (hnd p 0) = (p, 0)" using p(3) by (rule hnd_location) simp
  have at: "class_at ci ?pool = Some ?c" using c(1) by (rule upd_class_at(1))
  have lc: "?c\<lparr>sc_locked := True\<rparr> = ?lc" by (simp add: filed_def)
  have lock: "lock_class ci ?pool = Some (upd_class ci (\<lambda>_. ?lc) pool)"
    using lock_class_at [OF at] c(1,2) by (simp add: upd_class_at(2) lc)
  define m1 where "m1 = upd_page p (\<lambda>d. d\<lparr>zp_inuse := zp_inuse d - 1\<rparr>)
    (upd_page p (\<lambda>d. d\<lparr>zp_freelist := hnd p 0\<rparr>) (m\<lparr>zlinks := (zlinks m)((p, 0) := zp_freelist (zpages m p))\<rparr>))"
  have m1: "is_first_page p m1" "zp_inuse (zpages m1 p) = 0" "zused m1 = zused m" "lru_next (zpages m1 p) = p"
    "get_zspage_mapping p m1 = Some (ci, ?fg)"
    using p map by (simp_all add: m1_def upd_page_def is_first_page_def get_zspage_mapping_def)
  have group: "get_fullness_group p m1 = Some ZS_EMPTY" using m1(1,2) by (simp add: get_fullness_group_def)
  obtain m2 where m2: "remove_zspage p ?lc ?fg m1 = Some (c\<lparr>sc_locked := True\<rparr>, m2)" "zused m2 = zused m1"
    "is_first_page p m2" "zp_inuse (zpages m2 p) = 0"
    using remove_zspage_only [OF m1(1,4) p(2) _ one_used_group, of "c\<lparr>sc_locked := True\<rparr>" n] c(3) m1(2) by auto
  obtain m3 v where m3: "set_zspage_mapping p ci ZS_EMPTY m2 = Some m3" "m3 = upd_page p (\<lambda>d. d\<lparr>zp_mapping := v\<rparr>) m2"
    using mapping_roundtrip [OF m2(3) ci] by blast
  have m3': "is_first_page p m3" "zp_inuse (zpages m3 p) = 0" "zused m3 = zused m"
    using m2 m1(3) by (simp_all add: m3(2) upd_page_def is_first_page_def)
  have at2: "class_at ci (upd_class ci (\<lambda>_. ?lc) pool) = Some ?lc" using c(1) by (rule upd_class_at(1))
  have fix': "fix_fullness_group p (upd_class ci (\<lambda>_. ?lc) pool, m1) = Some (ZS_EMPTY, upd_class ci (\<lambda>_. c\<lparr>sc_locked := True\<rparr>) pool, m3)"
    using m1(5) group at2 m2(1,3) m3(1) one_used_group(1) [of n, symmetric] c(1)
    by (simp add: fix_fullness_group_def insert_zspage_def fg_ge_NR upd_class_at(2))
  obtain m4 where m4: "free_zspage p m3 = Some m4" "zused m4 = zused m - {p}"
    using free_zspage_frees_first [OF m3'(1,2)] m3'(3) by auto
  have "unlock_class ci (upd_class ci (\<lambda>c. c\<lparr>pages_allocated := pages_allocated c - word_of_nat (zspage_order c)\<rparr>)
      (upd_class ci (\<lambda>_. c\<lparr>sc_locked := True\<rparr>) pool)) =
    upd_class ci (\<lambda>_. c\<lparr>pages_allocated := pages_allocated c - word_of_nat (zspage_order c)\<rparr>) pool"
    using c(1,2) by (cases c) (simp add: unlock_class_def upd_class_at(2) upd_class_at(1))
  then have "zs_free (hnd p 0) (?pool, m) =
      Some (upd_class ci (\<lambda>_. c\<lparr>pages_allocated := pages_allocated c - word_of_nat (zspage_order c)\<rparr>) pool, m4)"
    using loc at lock p(1) map fix' m4(1) hnd_nonzero [OF p(2,3), of 0]
    by (simp add: zs_free_def get_first_page_def first_page_offset link_at_0 Let_def m1_def upd_page_def)
  with m4(2) show ?thesis by blast
qed

text \<open>Both together.\<close>

lemma zs_cycle:
  assumes sz: "0 < sz" "sz \<le> ZS_MAX_ALLOC_SIZE" and ci: "ci = get_size_class_index sz" "ci < 2 ^ CLASS_IDX_BITS"
    and c: "class_at ci pool = Some c" "class_ok c" "sc_index c = ci" "\<not> sc_locked c" "fullness_list c = [0, 0]"
    and src: "fresh_src src" and pages: "alloc_pages_from src (zspage_order c) (zspage_order c) 0 0 0 m = (True, first, m1)"
  shows "\<exists>h pool' m' m''. zs_malloc src sz (pool, m) = Some (h, pool', m') \<and> h \<noteq> 0
    \<and> zs_free h (pool', m') = Some (pool, m'')
    \<and> zused m \<subseteq> zused m'' \<and> card (zused m'' - zused m) = zspage_order c - 1"
proof -
  let ?n = "zspage_order c * PAGE_SIZE div sc_size c"
  let ?c = "c\<lparr>pages_allocated := pages_allocated c + word_of_nat (zspage_order c)\<rparr>"
  obtain p ps m' where m: "zs_malloc src sz (pool, m) = Some (hnd p 0, upd_class ci (\<lambda>_. filed p (one_used ?n) ?c) pool, m')"
    "get_zspage_mapping p m' = Some (ci, one_used ?n)" "is_first_page p m'" "zp_inuse (zpages m' p) = 1"
    "zused m' = zused m \<union> set ps" "set ps \<inter> zused m = {}" "distinct ps" "length ps = zspage_order c"
    "p = hd ps" "p \<noteq> 0" "p < 2 ^ PFN_BITS" "lru_next (zpages m' p) = p"
    by (rule zs_malloc_new [OF sz ci c src pages]) (rule that)
  have at: "class_at ci (upd_class ci (\<lambda>_. ?c) pool) = Some ?c" using c(1) by (rule upd_class_at(1))
  have "upd_class ci (\<lambda>_. ?c\<lparr>pages_allocated := pages_allocated ?c - word_of_nat (zspage_order ?c)\<rparr>) pool = pool"
    using upd_class_at(3) [OF c(1)] by (cases c) simp
  moreover have "\<not> sc_locked ?c" "fullness_list ?c = [0, 0]" using c(4,5) by simp_all
  ultimately obtain m'' where f: "zs_free (hnd p 0) (upd_class ci (\<lambda>_. filed p (one_used ?n) ?c) pool, m') = Some (pool, m'')"
    "zused m'' = zused m' - {p}"
    using zs_free_last [OF at _ _ ci(2) m(3,10,11,4,12,2)] c(1) by (auto simp: upd_class_at(2))
  have "1 \<le> zspage_order c" using c(2) order_bounds by (simp add: class_ok_def)
  then have ne: "ps \<noteq> []" using m(8) by auto
  then have p: "p \<in> set ps" using m(9) by simp
  have "zused m'' - zused m = set ps - {p}" "zused m \<subseteq> zused m''"
    using f(2) m(5,6) p by auto
  moreover have "card (set ps - {p}) = zspage_order c - 1"
    using p m(7,8) by (simp add: distinct_card)
  ultimately show ?thesis using m(1) f(1) hnd_nonzero [OF m(10,11), of 0] by metis
qed

text \<open>When the kernel runs out of pages after the first one, the half-built zspage is used all the same.\<close>

lemma zs_malloc_out_of_pages:
  assumes sz: "0 < sz" "sz \<le> ZS_MAX_ALLOC_SIZE" and ci: "ci = get_size_class_index sz"
    and c: "class_at ci pool = Some c" "class_ok c" "sc_index c = ci" "\<not> sc_locked c" "find_get_zspage c = 0"
    and src: "fresh_src src" and pages: "alloc_pages_from src (zspage_order c) (zspage_order c) 0 0 0 m = (False, first, m1)"
  shows "zs_malloc src sz (pool, m) = (if first = 0 then Some (0, pool, m1) else None)"
proof -
  have restored: "unlock_class ci (upd_class ci (\<lambda>_. c\<lparr>sc_locked := True\<rparr>) pool) = pool"
    using c(1,4) upd_class_at(3) [OF c(1)] by (cases c) (simp add: unlock_class_def upd_class_at(2) upd_class_at(1))
  have "set_zspage_mapping first (sc_index c) ZS_EMPTY m2 = None" if "free_zspage first m1 = Some m2" for m2
    using that by (auto simp: free_zspage_def free_sub_loop_stops Let_def upd_page_def give_page_def set_zspage_mapping_def
        is_first_page_def split: if_splits)
  then show ?thesis
    using sz c lock_class_at [OF c(1,4)] pages restored
    by (cases "free_zspage first m1")
      (simp_all add: zs_malloc_def ci [symmetric] Let_def alloc_zspage_def)
qed

end
