(* ===== verification/Ring.thy ===== *)
theory Ring
  imports Main
begin

text \<open>
  Circular doubly linked lists, as the kernel's list.h makes them: \<open>nx\<close> and \<open>pv\<close> read the links of a node.
  \<open>ring nx pv A x\<close>: the links run from \<open>x\<close> once through all nodes of \<open>A\<close> and back to \<open>x\<close>.
\<close>

text \<open>From \<open>a\<close> over the nodes of the list to \<open>b\<close>.\<close>

fun walk :: "('a \<Rightarrow> 'a) \<Rightarrow> ('a \<Rightarrow> 'a) \<Rightarrow> 'a \<Rightarrow> 'a list \<Rightarrow> 'a \<Rightarrow> bool" where
  "walk nx pv a [] b \<longleftrightarrow> nx a = b \<and> pv b = a"
| "walk nx pv a (x # xs) b \<longleftrightarrow> nx a = x \<and> pv x = a \<and> walk nx pv x xs b"

lemma walk_append: "walk nx pv a (us @ y # vs) b \<longleftrightarrow> walk nx pv a us y \<and> walk nx pv y vs b"
  by (induction us arbitrary: a) auto

lemma walk_cong:
  "(\<And>x. x \<in> set (a # us) \<Longrightarrow> nx' x = nx x) \<Longrightarrow> (\<And>x. x \<in> set (us @ [b]) \<Longrightarrow> pv' x = pv x) \<Longrightarrow>
     walk nx' pv' a us b = walk nx pv a us b"
  by (induction us arbitrary: a) auto

text \<open>The last step of a walk, turned to another node.\<close>

lemma walk_end:
  "walk nx pv a us b \<Longrightarrow> distinct (a # us) \<Longrightarrow> b \<notin> set us \<Longrightarrow> c \<notin> set us \<Longrightarrow>
   (\<And>x. x \<in> set (a # us) \<Longrightarrow> nx' x = (if x = pv b then c else nx x)) \<Longrightarrow>
   (\<And>x. x \<in> set us \<Longrightarrow> pv' x = pv x) \<Longrightarrow> pv' c = pv b \<Longrightarrow> walk nx' pv' a us c"
proof (induction us arbitrary: a)
  case (Cons x us)
  have "pv b \<in> set (x # us)" if "walk nx pv x us b" for x us using that by (induction us arbitrary: x) auto
  then have "pv b \<noteq> a" using Cons.prems(1,2) by fastforce
  moreover have "walk nx' pv' x us c" by (rule Cons.IH) (use Cons.prems in auto)
  ultimately show ?case using Cons.prems(1,5,6) by auto
qed auto

lemma walk_ends: "walk nx pv a us b \<Longrightarrow> pv b = last (a # us) \<and> nx a = hd (us @ [b])"
  by (induction us arbitrary: a) auto

definition ring :: "('a \<Rightarrow> 'a) \<Rightarrow> ('a \<Rightarrow> 'a) \<Rightarrow> 'a set \<Rightarrow> 'a \<Rightarrow> bool" where
  "ring nx pv A x \<longleftrightarrow> (\<exists>us. distinct (x # us) \<and> set (x # us) = A \<and> walk nx pv x us x)"

lemma ring_self: "nx x = x \<Longrightarrow> pv x = x \<Longrightarrow> ring nx pv {x} x"
  unfolding ring_def by (intro exI [of _ "[]"]) simp

lemma ring_cong: "(\<And>x. x \<in> A \<Longrightarrow> nx' x = nx x) \<Longrightarrow> (\<And>x. x \<in> A \<Longrightarrow> pv' x = pv x) \<Longrightarrow> ring nx' pv' A x = ring nx pv A x"
proof -
  assume "\<And>x. x \<in> A \<Longrightarrow> nx' x = nx x" "\<And>x. x \<in> A \<Longrightarrow> pv' x = pv x"
  then have "walk nx' pv' x us x = walk nx pv x us x" if "set (x # us) = A" for us
    using that by (intro walk_cong) auto
  then show ?thesis unfolding ring_def by blast
qed

lemma ring_in: "ring nx pv A x \<Longrightarrow> x \<in> A"
  by (auto simp: ring_def)

lemma ring_next_prev: "ring nx pv A x \<Longrightarrow> nx x \<in> A \<and> pv x \<in> A"
proof -
  assume "ring nx pv A x"
  then obtain us where us: "set (x # us) = A" "walk nx pv x us x" by (auto simp: ring_def)
  from walk_ends [OF us(2)] have "nx x \<in> set (us @ [x])" "pv x \<in> set (x # us)"
    using hd_in_set [of "us @ [x]"] last_in_set [of "x # us"] by (simp_all del: last.simps)
  with us(1) show ?thesis by auto
qed

text \<open>A node is its own successor just when it is alone.\<close>

lemma ring_single: "ring nx pv A x \<Longrightarrow> nx x = x \<longleftrightarrow> A = {x}"
proof -
  assume "ring nx pv A x"
  then obtain us where us: "distinct (x # us)" "set (x # us) = A" "walk nx pv x us x" by (auto simp: ring_def)
  then show ?thesis by (cases us) auto
qed

lemma ring_rotate: "ring nx pv A x \<Longrightarrow> y \<in> A \<Longrightarrow> ring nx pv A y"
proof -
  assume "ring nx pv A x" and y: "y \<in> A"
  then obtain us where us: "distinct (x # us)" "set (x # us) = A" "walk nx pv x us x" by (auto simp: ring_def)
  show ?thesis
  proof (cases "y = x")
    case True
    with \<open>ring nx pv A x\<close> show ?thesis by simp
  next
    case False
    then obtain vs ws where "us = vs @ y # ws" using y us(2) by (auto dest: split_list)
    with us have "distinct (y # ws @ x # vs)" "set (y # ws @ x # vs) = A" "walk nx pv y (ws @ x # vs) y"
      by (auto simp: walk_append)
    then show ?thesis unfolding ring_def by blast
  qed
qed

text \<open>A new node before \<open>x\<close>, where the walk now starts.\<close>

lemma ring_insert:
  assumes r: "ring nx pv A x" and z: "z \<notin> A"
    and nx: "\<And>y. y \<in> insert z A \<Longrightarrow> nx' y = (if y = z then x else if y = pv x then z else nx y)"
    and pv: "\<And>y. y \<in> insert z A \<Longrightarrow> pv' y = (if y = z then pv x else if y = x then z else pv y)"
  shows "ring nx' pv' (insert z A) z"
proof -
  obtain us where us: "distinct (x # us)" "set (x # us) = A" "walk nx pv x us x" using r by (auto simp: ring_def)
  have same: "pv' y = pv y" if "y \<in> set us" for y
  proof -
    have "y \<noteq> z" "y \<noteq> x" "y \<in> A" using that us(1,2) z by auto
    then show ?thesis using pv [of y] by simp
  qed
  have "walk nx' pv' x us z"
    by (rule walk_end [OF us(3)]) (use us(1,2) z nx pv [of z] same in auto)
  moreover have "nx' z = x" "pv' x = z" using nx [of z] pv [of x] us(2) z by auto
  ultimately have "walk nx' pv' z (x # us) z" by simp
  moreover have "distinct (z # x # us)" "set (z # x # us) = insert z A" using us z by auto
  ultimately show ?thesis unfolding ring_def by blast
qed

text \<open>A node taken out; the walk starts at its successor.\<close>

lemma ring_delete:
  assumes r: "ring nx pv A x" and ne: "A \<noteq> {x}"
    and nx: "\<And>y. y \<in> A - {x} \<Longrightarrow> nx' y = (if y = pv x then nx x else nx y)"
    and pv: "\<And>y. y \<in> A - {x} \<Longrightarrow> pv' y = (if y = nx x then pv x else pv y)"
  shows "ring nx' pv' (A - {x}) (nx x)"
proof -
  obtain us where us: "distinct (x # us)" "set (x # us) = A" "walk nx pv x us x" using r by (auto simp: ring_def)
  then obtain y vs where vs: "us = y # vs" using ne by (cases us) auto
  have w: "nx x = y" "walk nx pv y vs x" and A: "A - {x} = set (y # vs)" using us vs by auto
  have "walk nx' pv' y vs y"
  proof (rule walk_end [OF w(2)])
    show "pv' u = pv u" if "u \<in> set vs" for u using that pv [of u] us(1) vs w(1) A by auto
  qed (use us(1) vs nx pv w A in auto)
  then show ?thesis unfolding ring_def A w(1) using us(1) vs by (intro exI [of _ vs]) auto
qed

end
