(* ===== verification/Zs_Groups.thy ===== *)
theory Zs_Groups
  imports Zs_Cycle Ring
begin

text \<open>
  The fullness lists of a size class: each of the two groups that are kept in lists is a ring of first pages
  through \<open>page->lru\<close>, entered at \<open>fullness_list\<close>.  \<open>insert_zspage\<close>, \<open>remove_zspage\<close> and \<open>fix_fullness_group\<close> are
  verified against the sets of pages in the rings.
\<close>

section \<open>Changes to list links only\<close>

definition lru_only :: "zpfn set \<Rightarrow> zmem \<Rightarrow> zmem \<Rightarrow> bool" where
  "lru_only A m m' \<longleftrightarrow> zused m' = zused m \<and> zlinks m' = zlinks m \<and> (\<forall>q. q \<notin> A \<longrightarrow> zpages m' q = zpages m q)
     \<and> (\<forall>q. \<exists>a b. zpages m' q = (zpages m q)\<lparr>lru_prev := a, lru_next := b\<rparr>)"

lemma lru_id: "\<exists>a b. d = d\<lparr>lru_prev := a, lru_next := b\<rparr>" for d :: zpage
  by (rule exI [of _ "lru_prev d"], rule exI [of _ "lru_next d"]) simp

lemma lru_onlyI:
  assumes "zused m' = zused m" and "zlinks m' = zlinks m"
    and "\<And>q. zpages m' q = (zpages m q)\<lparr>lru_prev := f q, lru_next := g q\<rparr>"
    and "\<And>q. q \<notin> A \<Longrightarrow> f q = lru_prev (zpages m q) \<and> g q = lru_next (zpages m q)"
  shows "lru_only A m m'"
  unfolding lru_only_def using assms by auto

lemma lru_only_refl [simp]: "lru_only A m m"
  by (simp add: lru_only_def lru_id)

lemma lru_only_mono: "lru_only A m m' \<Longrightarrow> A \<subseteq> B \<Longrightarrow> lru_only B m m'"
  unfolding lru_only_def by blast

lemma lru_only_trans:
  assumes "lru_only A m1 m2" and "lru_only A m2 m3"
  shows "lru_only A m1 m3"
proof -
  have "\<exists>a b. zpages m3 q = (zpages m1 q)\<lparr>lru_prev := a, lru_next := b\<rparr>" for q
  proof -
    obtain a b where "zpages m2 q = (zpages m1 q)\<lparr>lru_prev := a, lru_next := b\<rparr>" using assms(1) unfolding lru_only_def by metis
    moreover obtain c d where "zpages m3 q = (zpages m2 q)\<lparr>lru_prev := c, lru_next := d\<rparr>" using assms(2) unfolding lru_only_def by metis
    ultimately show ?thesis by (intro exI [of _ c] exI [of _ d]) simp
  qed
  then show ?thesis using assms by (simp add: lru_only_def)
qed

lemma lru_onlyD:
  assumes "lru_only A m m'"
  shows "zused m' = zused m" "zlinks m' = zlinks m" "q \<notin> A \<Longrightarrow> zpages m' q = zpages m q"
    "is_first_page q m' = is_first_page q m" "is_last_page q m' = is_last_page q m"
    "zp_private (zpages m' q) = zp_private (zpages m q)" "zp_first_page (zpages m' q) = zp_first_page (zpages m q)"
    "zp_index (zpages m' q) = zp_index (zpages m q)" "zp_freelist (zpages m' q) = zp_freelist (zpages m q)"
    "zp_inuse (zpages m' q) = zp_inuse (zpages m q)" "zp_objects (zpages m' q) = zp_objects (zpages m q)"
    "zp_mapping (zpages m' q) = zp_mapping (zpages m q)" "get_zspage_mapping q m' = get_zspage_mapping q m"
    "get_fullness_group q m' = get_fullness_group q m"
proof -
  obtain a b where ab: "zpages m' q = (zpages m q)\<lparr>lru_prev := a, lru_next := b\<rparr>" using assms unfolding lru_only_def by metis
  show "zused m' = zused m" "zlinks m' = zlinks m" using assms by (simp_all add: lru_only_def)
  show "q \<notin> A \<Longrightarrow> zpages m' q = zpages m q" using assms by (simp add: lru_only_def)
  show "is_first_page q m' = is_first_page q m" "is_last_page q m' = is_last_page q m"
    "zp_private (zpages m' q) = zp_private (zpages m q)" "zp_first_page (zpages m' q) = zp_first_page (zpages m q)"
    "zp_index (zpages m' q) = zp_index (zpages m q)" "zp_freelist (zpages m' q) = zp_freelist (zpages m q)"
    "zp_inuse (zpages m' q) = zp_inuse (zpages m q)" "zp_objects (zpages m' q) = zp_objects (zpages m q)"
    "zp_mapping (zpages m' q) = zp_mapping (zpages m q)" "get_zspage_mapping q m' = get_zspage_mapping q m"
    "get_fullness_group q m' = get_fullness_group q m"
    by (simp_all add: ab is_first_page_def is_last_page_def get_zspage_mapping_def get_fullness_group_def)
qed

section \<open>One list\<close>

abbreviation lru_ring :: "zmem \<Rightarrow> zpfn set \<Rightarrow> zpfn \<Rightarrow> bool" where
  "lru_ring m \<equiv> ring (\<lambda>p. lru_next (zpages m p)) (\<lambda>p. lru_prev (zpages m p))"

definition group_ok :: "zmem \<Rightarrow> size_class \<Rightarrow> fullness_group \<Rightarrow> zpfn set \<Rightarrow> bool" where
  "group_ok m c fg A \<longleftrightarrow> 0 \<notin> A \<and> (if A = {} then fullness_list c ! fg_nr fg = 0 else lru_ring m A (fullness_list c ! fg_nr fg))"

lemma group_ok_cong:
  "(\<And>q. q \<in> A \<Longrightarrow> lru_next (zpages m' q) = lru_next (zpages m q) \<and> lru_prev (zpages m' q) = lru_prev (zpages m q)) \<Longrightarrow>
   fullness_list c' ! fg_nr fg = fullness_list c ! fg_nr fg \<Longrightarrow> group_ok m' c' fg A = group_ok m c fg A"
  unfolding group_ok_def using ring_cong [of A "\<lambda>q. lru_next (zpages m' q)" "\<lambda>q. lru_next (zpages m q)"
    "\<lambda>q. lru_prev (zpages m' q)" "\<lambda>q. lru_prev (zpages m q)" "fullness_list c ! fg_nr fg"] by simp

lemma group_head: "group_ok m c fg A \<Longrightarrow> fullness_list c ! fg_nr fg \<noteq> 0 \<longleftrightarrow> A \<noteq> {}"
  "group_ok m c fg A \<Longrightarrow> A \<noteq> {} \<Longrightarrow> fullness_list c ! fg_nr fg \<in> A"
  unfolding group_ok_def using ring_in by (metis (full_types))+

lemma lru_add_tail_only:
  assumes "lru_ring m A head" and "p \<notin> A"
  shows "lru_only (insert p A) m (lru_add_tail p head m) \<and> lru_ring (lru_add_tail p head m) (insert p A) p"
proof
  let ?m = "lru_add_tail p head m" and ?pv = "lru_prev (zpages m head)"
  have A: "head \<in> A" "?pv \<in> A" using ring_in [OF assms(1)] ring_next_prev [OF assms(1)] by simp_all
  then have ne: "p \<noteq> head" "p \<noteq> ?pv" using assms(2) by auto
  have pages: "zpages ?m q = (zpages m q)\<lparr>lru_prev := if q = p then ?pv else if q = head then p else lru_prev (zpages m q),
      lru_next := if q = p then head else if q = ?pv then p else lru_next (zpages m q)\<rparr>" for q
    using ne by (auto simp: lru_add_tail_def lru_insert_def set_next_def set_prev_def upd_page_def)
  have "zused ?m = zused m" "zlinks ?m = zlinks m"
    by (simp_all add: lru_add_tail_def lru_insert_def set_next_def set_prev_def upd_page_def)
  then show "lru_only (insert p A) m ?m" by (rule lru_onlyI [OF _ _ pages]) (use A in auto)
  show "lru_ring ?m (insert p A) p"
    by (rule ring_insert [OF assms]) (simp_all add: pages)
qed

lemma lru_del_init_only:
  assumes "lru_ring m A p"
  shows "lru_only A m (lru_del_init p m)"
    and "A \<noteq> {p} \<Longrightarrow> lru_ring (lru_del_init p m) (A - {p}) (lru_next (zpages m p))"
proof -
  let ?m = "lru_del_init p m" and ?pv = "lru_prev (zpages m p)" and ?nx = "lru_next (zpages m p)"
  have A: "p \<in> A" "?nx \<in> A" "?pv \<in> A" using ring_in [OF assms] ring_next_prev [OF assms] by simp_all
  have pages: "zpages ?m q = (zpages m q)\<lparr>lru_prev := if q = p then p else if q = ?nx then ?pv else lru_prev (zpages m q),
      lru_next := if q = p then p else if q = ?pv then ?nx else lru_next (zpages m q)\<rparr>" for q
    by (auto simp: lru_del_init_def lru_del_def lru_defs upd_page_def Let_def)
  have "zused ?m = zused m" "zlinks ?m = zlinks m" by (simp_all add: lru_del_init_def lru_del_def lru_defs upd_page_def Let_def)
  then show "lru_only A m ?m" by (rule lru_onlyI [OF _ _ pages]) (use A in auto)
  show "lru_ring ?m (A - {p}) ?nx" if "A \<noteq> {p}"
    by (rule ring_delete [OF assms that]) (simp_all add: pages)
qed

lemma NR_not_le: "\<not> fg \<ge> NR_FULLNESS_GROUPS \<longleftrightarrow> fg = ZS_ALMOST_FULL \<or> fg = ZS_ALMOST_EMPTY"
  by (cases fg) (simp_all add: less_eq_fullness_group_def)

definition listed :: "fullness_group \<Rightarrow> bool" where
  "listed fg \<longleftrightarrow> fg = ZS_ALMOST_FULL \<or> fg = ZS_ALMOST_EMPTY"

lemma listed_NR: "fg \<ge> NR_FULLNESS_GROUPS \<longleftrightarrow> \<not> listed fg"
  using NR_not_le [of fg] by (auto simp: listed_def)

lemma listed_nr: "listed fg \<Longrightarrow> fg_nr fg < 2" "listed fg \<Longrightarrow> listed fg' \<Longrightarrow> fg_nr fg = fg_nr fg' \<longleftrightarrow> fg = fg'"
  by (auto simp: listed_def)

text \<open>A page in no list is linked to itself.\<close>

definition lone :: "zmem \<Rightarrow> zpfn \<Rightarrow> bool" where
  "lone m p \<longleftrightarrow> lru_next (zpages m p) = p \<and> lru_prev (zpages m p) = p"

lemma insert_zspage_ok:
  assumes g: "group_ok m c fg A" and p: "p \<notin> A" "p \<noteq> 0" "is_first_page p m" "lone m p" and fg: "listed fg" "length (fullness_list c) = 2"
    and c': "c' = c\<lparr>fullness_list := (fullness_list c)[fg_nr fg := p]\<rparr>"
  obtains m' where "insert_zspage p c fg m = Some (c', m')" and "lru_only (insert p A) m m'" and "group_ok m' c' fg (insert p A)"
proof (cases "A = {}")
  case True
  then have "insert_zspage p c fg m = Some (c', m)"
    using p(3) fg(1) group_head(1) [OF g] by (simp add: insert_zspage_def listed_NR c' Let_def)
  moreover have "group_ok m c' fg (insert p A)"
    using True p(2,4) listed_nr(1) [OF fg(1)] fg(2) by (simp add: group_ok_def c' lone_def ring_self)
  ultimately show thesis using that by simp
next
  case False
  let ?head = "fullness_list c ! fg_nr fg"
  have r: "lru_ring m A ?head" "0 \<notin> A" "?head \<noteq> 0" using g False group_head [OF g] by (auto simp: group_ok_def)
  note add = lru_add_tail_only [OF r(1) p(1)]
  have "insert_zspage p c fg m = Some (c', lru_add_tail p ?head m)"
    using p(3) r(3) fg(1) by (simp add: insert_zspage_def listed_NR c' Let_def)
  moreover have "group_ok (lru_add_tail p ?head m) c' fg (insert p A)"
    using add r(2) p(2) listed_nr(1) [OF fg(1)] fg(2) by (simp add: group_ok_def c')
  ultimately show thesis using that add by blast
qed

lemma remove_zspage_ok:
  assumes g: "group_ok m c fg A" and p: "p \<in> A" "is_first_page p m" and fg: "listed fg" "length (fullness_list c) = 2"
  obtains h m' where "remove_zspage p c fg m = Some (c\<lparr>fullness_list := (fullness_list c)[fg_nr fg := h]\<rparr>, m')"
    and "lru_only A m m'" and "group_ok m' (c\<lparr>fullness_list := (fullness_list c)[fg_nr fg := h]\<rparr>) fg (A - {p})" and "lone m' p"
proof -
  let ?head = "fullness_list c ! fg_nr fg"
  have ne: "A \<noteq> {}" using p(1) by auto
  have r: "lru_ring m A ?head" "0 \<notin> A" "?head \<noteq> 0" "?head \<in> A" using g ne group_head [OF g] by (auto simp: group_ok_def)
  have rp: "lru_ring m A p" using ring_rotate [OF r(1) p(1)] .
  note del = lru_del_init_only [OF rp]
  let ?h = "if lru_empty ?head m then 0 else if ?head = p then lru_next (zpages m ?head) else ?head"
  have run: "remove_zspage p c fg m = Some (c\<lparr>fullness_list := (fullness_list c)[fg_nr fg := ?h]\<rparr>, lru_del_init p m)"
    using p(2) r(3) fg(1) by (simp add: remove_zspage_def listed_NR Let_def)
  have nr: "fg_nr fg < length (fullness_list c)" using listed_nr(1) [OF fg(1)] fg(2) by simp
  have "group_ok (lru_del_init p m) (c\<lparr>fullness_list := (fullness_list c)[fg_nr fg := ?h]\<rparr>) fg (A - {p})"
  proof (cases "A = {p}")
    case True
    then have "lru_empty ?head m" using ring_single [OF r(1)] r(4) by (simp add: lru_empty_def)
    with True nr show ?thesis by (simp add: group_ok_def)
  next
    case False
    then have "\<not> lru_empty ?head m" "A \<noteq> {?head} \<or> ?head \<noteq> p" using ring_single [OF r(1)] r(4) p(1) by (auto simp: lru_empty_def)
    moreover have "A - {p} \<noteq> {}" using False p(1) by auto
    moreover have "lru_ring (lru_del_init p m) (A - {p}) (if ?head = p then lru_next (zpages m ?head) else ?head)"
      using del(2) [OF False] ring_rotate [OF del(2) [OF False], of ?head] r(4) by simp
    ultimately show ?thesis using nr r(2) by (simp add: group_ok_def)
  qed
  moreover have "lone (lru_del_init p m) p" by (simp add: lone_def lru_del_init_def lru_defs upd_page_def)
  ultimately show thesis using that run del(1) by blast
qed

section \<open>Both lists of a class\<close>

definition groups_ok :: "zmem \<Rightarrow> size_class \<Rightarrow> (fullness_group \<Rightarrow> zpfn set) \<Rightarrow> bool" where
  "groups_ok m c S \<longleftrightarrow> length (fullness_list c) = 2 \<and> (\<forall>fg. listed fg \<longrightarrow> group_ok m c fg (S fg))
     \<and> S ZS_ALMOST_FULL \<inter> S ZS_ALMOST_EMPTY = {}"

definition regroup :: "zpfn \<Rightarrow> fullness_group \<Rightarrow> (fullness_group \<Rightarrow> zpfn set) \<Rightarrow> fullness_group \<Rightarrow> zpfn set" where
  "regroup p new S fg = (if fg = new then insert p (S fg) else S fg - {p})"

definition ringed :: "(fullness_group \<Rightarrow> zpfn set) \<Rightarrow> zpfn set" where
  "ringed S = S ZS_ALMOST_FULL \<union> S ZS_ALMOST_EMPTY"

lemma ringed_listed: "listed fg \<Longrightarrow> S fg \<subseteq> ringed S"
  by (auto simp: listed_def ringed_def)

lemma groups_disjoint: "groups_ok m c S \<Longrightarrow> listed fg \<Longrightarrow> listed fg' \<Longrightarrow> fg \<noteq> fg' \<Longrightarrow> S fg \<inter> S fg' = {}"
  by (auto simp: groups_ok_def listed_def)

lemma groups_ok_cong:
  assumes "\<And>q. q \<in> ringed S \<Longrightarrow> lru_next (zpages m' q) = lru_next (zpages m q) \<and> lru_prev (zpages m' q) = lru_prev (zpages m q)"
    and "fullness_list c' = fullness_list c" and "\<And>fg. listed fg \<Longrightarrow> S' fg = S fg"
  shows "groups_ok m' c' S' = groups_ok m c S"
proof -
  have "group_ok m' c' fg (S' fg) = group_ok m c fg (S fg)" if "listed fg" for fg
    using assms ringed_listed [OF that, of S] unfolding assms(3) [OF that] by (intro group_ok_cong) auto
  moreover have "S' ZS_ALMOST_FULL = S ZS_ALMOST_FULL" "S' ZS_ALMOST_EMPTY = S ZS_ALMOST_EMPTY" using assms(3) by (simp_all add: listed_def)
  ultimately show ?thesis unfolding groups_ok_def assms(2) by (simp cong: conj_cong)
qed

lemma groups_ok_sets:
  assumes "groups_ok m c S" and "\<And>fg. listed fg \<Longrightarrow> S' fg = S fg"
  shows "groups_ok m (c\<lparr>fullness_list := fullness_list c\<rparr>) S'"
  using groups_ok_cong [of S m m "c\<lparr>fullness_list := fullness_list c\<rparr>" c S'] assms by simp

text \<open>The list of one group, when the other one was changed.\<close>

lemma other_group:
  assumes "groups_ok m c S" and "listed fg" and "listed cur" and "fg \<noteq> cur" and "lru_only A m m'" and "A \<inter> S fg = {}"
  shows "group_ok m' (c\<lparr>fullness_list := (fullness_list c)[fg_nr cur := h]\<rparr>) fg (S fg)"
proof -
  have "fullness_list (c\<lparr>fullness_list := (fullness_list c)[fg_nr cur := h]\<rparr>) ! fg_nr fg = fullness_list c ! fg_nr fg"
    using listed_nr(2) [OF assms(3,2)] assms(4) by simp
  moreover have "zpages m' q = zpages m q" if "q \<in> S fg" for q using that lru_onlyD(3) [OF assms(5)] assms(6) by blast
  ultimately show ?thesis using group_ok_cong [of "S fg" m' m] assms(1,2) by (simp add: groups_ok_def)
qed

text \<open>The first half of \<open>fix_fullness_group\<close>.\<close>

lemma leave_group:
  assumes g: "groups_ok m c S" and p: "is_first_page p m" "\<not> listed cur \<Longrightarrow> lone m p"
    and mem: "\<And>fg. listed fg \<Longrightarrow> p \<in> S fg \<longleftrightarrow> fg = cur"
  obtains l m' where "remove_zspage p c cur m = Some (c\<lparr>fullness_list := l\<rparr>, m')" and "lru_only (ringed S) m m'"
    and "groups_ok m' (c\<lparr>fullness_list := l\<rparr>) (\<lambda>fg. S fg - {p})" and "lone m' p"
proof (cases "listed cur")
  case False
  then have same: "S fg - {p} = S fg" if "listed fg" for fg using mem [OF that] that by auto
  have "remove_zspage p c cur m = Some (c\<lparr>fullness_list := fullness_list c\<rparr>, m)"
    using False p(1) by (simp add: remove_zspage_def listed_NR)
  moreover have "groups_ok m (c\<lparr>fullness_list := fullness_list c\<rparr>) (\<lambda>fg. S fg - {p})"
    using g same by (rule groups_ok_sets)
  ultimately show thesis using that [of "fullness_list c" m] p(2) [OF False] by simp
next
  case True
  have len: "length (fullness_list c) = 2" and gk: "group_ok m c cur (S cur)" using g True by (simp_all add: groups_ok_def)
  have pin: "p \<in> S cur" using mem [OF True] by simp
  obtain h m' where r: "remove_zspage p c cur m = Some (c\<lparr>fullness_list := (fullness_list c)[fg_nr cur := h]\<rparr>, m')"
    "lru_only (S cur) m m'" "group_ok m' (c\<lparr>fullness_list := (fullness_list c)[fg_nr cur := h]\<rparr>) cur (S cur - {p})" "lone m' p"
    by (rule remove_zspage_ok [OF gk pin p(1) True len])
  let ?c = "c\<lparr>fullness_list := (fullness_list c)[fg_nr cur := h]\<rparr>"
  have "group_ok m' ?c fg (S fg - {p})" if l: "listed fg" for fg
  proof (cases "fg = cur")
    case False
    then have "S fg - {p} = S fg" "S fg \<inter> S cur = {}" using mem [OF l] groups_disjoint [OF g l True] by auto
    then show ?thesis using other_group [OF g l True False r(2), of h] by (simp add: Int_commute)
  qed (use r(3) in simp)
  then have "groups_ok m' ?c (\<lambda>fg. S fg - {p})" using len g by (auto simp: groups_ok_def)
  then show thesis using that r(1,4) lru_only_mono [OF r(2) ringed_listed [where S = S, OF True]] by blast
qed

lemma enter_group:
  assumes g: "groups_ok m c S" and p: "is_first_page p m" "p \<noteq> 0" "lone m p" and mem: "\<And>fg. listed fg \<Longrightarrow> p \<notin> S fg"
  obtains l m' where "insert_zspage p c new m = Some (c\<lparr>fullness_list := l\<rparr>, m')" and "lru_only (insert p (ringed S)) m m'"
    and "groups_ok m' (c\<lparr>fullness_list := l\<rparr>) (\<lambda>fg. if fg = new then insert p (S fg) else S fg)" and "\<not> listed new \<Longrightarrow> lone m' p"
proof (cases "listed new")
  case False
  have "insert_zspage p c new m = Some (c\<lparr>fullness_list := fullness_list c\<rparr>, m)"
    using False p(1) by (simp add: insert_zspage_def listed_NR)
  moreover have "groups_ok m (c\<lparr>fullness_list := fullness_list c\<rparr>) (\<lambda>fg. if fg = new then insert p (S fg) else S fg)"
    using g
  proof (rule groups_ok_sets)
    show "(if fg = new then insert p (S fg) else S fg) = S fg" if "listed fg" for fg using that False by auto
  qed
  ultimately show thesis using that [of "fullness_list c" m] p(3) by simp
next
  case True
  have len: "length (fullness_list c) = 2" and gk: "group_ok m c new (S new)" using g True by (simp_all add: groups_ok_def)
  let ?c = "c\<lparr>fullness_list := (fullness_list c)[fg_nr new := p]\<rparr>"
  obtain m' where r: "insert_zspage p c new m = Some (?c, m')" "lru_only (insert p (S new)) m m'" "group_ok m' ?c new (insert p (S new))"
    by (rule insert_zspage_ok [OF gk mem [OF True] p(2,1,3) True len refl])
  have "group_ok m' ?c fg (if fg = new then insert p (S fg) else S fg)" if l: "listed fg" for fg
  proof (cases "fg = new")
    case False
    then have "p \<notin> S fg" "S fg \<inter> S new = {}" using mem [OF l] groups_disjoint [OF g l True] by auto
    then show ?thesis using other_group [OF g l True False r(2), of p] False by (simp add: Int_commute)
  qed (use r(3) in simp)
  moreover have "p \<notin> S ZS_ALMOST_FULL" "p \<notin> S ZS_ALMOST_EMPTY" using mem by (simp_all add: listed_def)
  ultimately have "groups_ok m' ?c (\<lambda>fg. if fg = new then insert p (S fg) else S fg)" using len g by (auto simp: groups_ok_def)
  moreover have "lru_only (insert p (ringed S)) m m'" using ringed_listed [OF True, of S] by (intro lru_only_mono [OF r(2)]) auto
  ultimately show thesis using that r(1) True by blast
qed

lemma fix_fullness_group_ok:
  assumes g: "groups_ok m c S" and at: "class_at ci pool = Some c" and ci: "ci < 2 ^ CLASS_IDX_BITS"
    and map: "get_zspage_mapping p m = Some (ci, cur)" and new: "get_fullness_group p m = Some new"
    and p: "is_first_page p m" "p \<noteq> 0" "\<not> listed cur \<Longrightarrow> lone m p"
    and mem: "\<And>fg. listed fg \<Longrightarrow> p \<in> S fg \<longleftrightarrow> fg = cur"
  obtains l m1 m' v where "fix_fullness_group p (pool, m) = Some (new, upd_class ci (\<lambda>_. c\<lparr>fullness_list := l\<rparr>) pool, m')"
    and "lru_only (insert p (ringed S)) m m1" and "m' = upd_page p (\<lambda>d. d\<lparr>zp_mapping := v\<rparr>) m1"
    and "get_zspage_mapping p m' = Some (ci, new)" and "groups_ok m' (c\<lparr>fullness_list := l\<rparr>) (regroup p new S)"
    and "\<not> listed new \<Longrightarrow> lone m' p"
proof (cases "new = cur")
  case True
  have "fix_fullness_group p (pool, m) = Some (new, upd_class ci (\<lambda>_. c\<lparr>fullness_list := fullness_list c\<rparr>) pool, m)"
    using map new True upd_class_at(3) [OF at] by (simp add: fix_fullness_group_def)
  moreover have "m = upd_page p (\<lambda>d. d\<lparr>zp_mapping := zp_mapping (zpages m p)\<rparr>) m" by (simp add: upd_page_def)
  moreover have "groups_ok m (c\<lparr>fullness_list := fullness_list c\<rparr>) (regroup p new S)"
    by (rule groups_ok_sets [OF g]) (use mem True in \<open>auto simp: regroup_def\<close>)
  ultimately show thesis
    using that [of "fullness_list c" m m "zp_mapping (zpages m p)"] map p(3) True by simp
next
  case False
  obtain l m1 where L: "remove_zspage p c cur m = Some (c\<lparr>fullness_list := l\<rparr>, m1)" "lru_only (ringed S) m m1"
    "groups_ok m1 (c\<lparr>fullness_list := l\<rparr>) (\<lambda>fg. S fg - {p})" "lone m1 p"
    by (rule leave_group [OF g p(1) p(3) mem])
  have p1: "is_first_page p m1" using p(1) lru_onlyD(4) [OF L(2)] by simp
  obtain l' m2 where E: "insert_zspage p (c\<lparr>fullness_list := l\<rparr>) new m1 = Some (c\<lparr>fullness_list := l\<rparr>\<lparr>fullness_list := l'\<rparr>, m2)"
    "lru_only (insert p (ringed (\<lambda>fg. S fg - {p}))) m1 m2"
    "groups_ok m2 (c\<lparr>fullness_list := l\<rparr>\<lparr>fullness_list := l'\<rparr>) (\<lambda>fg. if fg = new then insert p (S fg - {p}) else S fg - {p})"
    "\<not> listed new \<Longrightarrow> lone m2 p"
    by (rule enter_group [OF L(3) p1 p(2) L(4)]) auto
  have p2: "is_first_page p m2" using p1 lru_onlyD(4) [OF E(2)] by simp
  obtain m' v where M: "set_zspage_mapping p ci new m2 = Some m'" "get_zspage_mapping p m' = Some (ci, new)"
    "m' = upd_page p (\<lambda>d. d\<lparr>zp_mapping := v\<rparr>) m2"
    using mapping_roundtrip [OF p2 ci] by blast
  have "fix_fullness_group p (pool, m) = Some (new, upd_class ci (\<lambda>_. c\<lparr>fullness_list := l'\<rparr>) pool, m')"
    using map new False at L(1) E(1) M(1) by (simp add: fix_fullness_group_def)
  moreover have "ringed (\<lambda>fg. S fg - {p}) \<subseteq> ringed S" by (auto simp: ringed_def)
  then have "lru_only (insert p (ringed S)) m m2"
    using lru_only_trans [OF lru_only_mono [OF L(2)] lru_only_mono [OF E(2)], of "insert p (ringed S)"] by blast
  moreover have "(\<lambda>fg. if fg = new then insert p (S fg - {p}) else S fg - {p}) = regroup p new S" by (auto simp: regroup_def fun_eq_iff)
  then have "groups_ok m' (c\<lparr>fullness_list := l'\<rparr>) (regroup p new S)"
    using E(3) groups_ok_cong [of "regroup p new S" m' m2 "c\<lparr>fullness_list := l'\<rparr>" "c\<lparr>fullness_list := l'\<rparr>" "regroup p new S"]
    by (simp add: M(3) upd_page_def)
  moreover have "lone m' p" if "\<not> listed new" using E(4) [OF that] by (simp add: M(3) lone_def upd_page_def)
  ultimately show thesis using that M(2,3) by blast
qed

end
