(* ===== verification/Zs_Objects.thy ===== *)
theory Zs_Objects
  imports Zs_Groups
begin

text \<open>
  The objects of a zspage of class \<open>i\<close>: \<open>usable\<close> are those that \<open>objects\<close> counts, \<open>spare\<close> what the
  free list holds beyond them, a partial object at the end of the last page.  Page and index determine an
  object, and so do page and offset; the bytes of two usable objects are disjoint.
\<close>

section \<open>Size classes by number\<close>

definition csize :: "nat \<Rightarrow> nat" where "csize i = ZS_MIN_ALLOC_SIZE + i * ZS_SIZE_CLASS_DELTA"
definition corder :: "nat \<Rightarrow> nat" where "corder i = get_zspage_order (csize i)"
definition cnum :: "nat \<Rightarrow> nat" where "cnum i = corder i * PAGE_SIZE div csize i"

lemma csize_bounds:
  assumes "i < ZS_SIZE_CLASSES"
  shows "8 dvd csize i" "32 \<le> csize i" "0 < csize i" "csize i \<le> PAGE_SIZE"
  using assms by (auto simp: csize_def zs_consts)

lemma corder_bounds: "1 \<le> corder i" "corder i \<le> 4"
  using order_bounds by (simp_all add: corder_def)

lemma cnum_bounds:
  assumes "i < ZS_SIZE_CLASSES"
  shows "0 < cnum i" "cnum i \<le> 512"
proof -
  note b = csize_bounds [OF assms]
  have "csize i \<le> 1 * PAGE_SIZE" using b(4) by simp
  also have "\<dots> \<le> corder i * PAGE_SIZE" using corder_bounds(1) by (rule mult_le_mono1)
  finally show "0 < cnum i" using b(3) by (simp add: cnum_def div_greater_zero_iff)
  have "cnum i \<le> corder i * PAGE_SIZE div 32" unfolding cnum_def using b(2) by (intro div_le_mono2) simp_all
  also have "\<dots> \<le> 512" using corder_bounds(2) [of i] by (simp add: PAGE_SIZE_def)
  finally show "cnum i \<le> 512" .
qed

definition zobjs :: "nat \<Rightarrow> zpfn list \<Rightarrow> zobj list" where "zobjs i ps = zs_objs (csize i) 0 0 ps"
definition usable :: "nat \<Rightarrow> zpfn list \<Rightarrow> zobj list" where "usable i ps = take (cnum i) (zobjs i ps)"
definition spare :: "nat \<Rightarrow> zpfn list \<Rightarrow> zobj list" where "spare i ps = drop (cnum i) (zobjs i ps)"

lemma usable_spare: "usable i ps @ spare i ps = zobjs i ps"
  by (simp add: usable_def spare_def)

section \<open>What determines an object\<close>

lemma last_on_page:
  assumes "off < PAGE_SIZE" and "0 < sz" and "x < objs_on sz off"
  shows "off + x * sz < PAGE_SIZE"
proof -
  have "off + objs_on sz off * sz < PAGE_SIZE + sz" using objs_on_step(2) [OF assms(1,2)] .
  moreover have "x * sz + sz \<le> objs_on sz off * sz" using assms(3) mult_le_mono1 [of "Suc x" "objs_on sz off" sz] by simp
  ultimately show ?thesis by linarith
qed

lemma objs_on_le: "32 \<le> sz \<Longrightarrow> objs_on sz off \<le> 129"
proof -
  assume "32 \<le> sz"
  then have "(PAGE_SIZE - off) div sz \<le> (PAGE_SIZE - off) div 32" by (intro div_le_mono2) simp_all
  also have "\<dots> \<le> PAGE_SIZE div 32" by (rule div_le_mono) simp
  finally show ?thesis by (simp add: objs_on_def Let_def PAGE_SIZE_def)
qed

lemma zs_objs_elem:
  assumes "8 dvd sz" and "32 \<le> sz" and "8 dvd off" and "off < PAGE_SIZE" and "(k, p, x, o') \<in> set (zs_objs sz j off ps)"
  shows "j \<le> k" "k < j + length ps" "p = ps ! (k - j)" "8 dvd o'" "o' < PAGE_SIZE" "x < 2 ^ OBJ_INDEX_BITS"
proof -
  have "j \<le> k \<and> k < j + length ps \<and> p = ps ! (k - j) \<and> 8 dvd o' \<and> o' < PAGE_SIZE \<and> x < 129" using assms(3-)
  proof (induction ps arbitrary: j off)
    case (Cons q ps)
    show ?case
    proof (cases "k = j \<and> p = q \<and> x < objs_on sz off \<and> o' = off + x * sz")
      case True
      then show ?thesis using Cons.prems(1,2) assms(1,2) last_on_page [of off sz x] objs_on_le [OF assms(2), of off] by simp
    next
      case False
      then have "(k, p, x, o') \<in> set (zs_objs sz (Suc j) (next_off sz off) ps)" using Cons.prems(3) by auto
      from Cons.IH [OF _ _ this] next_off_ok [OF Cons.prems(1) assms(1)] show ?thesis by (auto simp: nth_Cons')
    qed
  qed simp
  then show "j \<le> k" "k < j + length ps" "p = ps ! (k - j)" "8 dvd o'" "o' < PAGE_SIZE" "x < 2 ^ OBJ_INDEX_BITS"
    by (simp_all add: index_bits)
qed

lemma zs_objs_keys:
  assumes "distinct ps" and "0 < sz"
  shows "distinct (map (\<lambda>(k, p, x, o'). (p, x)) (zs_objs sz j off ps))"
    and "distinct (map (\<lambda>(k, p, x, o'). (p, o')) (zs_objs sz j off ps))"
proof -
  have "distinct (map (\<lambda>(k, p, x, o'). (p, x)) (zs_objs sz j off ps)) \<and> distinct (map (\<lambda>(k, p, x, o'). (p, o')) (zs_objs sz j off ps))"
    using assms(1)
  proof (induction ps arbitrary: j off)
    case (Cons q ps)
    have "q \<notin> set ps" using Cons.prems by simp
    then have "p \<noteq> q" if "(k, p, x, o') \<in> set (zs_objs sz (Suc j) (next_off sz off) ps)" for k p x o'
      using zs_objs_pages [OF that] by auto
    then show ?case using Cons.IH [of "Suc j" "next_off sz off"] Cons.prems assms(2)
      by (auto simp: distinct_map inj_on_def comp_def)
  qed simp
  then show "distinct (map (\<lambda>(k, p, x, o'). (p, x)) (zs_objs sz j off ps))"
    "distinct (map (\<lambda>(k, p, x, o'). (p, o')) (zs_objs sz j off ps))" by simp_all
qed

text \<open>The addresses of the objects of one zspage.\<close>

lemma zobjs_addr:
  assumes "i < ZS_SIZE_CLASSES" and "length ps = corder i"
  obtains K where "map obj_addr (zobjs i ps) = map (\<lambda>k. k * csize i) [0..<K]" and "cnum i \<le> K" and "length (zobjs i ps) = K"
proof -
  note b = csize_bounds [OF assms(1)]
  have "\<not> csize i dvd j * PAGE_SIZE" if "0 < j" "j < 0 + length ps" for j
    using order_no_tiling [of j "csize i"] that assms(2) by (simp add: corder_def)
  from objs_contiguous [OF b(3,4) _ _ this, of 0 0] obtain K where
    K: "map obj_addr (zobjs i ps) = map (\<lambda>k. k * csize i) [0..<K]" "ps \<noteq> [] \<longrightarrow> length ps * PAGE_SIZE \<le> K * csize i"
    unfolding zobjs_def by (auto simp: PAGE_SIZE_def)
  have "ps \<noteq> []" using assms(2) corder_bounds(1) [of i] by auto
  then have "corder i * PAGE_SIZE div csize i \<le> K * csize i div csize i" using K(2) assms(2) by (intro div_le_mono) simp
  then have "cnum i \<le> K" using b(3) by (simp add: cnum_def)
  moreover have "length (zobjs i ps) = K" using K(1) by (metis length_map length_upt minus_nat.diff_0)
  ultimately show thesis using that K(1) by blast
qed

lemma usable_length: "i < ZS_SIZE_CLASSES \<Longrightarrow> length ps = corder i \<Longrightarrow> length (usable i ps) = cnum i"
  by (rule zobjs_addr [of i ps]) (auto simp: usable_def)

lemma zobjs_distinct: "i < ZS_SIZE_CLASSES \<Longrightarrow> distinct ps \<Longrightarrow> distinct (zobjs i ps)"
  using zs_objs_keys(1) [of ps "csize i" 0 0] csize_bounds(3) [of i] unfolding zobjs_def by (metis distinct_map)

lemma usable_distinct: "i < ZS_SIZE_CLASSES \<Longrightarrow> distinct ps \<Longrightarrow> distinct (usable i ps)"
  unfolding usable_def by (intro distinct_take zobjs_distinct)

lemma usable_not_spare: "i < ZS_SIZE_CLASSES \<Longrightarrow> distinct ps \<Longrightarrow> x \<in> set (usable i ps) \<Longrightarrow> x \<notin> set (spare i ps)"
  using zobjs_distinct [of i ps] unfolding usable_spare [symmetric] by auto

lemma usable_zobjs: "x \<in> set (usable i ps) \<Longrightarrow> x \<in> set (zobjs i ps)"
  unfolding usable_def by (rule in_set_takeD)

lemma zobjs_elem:
  assumes "i < ZS_SIZE_CLASSES" and "(k, p, x, o') \<in> set (zobjs i ps)"
  shows "k < length ps" "p = ps ! k" "8 dvd o'" "o' < PAGE_SIZE" "x < 2 ^ OBJ_INDEX_BITS" "p \<in> set ps"
  using zs_objs_elem [of "csize i" 0 k p x o' 0 ps] assms csize_bounds [OF assms(1)] zs_objs_pages [of k p x o']
  by (simp_all add: zobjs_def PAGE_SIZE_def)

lemma zobjs_key:
  assumes "i < ZS_SIZE_CLASSES" and "distinct ps" and "(k, p, x, o1) \<in> set (zobjs i ps)" and "(k', p, x, o2) \<in> set (zobjs i ps)"
  shows "k = k'" "o1 = o2"
  using zs_objs_keys(1) [OF assms(2) csize_bounds(3) [OF assms(1)], of 0 0] assms(3,4)
  unfolding zobjs_def distinct_map inj_on_def by fastforce+

lemma zobjs_slot:
  assumes "i < ZS_SIZE_CLASSES" and "distinct ps" and "(k, p, x, o') \<in> set (zobjs i ps)" and "(k', p, x', o') \<in> set (zobjs i ps)"
  shows "k = k'" "x = x'"
  using zs_objs_keys(2) [OF assms(2) csize_bounds(3) [OF assms(1)], of 0 0] assms(3,4)
  unfolding zobjs_def distinct_map inj_on_def by fastforce+

text \<open>A usable object lies inside the zspage, and two of them are apart.\<close>

lemma usable_addr:
  assumes "i < ZS_SIZE_CLASSES" and "length ps = corder i" and "y \<in> set (usable i ps)"
  obtains k where "k < cnum i" and "obj_addr y = k * csize i" and "y = zobjs i ps ! k"
    and "obj_addr y + csize i \<le> corder i * PAGE_SIZE"
proof -
  obtain K where K: "map obj_addr (zobjs i ps) = map (\<lambda>k. k * csize i) [0..<K]" "cnum i \<le> K" "length (zobjs i ps) = K"
    using zobjs_addr [OF assms(1,2)] .
  obtain k where k: "k < cnum i" "y = zobjs i ps ! k" using assms(3) K(2,3) by (auto simp: usable_def in_set_conv_nth)
  have "obj_addr y = map obj_addr (zobjs i ps) ! k" using k K(2,3) by simp
  also have "\<dots> = k * csize i" unfolding K(1) using k K(2) by simp
  finally have a: "obj_addr y = k * csize i" .
  have "k * csize i + csize i \<le> cnum i * csize i" using k(1) mult_le_mono1 [of "Suc k" "cnum i" "csize i"] by simp
  also have "\<dots> \<le> corder i * PAGE_SIZE" by (simp add: cnum_def)
  finally show thesis using that k a by simp
qed

lemma usable_apart:
  assumes "i < ZS_SIZE_CLASSES" and "length ps = corder i" and "y \<in> set (usable i ps)" and "z \<in> set (usable i ps)" and "y \<noteq> z"
  shows "obj_addr y + csize i \<le> obj_addr z \<or> obj_addr z + csize i \<le> obj_addr y"
proof -
  obtain k where k: "obj_addr y = k * csize i" "y = zobjs i ps ! k" using usable_addr [OF assms(1-3)] by metis
  obtain l where l: "obj_addr z = l * csize i" "z = zobjs i ps ! l" using usable_addr [OF assms(1,2,4)] by metis
  have "k < l \<or> l < k" using k(2) l(2) assms(5) by (cases k l rule: linorder_cases) auto
  then show ?thesis
    using mult_le_mono1 [of "Suc k" l "csize i"] mult_le_mono1 [of "Suc l" k "csize i"] unfolding k(1) l(1) by auto
qed

end
