(* ===== verification/Zs_Inv.thy ===== *)
theory Zs_Inv
  imports Zs_Objects
begin

text \<open>
  The invariant of a zsmalloc pool.  \<open>zsp_ok m z\<close>: the pages of \<open>z\<close> form a zspage whose free list holds exactly
  \<open>zsp_free z\<close> and the spare object.  \<open>zs_at pool m Z G\<close>: the zspages of the pool are those of \<open>Z\<close>, by first page, and
  each is filed in the group \<open>G\<close> says; \<open>zs_inv\<close> adds that this is the group of its use, and what the pool counts.
\<close>

record zspage =
  zsp_class :: nat
  zsp_pages :: "zpfn list"
  zsp_free :: "zobj list"

section \<open>One zspage\<close>

definition zsp_list :: "zspage \<Rightarrow> zobj list" where
  "zsp_list z = zsp_free z @ spare (zsp_class z) (zsp_pages z)"

definition zsp_ok :: "zmem \<Rightarrow> zspage \<Rightarrow> bool" where
  "zsp_ok m z \<longleftrightarrow> zsp_class z < ZS_SIZE_CLASSES \<and> length (zsp_pages z) = corder (zsp_class z) \<and> distinct (zsp_pages z)
     \<and> zchain (hd (zsp_pages z)) (zsp_pages z) m
     \<and> (\<forall>q \<in> set (zsp_pages z). q < 2 ^ PFN_BITS \<and> get_first_page q m = hd (zsp_pages z) \<and> q \<in> zused m)
     \<and> distinct (zsp_free z) \<and> set (zsp_free z) \<subseteq> set (usable (zsp_class z) (zsp_pages z))
     \<and> linked m (zsp_list z) 0 \<and> zp_freelist (zpages m (hd (zsp_pages z))) = head_hnd (zsp_list z) 0
     \<and> unat (zp_objects (zpages m (hd (zsp_pages z)))) = cnum (zsp_class z)
     \<and> unat (zp_inuse (zpages m (hd (zsp_pages z)))) = cnum (zsp_class z) - length (zsp_free z)
     \<and> (\<forall>(k, p, x, off) \<in> set (zobjs (zsp_class z) (zsp_pages z)). obj_idx_to_offset p x (csize (zsp_class z)) m = off)"

definition use_group :: "nat \<Rightarrow> nat \<Rightarrow> fullness_group" where
  "use_group n u = (if u = 0 then ZS_EMPTY else if u = n then ZS_FULL
     else if u \<le> n div fullness_threshold_frac then ZS_ALMOST_EMPTY else ZS_ALMOST_FULL)"

definition zsp_group :: "zspage \<Rightarrow> fullness_group" where
  "zsp_group z = use_group (cnum (zsp_class z)) (cnum (zsp_class z) - length (zsp_free z))"

lemma zsp_okD:
  assumes "zsp_ok m z"
  shows "zsp_class z < ZS_SIZE_CLASSES" "length (zsp_pages z) = corder (zsp_class z)" "distinct (zsp_pages z)"
    "zchain (hd (zsp_pages z)) (zsp_pages z) m" "distinct (zsp_free z)"
    "set (zsp_free z) \<subseteq> set (usable (zsp_class z) (zsp_pages z))" "linked m (zsp_list z) 0"
    "zp_freelist (zpages m (hd (zsp_pages z))) = head_hnd (zsp_list z) 0"
    "unat (zp_objects (zpages m (hd (zsp_pages z)))) = cnum (zsp_class z)"
    "unat (zp_inuse (zpages m (hd (zsp_pages z)))) = cnum (zsp_class z) - length (zsp_free z)"
    "(k, p, x, off) \<in> set (zobjs (zsp_class z) (zsp_pages z)) \<Longrightarrow> obj_idx_to_offset p x (csize (zsp_class z)) m = off"
    "q \<in> set (zsp_pages z) \<Longrightarrow> q < 2 ^ PFN_BITS" "q \<in> set (zsp_pages z) \<Longrightarrow> get_first_page q m = hd (zsp_pages z)"
    "q \<in> set (zsp_pages z) \<Longrightarrow> q \<in> zused m"
proof -
  have objs: "\<forall>(k, p, x, off) \<in> set (zobjs (zsp_class z) (zsp_pages z)). obj_idx_to_offset p x (csize (zsp_class z)) m = off"
    and pages: "\<forall>q \<in> set (zsp_pages z). q < 2 ^ PFN_BITS \<and> get_first_page q m = hd (zsp_pages z) \<and> q \<in> zused m"
    using assms by (simp_all add: zsp_ok_def)
  show "(k, p, x, off) \<in> set (zobjs (zsp_class z) (zsp_pages z)) \<Longrightarrow> obj_idx_to_offset p x (csize (zsp_class z)) m = off"
    using objs by fast
  show "q \<in> set (zsp_pages z) \<Longrightarrow> q < 2 ^ PFN_BITS" "q \<in> set (zsp_pages z) \<Longrightarrow> get_first_page q m = hd (zsp_pages z)"
    "q \<in> set (zsp_pages z) \<Longrightarrow> q \<in> zused m" using pages by simp_all
qed (use assms in \<open>simp_all add: zsp_ok_def\<close>)

lemma zsp_first:
  assumes "zsp_ok m z"
  shows "zsp_pages z \<noteq> []" "hd (zsp_pages z) \<in> set (zsp_pages z)" "is_first_page (hd (zsp_pages z)) m" "hd (zsp_pages z) \<noteq> 0"
    "q \<in> set (zsp_pages z) \<Longrightarrow> q \<noteq> 0 \<and> (is_first_page q m \<longleftrightarrow> q = hd (zsp_pages z))"
proof -
  show ne: "zsp_pages z \<noteq> []" using zsp_okD(2) [OF assms] corder_bounds(1) [of "zsp_class z"] by auto
  then show h: "hd (zsp_pages z) \<in> set (zsp_pages z)" by simp
  have c: "q \<noteq> 0 \<and> (is_first_page q m \<longleftrightarrow> q = hd (zsp_pages z))" if "q \<in> set (zsp_pages z)" for q
    using zsp_okD(4) [OF assms] that unfolding zchain_nth in_set_conv_nth by metis
  show "is_first_page (hd (zsp_pages z)) m" "hd (zsp_pages z) \<noteq> 0" using c [OF h] by simp_all
  show "q \<in> set (zsp_pages z) \<Longrightarrow> q \<noteq> 0 \<and> (is_first_page q m \<longleftrightarrow> q = hd (zsp_pages z))" by (rule c)
qed

lemma zsp_fullness: "zsp_ok m z \<Longrightarrow> get_fullness_group (hd (zsp_pages z)) m = Some (zsp_group z)"
  using zsp_first(3) [of m z] zsp_okD(9,10) [of m z]
  by (simp add: get_fullness_group_def zsp_group_def use_group_def Let_def unat_eq_zero)

lemma zsp_free_length: "zsp_ok m z \<Longrightarrow> length (zsp_free z) \<le> cnum (zsp_class z)"
proof -
  assume z: "zsp_ok m z"
  have "length (zsp_free z) = card (set (zsp_free z))" using zsp_okD(5) [OF z] by (simp add: distinct_card)
  also have "\<dots> \<le> card (set (usable (zsp_class z) (zsp_pages z)))" using zsp_okD(6) [OF z] by (intro card_mono) simp_all
  also have "\<dots> \<le> length (usable (zsp_class z) (zsp_pages z))" by (rule card_length)
  also have "\<dots> \<le> cnum (zsp_class z)" by (simp add: usable_def)
  finally show ?thesis .
qed

lemma zsp_group_empty: "zsp_ok m z \<Longrightarrow> zsp_group z = ZS_EMPTY \<longleftrightarrow> length (zsp_free z) = cnum (zsp_class z)"
  using zsp_free_length [of m z] by (auto simp: zsp_group_def use_group_def)

lemma zsp_group_full: "zsp_ok m z \<Longrightarrow> zsp_group z = ZS_FULL \<longleftrightarrow> zsp_free z = []"
  using zsp_free_length [of m z] cnum_bounds(1) [of "zsp_class z"] zsp_okD(1) [of m z]
  by (cases "zsp_free z") (auto simp: zsp_group_def use_group_def)

lemma zsp_group_listed: "listed (zsp_group z) \<longleftrightarrow> zsp_group z \<noteq> ZS_EMPTY \<and> zsp_group z \<noteq> ZS_FULL"
  by (simp add: zsp_group_def use_group_def listed_def)

text \<open>What a zspage does not depend on.\<close>

lemma zsp_ok_same:
  assumes z: "zsp_ok m z" and hd: "zpages m' (hd (zsp_pages z)) = (zpages m (hd (zsp_pages z)))\<lparr>lru_prev := a, lru_next := b, zp_mapping := v\<rparr>"
    and rest: "\<And>q. q \<in> set (zsp_pages z) \<Longrightarrow> q \<noteq> hd (zsp_pages z) \<Longrightarrow> zpages m' q = zpages m q"
    and links: "\<And>q o'. q \<in> set (zsp_pages z) \<Longrightarrow> zlinks m' (q, o') = zlinks m (q, o')"
    and used: "\<And>q. q \<in> set (zsp_pages z) \<Longrightarrow> q \<in> zused m'"
  shows "zsp_ok m' z"
proof -
  let ?h = "hd (zsp_pages z)"
  have page: "is_first_page q m' = is_first_page q m" "get_next_page q m' = get_next_page q m" "get_first_page q m' = get_first_page q m"
    "obj_idx_to_offset q x sz m' = obj_idx_to_offset q x sz m" if "q \<in> set (zsp_pages z)" for q x sz
    using hd rest [OF that] zsp_first(3) [OF z]
    by (cases "q = ?h"; simp add: is_first_page_def is_last_page_def get_next_page_def get_first_page_def obj_idx_to_offset_def)+
  have "zchain ?h (zsp_pages z) m'" using zsp_okD(4) [OF z] page by (simp cong: zchain_cong)
  moreover have "p \<in> set (zsp_pages z)" if "(k, p, x, off) \<in> set (zsp_list z)" for k p x off
    using that zsp_okD(6) [OF z] zobjs_elem(6) [OF zsp_okD(1) [OF z]] usable_zobjs
    by (fastforce simp: zsp_list_def spare_def dest: in_set_dropD)
  then have "linked m' (zsp_list z) 0" using zsp_okD(7) [OF z] links linked_cong [of "zsp_list z" m' m 0] by blast
  moreover have "obj_idx_to_offset p x (csize (zsp_class z)) m' = off" if "(k, p, x, off) \<in> set (zobjs (zsp_class z) (zsp_pages z))" for k p x off
    using page(4) [OF zobjs_elem(6) [OF zsp_okD(1) [OF z] that]] zsp_okD(11) [OF z that] by simp
  ultimately show ?thesis using z page(3) used by (auto simp: zsp_ok_def hd)
qed

section \<open>All zspages of a pool\<close>

type_synonym zspages = "zpfn \<Rightarrow> zspage option"

definition members :: "zspages \<Rightarrow> (zpfn \<Rightarrow> fullness_group) \<Rightarrow> nat \<Rightarrow> fullness_group \<Rightarrow> zpfn set" where
  "members Z G i fg = {p. \<exists>z. Z p = Some z \<and> zsp_class z = i \<and> G p = fg}"

definition class_is :: "nat \<Rightarrow> size_class \<Rightarrow> bool" where
  "class_is i c \<longleftrightarrow> i < ZS_SIZE_CLASSES \<and> sc_size c = csize i \<and> sc_index c = i \<and> zspage_order c = corder i"

definition zsp_at :: "zmem \<Rightarrow> (zpfn \<Rightarrow> fullness_group) \<Rightarrow> zpfn \<Rightarrow> zspage \<Rightarrow> bool" where
  "zsp_at m G p z \<longleftrightarrow> hd (zsp_pages z) = p \<and> zsp_ok m z \<and> get_zspage_mapping p m = Some (zsp_class z, G p)
     \<and> (\<not> listed (G p) \<longrightarrow> lone m p)"

definition zsp_apart :: "zspages \<Rightarrow> bool" where
  "zsp_apart Z \<longleftrightarrow> (\<forall>p q y z. Z p = Some y \<and> Z q = Some z \<and> p \<noteq> q \<longrightarrow> set (zsp_pages y) \<inter> set (zsp_pages z) = {})"

definition classes_ok :: "zs_pool \<Rightarrow> zmem \<Rightarrow> zspages \<Rightarrow> (zpfn \<Rightarrow> fullness_group) \<Rightarrow> bool" where
  "classes_ok pool m Z G \<longleftrightarrow> length (size_class_of pool) = ZS_SIZE_CLASSES
     \<and> (\<forall>i c. class_at i pool = Some c \<longrightarrow> class_is i c \<and> groups_ok m c (members Z G i))"

definition zs_at :: "zs_pool \<Rightarrow> zmem \<Rightarrow> zspages \<Rightarrow> (zpfn \<Rightarrow> fullness_group) \<Rightarrow> bool" where
  "zs_at pool m Z G \<longleftrightarrow> (\<forall>p z. Z p = Some z \<longrightarrow> zsp_at m G p z) \<and> zsp_apart Z \<and> classes_ok pool m Z G"

lemma zs_atD:
  assumes "zs_at pool m Z G"
  shows "Z p = Some z \<Longrightarrow> zsp_at m G p z" "zsp_apart Z" "classes_ok pool m Z G"
  using assms by (simp_all add: zs_at_def)

lemma classes_okD:
  assumes "classes_ok pool m Z G"
  shows "length (size_class_of pool) = ZS_SIZE_CLASSES" "class_at i pool = Some c \<Longrightarrow> class_is i c"
    "class_at i pool = Some c \<Longrightarrow> groups_ok m c (members Z G i)" "i < ZS_SIZE_CLASSES \<Longrightarrow> \<exists>c. class_at i pool = Some c"
  using assms by (auto simp: classes_ok_def class_at_def)

lemma class_at_less: "class_at i pool = Some c \<Longrightarrow> i < length (size_class_of pool)"
  by (simp add: class_at_def split: if_splits)

lemma zsp_atD:
  assumes "zsp_at m G p z"
  shows "hd (zsp_pages z) = p" "zsp_ok m z" "get_zspage_mapping p m = Some (zsp_class z, G p)" "\<not> listed (G p) \<Longrightarrow> lone m p"
    "p \<in> set (zsp_pages z)" "is_first_page p m" "p \<noteq> 0" "p < 2 ^ PFN_BITS"
proof -
  show a: "hd (zsp_pages z) = p" "zsp_ok m z" "get_zspage_mapping p m = Some (zsp_class z, G p)" "\<not> listed (G p) \<Longrightarrow> lone m p"
    using assms by (simp_all add: zsp_at_def)
  show "p \<in> set (zsp_pages z)" "is_first_page p m" "p \<noteq> 0" using zsp_first [OF a(2)] unfolding a(1) by simp_all
  then show "p < 2 ^ PFN_BITS" using zsp_okD(12) [OF a(2)] by simp
qed

text \<open>A first page is in no other zspage.\<close>

lemma first_not_in_other:
  assumes "zs_at pool m Z G" and "Z p = Some z" and "Z q = Some y" and "p \<noteq> q"
  shows "p \<notin> set (zsp_pages y)"
  using assms zsp_atD(5) [OF zs_atD(1) [OF assms(1,2)]] zs_atD(2) [OF assms(1)] unfolding zsp_apart_def by blast

text \<open>Pages whose links, mapping and list links are as before keep their zspage.\<close>

lemma zsp_at_same:
  assumes z: "zsp_at m G p z" and pages: "\<And>q. q \<in> set (zsp_pages z) \<Longrightarrow> zpages m' q = zpages m q"
    and links: "\<And>q o'. q \<in> set (zsp_pages z) \<Longrightarrow> zlinks m' (q, o') = zlinks m (q, o')"
    and used: "\<And>q. q \<in> set (zsp_pages z) \<Longrightarrow> q \<in> zused m'" and g: "G' p = G p"
  shows "zsp_at m' G' p z"
proof -
  have "zsp_ok m' z"
    by (rule zsp_ok_same [OF zsp_atD(2) [OF z], where a = "lru_prev (zpages m (hd (zsp_pages z)))" and b = "lru_next (zpages m (hd (zsp_pages z)))"
          and v = "zp_mapping (zpages m (hd (zsp_pages z)))"])
      (use pages links used zsp_atD(1,5) [OF z] in simp_all)
  then show ?thesis
    using zsp_atD [OF z] pages [OF zsp_atD(5) [OF z]] g
    by (simp add: zsp_at_def get_zspage_mapping_def is_first_page_def lone_def)
qed

lemma classes_ok_cong:
  assumes "classes_ok pool m Z G" and "\<And>q. Z q \<noteq> None \<Longrightarrow> listed (G q) \<Longrightarrow>
      lru_next (zpages m' q) = lru_next (zpages m q) \<and> lru_prev (zpages m' q) = lru_prev (zpages m q)"
    and "\<And>i fg. listed fg \<Longrightarrow> members Z' G' i fg = members Z G i fg"
  shows "classes_ok pool m' Z' G'"
proof -
  have "groups_ok m' c (members Z' G' i)" if at: "class_at i pool = Some c" for i c
  proof -
    have "q \<in> ringed (members Z G i) \<Longrightarrow> Z q \<noteq> None \<and> listed (G q)" for q by (auto simp: ringed_def members_def listed_def)
    then have "groups_ok m' c (members Z' G' i) = groups_ok m c (members Z G i)" using assms(2,3) by (intro groups_ok_cong) auto
    with classes_okD(3) [OF assms(1) at] show ?thesis by simp
  qed
  with assms(1) show ?thesis by (simp add: classes_ok_def)
qed

text \<open>A class may change everything but its lists.\<close>

lemma zs_at_class:
  assumes "zs_at pool m Z G" and "class_at i pool = Some c" and "class_is i c'" and "fullness_list c' = fullness_list c"
  shows "zs_at (upd_class i (\<lambda>_. c') pool) m Z G"
proof -
  have "class_is j d \<and> groups_ok m d (members Z G j)" if "class_at j (upd_class i (\<lambda>_. c') pool) = Some d" for j d
  proof (cases "j = i")
    case True
    then have "d = c'" using that upd_class_at(1) [OF assms(2)] by simp
    moreover have "groups_ok m c' (members Z G i) = groups_ok m c (members Z G i)" using assms(4) by (intro groups_ok_cong) simp_all
    ultimately show ?thesis using classes_okD(3) [OF zs_atD(3) [OF assms(1)] assms(2)] assms(3) True by simp
  next
    case False
    then have "class_at j pool = Some d" using that by (auto simp: class_at_def upd_class_def split: if_splits)
    then show ?thesis using classes_okD(2,3) [OF zs_atD(3) [OF assms(1)]] by simp
  qed
  moreover have "length (size_class_of (upd_class i (\<lambda>_. c') pool)) = length (size_class_of pool)" by (simp add: upd_class_def)
  ultimately have "classes_ok (upd_class i (\<lambda>_. c') pool) m Z G"
    using classes_okD(1) [OF zs_atD(3) [OF assms(1)]] by (simp add: classes_ok_def)
  with assms(1) show ?thesis by (simp add: zs_at_def)
qed

lemma zsp_apartD: "zsp_apart Z \<Longrightarrow> Z p = Some y \<Longrightarrow> Z q = Some z \<Longrightarrow> p \<noteq> q \<Longrightarrow> set (zsp_pages y) \<inter> set (zsp_pages z) = {}"
  unfolding zsp_apart_def by metis

lemma zsp_apart_upd:
  assumes "zsp_apart Z" and new: "\<And>q y. q \<noteq> p \<Longrightarrow> Z q = Some y \<Longrightarrow> set (zsp_pages z) \<inter> set (zsp_pages y) = {}"
  shows "zsp_apart (Z(p \<mapsto> z))"
  unfolding zsp_apart_def
proof (intro allI impI)
  fix q r x y assume a: "(Z(p \<mapsto> z)) q = Some x \<and> (Z(p \<mapsto> z)) r = Some y \<and> q \<noteq> r"
  show "set (zsp_pages x) \<inter> set (zsp_pages y) = {}"
    using a new [of q x] new [of r y] zsp_apartD [OF assms(1), of q x r y]
    by (cases "q = p"; cases "r = p") (simp_all add: Int_commute)
qed

text \<open>The free list of one zspage changes.\<close>

lemma zs_at_data:
  assumes inv: "zs_at pool m Z G" and z: "Z p = Some z" and z': "zsp_class z' = zsp_class z" "zsp_pages z' = zsp_pages z" "zsp_ok m' z'"
    and pages: "\<And>q. q \<noteq> p \<Longrightarrow> zpages m' q = zpages m q" and page: "zpages m' p = (zpages m p)\<lparr>zp_freelist := f, zp_inuse := u\<rparr>"
    and links: "\<And>q o'. q \<notin> set (zsp_pages z) \<Longrightarrow> zlinks m' (q, o') = zlinks m (q, o')" and used: "zused m' = zused m"
  shows "zs_at pool m' (Z(p \<mapsto> z')) G"
proof -
  note zp = zs_atD(1) [OF inv z]
  have "zsp_at m' G p z'"
    using zsp_atD [OF zp] z' by (simp add: zsp_at_def page get_zspage_mapping_def is_first_page_def lone_def)
  moreover have "zsp_at m' G q y" if y: "Z q = Some y" "q \<noteq> p" for q y
  proof (rule zsp_at_same [OF zs_atD(1) [OF inv y(1)]])
    have d: "set (zsp_pages z) \<inter> set (zsp_pages y) = {}" using zsp_apartD [OF zs_atD(2) [OF inv] z y(1)] y(2) by simp
    then have "r \<noteq> p" "r \<notin> set (zsp_pages z)" if "r \<in> set (zsp_pages y)" for r using that zsp_atD(5) [OF zp] by auto
    then show "zpages m' r = zpages m r" "zlinks m' (r, o') = zlinks m (r, o')" if "r \<in> set (zsp_pages y)" for r o'
      using that pages [of r] links [of r o'] by simp_all
    show "r \<in> zused m'" if "r \<in> set (zsp_pages y)" for r
      using zsp_okD(14) [OF zsp_atD(2) [OF zs_atD(1) [OF inv y(1)]] that] used by simp
  qed simp
  moreover have "zsp_apart (Z(p \<mapsto> z'))"
    using zsp_apart_upd [OF zs_atD(2) [OF inv], of p z'] zsp_apartD [OF zs_atD(2) [OF inv] z] unfolding z'(2) by metis
  moreover have "classes_ok pool m' (Z(p \<mapsto> z')) G"
  proof (rule classes_ok_cong [OF zs_atD(3) [OF inv]])
    show "lru_next (zpages m' q) = lru_next (zpages m q) \<and> lru_prev (zpages m' q) = lru_prev (zpages m q)" for q
      using pages [of q] page by (cases "q = p") simp_all
    show "members (Z(p \<mapsto> z')) G i fg = members Z G i fg" for i fg using z z'(1) by (auto simp: members_def)
  qed
  ultimately show ?thesis by (simp add: zs_at_def)
qed

text \<open>\<open>fix_fullness_group\<close> files a zspage where it belongs.\<close>

lemma zs_at_fix:
  assumes inv: "zs_at pool m Z G" and z: "Z p = Some z" and at: "class_at (zsp_class z) pool = Some c"
  obtains l m' where "fix_fullness_group p (pool, m) =
      Some (zsp_group z, upd_class (zsp_class z) (\<lambda>_. c\<lparr>fullness_list := l\<rparr>) pool, m')"
    and "zs_at (upd_class (zsp_class z) (\<lambda>_. c\<lparr>fullness_list := l\<rparr>) pool) m' Z (G(p := zsp_group z))"
    and "zused m' = zused m" and "zlinks m' = zlinks m"
proof -
  let ?i = "zsp_class z" and ?S = "members Z G (zsp_class z)" and ?G = "G(p := zsp_group z)"
  note zp = zs_atD(1) [OF inv z] and cl = zs_atD(3) [OF inv]
  have ci: "?i < 2 ^ CLASS_IDX_BITS" using zsp_okD(1) [OF zsp_atD(2) [OF zp]] by (simp add: zs_consts CLASS_IDX_BITS_def)
  have new: "get_fullness_group p m = Some (zsp_group z)" using zsp_fullness [OF zsp_atD(2) [OF zp]] zsp_atD(1) [OF zp] by simp
  have mem: "p \<in> ?S fg \<longleftrightarrow> fg = G p" if "listed fg" for fg using z by (auto simp: members_def)
  obtain l m1 m' v where fx: "fix_fullness_group p (pool, m) = Some (zsp_group z, upd_class ?i (\<lambda>_. c\<lparr>fullness_list := l\<rparr>) pool, m')"
    "lru_only (insert p (ringed ?S)) m m1" "m' = upd_page p (\<lambda>d. d\<lparr>zp_mapping := v\<rparr>) m1"
    "get_zspage_mapping p m' = Some (?i, zsp_group z)" "groups_ok m' (c\<lparr>fullness_list := l\<rparr>) (regroup p (zsp_group z) ?S)"
    "\<not> listed (zsp_group z) \<Longrightarrow> lone m' p"
    by (rule fix_fullness_group_ok [OF classes_okD(3) [OF cl at] at ci zsp_atD(3) [OF zp] new zsp_atD(6,7,4) [OF zp] mem]) (assumption | rule that)+
  let ?c = "c\<lparr>fullness_list := l\<rparr>"
  have used: "zused m' = zused m" "zlinks m' = zlinks m" using lru_onlyD(1,2) [OF fx(2)] by (simp_all add: fx(3) upd_page_def)
  have ring: "\<exists>y. Z q = Some y \<and> zsp_class y = ?i \<and> listed (G q)" if "q \<in> ringed ?S" for q
    using that by (auto simp: ringed_def members_def listed_def)
  have pages: "zpages m' q = zpages m q" if "q \<noteq> p" "q \<notin> ringed ?S" for q
    using that lru_onlyD(3) [OF fx(2)] by (simp add: fx(3) upd_page_def)
  have lru: "\<exists>a b. zpages m' q = (zpages m q)\<lparr>lru_prev := a, lru_next := b\<rparr>" if "q \<noteq> p" for q
    using that fx(2) unfolding lru_only_def by (simp add: fx(3) upd_page_def)
  obtain a b where pp: "zpages m' p = (zpages m p)\<lparr>lru_prev := a, lru_next := b, zp_mapping := v\<rparr>"
    using fx(2) unfolding lru_only_def fx(3) upd_page_def by (metis (no_types) fun_upd_same zmem.select_convs(1) zmem.surjective zmem.update_convs(1))
  have "zsp_at m' ?G q y" if y: "Z q = Some y" for q y
  proof -
    note yq = zs_atD(1) [OF inv y]
    have rest: "zpages m' r = zpages m r" if "r \<in> set (zsp_pages y)" "r \<noteq> q" for r
    proof -
      have "r \<noteq> p" using first_not_in_other [OF inv z y] that by auto
      moreover have "r \<notin> ringed ?S" using ring [of r] first_not_in_other [OF inv _ y, of r] that by auto
      ultimately show ?thesis by (rule pages)
    qed
    obtain a' b' v' where h: "zpages m' q = (zpages m q)\<lparr>lru_prev := a', lru_next := b', zp_mapping := v'\<rparr>"
      and v': "q \<noteq> p \<longrightarrow> v' = zp_mapping (zpages m q)"
    proof (cases "q = p")
      case False
      from lru [OF this] obtain a b where "zpages m' q = (zpages m q)\<lparr>lru_prev := a, lru_next := b\<rparr>" by blast
      then have "zpages m' q = (zpages m q)\<lparr>lru_prev := a, lru_next := b, zp_mapping := zp_mapping (zpages m q)\<rparr>" by simp
      then show thesis using that by blast
    qed (use pp that in blast)
    have "zsp_ok m' y"
      by (rule zsp_ok_same [OF zsp_atD(2) [OF yq]])
        (use h rest used zsp_okD(14) [OF zsp_atD(2) [OF yq]] zsp_atD(1) [OF yq] in auto)
    moreover have "get_zspage_mapping q m' = Some (zsp_class y, ?G q)"
    proof (cases "q = p")
      case True
      then show ?thesis using fx(4) y z by simp
    next
      case False
      then show ?thesis using zsp_atD(3) [OF yq] h v' by (simp add: get_zspage_mapping_def is_first_page_def split: if_splits)
    qed
    moreover have "lone m' q" if nl: "\<not> listed (?G q)"
    proof (cases "q = p")
      case True
      then show ?thesis using fx(6) nl by simp
    next
      case False
      then have "q \<notin> ringed ?S" using ring [of q] nl y by auto
      then show ?thesis using pages [OF False] zsp_atD(4) [OF yq] nl False by (simp add: lone_def)
    qed
    ultimately show ?thesis using zsp_atD(1) [OF yq] by (simp add: zsp_at_def)
  qed
  moreover have "classes_ok (upd_class ?i (\<lambda>_. ?c) pool) m' Z ?G"
    unfolding classes_ok_def
  proof (intro conjI allI impI)
    show "length (size_class_of (upd_class ?i (\<lambda>_. ?c) pool)) = ZS_SIZE_CLASSES" using classes_okD(1) [OF cl] by (simp add: upd_class_def)
    fix j d assume d: "class_at j (upd_class ?i (\<lambda>_. ?c) pool) = Some d"
    have "class_is j d \<and> groups_ok m' d (members Z ?G j)"
    proof (cases "j = ?i")
      case True
      then have "d = ?c" using d upd_class_at(1) [OF at] by simp
      moreover have "members Z ?G ?i = regroup p (zsp_group z) ?S" using z by (auto simp: members_def regroup_def fun_eq_iff)
      ultimately show ?thesis using fx(5) classes_okD(2) [OF cl at] True by (simp add: class_is_def)
    next
      case False
      then have d': "class_at j pool = Some d" using d by (auto simp: class_at_def upd_class_def split: if_splits)
      have "members Z ?G j = members Z G j" using z False by (auto simp: members_def fun_eq_iff)
      moreover have "zpages m' q = zpages m q" if "q \<in> ringed (members Z G j)" for q
        using that ring [of q] z False by (intro pages) (auto simp: ringed_def members_def)
      then have "groups_ok m' d (members Z G j) = groups_ok m d (members Z G j)" by (intro groups_ok_cong) simp_all
      ultimately show ?thesis using classes_okD(2,3) [OF cl d'] by simp
    qed
    then show "class_is j d" "groups_ok m' d (members Z ?G j)" by simp_all
  qed
  ultimately have "zs_at (upd_class ?i (\<lambda>_. ?c) pool) m' Z ?G" using zs_atD(2) [OF inv] by (simp add: zs_at_def)
  then show thesis using that fx(1) used by blast
qed

text \<open>An empty zspage that is in no list is given up: its first page goes, the others are lost.\<close>

lemma zs_at_drop:
  assumes inv: "zs_at pool m Z G" and z: "Z p = Some z" and nl: "\<not> listed (G p)"
    and pages: "\<And>q. q \<noteq> p \<Longrightarrow> zpages m' q = zpages m q" and links: "zlinks m' = zlinks m" and used: "zused m' = zused m - {p}"
  shows "zs_at pool m' (Z(p := None)) G"
proof -
  have "zsp_at m' G q y" if y: "Z q = Some y" "q \<noteq> p" for q y
  proof (rule zsp_at_same [OF zs_atD(1) [OF inv y(1)]])
    have p: "r \<noteq> p" if "r \<in> set (zsp_pages y)" for r using first_not_in_other [OF inv z y(1)] that y(2) by auto
    then show "zpages m' r = zpages m r" if "r \<in> set (zsp_pages y)" for r using that pages by simp
    show "r \<in> zused m'" if "r \<in> set (zsp_pages y)" for r
      using zsp_okD(14) [OF zsp_atD(2) [OF zs_atD(1) [OF inv y(1)]] that] p [OF that] used by simp
  qed (simp_all add: links)
  moreover have "zsp_apart (Z(p := None))" using zs_atD(2) [OF inv] unfolding zsp_apart_def by (metis fun_upd_apply option.discI)
  moreover have "classes_ok pool m' (Z(p := None)) G"
  proof (rule classes_ok_cong [OF zs_atD(3) [OF inv]])
    show "lru_next (zpages m' q) = lru_next (zpages m q) \<and> lru_prev (zpages m' q) = lru_prev (zpages m q)" if "listed (G q)" for q
      using pages [of q] that nl by (cases "q = p") simp_all
    show "members (Z(p := None)) G i fg = members Z G i fg" if "listed fg" for i fg using nl that by (auto simp: members_def)
  qed
  ultimately show ?thesis by (simp add: zs_at_def)
qed

end
