(* ===== verification/Zs_Ops.thy ===== *)
theory Zs_Ops
  imports Zs_Inv
begin

text \<open>
  \<open>zs_malloc\<close> and \<open>zs_free\<close> against the invariant: taking the first free object of a zspage, adding a new
  zspage, putting an object back, giving up an empty zspage.
\<close>

section \<open>A new zspage\<close>

definition new_zsp :: "nat \<Rightarrow> zpfn list \<Rightarrow> zspage" where
  "new_zsp i ps = \<lparr>zsp_class = i, zsp_pages = ps, zsp_free = usable i ps\<rparr>"

lemma zobjs_head:
  assumes "ps \<noteq> []" and "0 < csize i"
  shows "head_hnd (zobjs i ps) t = hnd (hd ps) 0"
proof -
  obtain p qs where ps: "ps = p # qs" using assms(1) by (cases ps) auto
  have "0 < objs_on (csize i) 0" using assms(2) by (intro objs_on_pos) (simp_all add: PAGE_SIZE_def)
  then show ?thesis by (simp add: zobjs_def ps head_hnd_def upt_conv_Cons)
qed

lemma new_zsp_ok:
  assumes new: "new_zspage c ps m" and c: "class_is i c" and used: "set ps \<subseteq> zused m"
  shows "zsp_ok m (new_zsp i ps)"
proof -
  have i: "i < ZS_SIZE_CLASSES" and c': "sc_size c = csize i" "zspage_order c = corder i" using c by (simp_all add: class_is_def)
  have ne: "ps \<noteq> []" using new corder_bounds(1) [of i] by (auto simp: new_zspage_def c')
  have d: "distinct ps" "length ps = corder i" using new by (simp_all add: new_zspage_def c')
  show ?thesis
    using new used i usable_distinct [OF i d(1)] usable_length [OF i d(2)] zobjs_head [OF ne csize_bounds(3) [OF i], of 0] d
    by (auto simp: new_zspage_def zsp_ok_def new_zsp_def zsp_list_def usable_spare c' cnum_def zobjs_def)
qed

lemma zs_at_new:
  assumes inv: "zs_at pool m Z G" and c: "class_is i c" and new: "new_zspage c ps m2"
    and ps: "set ps \<inter> zused m = {}" "zused m2 = zused m \<union> set ps"
    and frame: "\<And>q. q \<notin> set ps \<Longrightarrow> zpages m2 q = zpages m q \<and> (\<forall>o'. zlinks m2 (q, o') = zlinks m (q, o'))"
    and map: "m3 = upd_page (hd ps) (\<lambda>d. d\<lparr>zp_mapping := v\<rparr>) m2" "get_zspage_mapping (hd ps) m3 = Some (i, ZS_EMPTY)"
  shows "zs_at pool m3 (Z(hd ps \<mapsto> new_zsp i ps)) (G(hd ps := ZS_EMPTY))" and "Z (hd ps) = None"
proof -
  let ?p = "hd ps" and ?z = "new_zsp i ps"
  have ok2: "zsp_ok m2 ?z" by (rule new_zsp_ok [OF new c]) (use ps(2) in simp)
  have z: "zsp_pages ?z = ps" "zsp_class ?z = i" by (simp_all add: new_zsp_def)
  have pin: "?p \<in> set ps" using zsp_first(2) [OF ok2] z by simp
  have ok: "zsp_ok m3 ?z"
    by (rule zsp_ok_same [OF ok2, where a = "lru_prev (zpages m2 ?p)" and b = "lru_next (zpages m2 ?p)" and v = v])
      (use ps(2) in \<open>simp_all add: map(1) upd_page_def z\<close>)
  have old: "set ps \<inter> set (zsp_pages y) = {}" if y: "Z q = Some y" for q y
    using zsp_okD(14) [OF zsp_atD(2) [OF zs_atD(1) [OF inv y]]] ps(1) by blast
  have oldp: "?p \<notin> set (zsp_pages y)" "q \<noteq> ?p" if y: "Z q = Some y" for q y
    using old [OF y] pin zsp_atD(5) [OF zs_atD(1) [OF inv y]] by auto
  show none: "Z ?p = None" using oldp(2) [of ?p] by (cases "Z ?p") auto
  have "zsp_at m3 (G(?p := ZS_EMPTY)) ?p ?z"
    using ok map new by (simp add: zsp_at_def z lone_def new_zspage_def upd_page_def)
  moreover have "zsp_at m3 (G(?p := ZS_EMPTY)) q y" if y: "Z q = Some y" for q y
  proof (rule zsp_at_same [OF zs_atD(1) [OF inv y]])
    have r: "r \<noteq> ?p" "r \<notin> set ps" if "r \<in> set (zsp_pages y)" for r using old [OF y] pin that by auto
    show "zpages m3 r = zpages m r" "zlinks m3 (r, o') = zlinks m (r, o')" if "r \<in> set (zsp_pages y)" for r o'
      using frame [OF r(2) [OF that]] r(1) [OF that] by (simp_all add: map(1) upd_page_def)
    show "r \<in> zused m3" if "r \<in> set (zsp_pages y)" for r
      using zsp_okD(14) [OF zsp_atD(2) [OF zs_atD(1) [OF inv y]] that] ps(2) by (simp add: map(1) upd_page_def)
    show "(G(?p := ZS_EMPTY)) q = G q" using oldp(2) [OF y] by simp
  qed
  moreover have "zsp_apart (Z(?p \<mapsto> ?z))" by (rule zsp_apart_upd [OF zs_atD(2) [OF inv]]) (use old z in simp)
  moreover have "classes_ok pool m3 (Z(?p \<mapsto> ?z)) (G(?p := ZS_EMPTY))"
  proof (rule classes_ok_cong [OF zs_atD(3) [OF inv]])
    show "lru_next (zpages m3 q) = lru_next (zpages m q) \<and> lru_prev (zpages m3 q) = lru_prev (zpages m q)" if "Z q \<noteq> None" for q
    proof -
      obtain y where y: "Z q = Some y" using \<open>Z q \<noteq> None\<close> by blast
      have "q \<notin> set ps" using old [OF y] zsp_atD(5) [OF zs_atD(1) [OF inv y]] by auto
      then show ?thesis using frame [of q] oldp(2) [OF y] by (simp add: map(1) upd_page_def)
    qed
    show "members (Z(?p \<mapsto> ?z)) (G(?p := ZS_EMPTY)) j fg = members Z G j fg" if "listed fg" for j fg
      using that none by (auto simp: members_def listed_def)
  qed
  ultimately show "zs_at pool m3 (Z(?p \<mapsto> ?z)) (G(?p := ZS_EMPTY))" by (simp add: zs_at_def)
qed

section \<open>Taking an object\<close>

definition hobj :: "zobj \<Rightarrow> handle" where
  "hobj = (\<lambda>(k, q, x, off). hnd q x)"

lemma hobj_simp [simp]: "hobj (k, q, x, off) = hnd q x"
  by (simp add: hobj_def)

definition obj_slot :: "zobj \<Rightarrow> zpfn \<times> nat" where
  "obj_slot = (\<lambda>(k, q, x, off). (q, off))"

lemma obj_slot_simp [simp]: "obj_slot (k, q, x, off) = (q, off)"
  by (simp add: obj_slot_def)

lemma read_link_ok: "8 dvd off \<Longrightarrow> off < PAGE_SIZE \<Longrightarrow> read_link p off m = Some (zlinks m (p, off))"
proof -
  assume a: "8 dvd off" "off < PAGE_SIZE"
  then have "off + 8 \<le> 4096" by (auto simp: PAGE_SIZE_def elim!: dvdE)
  with a show ?thesis by (simp add: read_link_def link_slot_id PAGE_SIZE_def)
qed

lemma linked_Cons: "linked m ((k, q, x, off) # xs) t \<longleftrightarrow> zlinks m (q, off) = head_hnd xs t \<and> linked m xs t"
  by (simp add: head_hnd_def split: list.splits)

lemma linked_other_slot:
  assumes z: "zsp_ok m z" and xs: "set xs \<subseteq> set (zobjs (zsp_class z) (zsp_pages z))"
    and y: "(k, q, x, off) \<in> set (zobjs (zsp_class z) (zsp_pages z))" "(k, q, x, off) \<notin> set xs"
    and m': "\<And>r o'. (r, o') \<noteq> (q, off) \<Longrightarrow> zlinks m' (r, o') = zlinks m (r, o')"
  shows "linked m' xs t = linked m xs t"
proof (rule linked_cong)
  fix j p i o' assume a: "(j, p, i, o') \<in> set xs"
  have "(p, o') \<noteq> (q, off)"
  proof
    assume "(p, o') = (q, off)"
    then have "j = k" "i = x" using zobjs_slot [OF zsp_okD(1,3) [OF z] y(1), of j i] a xs by auto
    with a y(2) \<open>(p, o') = (q, off)\<close> show False by simp
  qed
  then show "zlinks m' (p, o') = zlinks m (p, o')" by (rule m')
qed

lemma zsp_list_zobjs: "zsp_ok m z \<Longrightarrow> set (zsp_list z) \<subseteq> set (zobjs (zsp_class z) (zsp_pages z))"
  using zsp_okD(6) [of m z] usable_zobjs unfolding zsp_list_def spare_def by (auto dest: in_set_dropD)

lemma zsp_list_distinct: "zsp_ok m z \<Longrightarrow> distinct (zsp_list z)"
  using zsp_okD(1,3,5,6) [of m z] zobjs_distinct [of "zsp_class z" "zsp_pages z"] usable_not_spare [of "zsp_class z" "zsp_pages z"]
  unfolding zsp_list_def by (auto simp: spare_def)

text \<open>The data of a zspage when its free list changes by one object.\<close>

lemma zsp_ok_step:
  assumes z: "zsp_ok m z" and z': "z' = z\<lparr>zsp_free := F\<rparr>" "distinct F" "set F \<subseteq> set (usable (zsp_class z) (zsp_pages z))"
    and page: "zpages m' (hd (zsp_pages z)) = (zpages m (hd (zsp_pages z)))\<lparr>zp_freelist := head_hnd (zsp_list z') 0, zp_inuse := u\<rparr>"
    and u: "unat u = cnum (zsp_class z) - length F"
    and pages: "\<And>q. q \<noteq> hd (zsp_pages z) \<Longrightarrow> zpages m' q = zpages m q" and used: "zused m' = zused m"
    and links: "linked m' (zsp_list z') 0"
  shows "zsp_ok m' z'"
proof -
  let ?h = "hd (zsp_pages z)"
  have pg: "is_first_page q m' = is_first_page q m" "get_next_page q m' = get_next_page q m" "get_first_page q m' = get_first_page q m"
    "obj_idx_to_offset q x sz m' = obj_idx_to_offset q x sz m" for q x sz
    using page pages [of q]
    by (cases "q = ?h"; simp add: is_first_page_def is_last_page_def get_next_page_def get_first_page_def obj_idx_to_offset_def)+
  have "zchain ?h (zsp_pages z) m'" using zsp_okD(4) [OF z] pg by (simp cong: zchain_cong)
  with z z' u links show ?thesis by (simp add: zsp_ok_def page pg used)
qed

lemma take_object_ok:
  assumes inv: "zs_at pool m Z G" and z: "Z p = Some z" and x: "zsp_free z = x # F" and at: "class_at (zsp_class z) pool = Some c"
  obtains l m' where "take_object (zsp_class z) p (pool, m) =
      Some (hobj x, unlock_class (zsp_class z) (upd_class (zsp_class z) (\<lambda>_. c\<lparr>fullness_list := l\<rparr>) pool), m')"
    and "zs_at (upd_class (zsp_class z) (\<lambda>_. c\<lparr>fullness_list := l\<rparr>) pool) m' (Z(p \<mapsto> z\<lparr>zsp_free := F\<rparr>))
      (G(p := zsp_group (z\<lparr>zsp_free := F\<rparr>)))"
    and "zused m' = zused m" and "hobj x \<noteq> 0" and "zlinks m' = (zlinks m)(obj_slot x := POISON)"
proof -
  let ?i = "zsp_class z" and ?z = "z\<lparr>zsp_free := F\<rparr>"
  note zp = zs_atD(1) [OF inv z]
  note zok = zsp_atD(2) [OF zp] and hd = zsp_atD(1) [OF zp]
  obtain k q xi off where xk: "x = (k, q, xi, off)" by (metis prod_cases4)
  have xo: "(k, q, xi, off) \<in> set (zobjs ?i (zsp_pages z))" "(k, q, xi, off) \<in> set (usable ?i (zsp_pages z))"
    using zsp_okD(6) [OF zok] x xk usable_zobjs by auto
  note e = zobjs_elem [OF zsp_okD(1) [OF zok] xo(1)]
  have q: "q \<noteq> 0" "q < 2 ^ PFN_BITS" using zsp_first(5) [OF zok e(6)] zsp_okD(12) [OF zok e(6)] by simp_all
  have free: "zp_freelist (zpages m p) = hnd q xi" using zsp_okD(8) [OF zok] unfolding hd by (simp add: zsp_list_def x xk head_hnd_def)
  have loc: "obj_handle_to_location (hnd q xi) = (q, xi)" using hnd_location q(2) e(5) by simp
  have size: "sc_size c = csize ?i" using classes_okD(2) [OF zs_atD(3) [OF inv] at] by (simp add: class_is_def)
  have offs: "obj_idx_to_offset q xi (sc_size c) m = off" unfolding size by (rule zsp_okD(11) [OF zok xo(1)])
  have linked: "zlinks m (q, off) = head_hnd (zsp_list ?z) 0" "linked m (zsp_list ?z) 0"
    using zsp_okD(7) [OF zok] by (simp_all add: zsp_list_def x xk linked_Cons del: linked.simps)
  have notin: "(k, q, xi, off) \<notin> set (zsp_list ?z)" using zsp_list_distinct [OF zok] by (simp add: zsp_list_def x xk)
  define m1 where "m1 = upd_page p (\<lambda>d. d\<lparr>zp_inuse := zp_inuse d + 1\<rparr>)
    ((upd_page p (\<lambda>d. d\<lparr>zp_freelist := zlinks m (q, off)\<rparr>) m)\<lparr>zlinks := (zlinks m)((q, off) := POISON)\<rparr>)"
  have m1: "zpages m1 p = (zpages m p)\<lparr>zp_freelist := head_hnd (zsp_list ?z) 0, zp_inuse := zp_inuse (zpages m p) + 1\<rparr>"
    "zused m1 = zused m" "r \<noteq> p \<Longrightarrow> zpages m1 r = zpages m r" "(r, o') \<noteq> (q, off) \<Longrightarrow> zlinks m1 (r, o') = zlinks m (r, o')" for r o'
    by (auto simp: m1_def upd_page_def linked(1))
  have u: "unat (zp_inuse (zpages m p) + 1) = cnum ?i - length F"
  proof -
    have n: "unat (zp_inuse (zpages m p)) = cnum ?i - Suc (length F)" "Suc (length F) \<le> cnum ?i" "cnum ?i \<le> 512"
      using zsp_okD(10) [OF zok] zsp_free_length [OF zok] cnum_bounds(2) [OF zsp_okD(1) [OF zok]] unfolding hd by (simp_all add: x)
    then have "unat (zp_inuse (zpages m p) + 1) = Suc (unat (zp_inuse (zpages m p)))" by (simp add: unat_word_ariths)
    with n show ?thesis by simp
  qed
  have F: "distinct F" "set F \<subseteq> set (usable ?i (zsp_pages z))" using zsp_okD(5,6) [OF zok] x by auto
  have "set (zsp_list ?z) \<subseteq> set (zobjs ?i (zsp_pages z))" using zsp_list_zobjs [OF zok] by (auto simp: zsp_list_def x)
  from linked_other_slot [OF zok this xo(1) notin, of m1] m1(4) linked(2) have l1: "linked m1 (zsp_list ?z) 0" by simp
  have ok1: "zsp_ok m1 ?z"
    by (rule zsp_ok_step [OF zok refl F _ u]) (use m1(1-3) l1 in \<open>simp_all add: hd\<close>)
  have q_in: "q \<in> set (zsp_pages z)" by (rule e(6))
  have away: "zlinks m1 (r, o') = zlinks m (r, o')" if "r \<notin> set (zsp_pages z)" for r o'
    using that q_in by (intro m1(4)) auto
  have inv1: "zs_at pool m1 (Z(p \<mapsto> ?z)) G"
    by (rule zs_at_data [OF inv z _ _ ok1 m1(3) m1(1) away m1(2)]) simp_all
  obtain l m' where fx: "fix_fullness_group p (pool, m1) = Some (zsp_group ?z, upd_class ?i (\<lambda>_. c\<lparr>fullness_list := l\<rparr>) pool, m')"
    "zs_at (upd_class ?i (\<lambda>_. c\<lparr>fullness_list := l\<rparr>) pool) m' (Z(p \<mapsto> ?z)) (G(p := zsp_group ?z))" "zused m' = zused m1" "zlinks m' = zlinks m1"
    by (rule zs_at_fix [OF inv1, of p ?z c]) (use at in \<open>simp_all add: that\<close>)
  have "take_object ?i p (pool, m) = Some (hnd q xi, unlock_class ?i (upd_class ?i (\<lambda>_. c\<lparr>fullness_list := l\<rparr>) pool), m')"
    unfolding take_object_def using at free loc offs fx(1) read_link_ok [OF e(3,4)] write_link_ok [OF e(3,4)]
    by (simp add: m1_def upd_page_def)
  moreover have "zlinks m' = (zlinks m)(obj_slot x := POISON)" by (simp add: fx(4) m1_def upd_page_def xk)
  ultimately show thesis using that fx(2,3) m1(2) hnd_nonzero [OF q] by (simp add: xk)
qed

section \<open>Putting an object back\<close>

lemma put_object_ok:
  assumes inv: "zs_at pool m Z G" and z: "Z p = Some z" and x: "x \<in> set (usable (zsp_class z) (zsp_pages z)) - set (zsp_free z)"
    and xk: "x = (k, q, xi, off)"
  obtains m1 where "write_link q off (zp_freelist (zpages m p)) m = Some m1"
    and "zs_at pool (upd_page p (\<lambda>d. d\<lparr>zp_inuse := zp_inuse d - 1\<rparr>) (upd_page p (\<lambda>d. d\<lparr>zp_freelist := hobj x\<rparr>) m1))
      (Z(p \<mapsto> z\<lparr>zsp_free := x # zsp_free z\<rparr>)) G" and "zused m1 = zused m"
    and "zlinks m1 = (zlinks m)(obj_slot x := zp_freelist (zpages m p))"
proof -
  let ?i = "zsp_class z" and ?z = "z\<lparr>zsp_free := x # zsp_free z\<rparr>"
  note zp = zs_atD(1) [OF inv z]
  note zok = zsp_atD(2) [OF zp] and hd = zsp_atD(1) [OF zp]
  have xo: "(k, q, xi, off) \<in> set (zobjs ?i (zsp_pages z))" using x xk usable_zobjs by auto
  note e = zobjs_elem [OF zsp_okD(1) [OF zok] xo]
  define m1 where "m1 = m\<lparr>zlinks := (zlinks m)((q, off) := zp_freelist (zpages m p))\<rparr>"
  let ?m = "upd_page p (\<lambda>d. d\<lparr>zp_inuse := zp_inuse d - 1\<rparr>) (upd_page p (\<lambda>d. d\<lparr>zp_freelist := hobj x\<rparr>) m1)"
  have w: "write_link q off (zp_freelist (zpages m p)) m = Some m1" using write_link_ok [OF e(3,4)] by (simp add: m1_def)
  have m: "zpages ?m p = (zpages m p)\<lparr>zp_freelist := head_hnd (zsp_list ?z) 0, zp_inuse := zp_inuse (zpages m p) - 1\<rparr>"
    "zused ?m = zused m" "r \<noteq> p \<Longrightarrow> zpages ?m r = zpages m r" "(r, o') \<noteq> (q, off) \<Longrightarrow> zlinks ?m (r, o') = zlinks m (r, o')" for r o'
    by (auto simp: m1_def upd_page_def zsp_list_def xk head_hnd_def)
  have notin: "(k, q, xi, off) \<notin> set (zsp_list z)"
    using x xk usable_not_spare [OF zsp_okD(1,3) [OF zok]] by (auto simp: zsp_list_def)
  have F: "distinct (x # zsp_free z)" "set (x # zsp_free z) \<subseteq> set (usable ?i (zsp_pages z))" using zsp_okD(5,6) [OF zok] x by auto
  have len: "Suc (length (zsp_free z)) \<le> cnum ?i"
  proof -
    have "length (x # zsp_free z) = card (set (x # zsp_free z))" using F(1) by (simp only: distinct_card)
    also have "\<dots> \<le> card (set (usable ?i (zsp_pages z)))" using F(2) by (intro card_mono) simp_all
    also have "\<dots> \<le> cnum ?i" using card_length [of "usable ?i (zsp_pages z)"] by (simp add: usable_def)
    finally show ?thesis by simp
  qed
  have u: "unat (zp_inuse (zpages m p) - 1) = cnum ?i - length (x # zsp_free z)"
  proof -
    have "unat (zp_inuse (zpages m p)) = cnum ?i - length (zsp_free z)" using zsp_okD(10) [OF zok] unfolding hd .
    moreover from this len have "zp_inuse (zpages m p) \<noteq> 0" by (auto simp: unat_eq_zero [symmetric])
    ultimately show ?thesis using len by (simp add: unat_minus_one)
  qed
  have "linked ?m (zsp_list z) 0"
    using linked_other_slot [OF zok zsp_list_zobjs [OF zok] xo notin, of ?m] m(4) zsp_okD(7) [OF zok] by simp
  moreover have "zlinks ?m (q, off) = head_hnd (zsp_list z) 0" using zsp_okD(8) [OF zok] unfolding hd by (simp add: m1_def upd_page_def)
  ultimately have l: "linked ?m (zsp_list ?z) 0" by (simp add: zsp_list_def xk linked_Cons del: linked.simps)
  have ok: "zsp_ok ?m ?z"
    by (rule zsp_ok_step [OF zok refl F _ u]) (use m(1-3) l in \<open>simp_all add: hd\<close>)
  have away: "zlinks ?m (r, o') = zlinks m (r, o')" if "r \<notin> set (zsp_pages z)" for r o'
    using that e(6) by (intro m(4)) auto
  have "zs_at pool ?m (Z(p \<mapsto> ?z)) G"
    by (rule zs_at_data [OF inv z _ _ ok m(3) m(1) away m(2)]) simp_all
  moreover have "zused m1 = zused m" "zlinks m1 = (zlinks m)(obj_slot x := zp_freelist (zpages m p))" by (simp_all add: m1_def xk)
  ultimately show thesis using that w by blast
qed

end
