(* ===== verification/Zs_Pool.thy ===== *)
theory Zs_Pool
  imports Zs_Cycle
begin

text \<open>A new pool: its size classes, the class of a request, and its VM areas.\<close>

section \<open>Classes\<close>

lemma create_classes_all:
  "i + n = length (size_class_of pool) \<Longrightarrow>
   create_classes (\<lambda>_. True) n i pool vms =
     (True, \<lparr>size_class_of = take i (size_class_of pool) @ map new_class [i..<i + n]\<rparr>, vms \<union> {i..<i + n})"
proof (induction n arbitrary: i pool vms)
  case 0
  then show ?case by simp
next
  case (Suc n)
  have "take (Suc i) ((size_class_of pool)[i := new_class i]) = take i (size_class_of pool) @ [new_class i]"
    using Suc.prems by (simp add: take_Suc_conv_app_nth)
  moreover have "{i..<Suc (i + n)} = insert i {Suc i..<Suc (i + n)}" by auto
  ultimately show ?case using Suc
    by (simp add: upd_class_def upt_conv_Cons [of i] del: upt_Suc)
qed

lemma new_class_ok:
  assumes "i < ZS_SIZE_CLASSES"
  shows "class_ok (new_class i)" "sc_size (new_class i) = 32 + i * 16" "sc_index (new_class i) = i"
    "\<not> sc_locked (new_class i)" "fullness_list (new_class i) = [0, 0]"
    "zspage_order (new_class i) = get_zspage_order (32 + i * 16)"
  using assms by (auto simp: class_ok_def new_class_def zs_consts Let_def)

definition zs_pool_of :: "zs_pool" where
  "zs_pool_of = \<lparr>size_class_of = map new_class [0..<ZS_SIZE_CLASSES]\<rparr>"

lemma create_pool_ok: "zs_create_pool (Some nm) True (\<lambda>_. True) vms = (Some zs_pool_of, vms \<union> {0..<ZS_SIZE_CLASSES})"
  by (simp add: zs_create_pool_def create_classes_all zs_pool_of_def)

lemma class_at_new: "i < ZS_SIZE_CLASSES \<Longrightarrow> class_at i zs_pool_of = Some (new_class i)"
  by (simp add: class_at_def zs_pool_of_def)

lemma class_index_bounds:
  assumes "0 < sz" and "sz \<le> ZS_MAX_ALLOC_SIZE"
  shows "get_size_class_index sz < ZS_SIZE_CLASSES" "sz \<le> 32 + get_size_class_index sz * 16"
    "32 < sz \<Longrightarrow> 32 + get_size_class_index sz * 16 < sz + 16"
  using assms by (auto simp: get_size_class_index_def zs_consts DIV_ROUND_UP_def)

text \<open>The areas of a pool: class \<open>i\<close> has one iff \<open>sc_vm\<close> says so.\<close>

lemma destroy_classes_set:
  "destroy_classes cs i vms = vms - {i + k | k. k < length cs \<and> sc_vm (cs ! k)}"
proof (induction cs arbitrary: i vms)
  case (Cons c cs)
  have "{i + k | k. k < length (c # cs) \<and> sc_vm ((c # cs) ! k)} =
      (if sc_vm c then {i} else {}) \<union> {Suc i + k | k. k < length cs \<and> sc_vm (cs ! k)}"
    by (auto simp: less_Suc_eq_0_disj)
  with Cons show ?case by auto
qed simp

lemma create_classes_vms:
  "create_classes ok n i pool vms = (b, pool', vms') \<Longrightarrow> i + n = length (size_class_of pool) \<Longrightarrow> vms \<subseteq> {..<i} \<Longrightarrow>
   \<forall>k<length (size_class_of pool). sc_vm (size_class_of pool ! k) \<longleftrightarrow> k \<in> vms \<Longrightarrow>
   length (size_class_of pool') = length (size_class_of pool)
     \<and> (\<forall>k<length (size_class_of pool'). sc_vm (size_class_of pool' ! k) \<longleftrightarrow> k \<in> vms')
     \<and> vms' \<subseteq> vms \<union> {i..<i + n} \<and> (b \<longrightarrow> vms' = vms \<union> {i..<i + n})"
proof (induction n arbitrary: i pool vms)
  case (Suc n)
  show ?case
  proof (cases "ok i")
    case False
    then show ?thesis using Suc.prems by (auto simp: upd_class_def nth_list_update split: if_splits)
  next
    case True
    let ?pool = "upd_class i (\<lambda>_. new_class i) pool"
    have "\<forall>k<length (size_class_of ?pool). sc_vm (size_class_of ?pool ! k) \<longleftrightarrow> k \<in> insert i vms"
      using Suc.prems(2,4) by (auto simp: upd_class_def nth_list_update new_class_def Let_def)
    moreover have "insert i vms \<subseteq> {..<Suc i}" using Suc.prems(3) by auto
    moreover have "{i..<i + Suc n} = insert i {Suc i..<Suc i + n}" by auto
    ultimately show ?thesis
      using Suc.IH [of "Suc i" ?pool "insert i vms"] Suc.prems(1,2) True by (auto simp: upd_class_def)
  qed
qed simp

end
