(* ===== verification/Zs_Calls.thy ===== *)
theory Zs_Calls
  imports Zs_Ops Zs_Pool
begin

text \<open>
  What a pool holds, and whole calls.  \<open>zlive Z\<close> are the handles handed out, each with its class; \<open>locks pool S\<close>: the
  classes whose spinlock is held, which happens between calls only while an object over two pages is mapped.
\<close>

definition in_class :: "zspages \<Rightarrow> nat \<Rightarrow> zpfn set" where
  "in_class Z i = {p. \<exists>z. Z p = Some z \<and> zsp_class z = i}"

definition counts_ok :: "zs_pool \<Rightarrow> zspages \<Rightarrow> bool" where
  "counts_ok pool Z \<longleftrightarrow> finite (dom Z)
     \<and> (\<forall>i c. class_at i pool = Some c \<longrightarrow> pages_allocated c = word_of_nat (corder i * card (in_class Z i)))"

definition locks :: "zs_pool \<Rightarrow> nat set \<Rightarrow> bool" where
  "locks pool S \<longleftrightarrow> (\<forall>i c. class_at i pool = Some c \<longrightarrow> (sc_locked c \<longleftrightarrow> i \<in> S))"

text \<open>All zspages but \<open>p\<close> are filed by their use, and in use.\<close>

definition filed_but :: "zpfn set \<Rightarrow> zspages \<Rightarrow> (zpfn \<Rightarrow> fullness_group) \<Rightarrow> bool" where
  "filed_but A Z G \<longleftrightarrow> (\<forall>q y. Z q = Some y \<and> q \<notin> A \<longrightarrow> G q = zsp_group y \<and> zsp_group y \<noteq> ZS_EMPTY)"

definition zs_inv :: "zs_pool \<Rightarrow> zmem \<Rightarrow> zspages \<Rightarrow> bool" where
  "zs_inv pool m Z \<longleftrightarrow> (\<exists>G. zs_at pool m Z G \<and> filed_but {} Z G) \<and> counts_ok pool Z"

definition zsp_live :: "zspage \<Rightarrow> (handle \<times> nat) set" where
  "zsp_live z = (\<lambda>x. (hobj x, zsp_class z)) ` (set (usable (zsp_class z) (zsp_pages z)) - set (zsp_free z))"

definition zlive :: "zspages \<Rightarrow> (handle \<times> nat) set" where
  "zlive Z = \<Union> (zsp_live ` ran Z)"

text \<open>
  What two moments have in common: no zspage of the first moved (\<open>keeps\<close>), and on the pages in use no link
  was written but the one in the object of \<open>h\<close> (\<open>touched\<close>).
\<close>

definition keeps :: "zspages \<Rightarrow> zspages \<Rightarrow> bool" where
  "keeps Z Z' \<longleftrightarrow> (\<forall>p z. Z p = Some z \<longrightarrow> (\<exists>z'. Z' p = Some z' \<and> zsp_class z' = zsp_class z \<and> zsp_pages z' = zsp_pages z))"

definition touched :: "handle \<Rightarrow> nat \<Rightarrow> zspages \<Rightarrow> zmem \<Rightarrow> zmem \<Rightarrow> bool" where
  "touched h i Z m m' \<longleftrightarrow> (\<exists>p z x. Z p = Some z \<and> zsp_class z = i \<and> x \<in> set (usable i (zsp_pages z)) \<and> h = hobj x
     \<and> (\<forall>s. fst s \<in> zused m \<longrightarrow> s \<noteq> obj_slot x \<longrightarrow> zlinks m' s = zlinks m s))"

lemma keeps_refl: "keeps Z Z"
  by (simp add: keeps_def)

lemma keeps_trans: "keeps Z Z' \<Longrightarrow> keeps Z' Z'' \<Longrightarrow> keeps Z Z''"
  unfolding keeps_def by metis

lemma keeps_free: "Z p = Some z \<Longrightarrow> keeps Z (Z(p \<mapsto> z\<lparr>zsp_free := F\<rparr>))" "Z p = Some z \<Longrightarrow> keeps (Z(p \<mapsto> z\<lparr>zsp_free := F\<rparr>)) Z"
  by (simp_all add: keeps_def)

lemma keeps_new: "Z p = None \<Longrightarrow> keeps Z (Z(p \<mapsto> z))"
  by (auto simp: keeps_def)

lemma keeps_drop: "keeps (Z(p := None)) Z"
  by (auto simp: keeps_def)

lemma touchedI:
  assumes "Z p = Some z" "x \<in> set (usable (zsp_class z) (zsp_pages z))" "zlinks m' = (zlinks m)(obj_slot x := v)"
  shows "touched (hobj x) (zsp_class z) Z m m'"
  unfolding touched_def using assms by (intro exI [of _ p] exI [of _ z] exI [of _ x]) auto

section \<open>Handles\<close>

lemma hobj_inj:
  assumes inv: "zs_at pool m Z G" and z: "Z p = Some z" "x \<in> set (zobjs (zsp_class z) (zsp_pages z))"
    and w: "Z r = Some w" "y \<in> set (zobjs (zsp_class w) (zsp_pages w))" and eq: "hobj x = hobj y"
  shows "p = r" "x = y"
proof -
  obtain k q xi off where x: "x = (k, q, xi, off)" by (metis prod_cases4)
  obtain l s yi off' where y: "y = (l, s, yi, off')" by (metis prod_cases4)
  note zok = zsp_atD(2) [OF zs_atD(1) [OF inv z(1)]] and wok = zsp_atD(2) [OF zs_atD(1) [OF inv w(1)]]
  have qx: "q \<in> set (zsp_pages z)" "xi < 2 ^ OBJ_INDEX_BITS" using zobjs_elem(5,6) [OF zsp_okD(1) [OF zok]] z(2) x by simp_all
  have sy: "s \<in> set (zsp_pages w)" "yi < 2 ^ OBJ_INDEX_BITS" using zobjs_elem(5,6) [OF zsp_okD(1) [OF wok]] w(2) y by simp_all
  have "(q, xi) = obj_handle_to_location (hobj x)"
    unfolding x hobj_simp using hnd_location [OF zsp_okD(12) [OF zok qx(1)] qx(2)] by (rule sym)
  also have "\<dots> = (s, yi)" unfolding eq y hobj_simp by (rule hnd_location [OF zsp_okD(12) [OF wok sy(1)] sy(2)])
  finally have qs: "(q, xi) = (s, yi)" .
  then show pr: "p = r" using zsp_apartD [OF zs_atD(2) [OF inv] z(1) w(1)] qx(1) sy(1) by auto
  then have "w = z" using z(1) w(1) by simp
  then show "x = y" using qs zobjs_key [OF zsp_okD(1,3) [OF zok], of k q xi off l off'] z(2) w(2) by (simp add: x y)
qed

lemma zliveI: "Z p = Some z \<Longrightarrow> x \<in> set (usable (zsp_class z) (zsp_pages z)) \<Longrightarrow> x \<notin> set (zsp_free z) \<Longrightarrow> (hobj x, zsp_class z) \<in> zlive Z"
  unfolding zlive_def zsp_live_def ran_def by blast

lemma zliveE:
  assumes "(h, i) \<in> zlive Z"
  obtains p z x where "Z p = Some z" "x \<in> set (usable i (zsp_pages z))" "x \<notin> set (zsp_free z)" "h = hobj x" "zsp_class z = i"
  using assms unfolding zlive_def zsp_live_def ran_def by blast

lemma zlive_at: "Z p = Some z \<Longrightarrow> zlive Z = zsp_live z \<union> zlive (Z(p := None))"
  using ran_map_upd [of "Z(p := None)" p z] by (simp add: zlive_def fun_upd_idem)

lemma zlive_upd: "zlive (Z(p \<mapsto> z)) = zsp_live z \<union> zlive (Z(p := None))"
  using zlive_at [of "Z(p \<mapsto> z)" p z] by simp

text \<open>Objects taken from and put back to the free list of a zspage.\<close>

lemma zlive_take:
  assumes inv: "zs_at pool m Z G" and z: "Z p = Some z" "zsp_free z = x # F"
  shows "zlive (Z(p \<mapsto> z\<lparr>zsp_free := F\<rparr>)) = insert (hobj x, zsp_class z) (zlive Z)" and "(hobj x, i) \<notin> zlive Z"
proof -
  note zok = zsp_atD(2) [OF zs_atD(1) [OF inv z(1)]]
  have x: "x \<in> set (usable (zsp_class z) (zsp_pages z))" "x \<notin> set F" using zsp_okD(5,6) [OF zok] z(2) by auto
  then have "zsp_live (z\<lparr>zsp_free := F\<rparr>) = insert (hobj x, zsp_class z) (zsp_live z)" unfolding zsp_live_def z(2) by auto
  then show "zlive (Z(p \<mapsto> z\<lparr>zsp_free := F\<rparr>)) = insert (hobj x, zsp_class z) (zlive Z)" using zlive_at [of Z p z] z(1) zlive_upd by simp
  show "(hobj x, i) \<notin> zlive Z"
  proof
    assume "(hobj x, i) \<in> zlive Z"
    then obtain q y v where y: "Z q = Some y" "v \<in> set (usable i (zsp_pages y))" "v \<notin> set (zsp_free y)" "hobj x = hobj v" "zsp_class y = i"
      by (rule zliveE)
    have "v \<in> set (zobjs (zsp_class y) (zsp_pages y))" using usable_zobjs y(2,5) by simp
    from hobj_inj [OF inv z(1) usable_zobjs [OF x(1)] y(1) this y(4)] have "p = q" "x = v" .
    with y z show False by simp
  qed
qed

lemma zlive_new: "Z p = None \<Longrightarrow> zlive (Z(p \<mapsto> new_zsp i ps)) = zlive Z"
  unfolding zlive_upd by (simp add: zsp_live_def new_zsp_def fun_upd_idem)

text \<open>Putting back is the reverse of taking.\<close>

lemma zlive_put:
  assumes inv: "zs_at pool m (Z(p \<mapsto> z\<lparr>zsp_free := x # zsp_free z\<rparr>)) G" and z: "Z p = Some z"
  shows "zlive (Z(p \<mapsto> z\<lparr>zsp_free := x # zsp_free z\<rparr>)) = zlive Z - {(hobj x, zsp_class z)}"
proof -
  let ?z = "z\<lparr>zsp_free := x # zsp_free z\<rparr>"
  let ?Z = "Z(p \<mapsto> ?z)"
  have a: "?Z p = Some ?z" "zsp_free ?z = x # zsp_free z" by simp_all
  have Z: "?Z(p \<mapsto> ?z\<lparr>zsp_free := zsp_free z\<rparr>) = Z" using z by (auto simp: fun_eq_iff)
  have c: "zsp_class ?z = zsp_class z" by simp
  note take = zlive_take [where Z = ?Z and p = p and z = ?z, OF inv a]
  show ?thesis using take(1) take(2) [of "zsp_class z"] unfolding Z c by blast
qed

lemma zlive_drop:
  assumes inv: "zs_at pool m Z G" and z: "Z p = Some z" "zsp_group z = ZS_EMPTY"
  shows "zlive (Z(p := None)) = zlive Z"
proof -
  note zok = zsp_atD(2) [OF zs_atD(1) [OF inv z(1)]]
  have "card (set (zsp_free z)) = card (set (usable (zsp_class z) (zsp_pages z)))"
    using zsp_group_empty [OF zok] z(2) zsp_okD(1,2,3,5) [OF zok] usable_distinct usable_length by (simp add: distinct_card)
  then have "set (zsp_free z) = set (usable (zsp_class z) (zsp_pages z))" using zsp_okD(6) [OF zok] by (simp add: card_subset_eq)
  then have "zsp_live z = {}" by (simp add: zsp_live_def)
  then show ?thesis using zlive_at [of Z p z] z(1) by simp
qed

section \<open>Locks and counters\<close>

lemma locks_upd:
  assumes "locks pool S" and "class_at i pool = Some c"
  shows "locks (upd_class i (\<lambda>_. c') pool) (if sc_locked c' then insert i S else S - {i})"
proof -
  have "sc_locked d \<longleftrightarrow> j \<in> (if sc_locked c' then insert i S else S - {i})" if "class_at j (upd_class i (\<lambda>_. c') pool) = Some d" for j d
  proof (cases "j = i")
    case True
    with that upd_class_at(1) [OF assms(2)] show ?thesis by simp
  next
    case False
    then have "class_at j pool = Some d" using that by (auto simp: class_at_def upd_class_def split: if_splits)
    with assms(1) False show ?thesis by (simp add: locks_def)
  qed
  then show ?thesis unfolding locks_def by blast
qed

lemma counts_upd:
  assumes "counts_ok pool Z" and "class_at i pool = Some c" and "finite (dom Z')" and "\<And>j. j \<noteq> i \<Longrightarrow> in_class Z' j = in_class Z j"
    and "pages_allocated c' = word_of_nat (corder i * card (in_class Z' i))"
  shows "counts_ok (upd_class i (\<lambda>_. c') pool) Z'"
proof -
  have "pages_allocated d = word_of_nat (corder j * card (in_class Z' j))" if "class_at j (upd_class i (\<lambda>_. c') pool) = Some d" for j d
  proof (cases "j = i")
    case True
    with that upd_class_at(1) [OF assms(2)] assms(5) show ?thesis by simp
  next
    case False
    then have "class_at j pool = Some d" using that by (auto simp: class_at_def upd_class_def split: if_splits)
    with assms(1,4) False show ?thesis by (simp add: counts_ok_def)
  qed
  with assms(3) show ?thesis by (simp add: counts_ok_def)
qed

lemma counts_same:
  assumes "counts_ok pool Z" and "class_at i pool = Some c" and "finite (dom Z')" and "\<And>j. in_class Z' j = in_class Z j"
    and "pages_allocated c' = pages_allocated c"
  shows "counts_ok (upd_class i (\<lambda>_. c') pool) Z'"
  by (rule counts_upd [OF assms(1-4)]) (use assms(1,2,4,5) in \<open>simp add: counts_ok_def\<close>)

lemma in_class_upd: "Z p = Some z \<Longrightarrow> zsp_class z' = zsp_class z \<Longrightarrow> in_class (Z(p \<mapsto> z')) i = in_class Z i"
  by (auto simp: in_class_def)

text \<open>\<open>lock_class\<close> and \<open>unlock_class\<close> as updates.\<close>

lemma lock_class_ok:
  assumes "locks pool S" and "class_at i pool = Some c" and "i \<notin> S"
  shows "lock_class i pool = Some (upd_class i (\<lambda>_. c\<lparr>sc_locked := True\<rparr>) pool)"
    and "locks (upd_class i (\<lambda>_. c\<lparr>sc_locked := True\<rparr>) pool) (insert i S)"
    and "class_at i (upd_class i (\<lambda>_. c\<lparr>sc_locked := True\<rparr>) pool) = Some (c\<lparr>sc_locked := True\<rparr>)"
  using lock_class_at [OF assms(2)] locks_upd [OF assms(1,2), of "c\<lparr>sc_locked := True\<rparr>"] upd_class_at(1) [OF assms(2)] assms
  by (auto simp: locks_def)

lemma unlock_class_ok:
  assumes "class_at i pool = Some c"
  shows "unlock_class i pool = upd_class i (\<lambda>_. c\<lparr>sc_locked := False\<rparr>) pool"
    and "locks pool (insert i S) \<Longrightarrow> i \<notin> S \<Longrightarrow> locks (unlock_class i pool) S"
  using unlock_class_at [OF assms] locks_upd [OF _ assms, of "insert i S" "c\<lparr>sc_locked := False\<rparr>"] by auto

lemma class_is_upd [simp]: "class_is i (c\<lparr>sc_locked := b\<rparr>) = class_is i c" "class_is i (c\<lparr>fullness_list := l\<rparr>) = class_is i c"
  "class_is i (c\<lparr>pages_allocated := n\<rparr>) = class_is i c" "class_is i (c\<lparr>sc_vm_addr := v\<rparr>) = class_is i c" "class_is i (c\<lparr>sc_ptes := t\<rparr>) = class_is i c"
  by (simp_all add: class_is_def)

section \<open>The last steps of \<open>zs_malloc\<close>\<close>

lemma finish_malloc:
  assumes inv: "zs_at pool m Z G" and filed: "filed_but {p} Z G" and cnt: "counts_ok pool Z"
    and z: "Z p = Some z" "zsp_free z = x # F" and at: "class_at (zsp_class z) pool = Some c"
    and lk: "locks pool (insert (zsp_class z) S)" "zsp_class z \<notin> S"
  obtains pool' m' Z' where "take_object (zsp_class z) p (pool, m) = Some (hobj x, pool', m')" and "zs_inv pool' m' Z'" and "locks pool' S"
    and "zlive Z' = insert (hobj x, zsp_class z) (zlive Z)" and "\<And>i. (hobj x, i) \<notin> zlive Z" and "hobj x \<noteq> 0" and "zused m' = zused m"
    and "keeps Z Z'" and "touched (hobj x) (zsp_class z) Z' m m'"
proof -
  let ?i = "zsp_class z" and ?z = "z\<lparr>zsp_free := F\<rparr>"
  obtain l m' where t: "take_object ?i p (pool, m) = Some (hobj x, unlock_class ?i (upd_class ?i (\<lambda>_. c\<lparr>fullness_list := l\<rparr>) pool), m')"
    "zs_at (upd_class ?i (\<lambda>_. c\<lparr>fullness_list := l\<rparr>) pool) m' (Z(p \<mapsto> ?z)) (G(p := zsp_group ?z))" "zused m' = zused m" "hobj x \<noteq> 0"
    "zlinks m' = (zlinks m)(obj_slot x := POISON)"
    by (rule take_object_ok [OF inv z at])
  let ?pool = "upd_class ?i (\<lambda>_. c\<lparr>fullness_list := l\<rparr>) pool" and ?Z = "Z(p \<mapsto> ?z)"
  have at2: "class_at ?i ?pool = Some (c\<lparr>fullness_list := l\<rparr>)" by (rule upd_class_at(1) [OF at])
  note un = unlock_class_ok(1) [OF at2]
  have cl: "class_is ?i c" using classes_okD(2) [OF zs_atD(3) [OF inv] at] .
  have at': "zs_at (unlock_class ?i ?pool) m' ?Z (G(p := zsp_group ?z))"
    unfolding un by (rule zs_at_class [OF t(2) at2]) (use cl in simp_all)
  have "zsp_group ?z \<noteq> ZS_EMPTY"
  proof -
    have "zsp_ok m' ?z" using zsp_atD(2) [OF zs_atD(1) [OF t(2), of p ?z]] by simp
    moreover have "length (zsp_free z) \<le> cnum ?i" using zsp_free_length [OF zsp_atD(2) [OF zs_atD(1) [OF inv z(1)]]] .
    ultimately show ?thesis using zsp_group_empty [of m' ?z] z(2) by simp
  qed
  then have "filed_but {} ?Z (G(p := zsp_group ?z))" using filed by (simp add: filed_but_def)
  moreover have fin: "finite (dom ?Z)" using cnt by (simp add: counts_ok_def)
  have cls: "in_class ?Z j = in_class Z j" for j using z(1) by (rule in_class_upd) simp
  have "counts_ok ?pool ?Z" by (rule counts_same [OF cnt at fin cls]) simp
  then have "counts_ok (unlock_class ?i ?pool) ?Z" unfolding un by (rule counts_same [OF _ at2 fin refl]) simp
  ultimately have "zs_inv (unlock_class ?i ?pool) m' ?Z" using at' by (auto simp: zs_inv_def)
  moreover have "locks ?pool (insert ?i S)" using locks_upd [OF lk(1) at, of "c\<lparr>fullness_list := l\<rparr>"] lk at by (auto simp: locks_def)
  then have "locks (unlock_class ?i ?pool) S" using unlock_class_ok(2) [OF at2] lk(2) by blast
  moreover have "keeps Z ?Z" using z(1) by (rule keeps_free)
  moreover have "x \<in> set (usable (zsp_class ?z) (zsp_pages ?z))" using zsp_okD(6) [OF zsp_atD(2) [OF zs_atD(1) [OF inv z(1)]]] z(2) by simp
  from touchedI [of ?Z p ?z, OF _ this t(5)] have "touched (hobj x) ?i ?Z m m'" by simp
  ultimately show thesis using that t(1,3,4) zlive_take [OF inv z] by blast
qed

end
