(* ===== verification/Zs_Malloc.thy ===== *)
theory Zs_Malloc
  imports Zs_Calls
begin

text \<open>
  \<open>zs_malloc\<close> and \<open>zs_free\<close> keep the invariant, on every path: an object from a zspage in the lists, a new zspage,
  no memory, and the \<open>BUG_ON\<close> when \<open>alloc_page\<close> fails halfway through a zspage.
\<close>

lemma class_is_ok: "class_is i c \<Longrightarrow> class_ok c"
  using csize_bounds [of i] by (simp add: class_is_def class_ok_def corder_def)

text \<open>What \<open>find_get_zspage\<close> finds.\<close>

lemma find_get_zspage_ok:
  assumes inv: "zs_at pool m Z G" and filed: "filed_but {} Z G" and at: "class_at i pool = Some c"
  obtains (found) p z x F where "find_get_zspage c = p" "p \<noteq> 0" "Z p = Some z" "zsp_class z = i" "zsp_free z = x # F"
    | (none) "find_get_zspage c = 0" "\<And>p z. Z p = Some z \<Longrightarrow> zsp_class z = i \<Longrightarrow> zsp_free z = []"
proof -
  have g: "groups_ok m c (members Z G i)" using classes_okD(3) [OF zs_atD(3) [OF inv] at] .
  have gk: "group_ok m c ZS_ALMOST_FULL (members Z G i ZS_ALMOST_FULL)" "group_ok m c ZS_ALMOST_EMPTY (members Z G i ZS_ALMOST_EMPTY)"
    using g by (simp_all add: groups_ok_def listed_def)
  have grp: "zsp_group z = G p" "zsp_group z \<noteq> ZS_EMPTY" "zsp_ok m z" if "Z p = Some z" for p z
    using filed that zsp_atD(2) [OF zs_atD(1) [OF inv that]] by (auto simp: filed_but_def)
  show thesis
  proof (cases "find_get_zspage c = 0")
    case False
    let ?p = "find_get_zspage c"
    have "?p \<in> members Z G i ZS_ALMOST_FULL \<or> ?p \<in> members Z G i ZS_ALMOST_EMPTY"
      using False group_head [OF gk(1)] group_head [OF gk(2)] by (auto simp: find_get_zspage_def split: if_splits)
    then obtain z where z: "Z ?p = Some z" "zsp_class z = i" "listed (G ?p)" by (auto simp: members_def listed_def)
    then have "zsp_group z \<noteq> ZS_FULL" using grp(1) [OF z(1)] by (auto simp: listed_def)
    then have "zsp_free z \<noteq> []" using zsp_group_full [OF grp(3) [OF z(1)]] by simp
    then obtain x F where "zsp_free z = x # F" by (cases "zsp_free z") auto
    with found z False show thesis by blast
  next
    case True
    then have "fullness_list c ! 0 = 0" "fullness_list c ! 1 = 0" by (auto simp: find_get_zspage_def split: if_splits)
    then have e: "members Z G i ZS_ALMOST_FULL = {}" "members Z G i ZS_ALMOST_EMPTY = {}"
      using group_head(1) [OF gk(1)] group_head(1) [OF gk(2)] by simp_all
    have "zsp_free z = []" if z: "Z p = Some z" "zsp_class z = i" for p z
    proof -
      have "\<not> listed (G p)" using e z by (auto simp: members_def listed_def)
      then have "zsp_group z = ZS_FULL" using zsp_group_listed [of z] grp [OF z(1)] by simp
      then show ?thesis using zsp_group_full [OF grp(3) [OF z(1)]] by simp
    qed
    with none True show thesis by blast
  qed
qed

text \<open>\<open>alloc_zspage\<close> when \<open>alloc_page\<close> fails at once.\<close>

lemma no_page_no_change:
  assumes "fresh_src src" and "alloc_pages_from src n n 0 0 0 m = (False, 0, m1)"
  shows "m1 = m" "src m = None"
proof -
  obtain ok ps m' where a: "alloc_pages_from src n n 0 0 0 m = (ok, first_of ps, m')" "taking n ps m m'" "\<not> ok \<Longrightarrow> src m' = None"
    using alloc_pages_ok [OF assms(1), of n m] by metis
  have e: "\<not> ok" "first_of ps = 0" "m' = m1" using a(1) assms(2) by auto
  have "ps = []" using e(2) a(2) by (cases ps) (auto simp: taking_def)
  then show "m1 = m" using a(2) e(3) by (auto simp: taking_def fun_eq_iff intro!: zmem.equality)
  with a(3) e(1,3) show "src m = None" by simp
qed

lemma counts_new:
  assumes "counts_ok pool Z" and at: "class_at i pool = Some c" and "Z p = None" and "class_is i c"
  shows "counts_ok (upd_class i (\<lambda>_. c\<lparr>pages_allocated := pages_allocated c + word_of_nat (zspage_order c)\<rparr>) pool) (Z(p \<mapsto> new_zsp i ps))"
proof (rule counts_upd [OF assms(1,2)])
  have ic: "in_class (Z(p \<mapsto> new_zsp i ps)) j = (if j = i then insert p (in_class Z j) else in_class Z j)" for j
    using assms(3) by (auto simp: in_class_def new_zsp_def)
  then show "in_class (Z(p \<mapsto> new_zsp i ps)) j = in_class Z j" if "j \<noteq> i" for j using that by simp
  show "finite (dom (Z(p \<mapsto> new_zsp i ps)))" using assms(1) by (simp add: counts_ok_def)
  have "in_class Z i \<subseteq> dom Z" "p \<notin> in_class Z i" using assms(3) by (auto simp: in_class_def)
  then have "card (in_class (Z(p \<mapsto> new_zsp i ps)) i) = Suc (card (in_class Z i))"
    using assms(1) ic [of i] finite_subset [of "in_class Z i" "dom Z"] by (simp add: counts_ok_def)
  then show "pages_allocated (c\<lparr>pages_allocated := pages_allocated c + word_of_nat (zspage_order c)\<rparr>) =
      word_of_nat (corder i * card (in_class (Z(p \<mapsto> new_zsp i ps)) i))"
    using assms(1,4) at by (simp add: counts_ok_def class_is_def)
qed

lemma zs_malloc_ok:
  assumes inv: "zs_inv pool m Z" and lk: "locks pool S" and src: "fresh_src src" and sz: "0 < sz" "sz \<le> ZS_MAX_ALLOC_SIZE"
    and i: "i = get_size_class_index sz" "i \<notin> S"
  obtains (got) h pool' m' Z' where "zs_malloc src sz (pool, m) = Some (h, pool', m')" "zs_inv pool' m' Z'" "locks pool' S" "h \<noteq> 0"
      "zlive Z' = insert (h, i) (zlive Z)" "\<And>j. (h, j) \<notin> zlive Z" "zused m \<subseteq> zused m'"
      "keeps Z Z'" "touched h i Z' m m'"
    | (nomem) "zs_malloc src sz (pool, m) = Some (0, pool, m)" "src m = None" "\<And>p z. Z p = Some z \<Longrightarrow> zsp_class z = i \<Longrightarrow> zsp_free z = []"
    | (bug) m1 first where "zs_malloc src sz (pool, m) = None" "\<And>p z. Z p = Some z \<Longrightarrow> zsp_class z = i \<Longrightarrow> zsp_free z = []"
      "alloc_pages_from src (corder i) (corder i) 0 0 0 m = (False, first, m1)" "first \<noteq> 0"
proof -
  obtain G where at: "zs_at pool m Z G" "filed_but {} Z G" and cnt: "counts_ok pool Z" using inv by (auto simp: zs_inv_def)
  have i_less: "i < ZS_SIZE_CLASSES" using class_index_bounds(1) [OF sz] i(1) by simp
  obtain c where c: "class_at i pool = Some c" using classes_okD(4) [OF zs_atD(3) [OF at(1)] i_less] by blast
  have ci: "class_is i c" using classes_okD(2) [OF zs_atD(3) [OF at(1)] c] .
  have ul: "\<not> sc_locked c" using lk c i(2) by (auto simp: locks_def)
  note lock = lock_class_ok [OF lk c i(2)]
  let ?L = "upd_class i (\<lambda>_. c\<lparr>sc_locked := True\<rparr>) pool"
  have atL: "zs_at ?L m Z G" by (rule zs_at_class [OF at(1) c]) (use ci in simp_all)
  have cntL: "counts_ok ?L Z" by (rule counts_same [OF cnt c _ refl]) (use cnt in \<open>simp_all add: counts_ok_def\<close>)
  show thesis
  proof (cases rule: find_get_zspage_ok [OF at c])
    case (1 p z x F)
    have fb: "filed_but {p} Z G" using at(2) unfolding filed_but_def by blast
    obtain pool' m' Z' where t: "take_object i p (?L, m) = Some (hobj x, pool', m')" "zs_inv pool' m' Z'" "locks pool' S"
      "zlive Z' = insert (hobj x, i) (zlive Z)" "\<And>j. (hobj x, j) \<notin> zlive Z" "hobj x \<noteq> 0" "zused m' = zused m"
      "keeps Z Z'" "touched (hobj x) i Z' m m'"
      by (rule finish_malloc [OF atL fb cntL 1(3,5), unfolded 1(4), OF lock(3,2) i(2)]) (rule that)
    have "zs_malloc src sz (pool, m) = Some (hobj x, pool', m')"
      using sz c ci lock(1) 1(1,2) t(1) by (simp add: zs_malloc_def i(1) [symmetric] class_is_def Let_def)
    with got t show thesis by simp
  next
    case 2
    have o: "zspage_order c = corder i" "sc_index c = i" using ci by (simp_all add: class_is_def)
    obtain ok first m1 where ap: "alloc_pages_from src (corder i) (corder i) 0 0 0 m = (ok, first, m1)" by (metis prod_cases3)
    show thesis
    proof (cases ok)
      case False
      have "zs_malloc src sz (pool, m) = (if first = 0 then Some (0, pool, m1) else None)"
        by (rule zs_malloc_out_of_pages [OF sz i(1) c class_is_ok [OF ci] o(2) ul 2(1) src]) (use ap False o in simp)
      then show thesis using nomem bug 2(2) ap False no_page_no_change [OF src, of "corder i" m m1] by (cases "first = 0") auto
    next
      case True
      obtain ps m2 where m2: "alloc_zspage src c m = Some (hd ps, m2)" "new_zspage c ps m2" "set ps \<inter> zused m = {}" "zused m2 = zused m \<union> set ps"
        "\<And>q. q \<notin> set ps \<Longrightarrow> zpages m2 q = zpages m q \<and> (\<forall>o'. zlinks m2 (q, o') = zlinks m (q, o'))"
        by (rule alloc_zspage_ok [OF src class_is_ok [OF ci], of m first m1]) (use ap True o in \<open>simp_all add: that\<close>)
      let ?p = "hd ps" and ?z = "new_zsp i ps"
      have z: "zsp_ok m2 ?z" by (rule new_zsp_ok [OF m2(2) ci]) (use m2(4) in simp)
      have p: "is_first_page ?p m2" "?p \<noteq> 0" using zsp_first(3,4) [OF z] by (simp_all add: new_zsp_def)
      have "i < 2 ^ CLASS_IDX_BITS" using i_less by (simp add: zs_consts CLASS_IDX_BITS_def)
      then obtain m3 v where m3: "set_zspage_mapping ?p i ZS_EMPTY m2 = Some m3" "get_zspage_mapping ?p m3 = Some (i, ZS_EMPTY)"
        "m3 = upd_page ?p (\<lambda>d. d\<lparr>zp_mapping := v\<rparr>) m2"
        using mapping_roundtrip [OF p(1), of i ZS_EMPTY] by blast
      have new: "zs_at ?L m3 (Z(?p \<mapsto> ?z)) (G(?p := ZS_EMPTY))" "Z ?p = None"
        by (rule zs_at_new [OF atL ci m2(2-4) _ m3(3,2)], erule m2(5))+
      let ?c = "c\<lparr>sc_locked := True, pages_allocated := pages_allocated c + word_of_nat (zspage_order c)\<rparr>"
      let ?P = "upd_class i (\<lambda>_. ?c) pool" and ?Z = "Z(?p \<mapsto> ?z)" and ?G = "G(?p := ZS_EMPTY)"
      have P: "?P = upd_class i (\<lambda>_. (c\<lparr>sc_locked := True\<rparr>)\<lparr>pages_allocated := pages_allocated (c\<lparr>sc_locked := True\<rparr>)
          + word_of_nat (zspage_order (c\<lparr>sc_locked := True\<rparr>))\<rparr>) ?L" using c by (simp add: upd_class_at(2))
      have ciL: "class_is i (c\<lparr>sc_locked := True\<rparr>)" using ci by (simp add: class_is_def)
      have atP: "zs_at ?P m3 ?Z ?G" unfolding P by (rule zs_at_class [OF new(1) lock(3)]) (use ci in simp_all)
      have cntP: "counts_ok ?P ?Z" unfolding P by (rule counts_new [OF cntL lock(3) new(2) ciL])
      have lkP: "locks ?P (insert i S)" using locks_upd [OF lk c, of ?c] by simp
      have cP: "class_at i ?P = Some ?c" by (rule upd_class_at(1) [OF c])
      have fb: "filed_but {?p} ?Z ?G" using at(2) unfolding filed_but_def by auto
      have zf: "?Z ?p = Some ?z" "zsp_class ?z = i" by (simp_all add: new_zsp_def)
      have "zsp_free ?z \<noteq> []"
        using cnum_bounds(1) [OF i_less] zsp_okD(2) [OF z] usable_length [OF i_less, of ps] by (auto simp: new_zsp_def)
      then obtain x F where x: "zsp_free ?z = x # F" by (cases "zsp_free ?z") auto
      obtain pool' m' Z' where t: "take_object i ?p (?P, m3) = Some (hobj x, pool', m')" "zs_inv pool' m' Z'" "locks pool' S"
        "zlive Z' = insert (hobj x, i) (zlive ?Z)" "\<And>j. (hobj x, j) \<notin> zlive ?Z" "hobj x \<noteq> 0" "zused m' = zused m3"
        "keeps ?Z Z'" "touched (hobj x) i Z' m3 m'"
        by (rule finish_malloc [OF atP fb cntP zf(1) x, unfolded zf(2), OF cP lkP i(2)]) (rule that)
      have unl: "unlock_class i ?L = pool" using unlock_class_ok(1) [OF lock(3)] c ul upd_class_at(3) [OF c]
        by (cases c) (simp add: upd_class_at(2))
      have pg: "upd_class i (\<lambda>c. c\<lparr>pages_allocated := pages_allocated c + word_of_nat (zspage_order c)\<rparr>) ?L = ?P"
        using c by (simp add: upd_class_at(2))
      have "zs_malloc src sz (pool, m) = Some (hobj x, pool', m')"
        using sz c o lock(1) 2(1) m2(1) p(2) m3(1) unl pg t(1) by (simp add: zs_malloc_def i(1) [symmetric] Let_def)
      moreover have "zused m \<subseteq> zused m'" using t(7) m2(4) by (auto simp: m3(3) upd_page_def)
      moreover have "keeps Z Z'" by (rule keeps_trans [OF keeps_new [of Z, OF new(2)] t(8)])
      moreover have "fst s \<in> zused m3 \<and> zlinks m3 s = zlinks m s" if "fst s \<in> zused m" for s
        using m2(3-5) that by (cases s) (auto simp: m3(3) upd_page_def)
      with t(9) have "touched (hobj x) i Z' m m'" unfolding touched_def by metis
      ultimately show thesis using got t(2-6) zlive_new [of Z, OF new(2)] by simp
    qed
  qed
qed

section \<open>\<open>zs_free\<close>\<close>

lemma free_zspage_ok:
  assumes "is_first_page p m" and "zp_inuse (zpages m p) = 0"
  obtains m' where "free_zspage p m = Some m'" and "zused m' = zused m - {p}" and "zlinks m' = zlinks m"
    and "\<And>q. q \<noteq> p \<Longrightarrow> zpages m' q = zpages m q"
proof -
  define m' where "m' = give_page p (upd_page p (\<lambda>d. d\<lparr>pg_private := False, pg_private_2 := False, zp_private := 0,
                  zp_mapping := 0, zp_freelist := 0, zp_inuse := -1, zp_objects := -1\<rparr>) m)"
  have "free_zspage p m = Some m'" using assms by (simp add: free_zspage_def free_sub_loop_stops Let_def m'_def)
  then show thesis by (rule that) (simp_all add: m'_def give_page_def upd_page_def)
qed

lemma counts_drop:
  assumes "counts_ok pool Z" and at: "class_at (zsp_class z) pool = Some c" and "Z p = Some z" and "class_is (zsp_class z) c"
  shows "counts_ok (upd_class (zsp_class z) (\<lambda>_. c\<lparr>pages_allocated := pages_allocated c - word_of_nat (zspage_order c)\<rparr>) pool) (Z(p := None))"
proof (rule counts_upd [OF assms(1,2)])
  let ?i = "zsp_class z"
  have ic: "in_class (Z(p := None)) j = (if j = ?i then in_class Z j - {p} else in_class Z j)" for j
    using assms(3) by (auto simp: in_class_def)
  then show "in_class (Z(p := None)) j = in_class Z j" if "j \<noteq> ?i" for j using that by simp
  show "finite (dom (Z(p := None)))" using assms(1) by (simp add: counts_ok_def)
  have s: "in_class Z ?i \<subseteq> dom Z" "p \<in> in_class Z ?i" using assms(3) by (auto simp: in_class_def)
  then have "card (in_class Z ?i) = Suc (card (in_class (Z(p := None)) ?i))"
    using assms(1) ic [of ?i] finite_subset [OF s(1)] card.remove [of "in_class Z ?i" p] by (simp add: counts_ok_def)
  then show "pages_allocated (c\<lparr>pages_allocated := pages_allocated c - word_of_nat (zspage_order c)\<rparr>) =
      word_of_nat (corder ?i * card (in_class (Z(p := None)) ?i))"
    using assms(1,4) at by (simp add: counts_ok_def class_is_def algebra_simps)
qed

lemma zsp_empty_free:
  assumes "zsp_ok m z" and "zsp_group z = ZS_EMPTY"
  shows "set (zsp_free z) = set (usable (zsp_class z) (zsp_pages z))"
proof -
  have "card (set (zsp_free z)) = card (set (usable (zsp_class z) (zsp_pages z)))"
    using zsp_group_empty [OF assms(1)] assms(2) zsp_okD(1,2,3,5) [OF assms(1)] usable_distinct usable_length by (simp add: distinct_card)
  then show ?thesis using zsp_okD(6) [OF assms(1)] by (simp add: card_subset_eq)
qed

lemma zs_free_ok:
  assumes inv: "zs_inv pool m Z" and lk: "locks pool S" and h: "(h, i) \<in> zlive Z" and i: "i \<notin> S"
  obtains pool' m' Z' where "zs_free h (pool, m) = Some (pool', m')" "zs_inv pool' m' Z'" "locks pool' S" "zlive Z' = zlive Z - {(h, i)}"
    "keeps Z' Z" "touched h i Z m m'" "zused m' \<subseteq> zused m"
    "zused m' = zused m \<and> dom Z' = dom Z
     \<or> (\<exists>p z. Z p = Some z \<and> zsp_class z = i \<and> zused m' = zused m - {p} \<and> zsp_live z = {(h, i)}
          \<and> set (zsp_pages z) \<subseteq> zused m \<and> card (set (zsp_pages z)) = corder i \<and> p \<in> set (zsp_pages z))"
proof -
  obtain G where at: "zs_at pool m Z G" "filed_but {} Z G" and cnt: "counts_ok pool Z" using inv by (auto simp: zs_inv_def)
  obtain p z x where z: "Z p = Some z" "x \<in> set (usable i (zsp_pages z))" "x \<notin> set (zsp_free z)" "h = hobj x" "zsp_class z = i"
    using h by (rule zliveE)
  obtain k q xi off where xk: "x = (k, q, xi, off)" by (metis prod_cases4)
  note zp = zs_atD(1) [OF at(1) z(1)]
  note zok = zsp_atD(2) [OF zp]
  have xo: "(k, q, xi, off) \<in> set (zobjs i (zsp_pages z))" using usable_zobjs [OF z(2)] xk by simp
  note e = zobjs_elem [OF zsp_okD(1) [OF zok, unfolded z(5)] xo]
  have q: "q \<noteq> 0" "q < 2 ^ PFN_BITS" "get_first_page q m = p"
    using zsp_first(5) [OF zok e(6)] zsp_okD(12,13) [OF zok e(6)] zsp_atD(1) [OF zp] by simp_all
  have hn: "h = hnd q xi" using z(4) xk by simp
  have loc: "obj_handle_to_location h = (q, xi)" unfolding hn by (rule hnd_location [OF q(2) e(5)])
  have h0: "h \<noteq> 0" unfolding hn by (rule hnd_nonzero [OF q(1,2)])
  obtain c where c: "class_at i pool = Some c"
    using classes_okD(4) [OF zs_atD(3) [OF at(1)]] zsp_okD(1) [OF zok] z(5) by blast
  have ci: "class_is i c" using classes_okD(2) [OF zs_atD(3) [OF at(1)] c] .
  have mp: "get_zspage_mapping p m = Some (i, G p)" using zsp_atD(3) [OF zp] z(5) by simp
  have offs: "obj_idx_to_offset q xi (sc_size c) m = off" using zsp_okD(11) [OF zok, unfolded z(5), OF xo] ci by (simp add: class_is_def)
  note lock = lock_class_ok [OF lk c i]
  let ?L = "upd_class i (\<lambda>_. c\<lparr>sc_locked := True\<rparr>) pool" and ?z = "z\<lparr>zsp_free := x # zsp_free z\<rparr>"
  let ?Z = "Z(p \<mapsto> ?z)"
  have atL: "zs_at ?L m Z G" by (rule zs_at_class [OF at(1) c]) (use ci in simp_all)
  have cntL: "counts_ok ?L ?Z"
    by (rule counts_same [OF cnt c _ in_class_upd [of Z, OF z(1)]]) (use cnt in \<open>simp_all add: counts_ok_def\<close>)
  have xu: "x \<in> set (usable (zsp_class z) (zsp_pages z)) - set (zsp_free z)" using z by simp
  obtain m1 where m1: "write_link q off (zp_freelist (zpages m p)) m = Some m1"
    "zs_at ?L (upd_page p (\<lambda>d. d\<lparr>zp_inuse := zp_inuse d - 1\<rparr>) (upd_page p (\<lambda>d. d\<lparr>zp_freelist := hobj x\<rparr>) m1)) ?Z G"
    "zused m1 = zused m" "zlinks m1 = (zlinks m)(obj_slot x := zp_freelist (zpages m p))"
    by (rule put_object_ok [OF atL z(1) xu xk])
  let ?m = "upd_page p (\<lambda>d. d\<lparr>zp_inuse := zp_inuse d - 1\<rparr>) (upd_page p (\<lambda>d. d\<lparr>zp_freelist := hobj x\<rparr>) m1)"
  have zz: "?Z p = Some ?z" "zsp_class ?z = i" using z(5) by simp_all
  obtain l m2 where f: "fix_fullness_group p (?L, ?m) = Some (zsp_group ?z, upd_class i (\<lambda>_. c\<lparr>sc_locked := True\<rparr>\<lparr>fullness_list := l\<rparr>) ?L, m2)"
    "zs_at (upd_class i (\<lambda>_. c\<lparr>sc_locked := True\<rparr>\<lparr>fullness_list := l\<rparr>) ?L) m2 ?Z (G(p := zsp_group ?z))" "zused m2 = zused ?m" "zlinks m2 = zlinks ?m"
    by (rule zs_at_fix [OF m1(2) zz(1), unfolded zz(2), OF lock(3)])
  let ?cf = "c\<lparr>sc_locked := True, fullness_list := l\<rparr>"
  let ?F = "upd_class i (\<lambda>_. ?cf) pool"
  have F: "upd_class i (\<lambda>_. c\<lparr>sc_locked := True\<rparr>\<lparr>fullness_list := l\<rparr>) ?L = ?F" using c by (simp add: upd_class_at(2))
  have cF: "class_at i ?F = Some ?cf" by (rule upd_class_at(1) [OF c])
  have lkF: "locks ?F (insert i S)" using locks_upd [OF lk c, of ?cf] by simp
  have used: "zused m2 = zused m" using f(3) m1(3) by (simp add: upd_page_def)
  have links: "zlinks m2 = (zlinks m)(obj_slot x := zp_freelist (zpages m p))" using f(4) m1(4) by (simp add: upd_page_def)
  have kp: "keeps ?Z Z" using z(1) by (rule keeps_free)
  have live: "zlive ?Z = zlive Z - {(h, i)}" using zlive_put [OF m1(2) z(1)] z(4,5) by simp
  have finZ: "finite (dom ?Z)" using cnt by (simp add: counts_ok_def)
  have cntF: "counts_ok ?F ?Z" unfolding F [symmetric] by (rule counts_same [OF cntL lock(3) finZ refl]) simp
  have atF: "zs_at ?F m2 ?Z (G(p := zsp_group ?z))" using f(2) unfolding F .
  have fb: "G r = zsp_group y \<and> zsp_group y \<noteq> ZS_EMPTY" if "Z r = Some y" for r y using at(2) that by (simp add: filed_but_def)
  have run: "zs_free h (pool, m) = (do {
       let P = (if zsp_group ?z = ZS_EMPTY
         then upd_class i (\<lambda>c. c\<lparr>pages_allocated := pages_allocated c - word_of_nat (zspage_order c)\<rparr>) ?F else ?F);
       let P = unlock_class i P;
       m \<leftarrow> (if zsp_group ?z = ZS_EMPTY then free_zspage p m2 else Some m2);
       Some (P, m) })"
    using h0 loc q(3) mp c offs lock(1) m1(1) f(1) z(4) by (simp add: zs_free_def Let_def F)
  show thesis
  proof (cases "zsp_group ?z = ZS_EMPTY")
    case False
    note un = unlock_class_ok [OF cF]
    have "zs_free h (pool, m) = Some (unlock_class i ?F, m2)" using run False by (simp add: Let_def)
    moreover have "zs_at (unlock_class i ?F) m2 ?Z (G(p := zsp_group ?z))"
      unfolding un(1) by (rule zs_at_class [OF atF cF]) (use ci in \<open>simp_all add: class_is_def\<close>)
    moreover have "filed_but {} ?Z (G(p := zsp_group ?z))" using fb False by (simp add: filed_but_def)
    moreover have "counts_ok (unlock_class i ?F) ?Z" unfolding un(1) by (rule counts_same [OF cntF cF finZ refl]) simp
    moreover have "dom ?Z = dom Z" using z(1) by auto
    moreover have "touched h i Z m m2" unfolding z(4) z(5) [symmetric]
      by (rule touchedI [where Z = Z and p = p, OF z(1), where v = "zp_freelist (zpages m p)"]) (use z(2,5) links in simp_all)
    ultimately show thesis using that un(2) [OF lkF i] live used kp unfolding zs_inv_def by blast
  next
    case True
    let ?ce = "?cf\<lparr>pages_allocated := pages_allocated ?cf - word_of_nat (zspage_order ?cf)\<rparr>"
    let ?E = "upd_class i (\<lambda>_. ?ce) ?F"
    have E: "upd_class i (\<lambda>c. c\<lparr>pages_allocated := pages_allocated c - word_of_nat (zspage_order c)\<rparr>) ?F = ?E"
      by (rule upd_class_at(4) [OF cF])
    have cE: "class_at i ?E = Some ?ce" by (rule upd_class_at(1) [OF cF])
    note un = unlock_class_ok [OF cE]
    have ciF: "class_is i ?cf" "class_is i ?ce" using ci by (simp_all add: class_is_def)
    have zok2: "zsp_ok m2 ?z" "is_first_page p m2" using zsp_atD(2,6) [OF zs_atD(1) [OF atF zz(1)]] by simp_all
    have "zp_inuse (zpages m2 p) = 0"
      using zsp_okD(10) [OF zok2(1)] zsp_group_empty [OF zok2(1)] True zsp_atD(1) [OF zp] by (simp add: unat_eq_zero)
    from free_zspage_ok [OF zok2(2) this] obtain m3 where m3: "free_zspage p m2 = Some m3" "zused m3 = zused m2 - {p}" "zlinks m3 = zlinks m2"
      "\<And>q. q \<noteq> p \<Longrightarrow> zpages m3 q = zpages m2 q" by metis
    have nl: "\<not> listed ((G(p := zsp_group ?z)) p)" using True by (simp add: listed_def)
    have "zs_at ?F m3 (?Z(p := None)) (G(p := zsp_group ?z))" by (rule zs_at_drop [OF atF zz(1) nl m3(4,3,2)])
    from zs_at_class [OF this cF ciF(2)] have atE: "zs_at ?E m3 (?Z(p := None)) (G(p := zsp_group ?z))" by simp
    have cntE: "counts_ok ?E (?Z(p := None))" using counts_drop [OF cntF _ zz(1), unfolded zz(2), OF cF ciF(1)] .
    have Zn: "?Z(p := None) = Z(p := None)" by simp
    have "zs_free h (pool, m) = Some (unlock_class i ?E, m3)" using run True m3(1) E by (simp add: Let_def)
    moreover have "zs_inv (unlock_class i ?E) m3 (Z(p := None))"
    proof -
      have "zs_at (unlock_class i ?E) m3 (Z(p := None)) (G(p := zsp_group ?z))"
        unfolding un(1) Zn [symmetric] by (rule zs_at_class [OF atE cE]) (use ci in \<open>simp_all add: class_is_def\<close>)
      moreover have "filed_but {} (Z(p := None)) (G(p := zsp_group ?z))" using fb by (simp add: filed_but_def)
      moreover have "counts_ok (unlock_class i ?E) (Z(p := None))"
        unfolding un(1) Zn [symmetric] by (rule counts_same [OF cntE cE _ refl]) (use finZ in simp_all)
      ultimately show ?thesis unfolding zs_inv_def by blast
    qed
    moreover have "locks (unlock_class i ?E) S"
      by (rule un(2) [OF _ i]) (use locks_upd [OF lkF cF, of ?ce] in simp)
    moreover have "zlive (Z(p := None)) = zlive Z - {(h, i)}" using zlive_drop [OF atF zz(1) True] unfolding Zn live .
    moreover have lz: "zsp_live z = {(h, i)}"
    proof -
      have "usable i (zsp_pages z) \<noteq> []" "set (usable i (zsp_pages z)) = insert x (set (zsp_free z))"
        using z(2) zsp_empty_free [OF zok2(1) True] z(5) by auto
      then show ?thesis using z(3,4,5) by (auto simp: zsp_live_def)
    qed
    have pg: "zused m3 = zused m - {p}" "set (zsp_pages z) \<subseteq> zused m" "card (set (zsp_pages z)) = corder i" "p \<in> set (zsp_pages z)"
      using m3(2) used zsp_okD(14) [OF zok] zsp_atD(5) [OF zp] zsp_okD(2,3) [OF zok] z(5) by (auto simp: distinct_card)
    have "\<exists>p z. Z p = Some z \<and> zsp_class z = i \<and> zused m3 = zused m - {p} \<and> zsp_live z = {(h, i)}
        \<and> set (zsp_pages z) \<subseteq> zused m \<and> card (set (zsp_pages z)) = corder i \<and> p \<in> set (zsp_pages z)"
      by (intro exI [of _ p] exI [of _ z] conjI) (fact z(1) z(5) pg lz)+
    moreover have "keeps (Z(p := None)) Z" by (rule keeps_drop)
    moreover have "touched h i Z m m3" unfolding z(4) z(5) [symmetric]
      by (rule touchedI [where Z = Z and p = p, OF z(1), where v = "zp_freelist (zpages m p)"]) (use z(2,5) links m3(3) in simp_all)
    moreover have "zused m3 \<subseteq> zused m" using pg(1) by auto
    ultimately show thesis by (intro that) (assumption | rule disjI2)+
  qed
qed

end
