(* ===== verification/Zs_Bytes.thy ===== *)
theory Zs_Bytes
  imports Zs_Malloc
begin

text \<open>
  Where an object lies.  \<open>object_bytes\<close> follows the computation of \<open>zs_map_object\<close>: from the offset on in the
  object's page and, when it crosses the end of the page, at the start of the next.  The bytes of live objects
  are disjoint, lie in pages the pool owns, and stay what they are while other objects come and go.
\<close>

definition obj_offset :: "handle \<Rightarrow> nat \<Rightarrow> zmem \<Rightarrow> nat" where
  "obj_offset h sz m = (let (p, obj_idx) = obj_handle_to_location h in obj_idx_to_offset p obj_idx sz m)"

definition object_bytes :: "handle \<Rightarrow> nat \<Rightarrow> zmem \<Rightarrow> (zpfn \<times> nat) set" where
  "object_bytes h sz m =
     (let p = fst (obj_handle_to_location h); off = obj_offset h sz m
      in {p} \<times> {off..<min (off + sz) PAGE_SIZE} \<union> {get_next_page p m} \<times> {0..<off + sz - PAGE_SIZE})"

section \<open>Bytes of a zspage by address\<close>

definition page_bytes :: "zpfn list \<Rightarrow> nat \<Rightarrow> nat \<Rightarrow> (zpfn \<times> nat) set" where
  "page_bytes ps a n = {(ps ! j, b) | j b. j < length ps \<and> b < PAGE_SIZE \<and> a \<le> j * PAGE_SIZE + b \<and> j * PAGE_SIZE + b < a + n}"

lemma page_bytes_image:
  assumes "a + n \<le> length ps * PAGE_SIZE"
  shows "page_bytes ps a n = (\<lambda>t. (ps ! (t div PAGE_SIZE), t mod PAGE_SIZE)) ` {a..<a + n}"
proof (intro set_eqI iffI)
  fix s assume "s \<in> page_bytes ps a n"
  then obtain j b where s: "s = (ps ! j, b)" "b < PAGE_SIZE" "a \<le> j * PAGE_SIZE + b" "j * PAGE_SIZE + b < a + n"
    by (auto simp: page_bytes_def)
  then show "s \<in> (\<lambda>t. (ps ! (t div PAGE_SIZE), t mod PAGE_SIZE)) ` {a..<a + n}"
    by (intro image_eqI [of _ _ "j * PAGE_SIZE + b"]) (simp_all add: PAGE_SIZE_def)
next
  fix s assume "s \<in> (\<lambda>t. (ps ! (t div PAGE_SIZE), t mod PAGE_SIZE)) ` {a..<a + n}"
  then obtain t where t: "s = (ps ! (t div PAGE_SIZE), t mod PAGE_SIZE)" "a \<le> t" "t < a + n" by auto
  have "t div PAGE_SIZE < length ps" using t(3) assms by (simp add: PAGE_SIZE_def)
  moreover have "t mod PAGE_SIZE < PAGE_SIZE" by (simp add: PAGE_SIZE_def)
  moreover have "t div PAGE_SIZE * PAGE_SIZE + t mod PAGE_SIZE = t" by (rule div_mult_mod_eq)
  ultimately have "\<exists>j b. s = (ps ! j, b) \<and> j < length ps \<and> b < PAGE_SIZE \<and> a \<le> j * PAGE_SIZE + b \<and> j * PAGE_SIZE + b < a + n"
    using t by (intro exI [of _ "t div PAGE_SIZE"] exI [of _ "t mod PAGE_SIZE"] conjI) (simp_all only:)
  then show "s \<in> page_bytes ps a n" by (simp add: page_bytes_def)
qed

lemma page_bytes_card:
  assumes "distinct ps" and "a + n \<le> length ps * PAGE_SIZE"
  shows "card (page_bytes ps a n) = n"
proof -
  have "inj_on (\<lambda>t. (ps ! (t div PAGE_SIZE), t mod PAGE_SIZE)) {a..<a + n}"
  proof (rule inj_onI)
    fix s t assume st: "s \<in> {a..<a + n}" "t \<in> {a..<a + n}"
      "(ps ! (s div PAGE_SIZE), s mod PAGE_SIZE) = (ps ! (t div PAGE_SIZE), t mod PAGE_SIZE)"
    have "s div PAGE_SIZE < length ps" "t div PAGE_SIZE < length ps" using st(1,2) assms(2) by (auto simp: PAGE_SIZE_def)
    then have "s div PAGE_SIZE = t div PAGE_SIZE" using st(3) assms(1) by (simp add: nth_eq_iff_index_eq)
    then show "s = t" using st(3) by (metis div_mult_mod_eq prod.inject)
  qed
  then show ?thesis unfolding page_bytes_image [OF assms(2)] by (simp add: card_image)
qed

lemma page_bytes_disjoint:
  assumes "distinct ps" and "a + n \<le> b \<or> b + k \<le> a"
  shows "page_bytes ps a n \<inter> page_bytes ps b k = {}"
  using assms by (auto simp: page_bytes_def nth_eq_iff_index_eq)

lemma page_bytes_pages: "page_bytes ps a n \<subseteq> set ps \<times> {..<PAGE_SIZE}"
  by (auto simp: page_bytes_def)

lemma page_bytes_start:
  assumes "j < length ps" and "b < PAGE_SIZE"
  shows "distinct ps \<Longrightarrow> (ps ! j, b) \<in> page_bytes ps a n \<longleftrightarrow> a \<le> j * PAGE_SIZE + b \<and> j * PAGE_SIZE + b < a + n"
  using assms by (auto simp: page_bytes_def nth_eq_iff_index_eq)

section \<open>Bytes of an object\<close>

lemma obj_offset_at:
  assumes z: "zsp_ok m z" and x: "(k, q, xi, off) \<in> set (zobjs (zsp_class z) (zsp_pages z))"
  shows "obj_handle_to_location (hnd q xi) = (q, xi)" "obj_offset (hnd q xi) (csize (zsp_class z)) m = off"
proof -
  note e = zobjs_elem [OF zsp_okD(1) [OF z] x]
  show loc: "obj_handle_to_location (hnd q xi) = (q, xi)" by (rule hnd_location [OF zsp_okD(12) [OF z e(6)] e(5)])
  show "obj_offset (hnd q xi) (csize (zsp_class z)) m = off" using zsp_okD(11) [OF z x] by (simp add: obj_offset_def loc)
qed

lemma zsp_next:
  assumes z: "zsp_ok m z" and k: "k < length (zsp_pages z)"
  shows "get_next_page (zsp_pages z ! k) m = (if Suc k < length (zsp_pages z) then zsp_pages z ! Suc k else 0)"
  using zsp_okD(4) [OF z] k unfolding zchain_nth by blast

lemma object_bytes_at:
  assumes z: "zsp_ok m z" and x: "x \<in> set (usable (zsp_class z) (zsp_pages z))"
  shows "object_bytes (hobj x) (csize (zsp_class z)) m = page_bytes (zsp_pages z) (obj_addr x) (csize (zsp_class z))"
proof -
  let ?ps = "zsp_pages z" and ?n = "csize (zsp_class z)"
  obtain k q xi off where xk: "x = (k, q, xi, off)" by (metis prod_cases4)
  have xo: "(k, q, xi, off) \<in> set (zobjs (zsp_class z) ?ps)" using usable_zobjs [OF x] xk by simp
  note e = zobjs_elem [OF zsp_okD(1) [OF z] xo] and at = obj_offset_at [OF z xo]
  have n: "?n \<le> PAGE_SIZE" using csize_bounds(4) [OF zsp_okD(1) [OF z]] .
  have a: "obj_addr x = k * PAGE_SIZE + off" by (simp add: obj_addr_def xk)
  have fit: "off + ?n \<le> PAGE_SIZE \<or> Suc k < length ?ps"
  proof -
    obtain k' where "k * PAGE_SIZE + off + ?n \<le> corder (zsp_class z) * PAGE_SIZE"
      using usable_addr [OF zsp_okD(1,2) [OF z] x] unfolding a by metis
    then show ?thesis using zsp_okD(2) [OF z] e(1) mult_le_mono1 [of "length ?ps" "Suc k" PAGE_SIZE] by (cases "Suc k < length ?ps") auto
  qed
  have bytes: "object_bytes (hobj x) ?n m = {q} \<times> {off..<min (off + ?n) PAGE_SIZE} \<union> {get_next_page q m} \<times> {0..<off + ?n - PAGE_SIZE}"
    by (simp add: object_bytes_def xk at Let_def)
  show ?thesis
  proof (cases "off + ?n \<le> PAGE_SIZE")
    case True
    have "j = k \<and> off \<le> b \<and> b < off + ?n" if "b < PAGE_SIZE" "k * PAGE_SIZE + off \<le> j * PAGE_SIZE + b" "j * PAGE_SIZE + b < k * PAGE_SIZE + off + ?n" for j b
    proof -
      have "j = k" using that True by (simp add: PAGE_SIZE_def)
      then show ?thesis using that by simp
    qed
    moreover have "(q, b) \<in> page_bytes ?ps (k * PAGE_SIZE + off) ?n" if "off \<le> b" "b < off + ?n" for b
      unfolding page_bytes_def using True e(1,2) that by (intro CollectI exI [of _ k] exI [of _ b]) simp
    ultimately show ?thesis unfolding bytes a using True e(2) by (auto simp: page_bytes_def)
  next
    case False
    then have k: "Suc k < length ?ps" using fit by simp
    have next_page: "get_next_page q m = ?ps ! Suc k" using zsp_next [OF z e(1)] k e(2) by simp
    have j: "j = k \<and> off \<le> b \<or> j = Suc k \<and> b < off + ?n - PAGE_SIZE"
      if "b < PAGE_SIZE" "k * PAGE_SIZE + off \<le> j * PAGE_SIZE + b" "j * PAGE_SIZE + b < k * PAGE_SIZE + off + ?n" for j b
    proof -
      have "k \<le> j" "j \<le> Suc k" using that n e(4) by (simp_all add: PAGE_SIZE_def)
      then have "j = k \<or> j = Suc k" by linarith
      then show ?thesis using that False by auto
    qed
    show ?thesis
    proof (rule set_eqI)
      fix s :: "zpfn \<times> nat"
      obtain r b where s: "s = (r, b)" by (cases s)
      have "s \<in> page_bytes ?ps (k * PAGE_SIZE + off) ?n \<longleftrightarrow> (r = q \<and> off \<le> b \<and> b < PAGE_SIZE) \<or> (r = ?ps ! Suc k \<and> b < off + ?n - PAGE_SIZE)"
      proof
        assume "s \<in> page_bytes ?ps (k * PAGE_SIZE + off) ?n"
        then show "(r = q \<and> off \<le> b \<and> b < PAGE_SIZE) \<or> (r = ?ps ! Suc k \<and> b < off + ?n - PAGE_SIZE)"
          using j e(2) by (auto simp: page_bytes_def s)
      next
        assume "(r = q \<and> off \<le> b \<and> b < PAGE_SIZE) \<or> (r = ?ps ! Suc k \<and> b < off + ?n - PAGE_SIZE)"
        then have "\<exists>i. r = ?ps ! i \<and> i < length ?ps \<and> b < PAGE_SIZE \<and> k * PAGE_SIZE + off \<le> i * PAGE_SIZE + b
          \<and> i * PAGE_SIZE + b < k * PAGE_SIZE + off + ?n"
        proof
          assume "r = q \<and> off \<le> b \<and> b < PAGE_SIZE"
          then show ?thesis using e(1,2) False by (intro exI [of _ k]) simp
        next
          assume "r = ?ps ! Suc k \<and> b < off + ?n - PAGE_SIZE"
          then have "r = ?ps ! Suc k" "b + PAGE_SIZE < off + ?n" by (simp_all add: less_diff_conv)
          then show ?thesis using k n e(4) by (intro exI [of _ "Suc k"]) simp
        qed
        then show "s \<in> page_bytes ?ps (k * PAGE_SIZE + off) ?n" by (auto simp: page_bytes_def s)
      qed
      then show "s \<in> object_bytes (hobj x) ?n m \<longleftrightarrow> s \<in> page_bytes ?ps (obj_addr x) ?n"
        unfolding bytes a next_page s using False by auto
    qed
  qed
qed

section \<open>Live objects\<close>

lemma live_place:
  assumes inv: "zs_inv pool m Z" and h: "(h, i) \<in> zlive Z"
  obtains p z x G where "zs_at pool m Z G" "Z p = Some z" "zsp_ok m z" "zsp_class z = i" "x \<in> set (usable i (zsp_pages z))" "h = hobj x"
    "x \<notin> set (zsp_free z)" "get_zspage_mapping p m = Some (i, G p)" "get_first_page (fst (obj_handle_to_location h)) m = p"
    "object_bytes h (csize i) m = page_bytes (zsp_pages z) (obj_addr x) (csize i)"
proof -
  obtain G where at: "zs_at pool m Z G" using inv by (auto simp: zs_inv_def)
  obtain p z x where z: "Z p = Some z" "x \<in> set (usable i (zsp_pages z))" "x \<notin> set (zsp_free z)" "h = hobj x" "zsp_class z = i"
    using h by (rule zliveE)
  note zp = zs_atD(1) [OF at z(1)]
  note zok = zsp_atD(2) [OF zp]
  obtain k q xi off where xk: "x = (k, q, xi, off)" by (metis prod_cases4)
  have xo: "(k, q, xi, off) \<in> set (zobjs (zsp_class z) (zsp_pages z))" using usable_zobjs [OF z(2)] xk z(5) by simp
  have "fst (obj_handle_to_location h) = q" using obj_offset_at(1) [OF zok xo] z(4) xk by simp
  then have "get_first_page (fst (obj_handle_to_location h)) m = p"
    using zsp_okD(13) [OF zok zobjs_elem(6) [OF zsp_okD(1) [OF zok] xo]] zsp_atD(1) [OF zp] by simp
  moreover have "get_zspage_mapping p m = Some (i, G p)" using zsp_atD(3) [OF zp] z(5) by simp
  moreover have "object_bytes h (csize i) m = page_bytes (zsp_pages z) (obj_addr x) (csize i)"
    using object_bytes_at [OF zok, of x] z(2,4,5) by simp
  ultimately show thesis using that at z zok by blast
qed

text \<open>A handle names one object; its bytes are as many as its class says, in pages of the pool.\<close>

lemma live_handle:
  assumes inv: "zs_inv pool m Z" and h: "(h, i) \<in> zlive Z"
  shows "i < ZS_SIZE_CLASSES" "h \<noteq> 0" "(h, j) \<in> zlive Z \<Longrightarrow> j = i"
proof -
  obtain p z x G where z: "zs_at pool m Z G" "Z p = Some z" "zsp_ok m z" "zsp_class z = i" "x \<in> set (usable i (zsp_pages z))" "h = hobj x"
    by (rule live_place [OF inv h])
  show "i < ZS_SIZE_CLASSES" using zsp_okD(1) [OF z(3)] z(4) by simp
  obtain k q xi off where xk: "x = (k, q, xi, off)" by (metis prod_cases4)
  have "(k, q, xi, off) \<in> set (zobjs i (zsp_pages z))" using usable_zobjs [OF z(5)] xk by simp
  then have q: "q \<in> set (zsp_pages z)" using zobjs_elem(6) [OF zsp_okD(1) [OF z(3)]] z(4) by simp
  then show "h \<noteq> 0" using zsp_first(5) [OF z(3) q] zsp_okD(12) [OF z(3) q] hnd_nonzero z(6) xk by simp
  show "j = i" if j: "(h, j) \<in> zlive Z"
  proof -
    obtain p' z' x' where w: "Z p' = Some z'" "zsp_class z' = j" "x' \<in> set (usable j (zsp_pages z'))" "h = hobj x'"
      by (rule live_place [OF inv j])
    have "p = p'" using hobj_inj(1) [OF z(1,2) _ w(1)] usable_zobjs z(4-6) w(2-4) by metis
    then show "j = i" using z(2,4) w(1,2) by simp
  qed
qed

lemma live_bytes:
  assumes inv: "zs_inv pool m Z" and h: "(h, i) \<in> zlive Z"
  shows "card (object_bytes h (csize i) m) = csize i" "object_bytes h (csize i) m \<subseteq> zused m \<times> {..<PAGE_SIZE}"
proof -
  obtain p z x where z: "zsp_ok m z" "zsp_class z = i" "x \<in> set (usable i (zsp_pages z))"
    "object_bytes h (csize i) m = page_bytes (zsp_pages z) (obj_addr x) (csize i)"
    by (rule live_place [OF inv h])
  have "obj_addr x + csize i \<le> length (zsp_pages z) * PAGE_SIZE"
    using usable_addr [OF zsp_okD(1,2) [OF z(1)], of x] zsp_okD(2) [OF z(1)] z(2,3) by metis
  then show "card (object_bytes h (csize i) m) = csize i" unfolding z(4) by (rule page_bytes_card [OF zsp_okD(3) [OF z(1)]])
  show "object_bytes h (csize i) m \<subseteq> zused m \<times> {..<PAGE_SIZE}"
    unfolding z(4) using page_bytes_pages [of "zsp_pages z" "obj_addr x" "csize i"] zsp_okD(14) [OF z(1)] by blast
qed

lemma live_apart:
  assumes inv: "zs_inv pool m Z" and h: "(h, i) \<in> zlive Z" and g: "(g, j) \<in> zlive Z" and "h \<noteq> g"
  shows "object_bytes h (csize i) m \<inter> object_bytes g (csize j) m = {}"
proof -
  obtain p z x G where z: "zs_at pool m Z G" "Z p = Some z" "zsp_ok m z" "zsp_class z = i" "x \<in> set (usable i (zsp_pages z))" "h = hobj x"
    "object_bytes h (csize i) m = page_bytes (zsp_pages z) (obj_addr x) (csize i)"
    by (rule live_place [OF inv h])
  obtain r w y where w: "Z r = Some w" "zsp_class w = j" "y \<in> set (usable j (zsp_pages w))" "g = hobj y"
    "object_bytes g (csize j) m = page_bytes (zsp_pages w) (obj_addr y) (csize j)"
    by (rule live_place [OF inv g])
  show ?thesis
  proof (cases "p = r")
    case True
    then have e: "w = z" "j = i" using z(2,4) w(1,2) by simp_all
    have "x \<noteq> y" using assms(4) z(6) w(4) by auto
    then have "obj_addr x + csize i \<le> obj_addr y \<or> obj_addr y + csize i \<le> obj_addr x"
      using usable_apart [OF zsp_okD(1,2) [OF z(3)]] z(4,5) w(3) e by metis
    moreover have "object_bytes g (csize j) m = page_bytes (zsp_pages z) (obj_addr y) (csize i)" using w(5) unfolding e .
    ultimately show ?thesis unfolding z(7) by (simp only:) (rule page_bytes_disjoint [OF zsp_okD(3) [OF z(3)]])
  next
    case False
    then have "set (zsp_pages z) \<inter> set (zsp_pages w) = {}" using zsp_apartD [OF zs_atD(2) [OF z(1)] z(2) w(1)] by simp
    then show ?thesis
      unfolding z(7) w(5) using page_bytes_pages [of "zsp_pages z" "obj_addr x" "csize i"] page_bytes_pages [of "zsp_pages w" "obj_addr y" "csize j"] by blast
  qed
qed

text \<open>Objects stay where they are, and what they hold.\<close>

lemma obj_slot_in:
  assumes z: "zsp_ok m z" and x: "x \<in> set (usable (zsp_class z) (zsp_pages z))"
  shows "obj_slot x \<in> object_bytes (hobj x) (csize (zsp_class z)) m"
proof -
  obtain k q xi off where xk: "x = (k, q, xi, off)" by (metis prod_cases4)
  have xo: "(k, q, xi, off) \<in> set (zobjs (zsp_class z) (zsp_pages z))" using usable_zobjs [OF x] xk by simp
  show ?thesis
    using zobjs_elem(4) [OF zsp_okD(1) [OF z] xo] obj_offset_at [OF z xo] csize_bounds(3) [OF zsp_okD(1) [OF z]]
    by (simp add: object_bytes_def Let_def xk)
qed

lemma keeps_place:
  assumes inv: "zs_inv pool m Z" "zs_inv pool' m' Z'" and k: "keeps Z Z'" and h: "(h, i) \<in> zlive Z" "(h, i) \<in> zlive Z'"
  shows "object_bytes h (csize i) m' = object_bytes h (csize i) m" "obj_offset h (csize i) m' = obj_offset h (csize i) m"
proof -
  obtain p z x where z: "Z p = Some z" "zsp_ok m z" "zsp_class z = i" "x \<in> set (usable i (zsp_pages z))" "h = hobj x"
    "object_bytes h (csize i) m = page_bytes (zsp_pages z) (obj_addr x) (csize i)"
    by (rule live_place [OF inv(1) h(1)])
  obtain r w y G where w: "zs_at pool' m' Z' G" "Z' r = Some w" "zsp_ok m' w" "zsp_class w = i" "y \<in> set (usable i (zsp_pages w))" "h = hobj y"
    "object_bytes h (csize i) m' = page_bytes (zsp_pages w) (obj_addr y) (csize i)"
    by (rule live_place [OF inv(2) h(2)])
  obtain z' where z': "Z' p = Some z'" "zsp_class z' = i" "zsp_pages z' = zsp_pages z" using k z(1,3) unfolding keeps_def by metis
  have x: "x \<in> set (zobjs (zsp_class z') (zsp_pages z'))" using usable_zobjs z(4) z'(2,3) by simp
  have y: "y \<in> set (zobjs (zsp_class w) (zsp_pages w))" using usable_zobjs w(4,5) by simp
  have xy: "p = r" "x = y" using hobj_inj [OF w(1) z'(1) x w(2) y] z(5) w(6) by simp_all
  then have ps: "zsp_pages w = zsp_pages z" using z' w(2) by simp
  show "object_bytes h (csize i) m' = object_bytes h (csize i) m" unfolding z(6) w(7) ps xy ..
  obtain k q xi off where xk: "x = (k, q, xi, off)" by (metis prod_cases4)
  show "obj_offset h (csize i) m' = obj_offset h (csize i) m"
    using obj_offset_at(2) [OF z(2), of k q xi off] obj_offset_at(2) [OF w(3), of k q xi off] x y z'(2,3) z(3) w(4)
    unfolding z(5) xy(2) [symmetric] xk hobj_simp by simp
qed

lemma touched_other:
  assumes inv: "zs_inv pool m\<^sub>0 Z" and t: "touched h i Z m m'" and g: "(g, j) \<in> zlive Z" "g \<noteq> h" and h: "(h, i) \<in> zlive Z"
    and s: "s \<in> object_bytes g (csize j) m\<^sub>0" "fst s \<in> zused m"
  shows "zlinks m' s = zlinks m s"
proof -
  obtain p z x where z: "Z p = Some z" "zsp_class z = i" "x \<in> set (usable i (zsp_pages z))" "h = hobj x"
    "\<And>s. fst s \<in> zused m \<Longrightarrow> s \<noteq> obj_slot x \<Longrightarrow> zlinks m' s = zlinks m s"
    using t unfolding touched_def by blast
  obtain G where at: "zs_at pool m\<^sub>0 Z G" using inv by (auto simp: zs_inv_def)
  have "obj_slot x \<in> object_bytes h (csize i) m\<^sub>0" using obj_slot_in [OF zsp_atD(2) [OF zs_atD(1) [OF at z(1)]], of x] z(2-4) by simp
  then have "s \<noteq> obj_slot x" using live_apart [OF inv h g(1)] g(2) s(1) by blast
  then show ?thesis using z(5) s(2) by simp
qed

end
