(* ===== verification/Zs_Machine.thy ===== *)
theory Zs_Machine
  imports Zs_Bytes
begin

text \<open>
  A pool in use.  Clients allocate, free, map, unmap and write objects in any order; the state keeps, beside the
  pool and the memory, the objects handed out with their classes, and for each class the object over two pages
  that is mapped.  A step is a call that returns: a call that would wait for a lock held by its own caller, or
  run into a \<open>BUG_ON\<close>, is no step.
\<close>

section \<open>Clients write to their objects\<close>

lemma zobjs_start_apart:
  assumes "i < ZS_SIZE_CLASSES" and "length ps = corder i" and "x \<in> set (zobjs i ps)" and "y \<in> set (zobjs i ps)" and "x \<noteq> y"
  shows "\<not> (obj_addr x \<le> obj_addr y \<and> obj_addr y < obj_addr x + csize i)"
proof -
  obtain K where K: "map obj_addr (zobjs i ps) = map (\<lambda>k. k * csize i) [0..<K]" "length (zobjs i ps) = K"
    by (rule zobjs_addr [OF assms(1,2)])
  have addr: "obj_addr (zobjs i ps ! k) = k * csize i" if "k < K" for k
    using arg_cong [OF K(1), of "\<lambda>l. l ! k"] that K(2) by simp
  obtain k l where kl: "k < K" "x = zobjs i ps ! k" "l < K" "y = zobjs i ps ! l" using assms(3,4) K(2) by (metis in_set_conv_nth)
  then have "k < l \<or> l < k" using assms(5) by (cases k l rule: linorder_cases) auto
  then show ?thesis
    using mult_le_mono1 [of "Suc k" l "csize i"] mult_less_mono1 [OF _ csize_bounds(3) [OF assms(1)], of l k] addr kl by auto
qed

lemma write_away_ok:
  assumes inv: "zs_inv pool m Z" and h: "(h, i) \<in> zlive Z" and f: "\<And>s. s \<notin> object_bytes h (csize i) m \<Longrightarrow> f s = zlinks m s"
  shows "zs_inv pool (m\<lparr>zlinks := f\<rparr>) Z"
proof -
  let ?m = "m\<lparr>zlinks := f\<rparr>"
  obtain G where at: "zs_at pool m Z G" "filed_but {} Z G" and cnt: "counts_ok pool Z" using inv by (auto simp: zs_inv_def)
  obtain p z x where z: "Z p = Some z" "zsp_ok m z" "zsp_class z = i" "x \<in> set (usable i (zsp_pages z))" "h = hobj x" "x \<notin> set (zsp_free z)"
    "object_bytes h (csize i) m = page_bytes (zsp_pages z) (obj_addr x) (csize i)"
    by (rule live_place [OF inv h])
  have links: "linked ?m (zsp_list w) 0" if w: "Z r = Some w" for r w
  proof -
    note wok = zsp_atD(2) [OF zs_atD(1) [OF at(1) w]]
    have "(q, off) \<notin> object_bytes h (csize i) m" if y: "(k, q, yi, off) \<in> set (zsp_list w)" for k q yi off
    proof (cases "r = p")
      case True
      then have e: "w = z" using w z(1) by simp
      have yo: "(k, q, yi, off) \<in> set (zobjs i (zsp_pages z))" using zsp_list_zobjs [OF wok] y e z(3) by auto
      note el = zobjs_elem [OF zsp_okD(1) [OF z(2), unfolded z(3)] yo]
      have "x \<noteq> (k, q, yi, off)"
        using y z(4,6) usable_not_spare [of i "zsp_pages z" x] zsp_okD(1,3) [OF z(2)] z(3) e by (auto simp: zsp_list_def)
      then have "\<not> (obj_addr x \<le> k * PAGE_SIZE + off \<and> k * PAGE_SIZE + off < obj_addr x + csize i)"
        using zobjs_start_apart [OF _ _ usable_zobjs [OF z(4)] yo] zsp_okD(1,2) [OF z(2)] z(3) by (simp add: obj_addr_def)
      then show ?thesis using page_bytes_start [OF el(1,4) zsp_okD(3) [OF z(2)]] el(2) unfolding z(7) by simp
    next
      case False
      have "q \<in> set (zsp_pages w)" using zobjs_elem(6) [OF zsp_okD(1) [OF wok]] zsp_list_zobjs [OF wok] y by blast
      then have "q \<notin> set (zsp_pages z)" using zsp_apartD [OF zs_atD(2) [OF at(1)] w z(1) False] by auto
      then show ?thesis unfolding z(7) using page_bytes_pages [of "zsp_pages z"] by fastforce
    qed
    then have "linked ?m (zsp_list w) 0 = linked m (zsp_list w) 0" by (intro linked_cong) (simp add: f)
    then show ?thesis using zsp_okD(7) [OF wok] by simp
  qed
  have same: "zchain first ps ?m = zchain first ps m" "get_first_page q ?m = get_first_page q m" "obj_idx_to_offset q k sz ?m = obj_idx_to_offset q k sz m"
    "get_zspage_mapping q ?m = get_zspage_mapping q m" "lone ?m q = lone m q" for first ps q k sz
    by (simp_all add: zchain_nth is_first_page_def is_last_page_def get_next_page_def get_first_page_def obj_idx_to_offset_def
        get_zspage_mapping_def lone_def)
  have "zsp_at ?m G r w" if w: "Z r = Some w" for r w
    using zs_atD(1) [OF at(1) w] links [OF w] by (auto simp: zsp_at_def zsp_ok_def same)
  moreover have "classes_ok pool ?m Z G" by (rule classes_ok_cong [OF zs_atD(3) [OF at(1)]]) simp_all
  ultimately have "zs_at pool ?m Z G" using zs_atD(2) [OF at(1)] by (simp add: zs_at_def)
  with at(2) cnt show ?thesis by (auto simp: zs_inv_def)
qed

section \<open>Mapping\<close>

text \<open>The bytes behind an address that \<open>zs_map_object\<close> returns, when the VM area shows \<open>ptes\<close>.\<close>

definition vm_bytes :: "vm_target \<times> nat \<Rightarrow> zpfn \<times> zpfn \<Rightarrow> nat \<Rightarrow> (zpfn \<times> nat) set" where
  "vm_bytes addr ptes n = (let off = snd addr in case fst addr of
       Vm_Null \<Rightarrow> {}
     | Vm_Kmap p \<Rightarrow> {p} \<times> {off..<off + n}
     | Vm_Area \<Rightarrow> {fst ptes} \<times> {off..<PAGE_SIZE} \<union> {snd ptes} \<times> {0..<off + n - PAGE_SIZE})"

definition spans :: "handle \<Rightarrow> nat \<Rightarrow> zmem \<Rightarrow> bool" where
  "spans h i m \<longleftrightarrow> PAGE_SIZE < obj_offset h (csize i) m + csize i"

lemma zs_inv_class:
  assumes "zs_inv pool m Z" and "class_at i pool = Some c" and "class_is i c'" and "fullness_list c' = fullness_list c"
    and "pages_allocated c' = pages_allocated c"
  shows "zs_inv (upd_class i (\<lambda>_. c') pool) m Z"
proof -
  obtain G where at: "zs_at pool m Z G" "filed_but {} Z G" and cnt: "counts_ok pool Z" using assms(1) by (auto simp: zs_inv_def)
  have "counts_ok (upd_class i (\<lambda>_. c') pool) Z"
    by (rule counts_same [OF cnt assms(2) _ refl assms(5)]) (use cnt in \<open>simp add: counts_ok_def\<close>)
  with zs_at_class [OF at(1) assms(2-4)] at(2) show ?thesis by (auto simp: zs_inv_def)
qed

lemma live_class:
  assumes inv: "zs_inv pool m Z" and h: "(h, i) \<in> zlive Z"
  obtains c fg where "class_at i pool = Some c" "class_is i c"
    "get_zspage_mapping (get_first_page (fst (obj_handle_to_location h)) m) m = Some (i, fg)"
    "obj_idx_to_offset (fst (obj_handle_to_location h)) (snd (obj_handle_to_location h)) (sc_size c) m = obj_offset h (csize i) m"
proof -
  obtain p z x G where z: "zs_at pool m Z G" "zsp_ok m z" "zsp_class z = i" "get_zspage_mapping p m = Some (i, G p)"
    "get_first_page (fst (obj_handle_to_location h)) m = p"
    by (rule live_place [OF inv h])
  obtain c where c: "class_at i pool = Some c" "class_is i c"
    using classes_okD(2,4) [OF zs_atD(3) [OF z(1)]] zsp_okD(1) [OF z(2)] z(3) by blast
  show thesis by (rule that [OF c]) (use z(4,5) c(2) in \<open>simp_all add: class_is_def obj_offset_def split_beta\<close>)
qed

lemma live_next:
  assumes inv: "zs_inv pool m Z" and h: "(h, i) \<in> zlive Z" and s: "spans h i m"
  shows "get_next_page (fst (obj_handle_to_location h)) m \<noteq> 0"
proof
  assume n: "get_next_page (fst (obj_handle_to_location h)) m = 0"
  have "(0, 0) \<in> object_bytes h (csize i) m" using s n by (simp add: object_bytes_def spans_def Let_def)
  moreover obtain p z x where z: "zsp_ok m z" "object_bytes h (csize i) m = page_bytes (zsp_pages z) (obj_addr x) (csize i)"
    by (rule live_place [OF inv h])
  ultimately have "0 \<in> set (zsp_pages z)" using page_bytes_pages [of "zsp_pages z"] by fastforce
  then show False using zsp_first(5) [OF z(1)] by blast
qed

lemma zs_map_ok:
  assumes inv: "zs_inv pool m Z" and lk: "locks pool S" and h: "(h, i) \<in> zlive Z"
  obtains (one) p pool' where "\<not> spans h i m" "zs_map_object h (pool, m) = Some ((Vm_Kmap p, obj_offset h (csize i) m), pool')"
      "zs_inv pool' m Z" "locks pool' S" "\<And>ptes. vm_bytes (Vm_Kmap p, obj_offset h (csize i) m) ptes (csize i) = object_bytes h (csize i) m"
    | (two) c pool' where "spans h i m" "i \<notin> S" "zs_map_object h (pool, m) = Some ((Vm_Area, obj_offset h (csize i) m), pool')"
      "zs_inv pool' m Z" "locks pool' (insert i S)" "class_at i pool' = Some c"
      "vm_bytes (Vm_Area, obj_offset h (csize i) m) (sc_ptes c) (csize i) = object_bytes h (csize i) m"
    | (busy) "spans h i m" "i \<in> S" "zs_map_object h (pool, m) = None"
proof -
  let ?p = "fst (obj_handle_to_location h)" and ?off = "obj_offset h (csize i) m"
  obtain c fg where c: "class_at i pool = Some c" "class_is i c" "get_zspage_mapping (get_first_page ?p m) m = Some (i, fg)"
    "obj_idx_to_offset ?p (snd (obj_handle_to_location h)) (sc_size c) m = ?off"
    by (rule live_class [OF inv h])
  note h0 = live_handle(1,2) [OF inv h]
  have sz: "sc_size c = csize i" using c(2) by (simp add: class_is_def)
  show thesis
  proof (cases "spans h i m")
    case False
    let ?c = "c\<lparr>sc_vm_addr := Vm_Kmap ?p\<rparr>"
    have "zs_map_object h (pool, m) = Some ((Vm_Kmap ?p, ?off), upd_class i (\<lambda>_. ?c) pool)"
      using h0 c False upd_class_at(4) [OF c(1), of "\<lambda>c. c\<lparr>sc_vm_addr := Vm_Kmap ?p\<rparr>"] sz
      by (simp add: zs_map_object_def split_beta spans_def Let_def)
    moreover have "zs_inv (upd_class i (\<lambda>_. ?c) pool) m Z" by (rule zs_inv_class [OF inv c(1)]) (use c(2) in simp_all)
    moreover have "locks (upd_class i (\<lambda>_. ?c) pool) S"
      using locks_upd [OF lk c(1), of ?c] lk c(1) by (auto simp: locks_def insert_absorb split: if_splits)
    moreover have "vm_bytes (Vm_Kmap ?p, ?off) ptes (csize i) = object_bytes h (csize i) m" for ptes
      using False by (auto simp: vm_bytes_def object_bytes_def spans_def Let_def)
    ultimately show thesis using one False by blast
  next
    case True
    note nx = live_next [OF inv h True]
    show thesis
    proof (cases "i \<in> S")
      case l: True
      then have "lock_class i pool = None" using lk c(1) by (simp add: lock_class_def locks_def)
      then have "zs_map_object h (pool, m) = None" using h0 c True nx sz by (simp add: zs_map_object_def split_beta spans_def Let_def)
      then show thesis using busy True l by blast
    next
      case l: False
      note lock = lock_class_ok [OF lk c(1) l]
      let ?c = "c\<lparr>sc_locked := True, sc_ptes := (?p, get_next_page ?p m), sc_vm_addr := Vm_Area\<rparr>"
      have "zs_map_object h (pool, m) = Some ((Vm_Area, ?off), upd_class i (\<lambda>_. ?c) pool)"
        using h0 c True nx sz lock(1) upd_class_at(2) [OF c(1)] by (simp add: zs_map_object_def split_beta spans_def Let_def)
      moreover have "zs_inv (upd_class i (\<lambda>_. ?c) pool) m Z" by (rule zs_inv_class [OF inv c(1)]) (use c(2) in simp_all)
      moreover have "locks (upd_class i (\<lambda>_. ?c) pool) (insert i S)" using locks_upd [OF lk c(1), of ?c] by simp
      moreover have "class_at i (upd_class i (\<lambda>_. ?c) pool) = Some ?c" by (rule upd_class_at(1) [OF c(1)])
      moreover have "vm_bytes (Vm_Area, ?off) (sc_ptes ?c) (csize i) = object_bytes h (csize i) m"
        using True by (auto simp: vm_bytes_def object_bytes_def spans_def Let_def)
      ultimately show thesis using two True l by blast
    qed
  qed
qed

lemma zs_unmap_ok:
  assumes inv: "zs_inv pool m Z" and lk: "locks pool S" and h: "(h, i) \<in> zlive Z"
  obtains pool' where "zs_unmap_object h (pool, m) = Some pool'" "zs_inv pool' m Z" "locks pool' (if spans h i m then S - {i} else S)"
proof -
  let ?p = "fst (obj_handle_to_location h)" and ?off = "obj_offset h (csize i) m"
  obtain c fg where c: "class_at i pool = Some c" "class_is i c" "get_zspage_mapping (get_first_page ?p m) m = Some (i, fg)"
    "obj_idx_to_offset ?p (snd (obj_handle_to_location h)) (sc_size c) m = ?off"
    by (rule live_class [OF inv h])
  note h0 = live_handle(1,2) [OF inv h]
  have sz: "sc_size c = csize i" using c(2) by (simp add: class_is_def)
  show thesis
  proof (cases "spans h i m")
    case False
    then have "zs_unmap_object h (pool, m) = Some pool" using h0 c sz by (simp add: zs_unmap_object_def split_beta spans_def Let_def)
    then show thesis using that inv lk False by simp
  next
    case True
    let ?c = "c\<lparr>sc_ptes := (0, 0), sc_locked := False\<rparr>"
    have "zs_unmap_object h (pool, m) = Some (upd_class i (\<lambda>_. ?c) pool)"
      using h0 c sz True upd_class_at(4) [OF c(1), of "\<lambda>c. c\<lparr>sc_ptes := (0, 0), sc_locked := False\<rparr>"] upd_class_at(2) [OF c(1)]
      by (simp add: zs_unmap_object_def split_beta spans_def Let_def unlock_class_def)
    moreover have "zs_inv (upd_class i (\<lambda>_. ?c) pool) m Z" by (rule zs_inv_class [OF inv c(1)]) (use c(2) in simp_all)
    moreover have "locks (upd_class i (\<lambda>_. ?c) pool) (S - {i})" using locks_upd [OF lk c(1), of ?c] by simp
    ultimately show thesis using that True by simp
  qed
qed

section \<open>Calls in any order\<close>

datatype zs_call = Call_malloc nat handle | Call_free handle | Call_map handle "vm_target \<times> nat" | Call_unmap handle | Client_write handle

text \<open>The pool and the memory, the objects handed out, and the object mapped over two pages, by class.\<close>

type_synonym zs_state = "zs_pool \<times> zmem \<times> (handle \<times> nat) set \<times> (nat \<rightharpoonup> handle)"

inductive zs_step :: "zs_state \<Rightarrow> zs_call \<Rightarrow> zs_state \<Rightarrow> bool" where
  step_malloc: "fresh_src src \<Longrightarrow> zs_malloc src sz (pool, m) = Some (h, pool', m') \<Longrightarrow>
    zs_step (pool, m, L, T) (Call_malloc sz h) (pool', m', if h = 0 then L else insert (h, get_size_class_index sz) L, T)"
| step_free: "(h, i) \<in> L \<Longrightarrow> zs_free h (pool, m) = Some (pool', m') \<Longrightarrow>
    zs_step (pool, m, L, T) (Call_free h) (pool', m', L - {(h, i)}, T)"
| step_map: "(h, i) \<in> L \<Longrightarrow> zs_map_object h (pool, m) = Some (addr, pool') \<Longrightarrow>
    zs_step (pool, m, L, T) (Call_map h addr) (pool', m, L, if fst addr = Vm_Area then T(i \<mapsto> h) else T)"
| step_unmap: "(h, i) \<in> L \<Longrightarrow> (spans h i m \<Longrightarrow> T i = Some h) \<Longrightarrow> zs_unmap_object h (pool, m) = Some pool' \<Longrightarrow>
    zs_step (pool, m, L, T) (Call_unmap h) (pool', m, L, if spans h i m then T(i := None) else T)"
| step_write: "(h, i) \<in> L \<Longrightarrow> (\<And>s. s \<notin> object_bytes h (csize i) m \<Longrightarrow> f s = zlinks m s) \<Longrightarrow>
    zs_step (pool, m, L, T) (Client_write h) (pool, m\<lparr>zlinks := f\<rparr>, L, T)"

inductive zs_reachable :: "zs_state \<Rightarrow> bool" where
  reach_new: "zs_create_pool (Some name) True (\<lambda>_. True) vms = (Some pool, vms') \<Longrightarrow> zs_reachable (pool, m, {}, Map.empty)"
| reach_step: "zs_reachable s \<Longrightarrow> zs_step s c s' \<Longrightarrow> zs_reachable s'"

definition zs_safe_at :: "zs_state \<Rightarrow> zspages \<Rightarrow> bool" where
  "zs_safe_at s Z = (case s of (pool, m, L, T) \<Rightarrow> zs_inv pool m Z \<and> zlive Z = L \<and> locks pool (dom T)
     \<and> (\<forall>i h. T i = Some h \<longrightarrow> (h, i) \<in> L \<and> spans h i m))"

lemma zs_safe_atD:
  assumes "zs_safe_at (pool, m, L, T) Z"
  shows "zs_inv pool m Z" "zlive Z = L" "locks pool (dom T)" "T i = Some h \<Longrightarrow> (h, i) \<in> L" "T i = Some h \<Longrightarrow> spans h i m"
  using assms by (simp_all add: zs_safe_at_def)

text \<open>What a step leaves alone.\<close>

definition undisturbed :: "zs_call \<Rightarrow> zs_state \<Rightarrow> zs_state \<Rightarrow> bool" where
  "undisturbed c s s' = (case (s, s') of ((_, m, L, _), (_, m', L', _)) \<Rightarrow>
     \<forall>(h, i) \<in> L \<inter> L'. object_bytes h (csize i) m' = object_bytes h (csize i) m \<and> obj_offset h (csize i) m' = obj_offset h (csize i) m
       \<and> (c \<noteq> Client_write h \<longrightarrow> (\<forall>b \<in> object_bytes h (csize i) m. zlinks m' b = zlinks m b)))"

lemma undisturbed_same: "L' \<subseteq> L \<Longrightarrow> undisturbed c (pool, m, L, T) (pool', m, L', T')"
  by (auto simp: undisturbed_def)

text \<open>A new pool.\<close>

lemma new_pool_safe: "zs_safe_at (zs_pool_of, m, {}, Map.empty) (\<lambda>_. None)"
proof -
  have cls: "i < ZS_SIZE_CLASSES \<and> c = new_class i" if "class_at i zs_pool_of = Some c" for i c
    using that by (auto simp: class_at_def zs_pool_of_def split: if_splits)
  have "class_is i (new_class i) \<and> groups_ok m (new_class i) (members (\<lambda>_. None) G i) \<and> pages_allocated (new_class i) = 0 \<and> \<not> sc_locked (new_class i)"
    if "i < ZS_SIZE_CLASSES" for i G
  proof -
    have "pages_allocated (new_class i) = 0" by (simp add: new_class_def Let_def)
    then show ?thesis
      using new_class_ok [OF that] that
      by (auto simp: class_is_def groups_ok_def group_ok_def members_def csize_def corder_def zs_consts listed_def)
  qed
  then show ?thesis
    using cls by (fastforce simp: zs_safe_at_def zs_inv_def zs_at_def classes_ok_def zsp_apart_def filed_but_def counts_ok_def
        in_class_def zlive_def locks_def zs_pool_of_def)
qed

text \<open>\<open>zs_malloc\<close> when it returns.\<close>

lemma malloc_returns:
  assumes inv: "zs_inv pool m Z" and lk: "locks pool S" and src: "fresh_src src" and run: "zs_malloc src sz (pool, m) = Some (h, pool', m')"
  obtains (failed) "h = 0" "pool' = pool" "m' = m"
    | (got) Z' where "h \<noteq> 0" "zs_inv pool' m' Z'" "locks pool' S" "zlive Z' = insert (h, get_size_class_index sz) (zlive Z)"
      "\<And>j. (h, j) \<notin> zlive Z" "zused m \<subseteq> zused m'" "keeps Z Z'" "touched h (get_size_class_index sz) Z' m m'"
proof (cases "0 < sz \<and> sz \<le> ZS_MAX_ALLOC_SIZE")
  case False
  then have "h = 0 \<and> pool' = pool \<and> m' = m" using run by (simp add: zs_malloc_def split: if_splits)
  then show thesis using failed by simp
next
  case sz: True
  let ?i = "get_size_class_index sz"
  have il: "?i < ZS_SIZE_CLASSES" using sz class_index_bounds(1) by simp
  obtain G where at: "zs_at pool m Z G" using inv by (auto simp: zs_inv_def)
  obtain c where c: "class_at ?i pool = Some c" using classes_okD(4) [OF zs_atD(3) [OF at] il] by blast
  have i: "?i \<notin> S"
  proof
    assume "?i \<in> S"
    then have "lock_class ?i pool = None" using lk c by (simp add: lock_class_def locks_def)
    then show False using run sz c by (simp add: zs_malloc_def Let_def split: if_splits)
  qed
  show thesis
  proof (cases rule: zs_malloc_ok [OF inv lk src conjunct1 [OF sz] conjunct2 [OF sz] refl i])
    case (1 h1 pool1 m1 Z1)
    then show thesis using run got by simp
  qed (use run failed in simp_all)
qed

lemma free_returns:
  assumes inv: "zs_inv pool m Z" and lk: "locks pool S" and h: "(h, i) \<in> zlive Z" and run: "zs_free h (pool, m) = Some r"
  shows "i \<notin> S"
proof
  assume i: "i \<in> S"
  obtain c fg where c: "class_at i pool = Some c" "get_zspage_mapping (get_first_page (fst (obj_handle_to_location h)) m) m = Some (i, fg)"
    by (rule live_class [OF inv h])
  have "lock_class i pool = None" using lk c(1) i by (simp add: lock_class_def locks_def)
  then show False using run live_handle(2) [OF inv h] c by (simp add: zs_free_def split_beta Let_def)
qed

text \<open>Every step keeps the invariant, and every object but the one it is about.\<close>

lemma undisturbedI:
  assumes inv: "zs_inv pool m Z" "zs_inv pool' m' Z'" and k: "keeps Z Z' \<or> keeps Z' Z" and L: "zlive Z = L" "zlive Z' = L'"
    and data: "\<And>h i b. (h, i) \<in> L \<Longrightarrow> (h, i) \<in> L' \<Longrightarrow> b \<in> object_bytes h (csize i) m \<Longrightarrow> zlinks m' b = zlinks m b"
  shows "undisturbed c (pool, m, L, T) (pool', m', L', T')"
proof -
  have "object_bytes h (csize i) m' = object_bytes h (csize i) m \<and> obj_offset h (csize i) m' = obj_offset h (csize i) m"
    if "(h, i) \<in> L" "(h, i) \<in> L'" for h i
    using k keeps_place [OF inv _ that [folded L]] keeps_place [OF inv(2,1) _ that(2,1) [folded L]] by metis
  then show ?thesis using data by (auto simp: undisturbed_def)
qed

lemma zs_step_safe:
  assumes "zs_safe_at s Z" and "zs_step s c s'"
  obtains Z' where "zs_safe_at s' Z'" "undisturbed c s s'"
proof -
  from assms(2) show thesis
  proof cases
    case (step_malloc src sz pool m h pool' m' L T)
    note s = step_malloc(1) and sf = zs_safe_atD [OF assms(1) [unfolded step_malloc(1)]]
    from sf(1,3) step_malloc(4,5) show thesis
    proof (cases rule: malloc_returns)
      case failed
      then show thesis using that assms(1) step_malloc(2,3) undisturbed_same by (simp add: s)
    next
      case (got Z')
      let ?L = "insert (h, get_size_class_index sz) L"
      have u: "undisturbed c (pool, m, L, T) (pool', m', ?L, T)"
      proof (rule undisturbedI [OF sf(1) got(2) disjI1 [OF got(7)] sf(2)])
        show lv: "zlive Z' = ?L" using got(4) sf(2) by simp
        show "zlinks m' b = zlinks m b" if g: "(g, j) \<in> L" "(g, j) \<in> ?L" and b: "b \<in> object_bytes g (csize j) m" for g j b
        proof (rule touched_other [OF got(2,8)])
          show gl: "(g, j) \<in> zlive Z'" "(h, get_size_class_index sz) \<in> zlive Z'" using g lv by simp_all
          show "g \<noteq> h" using g(1) got(5) sf(2) by auto
          have gZ: "(g, j) \<in> zlive Z" using g(1) sf(2) by simp
          show "b \<in> object_bytes g (csize j) m'" using b keeps_place(1) [OF sf(1) got(2,7) gZ gl(1)] by simp
          show "fst b \<in> zused m" using b live_bytes(2) [OF sf(1) gZ] by (metis mem_Sigma_iff prod.collapse subsetD)
        qed
      qed
      have off: "obj_offset g (csize j) m' = obj_offset g (csize j) m" if "(g, j) \<in> L" for g j
        using u that by (auto simp: undisturbed_def)
      have "zs_safe_at (pool', m', ?L, T) Z'"
        using got(2,3,4) sf(2-5) off by (auto simp: zs_safe_at_def spans_def)
      then show thesis using that u got(1) step_malloc(2,3) by (simp add: s)
    qed
  next
    case (step_free h i L pool m pool' m' T)
    note s = step_free(1) and sf = zs_safe_atD [OF assms(1) [unfolded step_free(1)]]
    have hl: "(h, i) \<in> zlive Z" using step_free(4) sf(2) by simp
    have i: "i \<notin> dom T" by (rule free_returns [OF sf(1,3) hl step_free(5)])
    obtain pool1 m1 Z' where f: "zs_free h (pool, m) = Some (pool1, m1)" "zs_inv pool1 m1 Z'" "locks pool1 (dom T)" "zlive Z' = zlive Z - {(h, i)}"
      "keeps Z' Z" "touched h i Z m m1" "zused m1 \<subseteq> zused m"
      by (rule zs_free_ok [OF sf(1,3) hl i])
    then have e: "pool1 = pool'" "m1 = m'" using step_free(5) by simp_all
    let ?L = "L - {(h, i)}"
    have u: "undisturbed c (pool, m, L, T) (pool', m', ?L, T)"
    proof (rule undisturbedI [OF sf(1) f(2) [unfolded e] disjI2 [OF f(5)] sf(2)])
      show "zlive Z' = ?L" using f(4) sf(2) by simp
      show "zlinks m' b = zlinks m b" if g: "(g, j) \<in> L" "(g, j) \<in> ?L" and b: "b \<in> object_bytes g (csize j) m" for g j b
      proof (rule touched_other [OF sf(1) f(6) [unfolded e] _ _ hl b])
        show gZ: "(g, j) \<in> zlive Z" using g sf(2) by simp
        show "g \<noteq> h" using g live_handle(3) [OF sf(1) hl] sf(2) by auto
        show "fst b \<in> zused m" using b live_bytes(2) [OF sf(1) gZ] by (metis mem_Sigma_iff prod.collapse subsetD)
      qed
    qed
    have off: "obj_offset g (csize j) m' = obj_offset g (csize j) m" if "(g, j) \<in> ?L" for g j
      using u that by (auto simp: undisturbed_def)
    have "(g, j) \<noteq> (h, i)" if "T j = Some g" for g j using i that by auto
    then have "zs_safe_at (pool', m', ?L, T) Z'"
      using f(2,3,4) sf(2,4,5) off unfolding e by (fastforce simp: zs_safe_at_def spans_def)
    then show thesis using that u step_free(2,3) by (simp add: s)
  next
    case (step_map h i L pool m addr pool' T)
    note s = step_map(1) and sf = zs_safe_atD [OF assms(1) [unfolded step_map(1)]]
    have hl: "(h, i) \<in> zlive Z" using step_map(4) sf(2) by simp
    from sf(1,3) hl have "zs_safe_at s' Z"
    proof (cases rule: zs_map_ok)
      case (one p pool1)
      then show ?thesis using step_map sf(2-5) by (simp add: zs_safe_at_def)
    next
      case (two c pool1)
      then show ?thesis using step_map sf(2-5) by (simp add: zs_safe_at_def)
    qed (use step_map in simp)
    then show thesis using that undisturbed_same [of L L] step_map(3) by (simp add: s)
  next
    case (step_unmap h i L m T pool pool')
    note s = step_unmap(1) and sf = zs_safe_atD [OF assms(1) [unfolded step_unmap(1)]]
    have hl: "(h, i) \<in> zlive Z" using step_unmap(4) sf(2) by simp
    obtain pool1 where p1: "zs_unmap_object h (pool, m) = Some pool1" "zs_inv pool1 m Z" "locks pool1 (if spans h i m then dom T - {i} else dom T)"
      by (rule zs_unmap_ok [OF sf(1,3) hl])
    then have "zs_safe_at s' Z" using step_unmap sf(2,4,5) by (auto simp: zs_safe_at_def split: if_splits)
    then show thesis using that undisturbed_same [of L L] step_unmap(3) by (simp add: s)
  next
    case (step_write h i L m f pool T)
    note s = step_write(1) and sf = zs_safe_atD [OF assms(1) [unfolded step_write(1)]]
    have hl: "(h, i) \<in> zlive Z" using step_write(4) sf(2) by simp
    have inv: "zs_inv pool (m\<lparr>zlinks := f\<rparr>) Z" by (rule write_away_ok [OF sf(1) hl]) (rule step_write(5))
    have place: "object_bytes g (csize j) (m\<lparr>zlinks := f\<rparr>) = object_bytes g (csize j) m" "obj_offset g (csize j) (m\<lparr>zlinks := f\<rparr>) = obj_offset g (csize j) m" for g j
    proof -
      have "get_next_page p (m\<lparr>zlinks := f\<rparr>) = get_next_page p m" "obj_idx_to_offset p k n (m\<lparr>zlinks := f\<rparr>) = obj_idx_to_offset p k n m" for p k n
        by (simp_all add: obj_idx_to_offset_def get_next_page_def is_first_page_def is_last_page_def)
      then show "object_bytes g (csize j) (m\<lparr>zlinks := f\<rparr>) = object_bytes g (csize j) m" "obj_offset g (csize j) (m\<lparr>zlinks := f\<rparr>) = obj_offset g (csize j) m"
        by (simp_all add: object_bytes_def obj_offset_def)
    qed
    have "zs_safe_at s' Z" using inv sf(2-5) step_write(3) place by (simp add: zs_safe_at_def spans_def)
    moreover have "f b = zlinks m b" if g: "(g, j) \<in> L" "g \<noteq> h" "b \<in> object_bytes g (csize j) m" for g j b
      by (rule step_write(5)) (use live_apart [OF sf(1) _ hl g(2), of j] g sf(2) in blast)
    then have "undisturbed c (pool, m, L, T) (pool, m\<lparr>zlinks := f\<rparr>, L, T)" using place step_write(2) by (auto simp: undisturbed_def)
    ultimately show thesis using that step_write(3) by (simp add: s)
  qed
qed

lemma zs_reachable_safe_at: "zs_reachable s \<Longrightarrow> \<exists>Z. zs_safe_at s Z"
proof (induction rule: zs_reachable.induct)
  case (reach_new name vms pool vms' m)
  then have "pool = zs_pool_of" by (cases "Some name") (simp_all add: create_pool_ok)
  then show ?case using new_pool_safe by blast
next
  case (reach_step s c s')
  then show ?case using zs_step_safe by metis
qed

end
