(* ===== verification/Zsmalloc_Spec.thy ===== *)
theory Zsmalloc_Spec
  imports Zs_Machine
begin

text \<open>The properties of zsmalloc, with a small page source to instantiate them.\<close>

section \<open>A source of four pages\<close>

definition blank_page :: zpage where
  "blank_page = \<lparr>pg_private = False, pg_private_2 = False, zp_private = 0, zp_mapping = 0, zp_first_page = 0, zp_index = 0,
     zp_freelist = 0, zp_inuse = 0, zp_objects = 0, lru_prev = 0, lru_next = 0\<rparr>"

fun first_free :: "zpfn list \<Rightarrow> zsource" where
  "first_free [] m = None"
| "first_free (p # ps) m = (if p \<in> zused m then first_free ps m else Some (p, blank_page))"

definition no_pages :: zmem where
  "no_pages = \<lparr>zpages = (\<lambda>_. blank_page), zlinks = (\<lambda>_. 0), zused = {}\<rparr>"

lemma first_free_fresh: "\<forall>p \<in> set ps. p \<noteq> 0 \<and> p < 2 ^ PFN_BITS \<Longrightarrow> fresh_src (first_free ps)"
proof -
  assume "\<forall>p \<in> set ps. p \<noteq> 0 \<and> p < 2 ^ PFN_BITS"
  then have "first_free ps m = Some (p, d) \<Longrightarrow> p \<noteq> 0 \<and> p < 2 ^ PFN_BITS \<and> p \<notin> zused m \<and> d = blank_page" for m p d
    by (induction ps) (auto split: if_splits)
  moreover have "\<not> pg_private blank_page" "\<not> pg_private_2 blank_page" by (simp_all add: blank_page_def)
  ultimately show ?thesis unfolding fresh_src_def by metis
qed

lemma fresh_1234: "fresh_src (first_free [1, 2, 3, 4])"
  by (rule first_free_fresh) (simp add: pfn_bits)

lemma zused_simps:
  "zused (upd_page p f m) = zused m" "zused (take_page p d m) = insert p (zused m)" "zused (init_lru p m) = zused m"
  "zused (lru_add p q m) = zused m"
  by (simp_all add: upd_page_def take_page_def lru_defs)

text \<open>The class of 48 bytes takes three pages.\<close>

lemma order_48: "get_zspage_order 48 = 3"
  by (simp add: get_zspage_order_def usedpc_def zs_consts upt_rec)

lemma class_48: "class_ok (new_class 1)" "zspage_order (new_class 1) = 3" "sc_size (new_class 1) = 48"
  using new_class_ok [of 1] by (simp_all add: order_48 ZS_SIZE_CLASSES_def zs_consts)

lemma pages_48: "\<exists>m1. alloc_pages_from (first_free [1, 2, 3, 4]) 3 3 0 0 0 no_pages = (True, 1, m1)"
  by (simp add: numeral_3_eq_3 Let_def zused_simps no_pages_def)

section \<open>What is reachable\<close>

text \<open>A list of a class is empty or starts at a first page that knows it.\<close>

definition head_ok :: "nat \<Rightarrow> fullness_group \<Rightarrow> zmem \<Rightarrow> zpfn \<Rightarrow> bool" where
  "head_ok i fg m p \<longleftrightarrow> p = 0 \<or> p \<in> zused m \<and> is_first_page p m \<and> get_zspage_mapping p m = Some (i, fg) \<and> get_fullness_group p m = Some fg"

lemma list_head_ok:
  assumes at: "zs_at pool m Z G" "filed_but {} Z G" and c: "class_at i pool = Some c" and fg: "listed fg"
  shows "head_ok i fg m (fullness_list c ! fg_nr fg)"
proof (cases "fullness_list c ! fg_nr fg = 0")
  case False
  let ?p = "fullness_list c ! fg_nr fg"
  have "group_ok m c fg (members Z G i fg)" using classes_okD(3) [OF zs_atD(3) [OF at(1)] c] fg by (simp add: groups_ok_def)
  from group_head [OF this] have "?p \<in> members Z G i fg" using False by simp
  then obtain z where z: "Z ?p = Some z" "zsp_class z = i" "G ?p = fg" by (auto simp: members_def)
  note zp = zsp_atD [OF zs_atD(1) [OF at(1) z(1)]]
  have "zsp_group z = fg" using at(2) z(1,3) by (auto simp: filed_but_def)
  then show ?thesis using zp(1,3,6) zsp_okD(14) [OF zp(2,5)] zsp_fullness [OF zp(2)] z(2,3) by (simp add: head_ok_def)
qed (simp add: head_ok_def)

lemma class_fits:
  assumes sz: "0 < sz" "sz \<le> ZS_MAX_ALLOC_SIZE" and ci: "class_is (get_size_class_index sz) c"
  shows "sz \<le> sc_size c \<and> sc_size c \<le> PAGE_SIZE \<and> (sc_size c < sz + 16 \<or> sc_size c = 32)
    \<and> zspage_order c \<in> {1..4} \<and> (\<forall>n \<in> {1..4}. usedpc (sc_size c) n \<le> usedpc (sc_size c) (zspage_order c))"
proof -
  let ?i = "get_size_class_index sz"
  note b = class_index_bounds [OF sz]
  have n: "csize ?i = 32 + ?i * 16" by (simp add: csize_def zs_consts)
  have "csize ?i < sz + 16 \<or> csize ?i = 32"
    using b(3) n by (cases "32 < sz") (simp_all add: get_size_class_index_def ZS_MIN_ALLOC_SIZE_def)
  then show ?thesis
    using ci b(2) n csize_bounds(4) [OF b(1)] order_bounds [of "csize ?i"] order_best [of _ "csize ?i"]
    by (auto simp: class_is_def corder_def)
qed

lemma reachable_parts:
  assumes "zs_reachable (pool, m, L, T)"
  obtains Z G where "zs_safe_at (pool, m, L, T) Z" "zs_inv pool m Z" "zlive Z = L" "locks pool (dom T)" "zs_at pool m Z G" "filed_but {} Z G"
    "length (size_class_of pool) = ZS_SIZE_CLASSES"
    "\<And>i. i < ZS_SIZE_CLASSES \<Longrightarrow> class_at i pool = Some (size_class_of pool ! i) \<and> class_is i (size_class_of pool ! i)"
proof -
  obtain Z where Z: "zs_safe_at (pool, m, L, T) Z" using zs_reachable_safe_at [OF assms] by blast
  obtain G where at: "zs_at pool m Z G" "filed_but {} Z G" using zs_safe_atD(1) [OF Z] by (auto simp: zs_inv_def)
  note cl = classes_okD(1,2) [OF zs_atD(3) [OF at(1)]]
  have "class_at i pool = Some (size_class_of pool ! i) \<and> class_is i (size_class_of pool ! i)" if "i < ZS_SIZE_CLASSES" for i
    using that cl by (simp add: class_at_def)
  then show thesis using that Z zs_safe_atD(1-3) [OF Z] at cl(1) by blast
qed

text \<open>A new pool after one call of \<open>zs_malloc\<close>.\<close>

lemma reachable_new: "zs_reachable (zs_pool_of, m, {}, Map.empty)"
  by (rule reach_new [of "[]" "{}"]) (rule create_pool_ok)

lemma reachable_one:
  obtains h pool m where "h \<noteq> 0" "zs_reachable (pool, m, {(h, 1)}, Map.empty)"
proof -
  have i: "get_size_class_index 40 = 1" by (simp add: get_size_class_index_def zs_consts DIV_ROUND_UP_def)
  have sz: "0 < (40 :: nat)" "40 \<le> ZS_MAX_ALLOC_SIZE" by (simp_all add: ZS_MAX_ALLOC_SIZE_def PAGE_SIZE_def)
  have i_less: "(1 :: nat) < ZS_SIZE_CLASSES" by (simp add: zs_consts)
  obtain m1 where "alloc_pages_from (first_free [1, 2, 3, 4]) 3 3 0 0 0 no_pages = (True, 1, m1)" using pages_48 by blast
  then obtain h pool m where h: "zs_malloc (first_free [1, 2, 3, 4]) 40 (zs_pool_of, no_pages) = Some (h, pool, m)" "h \<noteq> 0"
    using zs_cycle [OF sz i [symmetric] _ class_at_new [OF i_less] new_class_ok(1,3,4,5) [OF i_less] fresh_1234, of no_pages 1 m1]
    unfolding class_48(2) by (auto simp: CLASS_IDX_BITS_def)
  have "zs_reachable (pool, m, {(h, 1)}, Map.empty)"
    using reach_step [OF reachable_new step_malloc [OF fresh_1234 h(1)]] h(2) by (simp add: i)
  with h(2) show thesis by (rule that)
qed

section \<open>Properties\<close>

text \<open>
  C30: a handle keeps the page and the index of its object: for every frame number of \<open>PFN_BITS\<close>
  bits and every index of \<open>OBJ_INDEX_BITS\<close> bits, \<open>obj_handle_to_location\<close> returns what
  \<open>obj_location_to_handle\<close> was given, and no object has the handle 0 that means failure.
\<close>

theorem zs_handle_roundtrip:
  assumes "p \<noteq> 0" and "p < 2 ^ PFN_BITS" and "i < 2 ^ OBJ_INDEX_BITS"
  shows "\<exists>h. obj_location_to_handle p i = Some h \<and> h \<noteq> 0 \<and> obj_handle_to_location h = (p, i)"
  using assms hnd_location hnd_nonzero by (simp add: hnd_eq)

theorem zs_handle_roundtrip_witness:
  "\<exists>h. obj_location_to_handle 0x3FFFFFFFF 7 = Some h \<and> h \<noteq> 0 \<and> obj_handle_to_location h = (0x3FFFFFFFF, 7)"
  by (rule zs_handle_roundtrip) (simp_all add: pfn_bits index_bits)

text \<open>
  C31: a pool in use is well formed: it has all its classes, each with the size, the index and the number of
  pages per zspage of its place, locked exactly while an object over two pages is mapped; the two lists of a
  class are empty or start at the first page of a zspage that says it is in that list.  Every size up to a
  page has a class of objects large enough, less than sixteen bytes too large unless the smallest
  class is used, whose zspages have the number of pages, one to four, with the least waste.
\<close>

theorem zs_pool_wellformed:
  assumes "zs_reachable (pool, m, L, T)"
  shows "length (size_class_of pool) = ZS_SIZE_CLASSES
    \<and> (\<forall>i < ZS_SIZE_CLASSES. let c = size_class_of pool ! i in
         sc_index c = i \<and> sc_size c = ZS_MIN_ALLOC_SIZE + i * ZS_SIZE_CLASS_DELTA \<and> zspage_order c = get_zspage_order (sc_size c)
       \<and> (sc_locked c \<longleftrightarrow> T i \<noteq> None) \<and> length (fullness_list c) = 2
       \<and> (\<forall>fg. listed fg \<longrightarrow> head_ok i fg m (fullness_list c ! fg_nr fg)))
    \<and> (\<forall>sz \<in> {1..ZS_MAX_ALLOC_SIZE}. get_size_class_index sz < ZS_SIZE_CLASSES \<and>
         (let c = size_class_of pool ! get_size_class_index sz in
            sz \<le> sc_size c \<and> sc_size c \<le> PAGE_SIZE \<and> (sc_size c < sz + 16 \<or> sc_size c = 32)
          \<and> zspage_order c \<in> {1..4} \<and> (\<forall>n \<in> {1..4}. usedpc (sc_size c) n \<le> usedpc (sc_size c) (zspage_order c))))"
proof -
  obtain Z G where Z: "locks pool (dom T)" "zs_at pool m Z G" "filed_but {} Z G" "length (size_class_of pool) = ZS_SIZE_CLASSES"
    "\<And>i. i < ZS_SIZE_CLASSES \<Longrightarrow> class_at i pool = Some (size_class_of pool ! i) \<and> class_is i (size_class_of pool ! i)"
    by (rule reachable_parts [OF assms]) (assumption | rule that)+
  have "let c = size_class_of pool ! i in
         sc_index c = i \<and> sc_size c = ZS_MIN_ALLOC_SIZE + i * ZS_SIZE_CLASS_DELTA \<and> zspage_order c = get_zspage_order (sc_size c)
       \<and> (sc_locked c \<longleftrightarrow> T i \<noteq> None) \<and> length (fullness_list c) = 2
       \<and> (\<forall>fg. listed fg \<longrightarrow> head_ok i fg m (fullness_list c ! fg_nr fg))" if i: "i < ZS_SIZE_CLASSES" for i
  proof -
    have "sc_locked (size_class_of pool ! i) \<longleftrightarrow> T i \<noteq> None" using Z(1) Z(5) [OF i] by (auto simp: locks_def)
    moreover have "length (fullness_list (size_class_of pool ! i)) = 2"
      using classes_okD(3) [OF zs_atD(3) [OF Z(2)]] Z(5) [OF i] by (auto simp: groups_ok_def)
    ultimately show ?thesis using list_head_ok [OF Z(2,3)] Z(5) [OF i] by (simp add: Let_def class_is_def csize_def corder_def)
  qed
  moreover have "get_size_class_index sz < ZS_SIZE_CLASSES \<and> (let c = size_class_of pool ! get_size_class_index sz in
            sz \<le> sc_size c \<and> sc_size c \<le> PAGE_SIZE \<and> (sc_size c < sz + 16 \<or> sc_size c = 32)
          \<and> zspage_order c \<in> {1..4} \<and> (\<forall>n \<in> {1..4}. usedpc (sc_size c) n \<le> usedpc (sc_size c) (zspage_order c)))"
    if "sz \<in> {1..ZS_MAX_ALLOC_SIZE}" for sz
  proof -
    from that have sz: "0 < sz" "sz \<le> ZS_MAX_ALLOC_SIZE" by simp_all
    note i = class_index_bounds(1) [OF sz]
    show ?thesis unfolding Let_def by (rule conjI [OF i class_fits [OF sz conjunct2 [OF Z(5) [OF i]]]])
  qed
  ultimately show ?thesis using Z(4) by blast
qed

theorem zs_pool_wellformed_witness:
  "\<exists>h pool m. h \<noteq> 0 \<and> zs_reachable (pool, m, {(h, 1)}, Map.empty) \<and> length (size_class_of pool) = ZS_SIZE_CLASSES
    \<and> head_ok 1 ZS_ALMOST_EMPTY m (fullness_list (size_class_of pool ! 1) ! 1)"
proof -
  obtain h pool m where h: "h \<noteq> 0" "zs_reachable (pool, m, {(h, 1)}, Map.empty)" by (rule reachable_one)
  have "(1 :: nat) < ZS_SIZE_CLASSES" by (simp add: zs_consts)
  with zs_pool_wellformed [OF h(2)] show ?thesis using h by (fastforce simp: Let_def listed_def)
qed

text \<open>
  C32: objects never overlap.  However clients have allocated, freed, mapped and written, the handles handed out
  are distinct and not 0, and each names as many bytes as the size of its class, all in pages that
  the pool has taken from the kernel and not given back, no byte belonging to two of them.
\<close>

theorem zs_objects_apart:
  assumes "zs_reachable (pool, m, L, T)" and "(h, i) \<in> L"
  shows "h \<noteq> 0 \<and> (\<exists>c. class_at i pool = Some c \<and> card (object_bytes h (sc_size c) m) = sc_size c
      \<and> object_bytes h (sc_size c) m \<subseteq> zused m \<times> {..<PAGE_SIZE}
      \<and> (\<forall>g j d. (g, j) \<in> L \<and> (g, j) \<noteq> (h, i) \<and> class_at j pool = Some d \<longrightarrow>
           g \<noteq> h \<and> object_bytes g (sc_size d) m \<inter> object_bytes h (sc_size c) m = {}))"
proof -
  obtain Z G where Z: "zs_inv pool m Z" "zlive Z = L" "zs_at pool m Z G"
    "\<And>i. i < ZS_SIZE_CLASSES \<Longrightarrow> class_at i pool = Some (size_class_of pool ! i) \<and> class_is i (size_class_of pool ! i)"
    by (rule reachable_parts [OF assms(1)]) (assumption | rule that)+
  have h: "(h, i) \<in> zlive Z" using assms(2) Z(2) by simp
  note lh = live_handle [OF Z(1) h]
  let ?c = "size_class_of pool ! i"
  have sz: "sc_size d = csize j" if "class_at j pool = Some d" for j d
    using classes_okD(2) [OF zs_atD(3) [OF Z(3)] that] by (simp add: class_is_def)
  have c: "class_at i pool = Some ?c" "sc_size ?c = csize i" using Z(4) [OF lh(1)] sz by blast+
  have "g \<noteq> h \<and> object_bytes g (sc_size d) m \<inter> object_bytes h (csize i) m = {}"
    if "(g, j) \<in> L \<and> (g, j) \<noteq> (h, i) \<and> class_at j pool = Some d" for g j d
  proof -
    have "(g, j) \<in> zlive Z" "g \<noteq> h" using that lh(3) Z(2) by auto
    with live_apart [OF Z(1) this(1) h] sz [of j d] that show ?thesis by simp
  qed
  then have "\<forall>g j d. (g, j) \<in> L \<and> (g, j) \<noteq> (h, i) \<and> class_at j pool = Some d \<longrightarrow>
      g \<noteq> h \<and> object_bytes g (sc_size d) m \<inter> object_bytes h (sc_size ?c) m = {}" unfolding c(2) by blast
  with lh(2) live_bytes [OF Z(1) h] c show ?thesis by (intro conjI exI [of _ ?c]) (simp_all only: not_False_eq_True)
qed

theorem zs_objects_apart_witness:
  "\<exists>h pool m. zs_reachable (pool, m, {(h, 1)}, Map.empty) \<and> card (object_bytes h 48 m) = 48"
proof -
  obtain h pool m where h: "h \<noteq> 0" "zs_reachable (pool, m, {(h, 1)}, Map.empty)" by (rule reachable_one)
  have "(h, 1) \<in> {(h, 1 :: nat)}" by simp
  from zs_objects_apart [OF h(2) this] obtain c where c: "class_at 1 pool = Some c" "card (object_bytes h (sc_size c) m) = sc_size c" by blast
  moreover have "class_is 1 c"
    by (rule reachable_parts [OF h(2)]) (use c(1) in \<open>auto simp: zs_consts\<close>)
  then have "sc_size c = 48" by (simp add: class_is_def csize_def zs_consts)
  ultimately show ?thesis using h(2) by auto
qed

text \<open>
  C33: objects stay put and keep their contents.  A call of \<open>zs_malloc\<close>, \<open>zs_free\<close>, \<open>zs_map_object\<close> or
  \<open>zs_unmap_object\<close>, and a client writing to an object of its own, leave every other object where it is, and what
  is read there as it was, although the free lists are kept inside the free objects of the same pages.
\<close>

theorem zs_step_undisturbed:
  assumes "zs_reachable (pool, m, L, T)" and "zs_step (pool, m, L, T) c (pool', m', L', T')" and "(h, i) \<in> L" and "(h, i) \<in> L'"
  shows "object_bytes h (csize i) m' = object_bytes h (csize i) m
    \<and> (c = Client_write h \<or> (\<forall>b \<in> object_bytes h (csize i) m. zlinks m' b = zlinks m b))"
proof -
  obtain Z where Z: "zs_safe_at (pool, m, L, T) Z" using zs_reachable_safe_at [OF assms(1)] by blast
  have "undisturbed c (pool, m, L, T) (pool', m', L', T')" by (rule zs_step_safe [OF Z assms(2)])
  then have "\<forall>(h, i) \<in> L \<inter> L'. object_bytes h (csize i) m' = object_bytes h (csize i) m
       \<and> (c \<noteq> Client_write h \<longrightarrow> (\<forall>b \<in> object_bytes h (csize i) m. zlinks m' b = zlinks m b))"
    unfolding undisturbed_def by fastforce
  from bspec [OF this, of "(h, i)"] show ?thesis using assms(3,4) by auto
qed

theorem zs_step_undisturbed_witness:
  "\<exists>h pool m pool' m' f. zs_step (pool, m, {(h, 1)}, Map.empty) (Client_write f) (pool', m', {(h, 1)}, Map.empty)
    \<and> object_bytes h (csize 1) m' = object_bytes h (csize 1) m"
proof -
  obtain h pool m where h: "h \<noteq> 0" "zs_reachable (pool, m, {(h, 1)}, Map.empty)" by (rule reachable_one)
  have s: "zs_step (pool, m, {(h, 1)}, Map.empty) (Client_write h)
      (pool, m\<lparr>zlinks := \<lambda>b. if b \<in> object_bytes h (csize 1) m then 0 else zlinks m b\<rparr>, {(h, 1)}, Map.empty)"
    by (rule step_write [where i = 1]) simp_all
  with zs_step_undisturbed [OF h(2) s] show ?thesis by blast
qed

text \<open>
  C34: calls on an object of the pool return.  \<open>zs_free\<close> does unless an object over two pages of its class is
  mapped, and gives at most one page back to the kernel; \<open>zs_map_object\<close> does unless it is itself such an object
  and the class has one mapped, and the address it returns shows exactly the bytes of
  the object, in the page or through the two entries of the VM area; \<open>zs_unmap_object\<close> always does.
\<close>

theorem zs_calls_return:
  assumes "zs_reachable (pool, m, L, T)" and "(h, i) \<in> L"
  shows "((\<exists>pool' m'. zs_free h (pool, m) = Some (pool', m') \<and> zused m' \<subseteq> zused m \<and> card (zused m - zused m') \<le> 1) \<longleftrightarrow> T i = None)
    \<and> (zs_map_object h (pool, m) = None \<longleftrightarrow> spans h i m \<and> T i \<noteq> None)
    \<and> (\<forall>addr pool'. zs_map_object h (pool, m) = Some (addr, pool') \<longrightarrow>
         vm_bytes addr (sc_ptes (size_class_of pool' ! i)) (csize i) = object_bytes h (csize i) m)
    \<and> (\<exists>pool'. zs_unmap_object h (pool, m) = Some pool')"
proof -
  obtain Z G where Z: "zs_inv pool m Z" "zlive Z = L" "locks pool (dom T)"
    by (rule reachable_parts [OF assms(1)]) (assumption | rule that)+
  have h: "(h, i) \<in> zlive Z" using assms(2) Z(2) by simp
  have "\<exists>pool' m'. zs_free h (pool, m) = Some (pool', m') \<and> zused m' \<subseteq> zused m \<and> card (zused m - zused m') \<le> 1" if "T i = None"
  proof -
    have "i \<notin> dom T" using that by auto
    then obtain pool' m' p where f: "zs_free h (pool, m) = Some (pool', m')" "zused m' \<subseteq> zused m" "zused m' = zused m \<or> zused m' = zused m - {p}"
      using zs_free_ok [OF Z(1,3) h] by metis
    have "card (zused m - zused m') \<le> card {p}" using f(3) by (intro card_mono) auto
    with f show ?thesis by auto
  qed
  moreover have "T i = None" if "zs_free h (pool, m) = Some (pool', m')" for pool' m' using free_returns [OF Z(1,3) h that] by auto
  moreover have "(zs_map_object h (pool, m) = None \<longleftrightarrow> spans h i m \<and> T i \<noteq> None)
    \<and> (\<forall>addr pool'. zs_map_object h (pool, m) = Some (addr, pool') \<longrightarrow>
         vm_bytes addr (sc_ptes (size_class_of pool' ! i)) (csize i) = object_bytes h (csize i) m)"
    using Z(1,3) h
  proof (cases rule: zs_map_ok)
    case (two c pool')
    then have "size_class_of pool' ! i = c" by (simp add: class_at_def split: if_splits)
    with two show ?thesis by auto
  qed auto
  moreover have "\<exists>pool'. zs_unmap_object h (pool, m) = Some pool'" by (rule zs_unmap_ok [OF Z(1,3) h]) blast
  ultimately show ?thesis by blast
qed

theorem zs_calls_return_witness:
  "\<exists>h pool m addr pool' pool'' m''. h \<noteq> 0 \<and> zs_reachable (pool, m, {(h, 1)}, Map.empty)
    \<and> zs_map_object h (pool, m) = Some (addr, pool') \<and> zs_free h (pool, m) = Some (pool'', m'')"
proof -
  obtain h pool m where h: "h \<noteq> 0" "zs_reachable (pool, m, {(h, 1)}, Map.empty)" by (rule reachable_one)
  have "(h, 1) \<in> {(h, 1 :: nat)}" by simp
  from zs_calls_return [OF h(2) this]
  obtain pool' m' where "zs_free h (pool, m) = Some (pool', m')" "zs_map_object h (pool, m) \<noteq> None" by auto
  moreover from this(2) obtain addr pool'' where "zs_map_object h (pool, m) = Some (addr, pool'')" by auto
  ultimately show ?thesis using h by blast
qed

text \<open>
  C35: what \<open>zs_malloc\<close> returns.  In a pool in use whose class is not locked, a call for up to a page either
  hands out a new object, keeping all pages; or fails with 0, which happens only when the kernel has
  no page, and changes nothing; or does not return: it runs into the \<open>BUG_ON\<close> of
  \<open>set_zspage_mapping\<close>, and only when the kernel gave the first pages of a new zspage and refused a later one.
\<close>

theorem zs_malloc_result:
  assumes "zs_reachable (pool, m, L, T)" and "fresh_src src" and "0 < sz" and "sz \<le> ZS_MAX_ALLOC_SIZE"
    and "T (get_size_class_index sz) = None" and "n = zspage_order (size_class_of pool ! get_size_class_index sz)"
  shows "case zs_malloc src sz (pool, m) of
      None \<Rightarrow> (\<exists>first m1. alloc_pages_from src n n 0 0 0 m = (False, first, m1) \<and> first \<noteq> 0)
    | Some (h, pool', m') \<Rightarrow>
        if h = 0 then pool' = pool \<and> m' = m \<and> src m = None else zused m \<subseteq> zused m' \<and> (\<forall>i. (h, i) \<notin> L)"
proof -
  let ?i = "get_size_class_index sz"
  obtain Z G where Z: "zs_inv pool m Z" "zlive Z = L" "locks pool (dom T)"
    "\<And>i. i < ZS_SIZE_CLASSES \<Longrightarrow> class_at i pool = Some (size_class_of pool ! i) \<and> class_is i (size_class_of pool ! i)"
    by (rule reachable_parts [OF assms(1)]) (assumption | rule that)+
  have i: "?i \<notin> dom T" using assms(5) by auto
  have n: "n = corder ?i" using Z(4) class_index_bounds(1) [OF assms(3,4)] assms(6) by (simp add: class_is_def)
  show ?thesis
  proof (cases rule: zs_malloc_ok [OF Z(1,3) assms(2-4) refl i])
    case (1 h pool' m' Z')
    then show ?thesis using Z(2) by simp
  next
    case 2
    then show ?thesis by simp
  next
    case (3 m1 first)
    then show ?thesis using n by simp
  qed
qed

theorem zs_malloc_result_witness:
  "\<exists>h pool m. zs_reachable (pool, m, {(h, 1)}, Map.empty) \<and>
    (case zs_malloc (first_free [1, 2, 3, 4]) 4096 (pool, m) of
       None \<Rightarrow> \<exists>first m1. alloc_pages_from (first_free [1, 2, 3, 4]) 1 1 0 0 0 m = (False, first, m1) \<and> first \<noteq> 0
     | Some (h', pool', m') \<Rightarrow>
         if h' = 0 then pool' = pool \<and> m' = m \<and> first_free [1, 2, 3, 4] m = None else zused m \<subseteq> zused m' \<and> (\<forall>i. (h', i) \<notin> {(h, 1 :: nat)}))"
proof -
  obtain h pool m where h: "h \<noteq> 0" "zs_reachable (pool, m, {(h, 1)}, Map.empty)" by (rule reachable_one)
  have sz: "0 < (4096 :: nat)" "4096 \<le> ZS_MAX_ALLOC_SIZE" by (simp_all add: ZS_MAX_ALLOC_SIZE_def PAGE_SIZE_def)
  have i: "get_size_class_index 4096 = 254" by (simp add: get_size_class_index_def zs_consts DIV_ROUND_UP_def)
  have "class_is 254 (size_class_of pool ! 254)" by (rule reachable_parts [OF h(2)]) (auto simp: zs_consts)
  then have n: "1 = zspage_order (size_class_of pool ! get_size_class_index 4096)"
    by (simp add: i class_is_def corder_def csize_def get_zspage_order_def usedpc_def zs_consts upt_rec)
  have "Map.empty (get_size_class_index 4096) = (None :: handle option)" by simp
  from zs_malloc_result [OF h(2) fresh_1234 sz this n] h(2) show ?thesis by (intro exI conjI)
qed

text \<open>
  \<open>zs_create_pool\<close> either makes a pool with a VM area for each of its classes, which
  \<open>zs_destroy_pool\<close> returns, or fails and leaves no VM area behind, at whatever class it fails.
\<close>

theorem zs_create_pool_all_or_nothing:
  "case zs_create_pool name kzalloc_ok vm_ok {} of
     (None, vms) \<Rightarrow> vms = {}
   | (Some pool, vms) \<Rightarrow> vms = {0..<ZS_SIZE_CLASSES} \<and> zs_destroy_pool pool vms = {}"
proof (cases "name = None \<or> \<not> kzalloc_ok")
  case True
  then show ?thesis by (auto simp: zs_create_pool_def)
next
  case False
  let ?pool = "\<lparr>size_class_of = replicate ZS_SIZE_CLASSES zeroed_class\<rparr>"
  obtain b pool vms where run: "create_classes vm_ok ZS_SIZE_CLASSES 0 ?pool {} = (b, pool, vms)" by (metis prod_cases3)
  have "\<forall>k<length (size_class_of ?pool). sc_vm (size_class_of ?pool ! k) \<longleftrightarrow> k \<in> {}" by (simp add: zeroed_class_def)
  from create_classes_vms [OF run _ _ this]
  have vms: "length (size_class_of pool) = ZS_SIZE_CLASSES" "\<forall>k<ZS_SIZE_CLASSES. sc_vm (size_class_of pool ! k) \<longleftrightarrow> k \<in> vms"
    "vms \<subseteq> {0..<ZS_SIZE_CLASSES}" "b \<longrightarrow> vms = {0..<ZS_SIZE_CLASSES}" by auto
  have "zs_destroy_pool pool vms = {}"
    unfolding zs_destroy_pool_def destroy_classes_set using vms(1-3) by auto
  with False run vms(4) show ?thesis by (cases b) (simp_all add: zs_create_pool_def)
qed

text \<open>
  A zspage that \<open>alloc_zspage\<close> returns is a chain of the pages the class asks for, taken from
  the free ones, with no object in use.  Its free list starts at the first object and visits the
  objects in the order of their addresses, which follow each other without a gap, and the
  \<open>objects\<close> of the zspage are those that fit: as many as the pages have room for.
\<close>

theorem alloc_zspage_layout:
  assumes "fresh_src src" and "class_ok c"
    and "alloc_pages_from src (zspage_order c) (zspage_order c) 0 0 0 m = (True, first, m1)"
  shows "\<exists>ps m' K. alloc_zspage src c m = Some (hd ps, m')
    \<and> length ps = zspage_order c \<and> distinct ps \<and> set ps \<inter> zused m = {} \<and> zused m' = zused m \<union> set ps
    \<and> zchain (hd ps) ps m' \<and> zp_inuse (zpages m' (hd ps)) = 0
    \<and> zp_freelist (zpages m' (hd ps)) = hnd (hd ps) 0 \<and> linked m' (zs_objs (sc_size c) 0 0 ps) 0
    \<and> map obj_addr (zs_objs (sc_size c) 0 0 ps) = map (\<lambda>k. k * sc_size c) [0..<K]
    \<and> unat (zp_objects (zpages m' (hd ps))) \<le> K
    \<and> unat (zp_objects (zpages m' (hd ps))) * sc_size c \<le> length ps * PAGE_SIZE
    \<and> length ps * PAGE_SIZE < (unat (zp_objects (zpages m' (hd ps))) + 1) * sc_size c"
proof -
  obtain ps m' where m': "alloc_zspage src c m = Some (hd ps, m')" "new_zspage c ps m'" "set ps \<inter> zused m = {}"
    "zused m' = zused m \<union> set ps"
    using alloc_zspage_ok [OF assms] by metis
  have c: "0 < sc_size c" "sc_size c \<le> PAGE_SIZE" "zspage_order c = get_zspage_order (sc_size c)"
    using assms(2) by (simp_all add: class_ok_def)
  have len: "length ps = zspage_order c" and obj: "unat (zp_objects (zpages m' (hd ps))) = zspage_order c * PAGE_SIZE div sc_size c"
    using m'(2) by (simp_all add: new_zspage_def)
  have "\<not> sc_size c dvd i * PAGE_SIZE" if "0 < i" "i < 0 + length ps" for i
    using that order_no_tiling [of i "sc_size c"] len c(3) by simp
  with objs_contiguous [OF c(1,2), of 0 0 0 ps] obtain K where K:
    "map obj_addr (zs_objs (sc_size c) 0 0 ps) = map (\<lambda>k. k * sc_size c) [0..<K]"
    "ps \<noteq> [] \<longrightarrow> length ps * PAGE_SIZE \<le> K * sc_size c" by (auto simp: PAGE_SIZE_def)
  have "ps \<noteq> []" using len c(3) order_bounds(1) [of "sc_size c"] by auto
  then have "zspage_order c * PAGE_SIZE div sc_size c \<le> K * sc_size c div sc_size c"
    using K(2) len by (intro div_le_mono) simp
  then have fit: "unat (zp_objects (zpages m' (hd ps))) \<le> K"
    "unat (zp_objects (zpages m' (hd ps))) * sc_size c \<le> length ps * PAGE_SIZE"
    "length ps * PAGE_SIZE < (unat (zp_objects (zpages m' (hd ps))) + 1) * sc_size c"
    using c(1) unfolding obj len by (simp_all add: dividend_less_div_times)
  have parts: "length ps = zspage_order c" "distinct ps" "zchain (hd ps) ps m'" "zp_inuse (zpages m' (hd ps)) = 0"
    "zp_freelist (zpages m' (hd ps)) = hnd (hd ps) 0" "linked m' (zs_objs (sc_size c) 0 0 ps) 0"
    using m'(2) by (simp_all add: new_zspage_def)
  show ?thesis
    by (intro exI [of _ ps] exI [of _ m'] exI [of _ K] conjI) (fact m'(1,3,4) parts K(1) fit)+
qed

theorem alloc_zspage_layout_witness:
  "\<exists>ps m' K. alloc_zspage (first_free [1, 2, 3, 4]) (new_class 1) no_pages = Some (hd ps, m')
    \<and> length ps = 3 \<and> map obj_addr (zs_objs 48 0 0 ps) = map (\<lambda>k. k * 48) [0..<K]"
proof -
  obtain m1 where "alloc_pages_from (first_free [1, 2, 3, 4]) (zspage_order (new_class 1)) (zspage_order (new_class 1)) 0 0 0 no_pages = (True, 1, m1)"
    using pages_48 unfolding class_48(2) by blast
  from alloc_zspage_layout [OF fresh_1234 class_48(1) this] show ?thesis unfolding class_48(2,3) by blast
qed

text \<open>
  C36: freeing does not return what allocating took.  In a new pool an object is allocated
  and freed, and the pool is exactly what it was before, its \<open>pages_allocated\<close> included, so that
  \<open>zs_get_total_size_bytes\<close> reports nothing in use; but of the pages of the object's zspage only the
  first has gone back to the kernel: the loop of \<open>free_zspage\<close> over the others ends before its
  first iteration, since the head it compares with is the loop's own variable.
\<close>

theorem zs_free_leaks_pages:
  assumes "zs_create_pool (Some nm) True (\<lambda>_. True) {} = (Some pool, vms)" and "0 < sz" and "sz \<le> ZS_MAX_ALLOC_SIZE"
    and "fresh_src src" and "n = zspage_order (size_class_of pool ! get_size_class_index sz)"
    and "alloc_pages_from src n n 0 0 0 m = (True, first, m1)"
  shows "\<exists>h pool' m' m''. zs_malloc src sz (pool, m) = Some (h, pool', m') \<and> h \<noteq> 0
    \<and> zs_free h (pool', m') = Some (pool, m'') \<and> zused m \<subseteq> zused m'' \<and> card (zused m'' - zused m) = n - 1"
proof -
  let ?i = "get_size_class_index sz"
  have pool: "pool = zs_pool_of" using assms(1) by (simp add: create_pool_ok)
  have i: "?i < ZS_SIZE_CLASSES" using class_index_bounds(1) [OF assms(2,3)] .
  then have ci: "?i < 2 ^ CLASS_IDX_BITS" by (simp add: zs_consts CLASS_IDX_BITS_def)
  have at: "class_at ?i pool = Some (new_class ?i)" and n: "n = zspage_order (new_class ?i)"
    using class_at_new [OF i] assms(5) i unfolding pool by (simp_all add: zs_pool_of_def)
  show ?thesis
    using zs_cycle [OF assms(2,3) refl ci at new_class_ok(1,3,4,5) [OF i] assms(4)] assms(6) unfolding n by blast
qed

theorem zs_free_leaks_pages_witness:
  "\<exists>h pool pool' m' m''. zs_malloc (first_free [1, 2, 3, 4]) 40 (pool, no_pages) = Some (h, pool', m')
    \<and> zs_free h (pool', m') = Some (pool, m'') \<and> card (zused m'') = 2"
proof -
  have i: "get_size_class_index 40 = 1" by (simp add: get_size_class_index_def zs_consts DIV_ROUND_UP_def)
  have n: "3 = zspage_order (size_class_of zs_pool_of ! get_size_class_index 40)"
    by (simp add: i zs_pool_of_def class_48 [unfolded One_nat_def] zs_consts)
  obtain m1 where "alloc_pages_from (first_free [1, 2, 3, 4]) 3 3 0 0 0 no_pages = (True, 1, m1)" using pages_48 by blast
  from zs_free_leaks_pages [OF create_pool_ok _ _ fresh_1234 n this]
  show ?thesis by (fastforce simp: no_pages_def ZS_MAX_ALLOC_SIZE_def PAGE_SIZE_def)
qed

text \<open>
  With a new pool: when the kernel has no page left for a new zspage, \<open>zs_malloc\<close> fails as documented, with 0
  and the pool unchanged, only if it has not got a single page.  With the first page
  taken and a later one refused, \<open>alloc_zspage\<close> frees the page and returns it nonetheless, and the next call, of
  \<open>set_zspage_mapping\<close> on a page that is no first page any more, is a \<open>BUG_ON\<close>.
\<close>

theorem zs_malloc_failure:
  assumes "zs_create_pool (Some nm) True (\<lambda>_. True) {} = (Some pool, vms)" and "0 < sz" and "sz \<le> ZS_MAX_ALLOC_SIZE"
    and "fresh_src src" and "n = zspage_order (size_class_of pool ! get_size_class_index sz)"
    and "alloc_pages_from src n n 0 0 0 m = (False, first, m1)"
  shows "zs_malloc src sz (pool, m) = (if first = 0 then Some (0, pool, m1) else None)"
proof -
  let ?i = "get_size_class_index sz"
  have pool: "pool = zs_pool_of" using assms(1) by (simp add: create_pool_ok)
  have i: "?i < ZS_SIZE_CLASSES" using class_index_bounds(1) [OF assms(2,3)] .
  have at: "class_at ?i pool = Some (new_class ?i)" and n: "n = zspage_order (new_class ?i)"
    using class_at_new [OF i] assms(5) i unfolding pool by (simp_all add: zs_pool_of_def)
  show ?thesis
    using zs_malloc_out_of_pages [OF assms(2,3) refl at new_class_ok(1,3,4) [OF i] _ assms(4)] assms(6) new_class_ok(5) [OF i]
    unfolding n by (simp add: find_get_zspage_def)
qed

theorem zs_malloc_failure_witness:
  "zs_malloc (first_free []) 40 (zs_pool_of, no_pages) = Some (0, zs_pool_of, no_pages)
    \<and> zs_malloc (first_free [1, 2]) 40 (zs_pool_of, no_pages) = None"
proof -
  have i: "get_size_class_index 40 = 1" by (simp add: get_size_class_index_def zs_consts DIV_ROUND_UP_def)
  have n: "3 = zspage_order (size_class_of zs_pool_of ! get_size_class_index 40)"
    by (simp add: i zs_pool_of_def class_48 [unfolded One_nat_def] zs_consts)
  have sz: "0 < (40 :: nat)" "40 \<le> ZS_MAX_ALLOC_SIZE" by (simp_all add: ZS_MAX_ALLOC_SIZE_def PAGE_SIZE_def)
  have "alloc_pages_from (first_free []) 3 3 0 0 0 no_pages = (False, 0, no_pages)" by (simp add: numeral_3_eq_3)
  from zs_malloc_failure [OF create_pool_ok sz first_free_fresh n this]
  have "zs_malloc (first_free []) 40 (zs_pool_of, no_pages) = Some (0, zs_pool_of, no_pages)" by simp
  moreover have "\<exists>m1. alloc_pages_from (first_free [1, 2]) 3 3 0 0 0 no_pages = (False, 1, m1)"
    by (simp add: numeral_3_eq_3 Let_def zused_simps no_pages_def)
  then obtain m1 where "alloc_pages_from (first_free [1, 2]) 3 3 0 0 0 no_pages = (False, 1, m1)" by blast
  moreover have "fresh_src (first_free [1, 2])" by (rule first_free_fresh) (simp add: pfn_bits)
  ultimately show ?thesis
    using zs_malloc_failure [OF create_pool_ok sz _ n] by simp
qed

end
