(* ===== verification/Scale_Drv.thy ===== *)
theory Scale_Drv
  imports Zram_Module
begin

text \<open>
  The scalable variant of the driver (zram\_scale/zram\_drv.c, zram\_drv.h): a table of bare
  addresses, per-CPU statistics and compression buffers, no table lock.  As for the first
  driver a result \<open>None\<close> is an access through \<open>NULL\<close> or outside the table, an overrun of the
  compression buffer, or a \<open>BUG_ON\<close>; a request runs on one CPU and is not interrupted.  On a
  64-bit machine the sequence counters of u64\_stats\_sync.h are empty.
\<close>

section \<open>Data structures\<close>

datatype zram_stats_index =
    ZRAM_STAT_COMPR_SIZE | ZRAM_STAT_NUM_READS | ZRAM_STAT_NUM_WRITES | ZRAM_STAT_INVALID_IO
  | ZRAM_STAT_NOTIFY_FREE | ZRAM_STAT_DISCARD | ZRAM_STAT_PAGES_ZERO | ZRAM_STAT_PAGES_STORED
  | ZRAM_STAT_PAGES_EXPAND

type_synonym s64 = "64 word"
type_synonym cpu = nat

text \<open>The counters of one CPU.\<close>

type_synonym zram_stats_cpu = "zram_stats_index \<Rightarrow> s64"

record scale_zram =
  s_mem_pool :: "xv_pool option"
  s_table :: "u64 list option"
  s_init_done :: bool
  s_disksize :: u64
  s_stats :: "(cpu \<Rightarrow> zram_stats_cpu) option"
  s_capacity :: u64
  s_nonrot :: bool

text \<open>
  The per-CPU variables \<open>compress_buffer\<close> and \<open>compress_workmem\<close>, with the number of buffers, work
  areas and statistics areas that are allocated.
\<close>

record percpu =
  cpu_buffer :: "cpu \<Rightarrow> bytes option"
  cpu_workmem :: "cpu \<Rightarrow> (nat \<Rightarrow> int) option"
  live_buffers :: nat
  live_workmems :: nat
  live_stats :: nat

type_synonym scale_state = "scale_zram \<times> percpu \<times> kmem"

text \<open>What the kernel decides for a request, and the CPU it runs on.\<close>

record scale_env =
  sv_alloc_page :: page_source
  sv_kmap :: "page \<Rightarrow> int"
  sv_totalram_pages :: u64
  sv_table_ok :: bool
  sv_stats_ok :: bool
  sv_pool_ok :: bool
  this_cpu :: cpu

section \<open>Constants\<close>

definition scale_max_num_devices :: nat where "scale_max_num_devices = 32"
definition scale_default_perc :: u64 where "scale_default_perc = 25"
definition scale_max_zpage_size :: nat where "scale_max_zpage_size = PAGE_SIZE div 8 * 7"
definition scale_SECTOR_SHIFT :: nat where "scale_SECTOR_SHIFT = 9"
definition scale_SECTORS_PER_PAGE_SHIFT :: nat where
  "scale_SECTORS_PER_PAGE_SHIFT = PAGE_SHIFT - scale_SECTOR_SHIFT"
definition scale_SECTORS_PER_PAGE :: u64 where
  "scale_SECTORS_PER_PAGE = push_bit scale_SECTORS_PER_PAGE_SHIFT 1"
definition ZRAM_ZERO_PAGE_MARK_BIT :: u64 where "ZRAM_ZERO_PAGE_MARK_BIT = push_bit 0 1"

lemmas scale_consts = scale_max_num_devices_def scale_default_perc_def scale_max_zpage_size_def
  scale_SECTOR_SHIFT_def scale_SECTORS_PER_PAGE_SHIFT_def scale_SECTORS_PER_PAGE_def kernel_consts

section \<open>Statistics\<close>

definition zram_add_stat ::
  "cpu \<Rightarrow> zram_stats_index \<Rightarrow> s64 \<Rightarrow> scale_zram \<Rightarrow> scale_zram option" where
  "zram_add_stat cpu idx val z = do {
     stats \<leftarrow> s_stats z;
     Some (z\<lparr>s_stats := Some (stats(cpu := (stats cpu)(idx := stats cpu idx + val)))\<rparr>) }"

definition zram_inc_stat :: "cpu \<Rightarrow> zram_stats_index \<Rightarrow> scale_zram \<Rightarrow> scale_zram option" where
  "zram_inc_stat cpu idx = zram_add_stat cpu idx 1"

definition zram_dec_stat :: "cpu \<Rightarrow> zram_stats_index \<Rightarrow> scale_zram \<Rightarrow> scale_zram option" where
  "zram_dec_stat cpu idx = zram_add_stat cpu idx (- 1)"

section \<open>The table\<close>

definition addr_at :: "scale_zram \<Rightarrow> nat \<Rightarrow> u64 option" where
  "addr_at z index =
     (case s_table z of None \<Rightarrow> None | Some t \<Rightarrow> if index < length t then Some (t ! index) else None)"

definition set_addr :: "nat \<Rightarrow> u64 \<Rightarrow> scale_zram \<Rightarrow> scale_zram option" where
  "set_addr index a z =
     (case s_table z of None \<Rightarrow> None
      | Some t \<Rightarrow> if index < length t then Some (z\<lparr>s_table := Some (t[index := a])\<rparr>) else None)"

function scale_zero_from :: "bytes \<Rightarrow> nat \<Rightarrow> bool" where
  "scale_zero_from bs pos =
     (if pos \<ge> PAGE_SIZE div 8 then True
      else if long_at bs pos \<noteq> 0 then False else scale_zero_from bs (Suc pos))"
  by pat_completeness auto
termination
  by (relation "measure (\<lambda>(bs, pos). PAGE_SIZE div 8 - pos)") auto

declare scale_zero_from.simps [simp del]

definition scale_page_zero_filled :: "bytes \<Rightarrow> bool" where
  "scale_page_zero_filled bs = scale_zero_from bs 0"

definition zram_is_zero_page :: "scale_zram \<Rightarrow> nat \<Rightarrow> bool option" where
  "zram_is_zero_page z index = do { addr \<leftarrow> addr_at z index; Some (addr AND ZRAM_ZERO_PAGE_MARK_BIT \<noteq> 0) }"

definition zram_set_zero_page :: "nat \<Rightarrow> scale_zram \<Rightarrow> scale_zram option" where
  "zram_set_zero_page index z = do { addr \<leftarrow> addr_at z index; set_addr index (addr OR ZRAM_ZERO_PAGE_MARK_BIT) z }"

definition zram_clear_zero_page :: "nat \<Rightarrow> scale_zram \<Rightarrow> scale_zram option" where
  "zram_clear_zero_page index z = do { addr \<leftarrow> addr_at z index; set_addr index (addr AND NOT ZRAM_ZERO_PAGE_MARK_BIT) z }"

text \<open>The page 0 is \<open>NULL\<close>.\<close>

definition decode_addr :: "u64 \<Rightarrow> page \<times> nat" where
  "decode_addr addr = (if addr = 0 then (0, 0) else (unat (drop_bit PAGE_SHIFT addr), unat (addr AND NOT PAGE_MASK)))"

definition zram_find_obj :: "scale_zram \<Rightarrow> nat \<Rightarrow> (page \<times> nat) option" where
  "zram_find_obj z index = do { addr \<leftarrow> addr_at z index; Some (decode_addr addr) }"

definition zram_insert_obj :: "nat \<Rightarrow> page \<times> nat \<Rightarrow> scale_zram \<Rightarrow> scale_zram option" where
  "zram_insert_obj index = (\<lambda>(p, offset) z.
     let addr = push_bit PAGE_SHIFT (word_of_nat p); addr = addr OR (word_of_nat offset AND NOT PAGE_MASK)
     in set_addr index addr z)"

definition zram_default_disksize :: "scale_env \<Rightarrow> u64" where
  "zram_default_disksize env =
     (let disksize = scale_default_perc * (sv_totalram_pages env div 100)
      in push_bit PAGE_SHIFT disksize AND PAGE_MASK)"

section \<open>Freeing a page\<close>

definition scale_free_out :: "cpu \<Rightarrow> nat \<Rightarrow> nat \<Rightarrow> scale_zram \<Rightarrow> scale_zram option" where
  "scale_free_out cpu index zlen z = do {
     z \<leftarrow> zram_add_stat cpu ZRAM_STAT_COMPR_SIZE (- word_of_nat zlen) z;
     z \<leftarrow> zram_dec_stat cpu ZRAM_STAT_PAGES_STORED z;
     set_addr index 0 z }"

definition scale_free_page :: "cpu \<Rightarrow> nat \<Rightarrow> scale_state \<Rightarrow> scale_state option" where
  "scale_free_page cpu index = (\<lambda>(z, pc, m). do {
     zero \<leftarrow> zram_is_zero_page z index;
     if zero
     then do {
       z \<leftarrow> zram_clear_zero_page index z;
       z \<leftarrow> zram_dec_stat cpu ZRAM_STAT_PAGES_ZERO z;
       Some (z, pc, m) }
     else do {
       (page, offset) \<leftarrow> zram_find_obj z index;
       if page = 0 then Some (z, pc, m)
       else if offset = 0
       then do {
         let m = free_page page m;
         z \<leftarrow> zram_dec_stat cpu ZRAM_STAT_PAGES_EXPAND z;
         z \<leftarrow> scale_free_out cpu index PAGE_SIZE z;
         Some (z, pc, m) }
       else do {
         let zlen = xv_get_object_size m (page, offset);
         pool \<leftarrow> s_mem_pool z;
         (pool, m) \<leftarrow> xv_free (page, offset) (pool, m);
         let z = z\<lparr>s_mem_pool := Some pool\<rparr>;
         z \<leftarrow> scale_free_out cpu index zlen z;
         Some (z, pc, m) } } })"

section \<open>Reading\<close>

definition scale_handle_zero_page :: "page \<Rightarrow> kmem \<Rightarrow> kmem" where
  "scale_handle_zero_page p m = mem_write m p 0 (replicate PAGE_SIZE 0)"

definition scale_handle_uncompressed_page :: "page \<Rightarrow> nat \<Rightarrow> scale_zram \<Rightarrow> kmem \<Rightarrow> kmem option" where
  "scale_handle_uncompressed_page p index z m = do {
     (zpage, zoffset) \<leftarrow> zram_find_obj z index;
     if zoffset \<noteq> 0 then None else Some (mem_write m p 0 (mem_read m zpage 0 PAGE_SIZE)) }"

text \<open>
  How an iteration over the segments ends: \<open>Next_Index\<close> after \<open>index++\<close>, \<open>Same_Index\<close> at a
  \<open>continue\<close> before it, \<open>Stop\<close> with \<open>goto out\<close>.
\<close>

datatype iteration = Next_Index | Same_Index | Stop

fun scale_segments ::
  "(page \<Rightarrow> nat \<Rightarrow> scale_state \<Rightarrow> (iteration \<times> scale_state) option) \<Rightarrow> page list \<Rightarrow> nat \<Rightarrow> scale_state
     \<Rightarrow> (bool \<times> scale_state) option" where
  "scale_segments f [] index s = Some (True, s)"
| "scale_segments f (p # ps) index s = do {
     (it, s) \<leftarrow> f p index s;
     case it of Next_Index \<Rightarrow> scale_segments f ps (trunc32 (index + 1)) s
       | Same_Index \<Rightarrow> scale_segments f ps index s
       | Stop \<Rightarrow> Some (False, s) }"

definition scale_first_index :: "bio \<Rightarrow> nat" where
  "scale_first_index b = trunc32 (unat (drop_bit scale_SECTORS_PER_PAGE_SHIFT (bi_sector b)))"

definition scale_read_page :: "page \<Rightarrow> nat \<Rightarrow> scale_state \<Rightarrow> (iteration \<times> scale_state) option" where
  "scale_read_page p index = (\<lambda>(z, pc, m). do {
     zero \<leftarrow> zram_is_zero_page z index;
     if zero then Some (Same_Index, z, pc, scale_handle_zero_page p m)
     else do {
       (zpage, zoffset) \<leftarrow> zram_find_obj z index;
       if zpage = 0 then Some (Same_Index, z, pc, m)
       else if zoffset = 0
       then do { m \<leftarrow> scale_handle_uncompressed_page p index z m; Some (Same_Index, z, pc, m) }
       else do {
         (ret, out) \<leftarrow> lzo1x_decompress_safe
           (mem_read m zpage zoffset (xv_get_object_size m (zpage, zoffset))) PAGE_SIZE;
         let m = mem_write m p 0 out;
         if ret \<noteq> LZO_E_OK then Some (Stop, z, pc, m) else Some (Next_Index, z, pc, m) } } })"

definition scale_read :: "cpu \<Rightarrow> bio \<Rightarrow> scale_state \<Rightarrow> (int \<times> bio \<times> scale_state) option" where
  "scale_read cpu b = (\<lambda>(z, pc, m).
     if \<not> s_init_done z then Some (0, bio_endio 0 (set_uptodate b), z, pc, m)
     else do {
       z \<leftarrow> zram_inc_stat cpu ZRAM_STAT_NUM_READS z;
       (ok, s) \<leftarrow> scale_segments scale_read_page (bi_io_vec b) (scale_first_index b) (z, pc, m);
       Some (0, (if ok then bio_endio 0 (set_uptodate b) else bio_io_error b), s) })"

section \<open>Reset and initialisation\<close>

fun scale_reset_pages :: "cpu \<Rightarrow> nat \<Rightarrow> nat \<Rightarrow> scale_state \<Rightarrow> scale_state option" where
  "scale_reset_pages cpu 0 index s = Some s"
| "scale_reset_pages cpu (Suc n) index s = do {
     s \<leftarrow> scale_free_page cpu index s;
     scale_reset_pages cpu n (Suc index) s }"

definition scale_num_pages :: "scale_zram \<Rightarrow> nat" where
  "scale_num_pages z = unat (drop_bit PAGE_SHIFT (s_disksize z))"

text \<open>The \<open>memset\<close> of \<open>zram->stats\<close> clears the pointer; the area stays allocated.\<close>

definition scale_reset_device :: "scale_env \<Rightarrow> scale_state \<Rightarrow> scale_state option" where
  "scale_reset_device env = (\<lambda>(z, pc, m). do {
     let z = z\<lparr>s_init_done := False\<rparr>;
     (z, pc, m) \<leftarrow> scale_reset_pages (this_cpu env) (scale_num_pages z) 0 (z, pc, m);
     let z = z\<lparr>s_table := None\<rparr>;
     let z = z\<lparr>s_mem_pool := None\<rparr>;
     let z = z\<lparr>s_stats := None\<rparr>;
     Some (z\<lparr>s_disksize := zram_default_disksize env\<rparr>, pc, m) })"

definition scale_init_fail :: "scale_env \<Rightarrow> int \<Rightarrow> scale_state \<Rightarrow> (int \<times> scale_state) option" where
  "scale_init_fail env ret s = do { s \<leftarrow> scale_reset_device env s; Some (ret, s) }"

definition scale_init_device :: "scale_env \<Rightarrow> scale_state \<Rightarrow> (int \<times> scale_state) option" where
  "scale_init_device env = (\<lambda>(z, pc, m).
     if s_init_done z then Some (0, z, pc, m)
     else
       let z = (if s_disksize z = 0 then z\<lparr>s_disksize := zram_default_disksize env\<rparr> else z);
           num_pages = scale_num_pages z;
           z = z\<lparr>s_table := (if sv_table_ok env then Some (replicate num_pages 0) else None)\<rparr>
       in if s_table z = None then scale_init_fail env (- ENOMEM) (z\<lparr>s_disksize := 0\<rparr>, pc, m)
       else
       let z = z\<lparr>s_capacity := drop_bit scale_SECTOR_SHIFT (s_disksize z), s_nonrot := True\<rparr>;
           z = z\<lparr>s_stats := (if sv_stats_ok env then Some (\<lambda>_ _. 0) else None)\<rparr>
       in if s_stats z = None then scale_init_fail env (- ENOMEM) (z, pc, m)
       else
       let pc = pc\<lparr>live_stats := live_stats pc + 1\<rparr>;
           z = z\<lparr>s_mem_pool := xv_create_pool (sv_pool_ok env)\<rparr>
       in if s_mem_pool z = None then scale_init_fail env (- ENOMEM) (z, pc, m)
       else Some (0, z\<lparr>s_init_done := True\<rparr>, pc, m))"

section \<open>Writing\<close>

text \<open>From label \<open>memstore\<close> on.\<close>

definition scale_memstore ::
  "cpu \<Rightarrow> nat \<Rightarrow> page \<times> nat \<Rightarrow> bytes \<Rightarrow> scale_state \<Rightarrow> (iteration \<times> scale_state) option" where
  "scale_memstore cpu index = (\<lambda>(zpage, zoffset) src (z, pc, m). do {
     let m = mem_write m zpage zoffset src;
     z \<leftarrow> zram_add_stat cpu ZRAM_STAT_COMPR_SIZE (word_of_nat (length src)) z;
     z \<leftarrow> zram_inc_stat cpu ZRAM_STAT_PAGES_STORED z;
     z \<leftarrow> zram_insert_obj index (zpage, zoffset) z;
     Some (Next_Index, z, pc, m) })"

text \<open>
  An incompressible page: \<open>src\<close> is mapped from the new page \<open>zpage\<close>, which is then copied onto
  itself.
\<close>

definition scale_store_uncompressed ::
  "scale_env \<Rightarrow> nat \<Rightarrow> scale_state \<Rightarrow> (iteration \<times> scale_state) option" where
  "scale_store_uncompressed env index = (\<lambda>(z, pc, m).
     (case sv_alloc_page env m of
        None \<Rightarrow> Some (Stop, z, pc, m)
      | Some zpage \<Rightarrow> do {
          let m = m\<lparr>used_pages := insert zpage (used_pages m)\<rparr>;
          z \<leftarrow> zram_inc_stat (this_cpu env) ZRAM_STAT_PAGES_EXPAND z;
          let src = mem_read m zpage 0 PAGE_SIZE;
          scale_memstore (this_cpu env) index (zpage, 0) src (z, pc, m) }))"

definition scale_store_compressed ::
  "scale_env \<Rightarrow> bytes \<Rightarrow> nat \<Rightarrow> scale_state \<Rightarrow> (iteration \<times> scale_state) option" where
  "scale_store_compressed env src index = (\<lambda>(z, pc, m). do {
     pool \<leftarrow> s_mem_pool z;
     let ((rc, x), pool, m) = xv_malloc (sv_alloc_page env) (length src) (pool, m);
     let z = z\<lparr>s_mem_pool := Some pool\<rparr>;
     if rc \<noteq> 0 then Some (Stop, z, pc, m)
     else scale_memstore (this_cpu env) index x src (z, pc, m) })"

definition scale_write_page :: "scale_env \<Rightarrow> page \<Rightarrow> nat \<Rightarrow> scale_state \<Rightarrow> (iteration \<times> scale_state) option" where
  "scale_write_page env p index s = do {
     (z, pc, m) \<leftarrow> scale_free_page (this_cpu env) index s;
     case (cpu_buffer pc (this_cpu env), cpu_workmem pc (this_cpu env)) of
       (Some zbuffer, Some zworkmem) \<Rightarrow>
         if scale_page_zero_filled (mem_read m p 0 PAGE_SIZE)
         then do {
           z \<leftarrow> zram_inc_stat (this_cpu env) ZRAM_STAT_PAGES_ZERO z;
           z \<leftarrow> zram_set_zero_page index z;
           Some (Same_Index, z, pc, m) }
         else do {
           let (ret, out, dict) = lzo1x_1_compress (mem_read m p 0 PAGE_SIZE) (\<lambda>i. zworkmem i - sv_kmap env p);
           if length out > length zbuffer then None
           else do {
             let pc = pc\<lparr>cpu_buffer := (cpu_buffer pc)(this_cpu env \<mapsto> out @ drop (length out) zbuffer),
                         cpu_workmem := (cpu_workmem pc)(this_cpu env \<mapsto> (\<lambda>i. dict i + sv_kmap env p))\<rparr>;
             if ret \<noteq> LZO_E_OK then Some (Stop, z, pc, m)
             else if length out > scale_max_zpage_size then scale_store_uncompressed env index (z, pc, m)
             else scale_store_compressed env out index (z, pc, m) } }
     | _ \<Rightarrow> Some (Stop, z, pc, m) }"

definition scale_write :: "scale_env \<Rightarrow> bio \<Rightarrow> scale_state \<Rightarrow> (int \<times> bio \<times> scale_state) option" where
  "scale_write env b = (\<lambda>(z, pc, m). do {
     (ret, z, pc, m) \<leftarrow> (if \<not> s_init_done z then scale_init_device env (z, pc, m) else Some (0, z, pc, m));
     if ret \<noteq> 0 then Some (0, bio_io_error b, z, pc, m)
     else do {
       z \<leftarrow> zram_inc_stat (this_cpu env) ZRAM_STAT_NUM_WRITES z;
       (ok, s) \<leftarrow> scale_segments (scale_write_page env) (bi_io_vec b) (scale_first_index b) (z, pc, m);
       Some (0, (if ok then bio_endio 0 (set_uptodate b) else bio_io_error b), s) } })"

section \<open>Other requests\<close>

text \<open>\<open>n\<close> pages are left; the sector number advances.\<close>

fun scale_discard_pages :: "cpu \<Rightarrow> nat \<Rightarrow> u64 \<Rightarrow> scale_state \<Rightarrow> scale_state option" where
  "scale_discard_pages cpu 0 sector s = Some s"
| "scale_discard_pages cpu (Suc n) sector s = do {
     s \<leftarrow> scale_free_page cpu (unat (drop_bit scale_SECTORS_PER_PAGE_SHIFT sector)) s;
     scale_discard_pages cpu n (sector + word_of_nat (PAGE_SIZE div 2 ^ scale_SECTOR_SHIFT)) s }"

definition scale_discard :: "cpu \<Rightarrow> bio \<Rightarrow> scale_state \<Rightarrow> (bio \<times> scale_state) option" where
  "scale_discard cpu b = (\<lambda>(z, pc, m).
     if \<not> s_init_done z then Some (bio_endio 0 (set_uptodate b), z, pc, m)
     else do {
       z \<leftarrow> zram_inc_stat cpu ZRAM_STAT_DISCARD z;
       s \<leftarrow> scale_discard_pages cpu (bi_size b div PAGE_SIZE) (bi_sector b) (z, pc, m);
       Some (bio_endio 0 (set_uptodate b), s) })"

definition scale_valid_io_request :: "cpu \<Rightarrow> bio \<Rightarrow> scale_zram \<Rightarrow> (bool \<times> scale_zram) option" where
  "scale_valid_io_request cpu b z =
     (if bi_sector b \<ge> drop_bit scale_SECTOR_SHIFT (s_disksize z)
        \<or> bi_sector b AND (scale_SECTORS_PER_PAGE - 1) \<noteq> 0
        \<or> bi_size b AND (PAGE_SIZE - 1) \<noteq> 0
      then do {
        z \<leftarrow> (if s_init_done z then zram_inc_stat cpu ZRAM_STAT_INVALID_IO z else Some z);
        Some (False, z) }
      else Some (True, z))"

definition scale_make_request :: "scale_env \<Rightarrow> bio \<Rightarrow> scale_state \<Rightarrow> (int \<times> bio \<times> scale_state) option" where
  "scale_make_request env b = (\<lambda>(z, pc, m). do {
     (valid, z) \<leftarrow> scale_valid_io_request (this_cpu env) b z;
     if \<not> valid then Some (0, bio_io_error b, z, pc, m)
     else if bi_discard b then do { (b, s) \<leftarrow> scale_discard (this_cpu env) b (z, pc, m); Some (0, b, s) }
     else if bi_write b then scale_write env b (z, pc, m)
     else scale_read (this_cpu env) b (z, pc, m) })"

definition scale_slot_free_notify :: "cpu \<Rightarrow> nat \<Rightarrow> scale_state \<Rightarrow> scale_state option" where
  "scale_slot_free_notify cpu index s = do {
     (z, pc, m) \<leftarrow> scale_free_page cpu index s;
     z \<leftarrow> zram_inc_stat cpu ZRAM_STAT_NOTIFY_FREE z;
     Some (z, pc, m) }"

end
