(* ===== verification/Scale_Module.thy ===== *)
theory Scale_Module
  imports Scale_Drv
begin

text \<open>
  Loading and unloading of the scalable driver and its sysfs attributes
  (zram\_scale/zram\_drv.c, zram\_scale/zram\_sysfs.c).  As in the module of the first driver,
  what the kernel holds is explicit; here also the CPU notifier, the array \<open>devices\<close> and the
  per-CPU buffers.
\<close>

section \<open>Devices\<close>

record scale_device =
  sd_zram :: scale_zram
  sd_queue :: "request_queue option"
  sd_disk :: "gendisk option"

record scale_kernel = kernel +
  notifier :: bool
  devices_live :: bool

text \<open>\<open>load_env\<close> with the CPUs that are online and which per-CPU allocations succeed.\<close>

record scale_load_env = load_env +
  online_cpus :: "cpu list"
  notifier_ret :: int
  pages_ok :: "cpu \<Rightarrow> bool"
  kzalloc_ok :: "cpu \<Rightarrow> bool"

definition scale_zeroed_device :: scale_device where
  "scale_zeroed_device = \<lparr>sd_zram = \<lparr>s_mem_pool = None, s_table = None, s_init_done = False, s_disksize = 0,
     s_stats = None, s_capacity = 0, s_nonrot = False\<rparr>, sd_queue = None, sd_disk = None\<rparr>"

definition scale_create_device ::
  "scale_load_env \<Rightarrow> scale_env \<Rightarrow> int \<Rightarrow> nat \<Rightarrow> scale_device \<times> scale_kernel \<Rightarrow> int \<times> scale_device \<times> scale_kernel" where
  "scale_create_device env renv zram_major device_id = (\<lambda>(d, k).
     if \<not> queue_ok env device_id then (- ENOMEM, d\<lparr>sd_queue := None\<rparr>, k)
     else
       let q = \<lparr>queuedata = device_id, physical_block_size = 512, logical_block_size = 512,
                io_min = 512, io_opt = 0, discard_granularity = 0, max_discard_sectors = 0,
                queue_discard = False\<rparr>;
           d = d\<lparr>sd_queue := Some q\<rparr>;
           k = k\<lparr>live_queues := insert device_id (live_queues k)\<rparr>
       in if \<not> disk_ok env device_id
          then (- ENOMEM, d\<lparr>sd_disk := None\<rparr>, k\<lparr>live_queues := live_queues k - {device_id}\<rparr>)
          else
            let disk = \<lparr>disk_major = zram_major, first_minor = device_id,
                        disk_name = take 15 (''zram'' @ decimal device_id)\<rparr>;
                z = (sd_zram d)\<lparr>s_disksize := zram_default_disksize renv\<rparr>;
                z = z\<lparr>s_capacity := drop_bit scale_SECTOR_SHIFT (s_disksize z)\<rparr>;
                q = q\<lparr>physical_block_size := PAGE_SIZE, logical_block_size := PAGE_SIZE,
                      io_min := PAGE_SIZE, io_opt := PAGE_SIZE, discard_granularity := PAGE_SIZE,
                      max_discard_sectors := 4294967295, queue_discard := True\<rparr>;
                d = d\<lparr>sd_disk := Some disk, sd_queue := Some q, sd_zram := z\<rparr>;
                k = k\<lparr>live_disks := insert device_id (live_disks k),
                      added_disks := insert device_id (added_disks k)\<rparr>;
                ret = sysfs_ret env device_id
            in if ret < 0 then (ret, d, k)
               else (ret, d\<lparr>sd_zram := z\<lparr>s_init_done := False\<rparr>\<rparr>,
                     k\<lparr>sysfs_groups := insert device_id (sysfs_groups k)\<rparr>))"

definition scale_destroy_device :: "nat \<Rightarrow> scale_device \<Rightarrow> scale_kernel \<Rightarrow> scale_kernel" where
  "scale_destroy_device i d k =
     (let k = k\<lparr>sysfs_groups := sysfs_groups k - {i}\<rparr>;
          k = (if sd_disk d \<noteq> None
               then k\<lparr>added_disks := added_disks k - {i}, live_disks := live_disks k - {i}\<rparr> else k)
      in if sd_queue d \<noteq> None then k\<lparr>live_queues := live_queues k - {i}\<rparr> else k)"

section \<open>CPU hotplug\<close>

datatype cpu_action = CPU_UP_PREPARE | CPU_DEAD | CPU_UP_CANCELED | Other_Action

text \<open>\<open>free_pages\<close> and \<open>kfree\<close> do nothing with \<open>NULL\<close>.\<close>

definition free_buffer :: "bytes option \<Rightarrow> percpu \<Rightarrow> percpu" where
  "free_buffer b pc = (if b = None then pc else pc\<lparr>live_buffers := live_buffers pc - 1\<rparr>)"

definition zram_cpu_notify ::
  "(cpu \<Rightarrow> bool) \<Rightarrow> (cpu \<Rightarrow> bool) \<Rightarrow> cpu_action \<Rightarrow> cpu \<Rightarrow> percpu \<Rightarrow> percpu" where
  "zram_cpu_notify pages kz action cpu pc =
     (case action of
        CPU_UP_PREPARE \<Rightarrow>
          let pc = (if pages cpu
                then pc\<lparr>cpu_buffer := (cpu_buffer pc)(cpu \<mapsto> replicate (2 * PAGE_SIZE) 0), live_buffers := live_buffers pc + 1\<rparr>
                else pc\<lparr>cpu_buffer := (cpu_buffer pc)(cpu := None)\<rparr>)
          in if kz cpu
             then pc\<lparr>cpu_workmem := (cpu_workmem pc)(cpu \<mapsto> (\<lambda>_. 0)), live_workmems := live_workmems pc + 1\<rparr>
             else pc\<lparr>cpu_workmem := (cpu_workmem pc)(cpu := None)\<rparr>
      | Other_Action \<Rightarrow> pc
      | _ \<Rightarrow>
          let pc = free_buffer (cpu_buffer pc cpu) pc;
              pc = pc\<lparr>cpu_buffer := (cpu_buffer pc)(cpu := None)\<rparr>;
              pc = free_buffer (cpu_buffer pc cpu) pc
          in pc\<lparr>cpu_buffer := (cpu_buffer pc)(cpu := None)\<rparr>)"

fun cancel_cpus :: "cpu list \<Rightarrow> percpu \<Rightarrow> percpu" where
  "cancel_cpus [] pc = pc"
| "cancel_cpus (c # cs) pc = cancel_cpus cs (zram_cpu_notify (\<lambda>_. False) (\<lambda>_. False) CPU_UP_CANCELED c pc)"

text \<open>The loop of \<open>zram_init\<close> over the online CPUs; \<open>False\<close> is \<open>goto out\<close>.\<close>

fun prepare_cpus :: "scale_load_env \<Rightarrow> cpu list \<Rightarrow> percpu \<Rightarrow> bool \<times> percpu" where
  "prepare_cpus env [] pc = (True, pc)"
| "prepare_cpus env (c # cs) pc =
     (let pc = zram_cpu_notify (pages_ok env) (kzalloc_ok env) CPU_UP_PREPARE c pc
      in if cpu_buffer pc c = None \<or> cpu_workmem pc c = None then (False, pc) else prepare_cpus env cs pc)"

section \<open>Loading and unloading\<close>

fun scale_create_devices ::
  "scale_load_env \<Rightarrow> scale_env \<Rightarrow> int \<Rightarrow> nat \<Rightarrow> nat \<Rightarrow> scale_device list \<times> scale_kernel
     \<Rightarrow> int \<times> nat \<times> scale_device list \<times> scale_kernel" where
  "scale_create_devices env renv zram_major 0 dev_id (ds, k) = (0, dev_id, ds, k)"
| "scale_create_devices env renv zram_major (Suc n) dev_id (ds, k) =
     (let (ret, d, k) = scale_create_device env renv zram_major dev_id (ds ! dev_id, k); ds = ds[dev_id := d]
      in if ret \<noteq> 0 then (ret, dev_id, ds, k)
         else scale_create_devices env renv zram_major n (Suc dev_id) (ds, k))"

fun scale_destroy_devices :: "nat \<Rightarrow> scale_device list \<Rightarrow> scale_kernel \<Rightarrow> scale_kernel" where
  "scale_destroy_devices 0 ds k = k"
| "scale_destroy_devices (Suc i) ds k = scale_destroy_devices i ds (scale_destroy_device i (ds ! i) k)"

text \<open>From the registration of the block device on, and the code behind \<open>free_devices\<close> and \<open>unregister\<close>.\<close>

definition scale_init_devices ::
  "scale_load_env \<Rightarrow> scale_env \<Rightarrow> nat \<Rightarrow> scale_kernel \<Rightarrow> int \<times> scale_device list option \<times> scale_kernel" where
  "scale_init_devices env renv num_devices k =
     (let zram_major = register_ret env
      in if zram_major \<le> 0 then (- EBUSY, None, k)
         else
           let k = k\<lparr>blkdev := True\<rparr>;
               n = (if num_devices = 0 then 1 else num_devices)
           in if \<not> devices_ok env then (- ENOMEM, None, k\<lparr>blkdev := False\<rparr>)
              else
                let (ret, dev_id, ds, k) = scale_create_devices env renv zram_major n 0
                      (replicate n scale_zeroed_device, k\<lparr>devices_live := True\<rparr>)
                in if ret \<noteq> 0 then (ret, None, (scale_destroy_devices dev_id ds k)\<lparr>blkdev := False\<rparr>)
                   else (0, Some ds, k))"

definition scale_init ::
  "scale_load_env \<Rightarrow> scale_env \<Rightarrow> nat \<Rightarrow> scale_kernel \<times> percpu
     \<Rightarrow> int \<times> scale_device list option \<times> scale_kernel \<times> percpu" where
  "scale_init env renv num_devices = (\<lambda>(k, pc).
     let (ret, ds, k, pc) =
           (if num_devices > scale_max_num_devices then (- EINVAL, None, k, pc)
            else
              let ret = notifier_ret env
              in if ret \<noteq> 0 then (ret, None, k, pc)
                 else
                   let k = k\<lparr>notifier := True\<rparr>; (ok, pc) = prepare_cpus env (online_cpus env) pc
                   in if \<not> ok then (- ENOMEM, None, k, pc)
                      else let (ret, ds, k) = scale_init_devices env renv num_devices k in (ret, ds, k, pc))
     in if ret \<noteq> 0 then (ret, None, k, cancel_cpus (online_cpus env) pc) else (ret, ds, k, pc))"

fun scale_exit_devices ::
  "scale_env \<Rightarrow> nat \<Rightarrow> scale_device list \<Rightarrow> scale_kernel \<times> percpu \<times> kmem \<Rightarrow> (scale_kernel \<times> percpu \<times> kmem) option" where
  "scale_exit_devices renv i [] s = Some s"
| "scale_exit_devices renv i (d # ds) (k, pc, m) = do {
     let k = scale_destroy_device i d k;
     (pc, m) \<leftarrow> (if s_init_done (sd_zram d) then map_option snd (scale_reset_device renv (sd_zram d, pc, m))
                 else Some (pc, m));
     scale_exit_devices renv (Suc i) ds (k, pc, m) }"

definition scale_exit ::
  "scale_env \<Rightarrow> cpu list \<Rightarrow> scale_device list \<Rightarrow> scale_kernel \<times> percpu \<times> kmem
     \<Rightarrow> (scale_kernel \<times> percpu \<times> kmem) option" where
  "scale_exit renv online ds s = do {
     (k, pc, m) \<leftarrow> scale_exit_devices renv 0 ds s;
     let k = k\<lparr>blkdev := False\<rparr>;
     let pc = cancel_cpus online pc;
     let k = k\<lparr>notifier := False\<rparr>;
     Some (k\<lparr>devices_live := False\<rparr>, pc, m) }"

section \<open>Attributes\<close>

text \<open>\<open>cpus\<close> are the possible CPUs; the counters are added with the wrap-around of \<open>s64\<close>.\<close>

definition zram_get_stat :: "cpu list \<Rightarrow> scale_zram \<Rightarrow> zram_stats_index \<Rightarrow> u64 option" where
  "zram_get_stat cpus z idx = do {
     stats \<leftarrow> s_stats z;
     Some (fold (\<lambda>cpu val. val + stats cpu idx) cpus 0) }"

fun scale_find_from :: "nat \<Rightarrow> nat list \<Rightarrow> nat \<Rightarrow> nat option \<Rightarrow> nat option" where
  "scale_find_from i [] dev zram = zram"
| "scale_find_from i (d # ds) dev zram = (if d = dev then Some i else scale_find_from (Suc i) ds dev (Some i))"

definition scale_dev_to_zram :: "nat list \<Rightarrow> nat \<Rightarrow> nat option" where
  "scale_dev_to_zram devs dev = scale_find_from 0 devs dev None"

definition scale_disksize_show :: "scale_zram \<Rightarrow> string" where
  "scale_disksize_show z = print_u64 (s_disksize z)"

definition scale_disksize_store ::
  "(string \<Rightarrow> int \<times> u64) \<Rightarrow> string \<Rightarrow> scale_zram \<Rightarrow> int \<times> scale_zram" where
  "scale_disksize_store strict_strtoull buf z =
     (if s_init_done z then (- EBUSY, z)
      else
        let (ret, v) = strict_strtoull buf; z = z\<lparr>s_disksize := v\<rparr>
        in if ret \<noteq> 0 then (ret, z)
           else let z = z\<lparr>s_disksize := s_disksize z AND PAGE_MASK\<rparr>
                in (int (length buf), z\<lparr>s_capacity := drop_bit scale_SECTOR_SHIFT (s_disksize z)\<rparr>))"

definition scale_initstate_show :: "scale_zram \<Rightarrow> string" where
  "scale_initstate_show z = print_u32 (if s_init_done z then 1 else 0)"

definition scale_reset_store ::
  "scale_env \<Rightarrow> (string \<Rightarrow> int \<times> ulong) \<Rightarrow> nat option \<Rightarrow> string \<Rightarrow> scale_state \<Rightarrow> (int \<times> scale_state) option" where
  "scale_reset_store env strict_strtoul bdev buf = (\<lambda>(z, pc, m). do {
     bd_holders \<leftarrow> bdev;
     if bd_holders \<noteq> 0 then Some (- EBUSY, z, pc, m)
     else
       let (ret, do_reset) = strict_strtoul buf
       in if ret \<noteq> 0 then Some (ret, z, pc, m)
          else if do_reset = 0 then Some (- EINVAL, z, pc, m)
          else if s_init_done z
          then do { s \<leftarrow> scale_reset_device env (z, pc, m); Some (int (length buf), s) }
          else Some (int (length buf), z, pc, m) })"

definition scale_num_reads_show :: "cpu list \<Rightarrow> scale_zram \<Rightarrow> string option" where
  "scale_num_reads_show cpus z = map_option print_u64 (zram_get_stat cpus z ZRAM_STAT_NUM_READS)"

definition scale_num_writes_show :: "cpu list \<Rightarrow> scale_zram \<Rightarrow> string option" where
  "scale_num_writes_show cpus z = map_option print_u64 (zram_get_stat cpus z ZRAM_STAT_NUM_WRITES)"

definition scale_invalid_io_show :: "cpu list \<Rightarrow> scale_zram \<Rightarrow> string option" where
  "scale_invalid_io_show cpus z = map_option print_u64 (zram_get_stat cpus z ZRAM_STAT_INVALID_IO)"

definition scale_notify_free_show :: "cpu list \<Rightarrow> scale_zram \<Rightarrow> string option" where
  "scale_notify_free_show cpus z = map_option print_u64 (zram_get_stat cpus z ZRAM_STAT_NOTIFY_FREE)"

definition scale_discard_show :: "cpu list \<Rightarrow> scale_zram \<Rightarrow> string option" where
  "scale_discard_show cpus z = map_option print_u64 (zram_get_stat cpus z ZRAM_STAT_DISCARD)"

definition scale_zero_pages_show :: "cpu list \<Rightarrow> scale_zram \<Rightarrow> string option" where
  "scale_zero_pages_show cpus z = map_option print_u64 (zram_get_stat cpus z ZRAM_STAT_PAGES_ZERO)"

definition scale_orig_data_size_show :: "cpu list \<Rightarrow> scale_zram \<Rightarrow> string option" where
  "scale_orig_data_size_show cpus z =
     map_option (\<lambda>v. print_u64 (push_bit PAGE_SHIFT v)) (zram_get_stat cpus z ZRAM_STAT_PAGES_STORED)"

definition scale_compr_data_size_show :: "cpu list \<Rightarrow> scale_zram \<Rightarrow> string option" where
  "scale_compr_data_size_show cpus z = map_option print_u64 (zram_get_stat cpus z ZRAM_STAT_COMPR_SIZE)"

definition scale_mem_used_total_show :: "cpu list \<Rightarrow> scale_zram \<Rightarrow> string option" where
  "scale_mem_used_total_show cpus z = do {
     val \<leftarrow> (if s_init_done z
       then do {
         pool \<leftarrow> s_mem_pool z;
         expand \<leftarrow> zram_get_stat cpus z ZRAM_STAT_PAGES_EXPAND;
         Some (xv_get_total_size_bytes pool + push_bit PAGE_SHIFT expand) }
       else Some 0);
     Some (print_u64 val) }"

text \<open>Reading an attribute of \<open>zram_disk_attrs\<close>; those of the two drivers have the same names and order.\<close>

definition scale_disk_attrs :: "attribute list" where
  "scale_disk_attrs = [Disksize, Initstate, Reset, Num_Reads, Num_Writes, Invalid_Io, Notify_Free,
     Discard, Zero_Pages, Orig_Data_Size, Compr_Data_Size, Mem_Used_Total]"

fun scale_attr_show :: "cpu list \<Rightarrow> attribute \<Rightarrow> scale_zram \<Rightarrow> string option" where
  "scale_attr_show cpus Disksize z = Some (scale_disksize_show z)"
| "scale_attr_show cpus Initstate z = Some (scale_initstate_show z)"
| "scale_attr_show cpus Reset z = None"
| "scale_attr_show cpus Num_Reads z = scale_num_reads_show cpus z"
| "scale_attr_show cpus Num_Writes z = scale_num_writes_show cpus z"
| "scale_attr_show cpus Invalid_Io z = scale_invalid_io_show cpus z"
| "scale_attr_show cpus Notify_Free z = scale_notify_free_show cpus z"
| "scale_attr_show cpus Discard z = scale_discard_show cpus z"
| "scale_attr_show cpus Zero_Pages z = scale_zero_pages_show cpus z"
| "scale_attr_show cpus Orig_Data_Size z = scale_orig_data_size_show cpus z"
| "scale_attr_show cpus Compr_Data_Size z = scale_compr_data_size_show cpus z"
| "scale_attr_show cpus Mem_Used_Total z = scale_mem_used_total_show cpus z"

end
