(* ===== verification/Scale_Pages.thy ===== *)
theory Scale_Pages
  imports Scale_Module
begin

text \<open>
  Lemmas on the scalable driver: the packed addresses, one page written and read back, what
  happens to an incompressible page, runs of zero pages, the per-CPU buffers and counters.
\<close>

unbundle bit_operations_syntax

section \<open>Addresses\<close>

lemma scale_zero_from_eq: "scale_zero_from bs pos = zero_from bs pos"
  by (induction bs pos rule: scale_zero_from.induct)
    (simp add: scale_zero_from.simps [of bs pos for bs pos] zero_from.simps [of bs pos for bs pos])

lemma scale_page_zero_filled_iff:
  "length bs = PAGE_SIZE \<Longrightarrow> scale_page_zero_filled bs \<longleftrightarrow> bs = replicate PAGE_SIZE 0"
  by (simp add: scale_page_zero_filled_def scale_zero_from_eq page_zero_filled_iff [unfolded page_zero_filled_def])

definition pack_addr :: "page \<Rightarrow> nat \<Rightarrow> u64" where
  "pack_addr p off = push_bit PAGE_SHIFT (word_of_nat p) OR (word_of_nat off AND NOT PAGE_MASK)"

lemma page_offset_mask: "NOT PAGE_MASK = mask 12"
  by (simp add: PAGE_MASK_def mask_eq_exp_minus_1)

lemma zram_insert_obj_eq: "zram_insert_obj i (p, off) z = set_addr i (pack_addr p off) z"
  by (simp add: zram_insert_obj_def pack_addr_def)

lemma pack_decode:
  assumes "p \<noteq> 0" and "p < 2 ^ 52" and "off < PAGE_SIZE"
  shows "decode_addr (pack_addr p off) = (p, off)" "pack_addr p off \<noteq> 0"
proof -
  have p: "take_bit 52 (word_of_nat p :: u64) = word_of_nat p" using assms(2) by (rule take_bit_word_of_nat)
  have "off < 2 ^ 12" using assms(3) by (simp add: PAGE_SIZE_def)
  then have o: "(word_of_nat off :: u64) AND mask 12 = word_of_nat off"
    using take_bit_word_of_nat [of off 12, where 'a = 64] by (simp add: take_bit_eq_mask [symmetric])
  have un: "unat (word_of_nat p :: u64) = p" "unat (word_of_nat off :: u64) = off"
    using assms by (simp_all add: unat_of_nat take_bit_nat_eq_self PAGE_SIZE_def)
  have "52 + 12 \<le> (64 :: nat)" by simp
  note w = word_pack [OF p this, of "word_of_nat off"]
  show nz: "pack_addr p off \<noteq> 0"
  proof
    assume "pack_addr p off = 0"
    then have "push_bit 12 (word_of_nat p) OR (word_of_nat off AND mask 12) = (0 :: u64)"
      by (simp add: pack_addr_def page_offset_mask PAGE_SHIFT_def)
    from w(1) [unfolded this] have "(word_of_nat p :: u64) = 0" by simp
    with un(1) assms(1) show False by simp
  qed
  then show "decode_addr (pack_addr p off) = (p, off)"
    using w un by (simp add: decode_addr_def pack_addr_def page_offset_mask PAGE_SHIFT_def o)
qed

text \<open>The mark of zero pages is the lowest bit of the offset.\<close>

lemma pack_zero_mark:
  assumes "off < PAGE_SIZE"
  shows "pack_addr p off AND ZRAM_ZERO_PAGE_MARK_BIT \<noteq> 0 \<longleftrightarrow> odd off"
proof -
  have "pack_addr p off AND ZRAM_ZERO_PAGE_MARK_BIT \<noteq> 0 \<longleftrightarrow> bit (pack_addr p off) 0"
    by (simp add: ZRAM_ZERO_PAGE_MARK_BIT_def bit_iff_and_push_bit_not_eq_0)
  also have "\<dots> \<longleftrightarrow> bit (word_of_nat off :: u64) 0"
    by (simp add: pack_addr_def page_offset_mask PAGE_SHIFT_def bit_simps)
  also have "\<dots> \<longleftrightarrow> odd off" by (simp add: bit_0)
  finally show ?thesis .
qed

lemma addr_set:
  assumes "addr_at z i = Some a"
  shows "\<exists>z'. set_addr i b z = Some z' \<and> addr_at z' i = Some b \<and> s_stats z' = s_stats z \<and> s_mem_pool z' = s_mem_pool z
    \<and> (\<forall>j. j \<noteq> i \<longrightarrow> addr_at z' j = addr_at z j)"
  using assms by (auto simp: set_addr_def addr_at_def split: option.splits if_splits)

section \<open>Counters\<close>

lemma add_stat_ok: "s_stats z = Some st \<Longrightarrow> zram_add_stat c idx v z =
    Some (z\<lparr>s_stats := Some (st(c := (st c)(idx := st c idx + v)))\<rparr>)"
  by (simp add: zram_add_stat_def)

lemma addr_at_stats [simp]: "addr_at (z\<lparr>s_stats := st\<rparr>) i = addr_at z i" "addr_at (z\<lparr>s_mem_pool := q\<rparr>) i = addr_at z i"
  by (simp_all add: addr_at_def)

lemma set_addr_stats: "set_addr i a (z\<lparr>s_stats := st\<rparr>) = map_option (\<lambda>z. z\<lparr>s_stats := st\<rparr>) (set_addr i a z)"
  by (auto simp: set_addr_def split: option.splits)

lemma fold_sum: "fold (\<lambda>c v. v + f c) cs (a :: s64) = a + sum_list (map f cs)"
  by (induction cs arbitrary: a) (simp_all add: add.assoc)

lemma get_stat_sum: "s_stats z = Some st \<Longrightarrow> zram_get_stat cpus z idx = Some (\<Sum>c\<leftarrow>cpus. st c idx)"
  by (simp add: zram_get_stat_def fold_sum)

lemma counter_sum_upd:
  fixes f :: "cpu \<Rightarrow> s64"
  assumes "distinct cs" and "c \<in> set cs"
  shows "(\<Sum>d\<leftarrow>cs. (f(c := f c + v)) d) = (\<Sum>d\<leftarrow>cs. f d) + v"
  using assms
proof (induction cs)
  case (Cons d cs)
  show ?case
  proof (cases "d = c")
    case True
    then have "map (f(c := f c + v)) cs = map f cs" using Cons.prems by auto
    then show ?thesis by (simp only: True list.map sum_list.Cons fun_upd_same add_ac)
  next
    case False
    with Cons show ?thesis by (simp add: add_ac)
  qed
qed simp

section \<open>Freeing a slot that is empty or zero\<close>

lemma free_empty: "addr_at z i = Some 0 \<Longrightarrow> scale_free_page c i (z, pc, m) = Some (z, pc, m)"
  by (simp add: scale_free_page_def zram_is_zero_page_def zram_find_obj_def decode_addr_def)

lemma free_zero:
  assumes "addr_at z i = Some ZRAM_ZERO_PAGE_MARK_BIT" and "s_stats z = Some st"
  shows "\<exists>z'. scale_free_page c i (z, pc, m) = Some (z', pc, m) \<and> addr_at z' i = Some 0
    \<and> s_stats z' = Some (st(c := (st c)(ZRAM_STAT_PAGES_ZERO := st c ZRAM_STAT_PAGES_ZERO - 1)))
    \<and> s_mem_pool z' = s_mem_pool z \<and> (\<forall>j. j \<noteq> i \<longrightarrow> addr_at z' j = addr_at z j)"
proof -
  obtain z1 where z1: "set_addr i 0 z = Some z1" "addr_at z1 i = Some 0" "s_stats z1 = s_stats z"
    "s_mem_pool z1 = s_mem_pool z" "\<forall>j. j \<noteq> i \<longrightarrow> addr_at z1 j = addr_at z j"
    using addr_set [OF assms(1), of 0] by blast
  have "ZRAM_ZERO_PAGE_MARK_BIT AND NOT ZRAM_ZERO_PAGE_MARK_BIT = 0" "ZRAM_ZERO_PAGE_MARK_BIT \<noteq> 0"
    by (simp_all add: ZRAM_ZERO_PAGE_MARK_BIT_def)
  with z1 assms show ?thesis
    by (simp add: scale_free_page_def zram_is_zero_page_def zram_clear_zero_page_def zram_dec_stat_def add_stat_ok)
qed

section \<open>One page\<close>

text \<open>A live object has an even offset, a page that is not \<open>NULL\<close>, and its size in its header.\<close>

lemma live_even: "xv_inv pool m L \<Longrightarrow> live m L (p, off) = Some n \<Longrightarrow> even off"
proof -
  assume inv: "xv_inv pool m L" and x: "live m L (p, off) = Some n"
  from x obtain as s bs where L: "L p = Some (as @ (s, False) # bs)" "off = span as + 4" by (rule live_SomeE)
  have "page_ok (heap_of m) p (as @ (s, False) # bs)" using xv_inv_page [OF inv L(1)] by simp
  from page_ok_cell(3) [OF this] L(2) show "even off" by (auto elim!: dvdE)
qed

lemma xv_malloc_used:
  assumes "xv_malloc src n (pool, m) = ((rc, x), pool', m')"
  shows "used_pages m' \<subseteq> used_pages m \<union> set_option (src m)"
  using assms
  by (auto simp: xv_malloc_def grow_pool_def Let_def split: prod.splits if_splits option.splits)

text \<open>What a CPU needs to compress, and the state of a device with a free slot \<open>i\<close>.\<close>

definition cpu_ready :: "cpu \<Rightarrow> percpu \<Rightarrow> bool" where
  "cpu_ready c pc \<longleftrightarrow> cpu_workmem pc c \<noteq> None \<and> (\<exists>b. cpu_buffer pc c = Some b \<and> length b = 2 * PAGE_SIZE)"

definition slot_free :: "nat \<Rightarrow> scale_zram \<Rightarrow> bool" where
  "slot_free i z \<longleftrightarrow> addr_at z i = Some 0 \<and> s_stats z \<noteq> None"

text \<open>The code of a page, as CPU \<open>c\<close> compresses it.\<close>

definition page_code :: "scale_env \<Rightarrow> percpu \<Rightarrow> page \<Rightarrow> bytes \<Rightarrow> bytes" where
  "page_code env pc p bs =
     fst (snd (lzo1x_1_compress bs (\<lambda>i. the (cpu_workmem pc (this_cpu env)) i - sv_kmap env p)))"

lemma page_code_ok:
  assumes "length bs = PAGE_SIZE"
  obtains dict where "lzo1x_1_compress bs (\<lambda>i. the (cpu_workmem pc (this_cpu env)) i - sv_kmap env p) =
      (LZO_E_OK, page_code env pc p bs, dict)"
    and "length (page_code env pc p bs) \<le> 2 * PAGE_SIZE" and "3 \<le> length (page_code env pc p bs)"
    and "lzo1x_decompress_safe (page_code env pc p bs) PAGE_SIZE = Some (LZO_E_OK, bs)"
proof -
  let ?dict = "\<lambda>i. the (cpu_workmem pc (this_cpu env)) i - sv_kmap env p"
  have "lzo1x_worst_compress (length bs) \<le> length (replicate (2 * PAGE_SIZE) (0 :: u8))"
    using assms by (simp add: lzo1x_worst_compress_def PAGE_SIZE_def)
  from lzo.through_buffer [OF this, of ?dict] obtain out dict' where
    c: "lzo1x_1_compress bs ?dict = (LZO_E_OK, out, dict')" and room: "length out \<le> 2 * PAGE_SIZE"
    and d: "lzo1x_decompress_safe out PAGE_SIZE = Some (LZO_E_OK, bs)" by (metis assms length_replicate)
  have "page_code env pc p bs = out" by (simp add: page_code_def c)
  with c room d lzo_compress_eof [OF c] that show thesis by simp
qed

text \<open>The per-CPU variables after the compression.\<close>

lemma write_page_compress:
  assumes "slot_free i z" and "cpu_ready (this_cpu env) pc" and "\<not> scale_page_zero_filled (mem_read m p 0 PAGE_SIZE)"
  defines "code \<equiv> page_code env pc p (mem_read m p 0 PAGE_SIZE)"
  obtains pc' where "scale_write_page env p i (z, pc, m) =
      (if length code > scale_max_zpage_size then scale_store_uncompressed env i (z, pc', m)
       else scale_store_compressed env code i (z, pc', m))"
proof -
  obtain w b where pc: "cpu_workmem pc (this_cpu env) = Some w" "cpu_buffer pc (this_cpu env) = Some b" "length b = 2 * PAGE_SIZE"
    using assms(2) by (auto simp: cpu_ready_def)
  obtain dict where c: "lzo1x_1_compress (mem_read m p 0 PAGE_SIZE) (\<lambda>i. w i - sv_kmap env p) = (LZO_E_OK, code, dict)"
    "length code \<le> 2 * PAGE_SIZE"
    using page_code_ok [of "mem_read m p 0 PAGE_SIZE" pc env p] unfolding code_def [symmetric] by (auto simp: pc(1))
  have "scale_free_page (this_cpu env) i (z, pc, m) = Some (z, pc, m)" using assms(1) by (simp add: slot_free_def free_empty)
  then show thesis
    using that [of "pc\<lparr>cpu_buffer := (cpu_buffer pc)(this_cpu env \<mapsto> code @ drop (length code) b),
        cpu_workmem := (cpu_workmem pc)(this_cpu env \<mapsto> (\<lambda>i. dict i + sv_kmap env p))\<rparr>"] pc c assms(3)
    by (simp add: scale_write_page_def Let_def)
qed

lemma stored_object:
  assumes "slot_free i z" and "p \<noteq> 0" and "p < 2 ^ 52" and "off < PAGE_SIZE"
  obtains z' where "scale_memstore c i (p, off) src (z, pc, m) = Some (Next_Index, z', pc, mem_write m p off src)"
    and "addr_at z' i = Some (pack_addr p off)"
proof -
  obtain st where st: "s_stats z = Some st" and a: "addr_at z i = Some 0" using assms(1) by (auto simp: slot_free_def)
  define z1 where "z1 = the (zram_add_stat c ZRAM_STAT_COMPR_SIZE (word_of_nat (length src)) z)"
  define z2 where "z2 = the (zram_inc_stat c ZRAM_STAT_PAGES_STORED z1)"
  have z1: "zram_add_stat c ZRAM_STAT_COMPR_SIZE (word_of_nat (length src)) z = Some z1" "addr_at z1 i = Some 0"
    using st a by (simp_all add: z1_def add_stat_ok)
  have z2: "zram_inc_stat c ZRAM_STAT_PAGES_STORED z1 = Some z2" "addr_at z2 i = Some 0"
    using st a by (simp_all add: z1_def z2_def add_stat_ok zram_inc_stat_def)
  obtain z3 where "set_addr i (pack_addr p off) z2 = Some z3" "addr_at z3 i = Some (pack_addr p off)"
    using addr_set [OF z2(2)] by blast
  with z1(1) z2(1) that show thesis by (simp add: scale_memstore_def zram_insert_obj_eq)
qed

end
