(* ===== verification/Scale_Spec.thy ===== *)
theory Scale_Spec
  imports Scale_Pages Xv_Spec
begin

text \<open>The properties of the scalable driver.\<close>

section \<open>Reading a stored page\<close>

lemma read_stored:
  assumes "addr_at z i = Some (pack_addr p off)" and "p \<noteq> 0" "p < 2 ^ 52" "off < PAGE_SIZE" "even off" "off \<noteq> 0"
    and "xv_get_object_size m (p, off) = n" and "lzo1x_decompress_safe (mem_read m p off n) PAGE_SIZE = Some (LZO_E_OK, bs)"
  shows "scale_read_page q i (z, pc, m) = Some (Next_Index, z, pc, mem_write m q 0 bs)"
  using assms pack_decode [OF assms(2-4)] pack_zero_mark [OF assms(4), of p]
  by (simp add: scale_read_page_def zram_is_zero_page_def zram_find_obj_def)

lemma read_raw:
  assumes "addr_at z i = Some (pack_addr p 0)" and "p \<noteq> 0" "p < 2 ^ 52"
  shows "scale_read_page q i (z, pc, m) = Some (Same_Index, z, pc, mem_write m q 0 (mem_read m p 0 PAGE_SIZE))"
  using assms pack_decode [OF assms(2,3), of 0] pack_zero_mark [of 0 p]
  by (simp add: scale_read_page_def zram_is_zero_page_def zram_find_obj_def scale_handle_uncompressed_page_def PAGE_SIZE_def)

lemma read_zero:
  assumes "addr_at z i = Some ZRAM_ZERO_PAGE_MARK_BIT"
  shows "scale_read_page q i (z, pc, m) = Some (Same_Index, z, pc, mem_write m q 0 (replicate PAGE_SIZE 0))"
  using assms by (simp add: scale_read_page_def zram_is_zero_page_def scale_handle_zero_page_def ZRAM_ZERO_PAGE_MARK_BIT_def)

lemma write_zero:
  assumes "addr_at z i = Some 0" and "s_stats z = Some st" and "cpu_ready (this_cpu env) pc"
    and "scale_page_zero_filled (mem_read m p 0 PAGE_SIZE)"
    and "scale_free_page (this_cpu env) i s = Some (z, pc, m)"
  shows "\<exists>z'. scale_write_page env p i s = Some (Same_Index, z', pc, m) \<and> addr_at z' i = Some ZRAM_ZERO_PAGE_MARK_BIT
    \<and> s_stats z' = Some (st(this_cpu env := (st (this_cpu env))
          (ZRAM_STAT_PAGES_ZERO := st (this_cpu env) ZRAM_STAT_PAGES_ZERO + 1)))
    \<and> (\<forall>j. j \<noteq> i \<longrightarrow> addr_at z' j = addr_at z j)"
proof -
  obtain b w where pc: "cpu_buffer pc (this_cpu env) = Some b" "cpu_workmem pc (this_cpu env) = Some w"
    using assms(3) by (auto simp: cpu_ready_def)
  define z1 where "z1 = z\<lparr>s_stats := Some (st(this_cpu env := (st (this_cpu env))
      (ZRAM_STAT_PAGES_ZERO := st (this_cpu env) ZRAM_STAT_PAGES_ZERO + 1)))\<rparr>"
  have z1: "zram_inc_stat (this_cpu env) ZRAM_STAT_PAGES_ZERO z = Some z1"
    using assms(2) by (simp add: zram_inc_stat_def add_stat_ok z1_def)
  have a1: "addr_at z1 j = addr_at z j" for j by (simp add: z1_def)
  obtain z2 where z2: "set_addr i ZRAM_ZERO_PAGE_MARK_BIT z1 = Some z2" "addr_at z2 i = Some ZRAM_ZERO_PAGE_MARK_BIT"
    "s_stats z2 = s_stats z1" "\<forall>j. j \<noteq> i \<longrightarrow> addr_at z2 j = addr_at z1 j"
    using addr_set [of z1 i 0 ZRAM_ZERO_PAGE_MARK_BIT] a1 assms(1) by auto
  have "scale_write_page env p i s = Some (Same_Index, z2, pc, m)"
    using assms(1,4,5) pc z1 z2(1) a1 by (simp add: scale_write_page_def zram_set_zero_page_def)
  with z2 a1 show ?thesis by (simp add: z1_def)
qed

lemma malloc_stored:
  assumes inv: "xv_inv pool m L" and src: "fresh_page_source src" and n: "0 < n" "n \<le> 4088" and page: "src m \<noteq> None"
    and frames: "\<forall>q\<in>used_pages m. q < 2 ^ 52" "\<forall>q. src m = Some q \<longrightarrow> q < 2 ^ 52"
  obtains p off pool' m' L' where "xv_malloc src n (pool, m) = ((0, (p, off)), pool', m')"
    and "p \<noteq> 0" "p < 2 ^ 52" "off < PAGE_SIZE" "even off" "off \<noteq> 0" "data_of m' = data_of m"
    and "xv_get_object_size m' (p, off) = n" and "xv_inv pool' m' L'"
proof -
  obtain rc x pool' m' where mal: "xv_malloc src n (pool, m) = ((rc, x), pool', m')" by (metis prod.collapse)
  note post = xv_malloc_post [OF inv src mal]
  then have rc: "rc = 0" using n page by blast
  with post obtain L' where "malloc_post n 0 x pool m L pool' m' L'" by auto
  then have L': "xv_inv pool' m' L'" "data_of m' = data_of m" "live m' L' = (live m L)(x \<mapsto> n)"
    by (auto simp: malloc_post_def)
  obtain p off where x: "x = (p, off)" by (cases x)
  have lx: "live m' L' (p, off) = Some n" by (simp add: L'(3) x)
  note bd = live_bounds [OF L'(1) lx]
  have "p < 2 ^ 52" using xv_malloc_used [OF mal] bd(5) frames by (cases "src m") auto
  with mal rc x bd L'(1,2) live_even [OF L'(1) lx] live_object_size [OF L'(1) lx] that [of p off pool' m' L']
  show thesis by simp
qed

section \<open>Properties\<close>

text \<open>
  C37: a page that is zero or compresses to at most \<open>max_zpage_size\<close> bytes is read back as it was
  written: on a free slot \<open>i\<close>, with a kernel that has a page, writing the page \<open>p\<close> and reading slot \<open>i\<close>
  into \<open>q\<close> both succeed, and \<open>q\<close> then holds the bytes of \<open>p\<close>.  The address is packed with the mark of
  zero pages in its lowest bit: objects have even offsets, and frame numbers have at most 52 bits.
\<close>

theorem scale_write_then_read:
  assumes "slot_free i z" and "cpu_ready (this_cpu env) pc" and "s_mem_pool z = Some pool" and "xv_inv pool m L"
    and "fresh_page_source (sv_alloc_page env)" and "sv_alloc_page env m \<noteq> None"
    and "\<forall>r\<in>used_pages m. r < 2 ^ 52" and "\<forall>r. sv_alloc_page env m = Some r \<longrightarrow> r < 2 ^ 52"
    and "scale_page_zero_filled (mem_read m p 0 PAGE_SIZE)
       \<or> length (page_code env pc p (mem_read m p 0 PAGE_SIZE)) \<le> scale_max_zpage_size"
  shows "\<exists>it z' pc' m' it' m''. scale_write_page env p i (z, pc, m) = Some (it, z', pc', m') \<and> it \<noteq> Stop
    \<and> scale_read_page q i (z', pc', m') = Some (it', z', pc', m'') \<and> it' \<noteq> Stop
    \<and> mem_read m'' q 0 PAGE_SIZE = mem_read m p 0 PAGE_SIZE"
proof (cases "scale_page_zero_filled (mem_read m p 0 PAGE_SIZE)")
  case True
  obtain st where st: "s_stats z = Some st" "addr_at z i = Some 0" using assms(1) by (auto simp: slot_free_def)
  from write_zero [OF st(2,1) assms(2) True free_empty [OF st(2)]] obtain z' where
    w: "scale_write_page env p i (z, pc, m) = Some (Same_Index, z', pc, m)" "addr_at z' i = Some ZRAM_ZERO_PAGE_MARK_BIT" by blast
  have "mem_read (mem_write m q 0 (replicate PAGE_SIZE 0)) q 0 (length (replicate PAGE_SIZE (0 :: u8))) = replicate PAGE_SIZE 0"
    by (rule mem_read_write)
  moreover have "mem_read m p 0 PAGE_SIZE = replicate PAGE_SIZE 0" using True by (simp add: scale_page_zero_filled_iff)
  ultimately show ?thesis using w(1) read_zero [OF w(2), of q pc m] by auto
next
  case False
  let ?bs = "mem_read m p 0 PAGE_SIZE" and ?code = "page_code env pc p (mem_read m p 0 PAGE_SIZE)"
  have code: "3 \<le> length ?code" "length ?code \<le> scale_max_zpage_size"
    "lzo1x_decompress_safe ?code PAGE_SIZE = Some (LZO_E_OK, ?bs)"
    using page_code_ok [of ?bs pc env p] False assms(9) by auto
  have n: "0 < length ?code" using code(1) by linarith
  have n': "length ?code \<le> 4088" using code(2) unfolding scale_consts by linarith
  obtain pc' where w: "scale_write_page env p i (z, pc, m) = scale_store_compressed env ?code i (z, pc', m)"
    using write_page_compress [OF assms(1,2) False] code(2) by (metis not_less)
  obtain r off pool' m1 L' where mal: "xv_malloc (sv_alloc_page env) (length ?code) (pool, m) = ((0, (r, off)), pool', m1)"
    and x: "r \<noteq> 0" "r < 2 ^ 52" "off < PAGE_SIZE" "even off" "off \<noteq> 0" "data_of m1 = data_of m"
    and sz: "xv_get_object_size m1 (r, off) = length ?code"
    by (rule malloc_stored [OF assms(4,5) n n' assms(6-8)])
  let ?z = "z\<lparr>s_mem_pool := Some pool'\<rparr>" and ?m = "mem_write m1 r off ?code"
  have "slot_free i ?z" using assms(1) by (simp add: slot_free_def)
  from stored_object [OF this x(1-3), of "this_cpu env" ?code pc' m1] obtain z' where
    s: "scale_memstore (this_cpu env) i (r, off) ?code (?z, pc', m1) = Some (Next_Index, z', pc', ?m)"
    "addr_at z' i = Some (pack_addr r off)" by blast
  have "scale_write_page env p i (z, pc, m) = Some (Next_Index, z', pc', ?m)"
    using w mal s(1) assms(3) by (simp add: scale_store_compressed_def)
  moreover have "xv_get_object_size ?m (r, off) = length ?code" using sz by (simp add: xv_get_object_size_def)
  then have "scale_read_page q i (z', pc', ?m) = Some (Next_Index, z', pc', mem_write ?m q 0 ?bs)"
    using read_stored [OF s(2) x(1-5)] code(3) by simp
  moreover have "mem_read (mem_write ?m q 0 ?bs) q 0 (length ?bs) = ?bs" by (rule mem_read_write)
  ultimately show ?thesis by auto
qed

text \<open>
  C38: a page that does not compress is lost.  \<open>zram_write\<close> maps the new page \<open>zpage\<close> as the source of the
  copy, and copies it onto itself: what is read back later is what the new page \<open>r\<close> held when the kernel
  handed it out, not a byte of the page \<open>p\<close> that was written, and both requests report success.
\<close>

theorem scale_incompressible_lost:
  assumes "slot_free i z" and "cpu_ready (this_cpu env) pc" and "sv_alloc_page env m = Some r" and "r \<noteq> 0" and "r < 2 ^ 52"
    and "\<not> scale_page_zero_filled (mem_read m p 0 PAGE_SIZE)"
    and "scale_max_zpage_size < length (page_code env pc p (mem_read m p 0 PAGE_SIZE))"
  shows "\<exists>it z' pc' m' it' m''. scale_write_page env p i (z, pc, m) = Some (it, z', pc', m') \<and> it \<noteq> Stop
    \<and> scale_read_page q i (z', pc', m') = Some (it', z', pc', m'') \<and> it' \<noteq> Stop
    \<and> mem_read m'' q 0 PAGE_SIZE = mem_read m r 0 PAGE_SIZE"
proof -
  obtain pc' where w: "scale_write_page env p i (z, pc, m) = scale_store_uncompressed env i (z, pc', m)"
    using write_page_compress [OF assms(1,2,6)] assms(7) by metis
  obtain st where st: "s_stats z = Some st" "addr_at z i = Some 0" using assms(1) by (auto simp: slot_free_def)
  let ?m1 = "m\<lparr>used_pages := insert r (used_pages m)\<rparr>"
  let ?bs = "mem_read m r 0 PAGE_SIZE"
  have bs: "mem_read ?m1 r 0 PAGE_SIZE = ?bs" using mem_read_data [of ?m1 m] by simp
  define z1 where "z1 = the (zram_inc_stat (this_cpu env) ZRAM_STAT_PAGES_EXPAND z)"
  have z1: "zram_inc_stat (this_cpu env) ZRAM_STAT_PAGES_EXPAND z = Some z1" "slot_free i z1"
    using st by (simp_all add: z1_def zram_inc_stat_def add_stat_ok slot_free_def)
  have "0 < PAGE_SIZE" by (simp add: PAGE_SIZE_def)
  from stored_object [OF z1(2) assms(4,5) this, of "this_cpu env" ?bs pc' ?m1] obtain z' where
    s: "scale_memstore (this_cpu env) i (r, 0) ?bs (z1, pc', ?m1) = Some (Next_Index, z', pc', mem_write ?m1 r 0 ?bs)"
    "addr_at z' i = Some (pack_addr r 0)" by blast
  let ?m = "mem_write ?m1 r 0 ?bs"
  have "scale_write_page env p i (z, pc, m) = Some (Next_Index, z', pc', ?m)"
    using w assms(3) z1(1) s(1) bs by (simp add: scale_store_uncompressed_def)
  moreover have "mem_read ?m r 0 (length ?bs) = ?bs" by (rule mem_read_write)
  then have "scale_read_page q i (z', pc', ?m) = Some (Same_Index, z', pc', mem_write ?m q 0 ?bs)"
    using read_raw [OF s(2) assms(4,5)] by simp
  moreover have "mem_read (mem_write ?m q 0 ?bs) q 0 (length ?bs) = ?bs" by (rule mem_read_write)
  ultimately show ?thesis by auto
qed

section \<open>A concrete device\<close>

definition scale_sample_env :: scale_env where
  "scale_sample_env = \<lparr>sv_alloc_page = sample_source, sv_kmap = (\<lambda>p. int p * 4096), sv_totalram_pages = 1000,
     sv_table_ok = True, sv_stats_ok = True, sv_pool_ok = True, this_cpu = 0\<rparr>"

definition scale_sample :: scale_zram where
  "scale_sample = \<lparr>s_mem_pool = Some sample_pool, s_table = Some [0, 0], s_init_done = True, s_disksize = 8192,
     s_stats = Some (\<lambda>_ _. 0), s_capacity = 16, s_nonrot = True\<rparr>"

definition scale_sample_cpu :: percpu where
  "scale_sample_cpu = \<lparr>cpu_buffer = [0 \<mapsto> replicate (2 * PAGE_SIZE) 0], cpu_workmem = [0 \<mapsto> (\<lambda>_. 0)],
     live_buffers = 1, live_workmems = 1, live_stats = 1\<rparr>"

definition page_memory :: "bytes \<Rightarrow> kmem" where
  "page_memory bs = sample_memory\<lparr>data_of := (\<lambda>p i. if p = 1 then bs ! i else 0)\<rparr>"

lemma page_memory: "length bs = PAGE_SIZE \<Longrightarrow> mem_read (page_memory bs) 1 0 PAGE_SIZE = bs"
  by (intro nth_equalityI) (simp_all add: mem_read_def page_memory_def)

lemma page_memory_new: "mem_read (page_memory bs) 7 0 PAGE_SIZE = replicate PAGE_SIZE 0"
  by (intro nth_equalityI) (simp_all add: mem_read_def page_memory_def)

lemma page_memory_source: "sample_source (page_memory bs) = Some 7"
  by (simp add: page_memory_def sample_source_def sample_memory_def)

lemma scale_sample_ready: "slot_free 0 scale_sample" "slot_free 1 scale_sample" "cpu_ready 0 scale_sample_cpu"
  by (simp_all add: slot_free_def scale_sample_def addr_at_def cpu_ready_def scale_sample_cpu_def)

theorem scale_write_then_read_witness:
  "\<exists>it z' pc' m' it' m''. scale_write_page scale_sample_env 1 0 (scale_sample, scale_sample_cpu, page_memory (replicate PAGE_SIZE 0))
      = Some (it, z', pc', m')
    \<and> scale_read_page 2 0 (z', pc', m') = Some (it', z', pc', m'') \<and> mem_read m'' 2 0 PAGE_SIZE = replicate PAGE_SIZE 0"
proof -
  let ?m = "page_memory (replicate PAGE_SIZE 0)"
  have e: "sv_alloc_page scale_sample_env = sample_source" "this_cpu scale_sample_env = 0" by (simp_all add: scale_sample_env_def)
  have bs: "mem_read ?m 1 0 PAGE_SIZE = replicate PAGE_SIZE 0" by (rule page_memory) simp
  have "scale_page_zero_filled (mem_read ?m 1 0 PAGE_SIZE)" unfolding bs by (simp add: scale_page_zero_filled_iff)
  moreover have "s_mem_pool scale_sample = Some sample_pool" by (simp add: scale_sample_def)
  moreover have "\<forall>r\<in>used_pages ?m. r < 2 ^ 52" by (simp add: page_memory_def sample_memory_def)
  ultimately show ?thesis
    using scale_write_then_read [of 0 scale_sample scale_sample_env scale_sample_cpu sample_pool ?m "\<lambda>_. None" 1 2]
      scale_sample_ready page_memory_source [of "replicate PAGE_SIZE 0"] unfolding e bs by (simp del: ex_simps) blast
qed

text \<open>There is a page that does not compress: there are fewer short codes than pages.\<close>

lemma sum_powers_less: "(\<Sum>i\<le>n. (256 :: nat) ^ i) < 256 ^ Suc n"
proof (induction n)
  case (Suc n)
  then have "(\<Sum>i\<le>Suc n. (256 :: nat) ^ i) < 256 ^ Suc n + 256 ^ Suc n" by simp
  also have "\<dots> \<le> 256 ^ Suc (Suc n)" by simp
  finally show ?case .
qed simp

lemma card_bytes: "card {xs :: bytes. length xs \<le> n} = (\<Sum>i\<le>n. 256 ^ i)" "card {xs :: bytes. length xs = n} = 256 ^ n"
proof -
  have c: "card (UNIV :: u8 set) = 256" by (simp add: card_word)
  show "card {xs :: bytes. length xs \<le> n} = (\<Sum>i\<le>n. 256 ^ i)"
    using card_lists_length_le [of "UNIV :: u8 set" n] c by simp
  show "card {xs :: bytes. length xs = n} = 256 ^ n"
    using card_lists_length_eq [of "UNIV :: u8 set" n] c by simp
qed

lemma incompressible_page:
  obtains bs where "length bs = PAGE_SIZE" and "\<not> scale_page_zero_filled bs"
    and "scale_max_zpage_size < length (page_code env pc p bs)"
proof (rule ccontr)
  assume "\<not> thesis"
  then have short: "length (page_code env pc p bs) \<le> 3584" if "length bs = PAGE_SIZE" "bs \<noteq> replicate PAGE_SIZE 0" for bs
    using that scale_page_zero_filled_iff [of bs] \<open>\<And>bs. _ \<Longrightarrow> _ \<Longrightarrow> _ \<Longrightarrow> thesis\<close> by (force simp: scale_consts not_less)
  let ?P = "{bs :: bytes. length bs = PAGE_SIZE} - {replicate PAGE_SIZE 0}" and ?C = "{xs :: bytes. length xs \<le> 3584}"
  have fin: "finite ?C" "finite {bs :: bytes. length bs = PAGE_SIZE}"
    using finite_lists_length_le [of "UNIV :: u8 set" 3584] finite_lists_length_eq [of "UNIV :: u8 set" PAGE_SIZE] by simp_all
  have "inj_on (page_code env pc p) ?P"
  proof (rule inj_onI)
    fix a b assume "a \<in> ?P" "b \<in> ?P" and eq: "page_code env pc p a = page_code env pc p b"
    then have "length a = PAGE_SIZE" "length b = PAGE_SIZE" by simp_all
    with page_code_ok [of a pc env p] page_code_ok [of b pc env p] eq show "a = b" by (metis option.inject prod.inject)
  qed
  moreover have "page_code env pc p ` ?P \<subseteq> ?C" using short by auto
  ultimately have "card ?P \<le> card ?C" using fin(1) by (rule card_inj_on_le)
  moreover have "card ?P = 256 ^ PAGE_SIZE - 1" using card_bytes(2) [of PAGE_SIZE] fin(2) by (simp add: card_Diff_singleton)
  moreover have "card ?C < 256 ^ Suc 3584" unfolding card_bytes(1) by (rule sum_powers_less)
  moreover have "(256 :: nat) ^ Suc 3584 < 256 ^ PAGE_SIZE" by (rule power_strict_increasing) (simp_all add: PAGE_SIZE_def)
  ultimately show False by linarith
qed

theorem scale_incompressible_lost_witness:
  "\<exists>bs it z' pc' m' it' m''. length bs = PAGE_SIZE \<and> bs \<noteq> replicate PAGE_SIZE 0
    \<and> scale_write_page scale_sample_env 1 0 (scale_sample, scale_sample_cpu, page_memory bs) = Some (it, z', pc', m')
    \<and> scale_read_page 2 0 (z', pc', m') = Some (it', z', pc', m'') \<and> mem_read m'' 2 0 PAGE_SIZE = replicate PAGE_SIZE 0"
proof -
  obtain bs where bs: "length bs = PAGE_SIZE" "\<not> scale_page_zero_filled bs"
    "scale_max_zpage_size < length (page_code scale_sample_env scale_sample_cpu 1 bs)"
    by (rule incompressible_page)
  have e: "sv_alloc_page scale_sample_env = sample_source" "this_cpu scale_sample_env = 0" by (simp_all add: scale_sample_env_def)
  have rd: "mem_read (page_memory bs) 1 0 PAGE_SIZE = bs" using bs(1) by (rule page_memory)
  have small: "(7 :: nat) \<noteq> 0" "(7 :: nat) < 2 ^ 52" by simp_all
  have "\<not> scale_page_zero_filled (mem_read (page_memory bs) 1 0 PAGE_SIZE)" using bs(2) rd by simp
  moreover have "scale_max_zpage_size < length (page_code scale_sample_env scale_sample_cpu 1 (mem_read (page_memory bs) 1 0 PAGE_SIZE))"
    using bs(3) rd by simp
  moreover have "cpu_ready (this_cpu scale_sample_env) scale_sample_cpu" using scale_sample_ready(3) e by simp
  moreover have "sv_alloc_page scale_sample_env (page_memory bs) = Some 7" using page_memory_source e by simp
  moreover have "bs \<noteq> replicate PAGE_SIZE 0" using bs(1,2) scale_page_zero_filled_iff by blast
  ultimately show ?thesis
    using scale_incompressible_lost [OF scale_sample_ready(1), of scale_sample_env scale_sample_cpu "page_memory bs" 7 1 2]
      small bs(1) page_memory_new [of bs] by metis
qed

section \<open>Runs of zero pages\<close>

lemma zero_run:
  assumes "addr_at z i = Some ZRAM_ZERO_PAGE_MARK_BIT" and "s_stats z = Some st" and "cpu_ready (this_cpu env) pc"
    and "\<forall>p\<in>set ps. scale_page_zero_filled (mem_read m p 0 PAGE_SIZE)"
  shows "\<exists>z'. scale_segments (scale_write_page env) ps i (z, pc, m) = Some (True, z', pc, m)
    \<and> addr_at z' i = Some ZRAM_ZERO_PAGE_MARK_BIT \<and> s_stats z' = Some st \<and> (\<forall>j. j \<noteq> i \<longrightarrow> addr_at z' j = addr_at z j)"
  using assms(1,2,4)
proof (induction ps arbitrary: z)
  case Nil
  then show ?case by simp
next
  case (Cons p ps)
  let ?c = "this_cpu env"
  let ?st = "st(?c := (st ?c)(ZRAM_STAT_PAGES_ZERO := st ?c ZRAM_STAT_PAGES_ZERO - 1))"
  obtain z1 where z1: "scale_free_page ?c i (z, pc, m) = Some (z1, pc, m)" "addr_at z1 i = Some 0" "s_stats z1 = Some ?st"
    "\<forall>j. j \<noteq> i \<longrightarrow> addr_at z1 j = addr_at z j"
    using free_zero [OF Cons.prems(1,2), of ?c pc m] by blast
  have "?st(?c := (?st ?c)(ZRAM_STAT_PAGES_ZERO := ?st ?c ZRAM_STAT_PAGES_ZERO + 1)) = st" by auto
  with write_zero [OF z1(2,3) assms(3) _ z1(1), of p] Cons.prems(3) obtain z2 where
    z2: "scale_write_page env p i (z, pc, m) = Some (Same_Index, z2, pc, m)" "addr_at z2 i = Some ZRAM_ZERO_PAGE_MARK_BIT"
      "s_stats z2 = Some st" "\<forall>j. j \<noteq> i \<longrightarrow> addr_at z2 j = addr_at z1 j" by auto
  have "\<forall>p\<in>set ps. scale_page_zero_filled (mem_read m p 0 PAGE_SIZE)" using Cons.prems(3) by simp
  from Cons.IH [OF z2(2,3) this] z2(1,4) z1(4) show ?case by auto
qed

text \<open>
  A request that writes several zero pages stores one.  The loop over the segments goes on without
  \<open>index++\<close> after a zero page, so all pages of a run are written to the slot of the first: the other slots
  keep what they held, and the count of zero pages grows by one however many pages were written.
\<close>

theorem scale_zero_pages_one_slot:
  assumes "addr_at z i = Some 0" and "s_stats z = Some st" and "cpu_ready (this_cpu env) pc" and "ps \<noteq> []"
    and "\<forall>p\<in>set ps. scale_page_zero_filled (mem_read m p 0 PAGE_SIZE)" and "distinct cpus" and "this_cpu env \<in> set cpus"
  shows "\<exists>z'. scale_segments (scale_write_page env) ps i (z, pc, m) = Some (True, z', pc, m)
    \<and> zram_is_zero_page z' i = Some True \<and> (\<forall>j. j \<noteq> i \<longrightarrow> addr_at z' j = addr_at z j)
    \<and> zram_get_stat cpus z' ZRAM_STAT_PAGES_ZERO = map_option (\<lambda>v. v + 1) (zram_get_stat cpus z ZRAM_STAT_PAGES_ZERO)"
proof -
  let ?c = "this_cpu env"
  let ?st = "st(?c := (st ?c)(ZRAM_STAT_PAGES_ZERO := st ?c ZRAM_STAT_PAGES_ZERO + 1))"
  obtain p qs where ps: "ps = p # qs" using assms(4) by (cases ps) auto
  then have zp: "scale_page_zero_filled (mem_read m p 0 PAGE_SIZE)" "\<forall>p\<in>set qs. scale_page_zero_filled (mem_read m p 0 PAGE_SIZE)"
    using assms(5) by simp_all
  obtain z1 where z1: "scale_write_page env p i (z, pc, m) = Some (Same_Index, z1, pc, m)" "addr_at z1 i = Some ZRAM_ZERO_PAGE_MARK_BIT"
    "s_stats z1 = Some ?st" "\<forall>j. j \<noteq> i \<longrightarrow> addr_at z1 j = addr_at z j"
    using write_zero [OF assms(1-3) zp(1) free_empty [OF assms(1)]] by blast
  obtain z2 where z2: "scale_segments (scale_write_page env) qs i (z1, pc, m) = Some (True, z2, pc, m)"
    "addr_at z2 i = Some ZRAM_ZERO_PAGE_MARK_BIT" "s_stats z2 = Some ?st" "\<forall>j. j \<noteq> i \<longrightarrow> addr_at z2 j = addr_at z1 j"
    using zero_run [OF z1(2,3) assms(3) zp(2)] by blast
  let ?f = "\<lambda>d. st d ZRAM_STAT_PAGES_ZERO"
  have "(\<lambda>d. ?st d ZRAM_STAT_PAGES_ZERO) = ?f(?c := ?f ?c + 1)" by auto
  then have "zram_get_stat cpus z2 ZRAM_STAT_PAGES_ZERO = Some ((\<Sum>d\<leftarrow>cpus. ?f d) + 1)"
    using get_stat_sum [OF z2(3), of cpus ZRAM_STAT_PAGES_ZERO] counter_sum_upd [OF assms(6,7), of ?f 1] by simp
  moreover have "zram_is_zero_page z2 i = Some True"
    using z2(2) by (simp add: zram_is_zero_page_def ZRAM_ZERO_PAGE_MARK_BIT_def)
  ultimately show ?thesis
    using ps z1(1,4) z2(1,4) get_stat_sum [OF assms(2), of cpus ZRAM_STAT_PAGES_ZERO] by auto
qed

theorem scale_zero_pages_one_slot_witness:
  "\<exists>z'. scale_segments (scale_write_page scale_sample_env) [1, 1] 0 (scale_sample, scale_sample_cpu, page_memory (replicate PAGE_SIZE 0))
      = Some (True, z', scale_sample_cpu, page_memory (replicate PAGE_SIZE 0))
    \<and> zram_is_zero_page z' 0 = Some True \<and> addr_at z' 1 = Some 0 \<and> zram_get_stat [0] z' ZRAM_STAT_PAGES_ZERO = Some 1"
proof -
  let ?m = "page_memory (replicate PAGE_SIZE 0)"
  have bs: "mem_read ?m 1 0 PAGE_SIZE = replicate PAGE_SIZE 0" by (rule page_memory) simp
  have z: "addr_at scale_sample 0 = Some 0" "s_stats scale_sample = Some (\<lambda>_ _. 0)" "addr_at scale_sample 1 = Some 0"
    "zram_get_stat [0] scale_sample ZRAM_STAT_PAGES_ZERO = Some 0"
    by (simp_all add: scale_sample_def addr_at_def zram_get_stat_def)
  have e: "this_cpu scale_sample_env = 0" by (simp add: scale_sample_env_def)
  have "\<forall>p\<in>set [1, 1]. scale_page_zero_filled (mem_read ?m p 0 PAGE_SIZE)"
    using bs by (simp add: scale_page_zero_filled_iff)
  from scale_zero_pages_one_slot [OF z(1,2) _ _ this, of scale_sample_env scale_sample_cpu "[0]"] scale_sample_ready(3) z(3,4)
  show ?thesis unfolding e by fastforce
qed

section \<open>CPU buffers\<close>

lemma prepare_cpus_ok:
  "prepare_cpus env cs pc = (True, pc') \<Longrightarrow> distinct cs \<Longrightarrow>
     live_buffers pc' = live_buffers pc + length cs \<and> live_workmems pc' = live_workmems pc + length cs
     \<and> live_stats pc' = live_stats pc
     \<and> (\<forall>c. if c \<in> set cs then cpu_buffer pc' c \<noteq> None else cpu_buffer pc' c = cpu_buffer pc c)"
proof (induction cs arbitrary: pc)
  case (Cons c cs)
  let ?pc = "zram_cpu_notify (pages_ok env) (kzalloc_ok env) CPU_UP_PREPARE c pc"
  have ok: "cpu_buffer ?pc c \<noteq> None" "cpu_workmem ?pc c \<noteq> None" and rest: "prepare_cpus env cs ?pc = (True, pc')"
    using Cons.prems(1) by (auto simp: Let_def split: if_splits)
  then have "live_buffers ?pc = live_buffers pc + 1" "live_workmems ?pc = live_workmems pc + 1" "live_stats ?pc = live_stats pc"
    "\<forall>d. d \<noteq> c \<longrightarrow> cpu_buffer ?pc d = cpu_buffer pc d"
    by (auto simp: zram_cpu_notify_def Let_def split: if_splits)
  with Cons.IH [OF rest] Cons.prems(2) ok(1) show ?case by (auto split: if_splits)
qed simp

lemma cancel_cpus_effect:
  "distinct cs \<Longrightarrow> \<forall>c\<in>set cs. cpu_buffer pc c \<noteq> None \<Longrightarrow> length cs \<le> live_buffers pc \<Longrightarrow>
     live_buffers (cancel_cpus cs pc) = live_buffers pc - length cs \<and> live_workmems (cancel_cpus cs pc) = live_workmems pc"
proof (induction cs arbitrary: pc)
  case (Cons c cs)
  let ?pc = "zram_cpu_notify (\<lambda>_. False) (\<lambda>_. False) CPU_UP_CANCELED c pc"
  have pc: "live_buffers ?pc = live_buffers pc - 1" "live_workmems ?pc = live_workmems pc"
    "\<forall>d. d \<noteq> c \<longrightarrow> cpu_buffer ?pc d = cpu_buffer pc d"
    using Cons.prems(2) by (auto simp: zram_cpu_notify_def free_buffer_def Let_def)
  moreover have "\<forall>d\<in>set cs. cpu_buffer ?pc d \<noteq> None" using pc(3) Cons.prems(1,2) by auto
  ultimately show ?case using Cons.IH [of ?pc] Cons.prems(1,3) by auto
qed simp

text \<open>Devices fresh from \<open>zram_init\<close> are not initialised.\<close>

lemma scale_create_device_off:
  "scale_create_device env renv major i (d, k) = (0, d', k') \<Longrightarrow> \<not> s_init_done (sd_zram d')"
  by (auto simp: scale_create_device_def Let_def ENOMEM_def split: if_splits)

lemma scale_create_devices_off:
  "scale_create_devices env renv major n i (ds, k) = (0, j, ds', k') \<Longrightarrow> i + n \<le> length ds \<Longrightarrow>
     \<forall>l<i. \<not> s_init_done (sd_zram (ds ! l)) \<Longrightarrow>
     length ds' = length ds \<and> (\<forall>l<i + n. \<not> s_init_done (sd_zram (ds' ! l)))"
proof (induction n arbitrary: i ds k)
  case (Suc n)
  obtain ret d k1 where c: "scale_create_device env renv major i (ds ! i, k) = (ret, d, k1)" by (metis prod_cases3)
  with Suc.prems(1) have ret: "ret = 0" by (auto simp: Let_def split: if_splits)
  then have "\<not> s_init_done (sd_zram d)" using scale_create_device_off c by blast
  moreover have "scale_create_devices env renv major n (Suc i) (ds[i := d], k1) = (0, j, ds', k')"
    using Suc.prems(1) c ret by simp
  ultimately show ?case
    using Suc.IH [of "Suc i" "ds[i := d]" k1] Suc.prems(2,3) by (auto simp: nth_list_update less_Suc_eq)
qed simp

lemma scale_init_devices_off:
  assumes "scale_init_devices env renv n k = (0, Some ds, k')"
  shows "\<forall>d\<in>set ds. \<not> s_init_done (sd_zram d)"
proof -
  define N where "N = (if n = 0 then 1 else n)"
  let ?k = "k\<lparr>blkdev := True, devices_live := True\<rparr>"
  obtain ret j ds' k1 where c: "scale_create_devices env renv (register_ret env) N 0 (replicate N scale_zeroed_device, ?k) = (ret, j, ds', k1)"
    by (metis prod_cases4)
  with assms have "ret = 0" "ds' = ds"
    by (auto simp: scale_init_devices_def N_def [symmetric] Let_def EBUSY_def ENOMEM_def split: if_splits)
  with c scale_create_devices_off [of env renv "register_ret env" N 0 "replicate N scale_zeroed_device" ?k j ds k1]
  show ?thesis by (auto simp: in_set_conv_nth)
qed

lemma scale_exit_devices_off:
  "\<forall>d\<in>set ds. \<not> s_init_done (sd_zram d) \<Longrightarrow> \<exists>k'. scale_exit_devices renv i ds (k, pc, m) = Some (k', pc, m)"
  by (induction ds arbitrary: i k) auto

text \<open>
  loading the driver and unloading it leaks the work memory of every CPU.  The handler of the CPU
  notifier frees \<open>compress_buffer\<close> and then, instead of \<open>compress_workmem\<close>, the same variable again, by
  then \<open>NULL\<close>; so after \<open>zram_init\<close> and \<open>zram_exit\<close> the buffers are back and one work area per online CPU is not.
\<close>

theorem scale_unload_leaks_workmem:
  assumes "scale_init env renv n (k, pc) = (0, Some ds, k', pc')" and "distinct (online_cpus env)"
  shows "\<exists>k'' pc''. scale_exit renv (online_cpus env) ds (k', pc', m) = Some (k'', pc'', m)
    \<and> live_buffers pc'' = live_buffers pc \<and> live_workmems pc'' = live_workmems pc + length (online_cpus env)"
proof -
  obtain k1 where prep: "prepare_cpus env (online_cpus env) pc = (True, pc')"
    and dev: "scale_init_devices env renv n k1 = (0, Some ds, k')"
    using assms(1) by (auto simp: scale_init_def Let_def EINVAL_def ENOMEM_def split: prod.splits if_splits)
  note p = prepare_cpus_ok [OF prep assms(2)]
  note scale_init_devices_off [OF dev]
  from scale_exit_devices_off [OF this, of renv 0 k' pc' m] obtain k4 where
    e: "scale_exit_devices renv 0 ds (k', pc', m) = Some (k4, pc', m)" by blast
  have "\<forall>c\<in>set (online_cpus env). cpu_buffer pc' c \<noteq> None" using p by meson
  from cancel_cpus_effect [OF assms(2) this] p e show ?thesis by (simp add: scale_exit_def)
qed

definition scale_sample_load :: scale_load_env where
  "scale_sample_load = \<lparr>queue_ok = (\<lambda>_. True), disk_ok = (\<lambda>_. True), sysfs_ret = (\<lambda>_. 0), register_ret = 253, devices_ok = True,
     online_cpus = [0, 1], notifier_ret = 0, pages_ok = (\<lambda>_. True), kzalloc_ok = (\<lambda>_. True)\<rparr>"

definition scale_no_resources :: scale_kernel where
  "scale_no_resources = \<lparr>live_queues = {}, live_disks = {}, added_disks = {}, sysfs_groups = {}, blkdev = False,
     notifier = False, devices_live = False\<rparr>"

definition cpus_unloaded :: percpu where
  "cpus_unloaded = \<lparr>cpu_buffer = (\<lambda>_. None), cpu_workmem = (\<lambda>_. None), live_buffers = 0, live_workmems = 0, live_stats = 0\<rparr>"

theorem scale_unload_leaks_workmem_witness:
  "\<exists>ds k' pc' k'' pc''. scale_init scale_sample_load scale_sample_env 1 (scale_no_resources, cpus_unloaded) = (0, Some ds, k', pc')
    \<and> scale_exit scale_sample_env [0, 1] ds (k', pc', sample_memory) = Some (k'', pc'', sample_memory)
    \<and> live_buffers pc'' = 0 \<and> live_workmems pc'' = 2"
proof -
  have "\<exists>ds k' pc'. scale_init scale_sample_load scale_sample_env 1 (scale_no_resources, cpus_unloaded) = (0, Some ds, k', pc')"
    by (simp add: scale_init_def scale_sample_load_def scale_consts zram_cpu_notify_def cpus_unloaded_def
        scale_init_devices_def scale_create_device_def Let_def)
  then obtain ds k' pc' where i: "scale_init scale_sample_load scale_sample_env 1 (scale_no_resources, cpus_unloaded) = (0, Some ds, k', pc')"
    by blast
  have o: "online_cpus scale_sample_load = [0, 1]" by (simp add: scale_sample_load_def)
  have "distinct (online_cpus scale_sample_load)" by (simp add: o)
  from scale_unload_leaks_workmem [OF i this, of sample_memory] i show ?thesis
    unfolding o by (auto simp: cpus_unloaded_def)
qed

section \<open>Statistics areas\<close>

lemma reset_fresh:
  "\<forall>j. i \<le> j \<and> j < i + n \<longrightarrow> addr_at z j = Some 0 \<Longrightarrow> scale_reset_pages c n i (z, pc, m) = Some (z, pc, m)"
  by (induction n arbitrary: i) (simp_all add: free_empty)

text \<open>
  C39: each initialisation of a device followed by a reset leaks a statistics area, since the reset clears
  the pointer to it with \<open>memset\<close>.  And as long as a device is not initialised, a show handler of any
  statistic reads through that null pointer.
\<close>

theorem scale_reset_leaks_stats:
  assumes "\<not> s_init_done z" and "sv_table_ok env" "sv_stats_ok env" "sv_pool_ok env"
  shows "\<exists>z' pc' z''. scale_init_device env (z, pc, m) = Some (0, z', pc', m) \<and> s_init_done z'
    \<and> scale_reset_device env (z', pc', m) = Some (z'', pc', m) \<and> \<not> s_init_done z'' \<and> s_table z'' = None
    \<and> live_stats pc' = live_stats pc + 1 \<and> zram_get_stat cpus z'' idx = None"
proof -
  let ?z0 = "if s_disksize z = 0 then z\<lparr>s_disksize := zram_default_disksize env\<rparr> else z"
  obtain pool where pool: "xv_create_pool True = Some pool" by (simp add: xv_create_pool_def)
  let ?z = "?z0\<lparr>s_table := Some (replicate (scale_num_pages ?z0) 0), s_capacity := drop_bit scale_SECTOR_SHIFT (s_disksize ?z0),
    s_nonrot := True, s_stats := Some (\<lambda>_ _. 0), s_mem_pool := Some pool, s_init_done := True\<rparr>"
  let ?pc = "pc\<lparr>live_stats := live_stats pc + 1\<rparr>"
  have init: "scale_init_device env (z, pc, m) = Some (0, ?z, ?pc, m)"
    using assms pool by (simp add: scale_init_device_def Let_def)
  let ?w = "?z\<lparr>s_init_done := False\<rparr>"
  have "\<forall>j. 0 \<le> j \<and> j < 0 + scale_num_pages ?w \<longrightarrow> addr_at ?w j = Some 0"
    by (simp add: addr_at_def scale_num_pages_def)
  from reset_fresh [OF this] have "scale_reset_device env (?z, ?pc, m) =
      Some (?w\<lparr>s_table := None, s_mem_pool := None, s_stats := None, s_disksize := zram_default_disksize env\<rparr>, ?pc, m)"
    by (simp add: scale_reset_device_def)
  with init show ?thesis by (simp add: zram_get_stat_def)
qed

theorem scale_reset_leaks_stats_witness:
  "\<exists>z' pc' z''. scale_init_device scale_sample_env (sd_zram scale_zeroed_device, cpus_unloaded, sample_memory) = Some (0, z', pc', sample_memory)
    \<and> scale_reset_device scale_sample_env (z', pc', sample_memory) = Some (z'', pc', sample_memory) \<and> live_stats pc' = 1
    \<and> scale_num_reads_show [0, 1] z'' = None"
proof -
  have "\<not> s_init_done (sd_zram scale_zeroed_device)" "sv_table_ok scale_sample_env" "sv_stats_ok scale_sample_env"
    "sv_pool_ok scale_sample_env" by (simp_all add: scale_zeroed_device_def scale_sample_env_def)
  from scale_reset_leaks_stats [OF this, of cpus_unloaded sample_memory "[0, 1]" ZRAM_STAT_NUM_READS]
  show ?thesis by (auto simp: cpus_unloaded_def scale_num_reads_show_def)
qed

end
