(* ===== verification/Tlsf.thy ===== *)
theory Tlsf
  imports Kernel_Prelude "HOL-Library.Monad_Syntax"
begin

text \<open>
  The TLSF allocator as a kernel module (sub-projects/allocators/tlsf-kmod/tlsf.c, tlsf\_int.h), without
  the optional statistics and debugging code.  Memory is explicit: block headers and bytes by address, and
  the areas that \<open>get_mem\<close> has handed out, with their sizes; address 0 is \<open>NULL\<close>.  \<open>size_t\<close> is a 64-bit word.  A result \<open>None\<close>
  is an index out of the bounds of the pool's arrays or a shift by an amount that C does not allow.
\<close>

section \<open>tlsf\_int.h\<close>

definition MEM_ALIGN :: nat where "MEM_ALIGN = 16"
definition MEM_ALIGN_MASK :: u64 where "MEM_ALIGN_MASK = NOT (word_of_nat (MEM_ALIGN - 1))"
definition TLSF_MAX_FLI :: nat where "TLSF_MAX_FLI = 30"
definition MAX_LOG2_SLI :: nat where "MAX_LOG2_SLI = 5"
definition MAX_SLI :: nat where "MAX_SLI = 2 ^ MAX_LOG2_SLI"
definition FLI_OFFSET :: nat where "FLI_OFFSET = 6"
definition SMALL_BLOCK :: nat where "SMALL_BLOCK = 128"
definition REAL_FLI :: nat where "REAL_FLI = TLSF_MAX_FLI - FLI_OFFSET"

text \<open>\<open>struct bhdr\<close> has 32 bytes, of which the last 16 are the two pointers of a free block.\<close>

definition MIN_BLOCK_SIZE :: nat where "MIN_BLOCK_SIZE = 16"
definition sizeof_bhdr :: nat where "sizeof_bhdr = 32"
definition BHDR_OVERHEAD :: nat where "BHDR_OVERHEAD = sizeof_bhdr - MIN_BLOCK_SIZE"
definition PTR_MASK :: nat where "PTR_MASK = 7"
definition BLOCK_SIZE_MASK :: u32 where "BLOCK_SIZE_MASK = 0xFFFFFFFF - word_of_nat PTR_MASK"
definition PREV_STATE :: u32 where "PREV_STATE = 2"
definition FREE_BLOCK :: u32 where "FREE_BLOCK = 1"
definition USED_BLOCK :: u32 where "USED_BLOCK = 0"
definition TLSF_PREV_FREE :: u32 where "TLSF_PREV_FREE = 2"
definition TLSF_PREV_USED :: u32 where "TLSF_PREV_USED = 0"

lemmas tlsf_consts = MEM_ALIGN_def TLSF_MAX_FLI_def MAX_LOG2_SLI_def MAX_SLI_def FLI_OFFSET_def SMALL_BLOCK_def
  REAL_FLI_def MIN_BLOCK_SIZE_def sizeof_bhdr_def BHDR_OVERHEAD_def PTR_MASK_def kernel_consts

definition ROUNDUP_SIZE :: "u64 \<Rightarrow> u64" where
  "ROUNDUP_SIZE r = (r + word_of_nat MEM_ALIGN - 1) AND MEM_ALIGN_MASK"

definition ROUNDDOWN_SIZE :: "u64 \<Rightarrow> u64" where
  "ROUNDDOWN_SIZE r = r AND MEM_ALIGN_MASK"

definition ROUNDUP_PAGE :: "u64 \<Rightarrow> u64" where
  "ROUNDUP_PAGE r = (r + word_of_nat PAGE_SIZE - 1) AND NOT (word_of_nat (PAGE_SIZE - 1))"

type_synonym addr = nat

record bhdr =
  prev_hdr :: addr
  b_size :: u32
  ptr_prev :: addr
  ptr_next :: addr

record tlsf_pool =
  fl_bitmap :: u32
  sl_bitmap :: "u32 list"
  matrix :: "addr list list"
  init_size :: u64
  max_size :: u64
  grow_size :: u64
  used_size :: u64
  num_regions :: u64
  init_region :: addr
  pool_name :: string

record tmem =
  t_hdr :: "addr \<Rightarrow> bhdr"
  t_byte :: "addr \<Rightarrow> u8"
  t_areas :: "addr \<Rightarrow> nat option"

type_synonym get_memory = "tmem \<Rightarrow> u64 \<Rightarrow> addr option"
type_synonym tstate = "tlsf_pool \<times> tmem"

definition upd_hdr :: "addr \<Rightarrow> (bhdr \<Rightarrow> bhdr) \<Rightarrow> tmem \<Rightarrow> tmem" where
  "upd_hdr a f m = m\<lparr>t_hdr := (t_hdr m)(a := f (t_hdr m a))\<rparr>"

text \<open>The size of a block without its two state bits.\<close>

definition blk_size :: "tmem \<Rightarrow> addr \<Rightarrow> u32" where
  "blk_size m b = b_size (t_hdr m b) AND BLOCK_SIZE_MASK"

text \<open>\<open>GET_NEXT_BLOCK(b->ptr.buffer, r)\<close>.\<close>

definition GET_NEXT_BLOCK :: "addr \<Rightarrow> nat \<Rightarrow> addr" where
  "GET_NEXT_BLOCK b r = b + BHDR_OVERHEAD + r"

section \<open>Finding the free list\<close>

text \<open>\<open>fls\<close> and \<open>ffs\<close> of the kernel: the last and the first bit set, counted from 1, or 0.\<close>

fun bit_length :: "nat \<Rightarrow> nat" where
  "bit_length n = (if n = 0 then 0 else Suc (bit_length (n div 2)))"

declare bit_length.simps [simp del]

definition fls :: "nat \<Rightarrow> nat" where "fls n = bit_length (trunc32 n)"

definition ffs32 :: "u32 \<Rightarrow> nat" where
  "ffs32 w = (case find (bit w) [0..<32] of None \<Rightarrow> 0 | Some i \<Rightarrow> Suc i)"

definition MAPPING_SEARCH :: "nat \<Rightarrow> (nat \<times> nat \<times> nat) option" where
  "MAPPING_SEARCH r =
     (if r < SMALL_BLOCK then Some (r, 0, r div (SMALL_BLOCK div MAX_SLI))
      else if fls r < 1 + MAX_LOG2_SLI then None
      else
        let t = 2 ^ (fls r - 1 - MAX_LOG2_SLI) - 1;
            r = (r + t) mod 2 ^ 64;
            fl = fls r - 1
        in if fls r < 1 + MAX_LOG2_SLI then None
           else
             let sl = trunc32 (r div 2 ^ (fl - MAX_LOG2_SLI) - MAX_SLI);
                 fl = fl - FLI_OFFSET;
                 r = r - r mod (t + 1)
             in Some (r, fl, sl))"

text \<open>Only called with block sizes, which have 32 bits.\<close>

definition MAPPING_INSERT :: "nat \<Rightarrow> nat \<times> nat" where
  "MAPPING_INSERT r =
     (if r < SMALL_BLOCK then (0, r div (SMALL_BLOCK div MAX_SLI))
      else let fl = fls r - 1; sl = r div 2 ^ (fl - MAX_LOG2_SLI) - MAX_SLI in (fl - FLI_OFFSET, sl))"

definition sl_bitmap_at :: "tlsf_pool \<Rightarrow> nat \<Rightarrow> u32 option" where
  "sl_bitmap_at p fl = (if fl < length (sl_bitmap p) then Some (sl_bitmap p ! fl) else None)"

definition matrix_at :: "tlsf_pool \<Rightarrow> nat \<Rightarrow> nat \<Rightarrow> addr option" where
  "matrix_at p fl sl =
     (if fl < length (matrix p) \<and> sl < length (matrix p ! fl) then Some (matrix p ! fl ! sl) else None)"

definition set_matrix :: "nat \<Rightarrow> nat \<Rightarrow> addr \<Rightarrow> tlsf_pool \<Rightarrow> tlsf_pool" where
  "set_matrix fl sl b p = p\<lparr>matrix := (matrix p)[fl := (matrix p ! fl)[sl := b]]\<rparr>"

definition FIND_SUITABLE_BLOCK :: "tlsf_pool \<Rightarrow> nat \<Rightarrow> nat \<Rightarrow> (addr \<times> nat \<times> nat) option" where
  "FIND_SUITABLE_BLOCK p fl sl = do {
     bm \<leftarrow> (if sl < 32 then sl_bitmap_at p fl else None);
     let tmp = bm AND push_bit sl (- 1);
     if tmp \<noteq> 0
     then do { let sl = ffs32 tmp - 1; b \<leftarrow> matrix_at p fl sl; Some (b, fl, sl) }
     else do {
       let n = ffs32 (fl_bitmap p AND push_bit (fl + 1) (- 1));
       if n > 1
       then do {
         let fl = n - 1;
         bm \<leftarrow> sl_bitmap_at p fl;
         if bm = 0 then None
         else do { let sl = ffs32 bm - 1; b \<leftarrow> matrix_at p fl sl; Some (b, fl, sl) } }
       else Some (0, n - 1, sl) } }"

section \<open>Free lists\<close>

definition set_bits :: "nat \<Rightarrow> nat \<Rightarrow> tlsf_pool \<Rightarrow> tlsf_pool" where
  "set_bits fl sl p = p\<lparr>sl_bitmap := (sl_bitmap p)[fl := sl_bitmap p ! fl OR push_bit sl 1],
     fl_bitmap := fl_bitmap p OR push_bit fl 1\<rparr>"

definition clear_bits :: "nat \<Rightarrow> nat \<Rightarrow> tlsf_pool \<Rightarrow> tlsf_pool" where
  "clear_bits fl sl p =
     (let p = p\<lparr>sl_bitmap := (sl_bitmap p)[fl := sl_bitmap p ! fl AND NOT (push_bit sl 1)]\<rparr>
      in if sl_bitmap p ! fl = 0 then p\<lparr>fl_bitmap := fl_bitmap p AND NOT (push_bit fl 1)\<rparr> else p)"

definition no_links :: "addr \<Rightarrow> tmem \<Rightarrow> tmem" where
  "no_links b = upd_hdr b (\<lambda>h. h\<lparr>ptr_prev := 0, ptr_next := 0\<rparr>)"

definition EXTRACT_BLOCK_HDR :: "addr \<Rightarrow> nat \<Rightarrow> nat \<Rightarrow> tstate \<Rightarrow> tstate option" where
  "EXTRACT_BLOCK_HDR b fl sl = (\<lambda>(p, m). do {
     _ \<leftarrow> matrix_at p fl sl;
     let p = set_matrix fl sl (ptr_next (t_hdr m b)) p;
     let first = matrix p ! fl ! sl;
     let (p, m) = (if first \<noteq> 0 then (p, upd_hdr first (\<lambda>h. h\<lparr>ptr_prev := 0\<rparr>) m) else (clear_bits fl sl p, m));
     Some (p, no_links b m) })"

definition EXTRACT_BLOCK :: "addr \<Rightarrow> nat \<Rightarrow> nat \<Rightarrow> tstate \<Rightarrow> tstate option" where
  "EXTRACT_BLOCK b fl sl = (\<lambda>(p, m). do {
     let m = (if ptr_next (t_hdr m b) \<noteq> 0
       then upd_hdr (ptr_next (t_hdr m b)) (\<lambda>h. h\<lparr>ptr_prev := ptr_prev (t_hdr m b)\<rparr>) m else m);
     let m = (if ptr_prev (t_hdr m b) \<noteq> 0
       then upd_hdr (ptr_prev (t_hdr m b)) (\<lambda>h. h\<lparr>ptr_next := ptr_next (t_hdr m b)\<rparr>) m else m);
     first \<leftarrow> matrix_at p fl sl;
     let p = (if first = b
       then let p = set_matrix fl sl (ptr_next (t_hdr m b)) p
            in if matrix p ! fl ! sl = 0 then clear_bits fl sl p else p
       else p);
     Some (p, no_links b m) })"

definition INSERT_BLOCK :: "addr \<Rightarrow> nat \<Rightarrow> nat \<Rightarrow> tstate \<Rightarrow> tstate option" where
  "INSERT_BLOCK b fl sl = (\<lambda>(p, m). do {
     first \<leftarrow> matrix_at p fl sl;
     let m = upd_hdr b (\<lambda>h. h\<lparr>ptr_prev := 0, ptr_next := first\<rparr>) m;
     let m = (if first \<noteq> 0 then upd_hdr first (\<lambda>h. h\<lparr>ptr_prev := b\<rparr>) m else m);
     let p = set_matrix fl sl b p;
     Some (set_bits fl sl p, m) })"

text \<open>The list a block belongs to by its size.\<close>

definition insert_by_size :: "addr \<Rightarrow> tstate \<Rightarrow> tstate option" where
  "insert_by_size b = (\<lambda>(p, m). let (fl, sl) = MAPPING_INSERT (unat (blk_size m b)) in INSERT_BLOCK b fl sl (p, m))"

definition extract_by_size :: "addr \<Rightarrow> tstate \<Rightarrow> tstate option" where
  "extract_by_size b = (\<lambda>(p, m). let (fl, sl) = MAPPING_INSERT (unat (blk_size m b)) in EXTRACT_BLOCK b fl sl (p, m))"

section \<open>Regions\<close>

definition ADD_REGION :: "addr \<Rightarrow> u64 \<Rightarrow> tstate \<Rightarrow> tstate option" where
  "ADD_REGION region region_size = (\<lambda>(p, m). do {
     let b = region;
     let size = (ucast (ROUNDDOWN_SIZE (region_size - 2 * word_of_nat BHDR_OVERHEAD)) OR FREE_BLOCK) OR TLSF_PREV_USED;
     let m = upd_hdr b (\<lambda>h. h\<lparr>prev_hdr := 0, b_size := size\<rparr>) m;
     (p, m) \<leftarrow> insert_by_size b (p, m);
     let lb = GET_NEXT_BLOCK b (unat (blk_size m b));
     let m = upd_hdr lb (\<lambda>h. h\<lparr>prev_hdr := b, b_size := (0 OR USED_BLOCK) OR TLSF_PREV_FREE\<rparr>) m;
     Some (p\<lparr>used_size := used_size p + word_of_nat BHDR_OVERHEAD, num_regions := num_regions p + 1\<rparr>, m) })"

definition take_area :: "addr \<Rightarrow> u64 \<Rightarrow> tmem \<Rightarrow> tmem" where
  "take_area a n m = m\<lparr>t_areas := (t_areas m)(a \<mapsto> unat n)\<rparr>"

definition put_mem :: "addr \<Rightarrow> tmem \<Rightarrow> tmem" where
  "put_mem a m = m\<lparr>t_areas := (t_areas m)(a := None)\<rparr>"

section \<open>Pools\<close>

text \<open>\<open>sizeof(struct pool)\<close> on a 64-bit machine with a spinlock of four bytes.\<close>

definition sizeof_pool :: u64 where "sizeof_pool = 6352"

definition empty_pool :: tlsf_pool where
  "empty_pool = \<lparr>fl_bitmap = 0, sl_bitmap = replicate REAL_FLI 0, matrix = replicate REAL_FLI (replicate MAX_SLI 0),
     init_size = 0, max_size = 0, grow_size = 0, used_size = 0, num_regions = 0, init_region = 0, pool_name = []\<rparr>"

text \<open>
  The address of the pool is kept beside it; \<open>pools\<close> is the list of all pools.  The outer \<open>None\<close> is the
  \<open>BUG_ON\<close>, the inner one the result \<open>NULL\<close>.
\<close>

definition tlsf_create_memory_pool ::
  "get_memory \<Rightarrow> string \<Rightarrow> u64 \<Rightarrow> u64 \<Rightarrow> u64 \<Rightarrow> addr list \<times> tmem
     \<Rightarrow> ((addr \<times> tlsf_pool) option \<times> addr list \<times> tmem) option" where
  "tlsf_create_memory_pool get_mem name isz msz gsz = (\<lambda>(pools, m).
     if msz \<noteq> 0 \<and> msz < isz then None
     else (case get_mem m (ROUNDUP_SIZE sizeof_pool) of
        None \<Rightarrow> Some (None, pools, m)
      | Some pool \<Rightarrow>
          let m = take_area pool (ROUNDUP_SIZE sizeof_pool) m;
              isz = ROUNDUP_PAGE isz; msz = ROUNDUP_PAGE msz; gsz = ROUNDUP_PAGE gsz;
              p = empty_pool\<lparr>used_size := 0, init_size := isz, max_size := msz, grow_size := gsz,
                    pool_name := take 15 name\<rparr>
          in (case get_mem m isz of
                None \<Rightarrow> Some (None, pools, put_mem pool m)
              | Some region \<Rightarrow> do {
                  let m = take_area region isz m;
                  (p, m) \<leftarrow> ADD_REGION region isz (p, m);
                  Some (Some (pool, p\<lparr>init_region := region\<rparr>), pools @ [pool], m) })))"

definition tlsf_get_used_size :: "tlsf_pool \<Rightarrow> u64" where
  "tlsf_get_used_size p = used_size p"

definition tlsf_get_total_size :: "tlsf_pool \<Rightarrow> u64" where
  "tlsf_get_total_size p = ROUNDUP_SIZE sizeof_pool + init_size p + (num_regions p - 1) * grow_size p"

definition tlsf_destroy_memory_pool ::
  "(addr \<times> tlsf_pool) option \<Rightarrow> addr list \<times> tmem \<Rightarrow> addr list \<times> tmem" where
  "tlsf_destroy_memory_pool mem_pool = (\<lambda>(pools, m).
     (case mem_pool of None \<Rightarrow> (pools, m)
      | Some (pool, p) \<Rightarrow>
          let m = (if tlsf_get_used_size p = word_of_nat BHDR_OVERHEAD then put_mem (init_region p) m else m)
          in (remove1 pool pools, put_mem pool m)))"

section \<open>Allocation\<close>

datatype search = Found addr nat nat u64 | No_Block

text \<open>From label \<open>retry_find\<close> to the block; every round that does not end the search adds a region.\<close>

partial_function (option) tlsf_search :: "get_memory \<Rightarrow> u64 \<Rightarrow> tstate \<Rightarrow> (search \<times> tstate) option" where
  "tlsf_search get_mem sz s = do {
     let (p, m) = s;
     (r, fl, sl) \<leftarrow> MAPPING_SEARCH (unat sz);
     let sz = word_of_nat r;
     (b, fl, sl) \<leftarrow> FIND_SUITABLE_BLOCK p fl sl;
     if b \<noteq> 0 then Some (Found b fl sl sz, p, m)
     else if sz > grow_size p - 2 * word_of_nat BHDR_OVERHEAD then Some (No_Block, p, m)
     else if max_size p \<noteq> 0 \<and> init_size p + num_regions p * grow_size p > max_size p then Some (No_Block, p, m)
     else (case get_mem m (grow_size p) of
         None \<Rightarrow> Some (No_Block, p, m)
       | Some region \<Rightarrow> do {
           s \<leftarrow> ADD_REGION region (grow_size p) (p, take_area region (grow_size p) m);
           tlsf_search get_mem sz s }) }"

text \<open>Splitting the block \<open>b\<close> that was taken off its list.\<close>

definition tlsf_take :: "addr \<Rightarrow> u64 \<Rightarrow> tstate \<Rightarrow> tstate option" where
  "tlsf_take b sz = (\<lambda>(p, m). do {
     let next_b = GET_NEXT_BLOCK b (unat (blk_size m b));
     let tmp_size = ucast (blk_size m b) - sz;
     (p, m) \<leftarrow>
       (if tmp_size \<ge> word_of_nat sizeof_bhdr
        then do {
          let tmp_size = tmp_size - word_of_nat BHDR_OVERHEAD;
          let b2 = GET_NEXT_BLOCK b (unat sz);
          let m = upd_hdr b2 (\<lambda>h. h\<lparr>b_size := ucast ((tmp_size OR ucast FREE_BLOCK) OR ucast TLSF_PREV_USED), prev_hdr := b\<rparr>) m;
          let m = upd_hdr next_b (\<lambda>h. h\<lparr>prev_hdr := b2\<rparr>) m;
          let (fl, sl) = MAPPING_INSERT (unat tmp_size);
          (p, m) \<leftarrow> INSERT_BLOCK b2 fl sl (p, m);
          Some (p, upd_hdr b (\<lambda>h. h\<lparr>b_size := ucast (sz OR ucast (b_size h AND PREV_STATE))\<rparr>) m) }
        else
          let m = upd_hdr next_b (\<lambda>h. h\<lparr>b_size := b_size h AND NOT TLSF_PREV_FREE\<rparr>) m
          in Some (p, upd_hdr b (\<lambda>h. h\<lparr>b_size := b_size h AND NOT FREE_BLOCK\<rparr>) m));
     Some (p\<lparr>used_size := used_size p + (ucast (blk_size m b) + word_of_nat BHDR_OVERHEAD)\<rparr>, m) })"

text \<open>The result 0 is \<open>NULL\<close>; otherwise it is the address behind the header.\<close>

definition tlsf_malloc :: "get_memory \<Rightarrow> u64 \<Rightarrow> tstate \<Rightarrow> (addr \<times> tstate) option" where
  "tlsf_malloc get_mem req s = do {
     let sz = (if req < word_of_nat MIN_BLOCK_SIZE then word_of_nat MIN_BLOCK_SIZE else ROUNDUP_SIZE req);
     (r, s) \<leftarrow> tlsf_search get_mem sz s;
     case r of
       No_Block \<Rightarrow> Some (0, s)
     | Found b fl sl sz \<Rightarrow> do {
         s \<leftarrow> EXTRACT_BLOCK_HDR b fl sl s;
         s \<leftarrow> tlsf_take b sz s;
         Some (b + BHDR_OVERHEAD, s) } }"

definition tlsf_calloc :: "get_memory \<Rightarrow> u64 \<Rightarrow> u64 \<Rightarrow> tstate \<Rightarrow> (addr \<times> tstate) option" where
  "tlsf_calloc get_mem nelem elem_size s =
     (if nelem = 0 \<or> elem_size = 0 then Some (0, s)
      else do {
        (ptr, p, m) \<leftarrow> tlsf_malloc get_mem (nelem * elem_size) s;
        if ptr = 0 then Some (0, p, m)
        else Some (ptr, p, m\<lparr>t_byte := (\<lambda>a. if ptr \<le> a \<and> a < ptr + unat (nelem * elem_size) then 0 else t_byte m a)\<rparr>) })"

section \<open>Freeing\<close>

definition merge_next_block :: "addr \<Rightarrow> tstate \<Rightarrow> tstate option" where
  "merge_next_block b = (\<lambda>(p, m). do {
     let tmp_b = GET_NEXT_BLOCK b (unat (blk_size m b));
     if b_size (t_hdr m tmp_b) AND FREE_BLOCK \<noteq> 0
     then do {
       (p, m) \<leftarrow> extract_by_size tmp_b (p, m);
       Some (p, upd_hdr b (\<lambda>h. h\<lparr>b_size := b_size h + (blk_size m tmp_b + word_of_nat BHDR_OVERHEAD)\<rparr>) m) }
     else Some (p, m) })"

definition merge_prev_block :: "addr \<Rightarrow> tstate \<Rightarrow> (addr \<times> tstate) option" where
  "merge_prev_block b = (\<lambda>(p, m).
     if b_size (t_hdr m b) AND TLSF_PREV_FREE \<noteq> 0
     then do {
       let tmp_b = prev_hdr (t_hdr m b);
       (p, m) \<leftarrow> extract_by_size tmp_b (p, m);
       Some (tmp_b, p, upd_hdr tmp_b (\<lambda>h. h\<lparr>b_size := b_size h + (blk_size m b + word_of_nat BHDR_OVERHEAD)\<rparr>) m) }
     else Some (b, p, m))"

definition tlsf_free :: "addr \<Rightarrow> tstate \<Rightarrow> tstate option" where
  "tlsf_free ptr = (\<lambda>(p, m).
     if ptr = 0 then Some (p, m)
     else do {
       let b = ptr - BHDR_OVERHEAD;
       let m = upd_hdr b (\<lambda>h. h\<lparr>b_size := b_size h OR FREE_BLOCK\<rparr>) m;
       let p = p\<lparr>used_size := used_size p - (ucast (blk_size m b) + word_of_nat BHDR_OVERHEAD)\<rparr>;
       let m = no_links b m;
       (p, m) \<leftarrow> merge_next_block b (p, m);
       (b, p, m) \<leftarrow> merge_prev_block b (p, m);
       let tmp_b = GET_NEXT_BLOCK b (unat (blk_size m b));
       let m = upd_hdr tmp_b (\<lambda>h. h\<lparr>prev_hdr := b\<rparr>) m;
       if prev_hdr (t_hdr m b) = 0 \<and> blk_size m tmp_b = 0
       then Some (p\<lparr>num_regions := num_regions p - 1, used_size := used_size p - word_of_nat BHDR_OVERHEAD\<rparr>, put_mem b m)
       else do {
         (p, m) \<leftarrow> insert_by_size b (p, m);
         let m = upd_hdr tmp_b (\<lambda>h. h\<lparr>b_size := b_size h OR TLSF_PREV_FREE\<rparr>) m;
         Some (p, upd_hdr tmp_b (\<lambda>h. h\<lparr>prev_hdr := b\<rparr>) m) } })"

end
