(* ===== verification/Tlsf_Find.thy ===== *)
theory Tlsf_Find
  imports Tlsf
begin

text \<open>
  The size classes of TLSF and the search of a free list: what \<open>MAPPING_SEARCH\<close> and \<open>MAPPING_INSERT\<close>
  promise each other, the bitmap search against the order of the classes, and the retry loop.
\<close>

unbundle bit_operations_syntax

section \<open>Logarithms\<close>

lemma bit_length_eq: "2 ^ k \<le> n \<Longrightarrow> n < 2 ^ Suc k \<Longrightarrow> bit_length n = Suc k"
proof (induction k arbitrary: n)
  case 0
  then have "n = Suc 0" by simp
  then show ?case by (simp add: bit_length.simps [of "Suc 0"] bit_length.simps [of 0])
next
  case (Suc k)
  have "2 ^ k \<le> n div 2" "n div 2 < 2 ^ Suc k" using Suc.prems by auto
  moreover have "n \<noteq> 0" using Suc.prems(1) by (metis le_zero_eq power_not_zero zero_neq_numeral)
  ultimately show ?case using Suc.IH by (simp add: bit_length.simps [of n])
qed

lemma log_exists:
  assumes "0 < (n :: nat)"
  obtains k where "2 ^ k \<le> n" and "n < 2 ^ Suc k"
proof -
  have "\<exists>k. 2 ^ k \<le> n \<and> n < 2 ^ Suc k" using ex_power_ivl1 [of 2 n] assms by auto
  with that show thesis by blast
qed

lemma fls_eq: "2 ^ k \<le> n \<Longrightarrow> n < 2 ^ Suc k \<Longrightarrow> k < 32 \<Longrightarrow> fls n = Suc k"
proof -
  assume n: "2 ^ k \<le> n" "n < 2 ^ Suc k" and k: "k < 32"
  have "n < 2 ^ 32" using n(2) k by (metis Suc_leI less_le_trans one_less_numeral_iff power_increasing_iff semiring_norm(76))
  then show ?thesis using bit_length_eq [OF n] by (simp add: fls_def)
qed

section \<open>Classes\<close>

text \<open>The smallest size of the class \<open>(fl, sl)\<close>, and the order in which classes are searched.\<close>

definition class_lower :: "nat \<Rightarrow> nat \<Rightarrow> nat" where
  "class_lower fl sl = (if fl = 0 then 4 * sl else (32 + sl) * 2 ^ (fl + 1))"

definition class_le :: "nat \<times> nat \<Rightarrow> nat \<times> nat \<Rightarrow> bool" where
  "class_le = (\<lambda>(a, b) (c, d). a < c \<or> a = c \<and> b \<le> d)"

lemma class_lower_step: "class_lower fl 32 = class_lower (Suc fl) 0"
  by (simp add: class_lower_def)

lemma class_lower_mono: "sl \<le> sl' \<Longrightarrow> class_lower fl sl \<le> class_lower fl sl'"
  by (simp add: class_lower_def)

lemma class_lower_fl: "fl \<le> fl' \<Longrightarrow> class_lower fl 0 \<le> class_lower fl' 0"
proof (induction fl' rule: dec_induct)
  case (step n)
  have "class_lower n 0 \<le> class_lower n 32" by (rule class_lower_mono) simp
  with step.IH show ?case by (simp add: class_lower_step)
qed simp

lemma class_lower_less:
  assumes "sl < 32" and "\<not> class_le (fl', sl') (fl, sl)"
  shows "class_lower fl (Suc sl) \<le> class_lower fl' sl'"
proof (cases "fl = fl'")
  case True
  with assms(2) show ?thesis by (simp add: class_le_def class_lower_mono)
next
  case False
  then have "Suc fl \<le> fl'" using assms(2) by (auto simp: class_le_def)
  have "class_lower fl (Suc sl) \<le> class_lower fl 32" using assms(1) by (intro class_lower_mono) simp
  also have "\<dots> \<le> class_lower fl' 0" unfolding class_lower_step using \<open>Suc fl \<le> fl'\<close> by (rule class_lower_fl)
  also have "\<dots> \<le> class_lower fl' sl'" by (rule class_lower_mono) simp
  finally show ?thesis .
qed

lemma class_lower_le: "class_le (fl, sl) (fl', sl') \<Longrightarrow> sl < 32 \<Longrightarrow> class_lower fl sl \<le> class_lower fl' sl'"
  using class_lower_less [of sl fl' sl' fl] class_lower_mono [of sl "Suc sl" fl]
  by (cases "fl = fl'") (auto simp: class_le_def intro: class_lower_mono le_trans)

text \<open>A class of the second kind, read off a number between two powers of two.\<close>

lemma class_of:
  assumes "2 ^ k \<le> n" and "n < 2 ^ Suc k" and "7 \<le> k"
  shows "n div 2 ^ (k - 5) - 32 < 32" and "class_lower (k - 6) (n div 2 ^ (k - 5) - 32) = n div 2 ^ (k - 5) * 2 ^ (k - 5)"
proof -
  have p: "(2 :: nat) ^ k = 32 * 2 ^ (k - 5)" "(2 :: nat) ^ Suc k = 64 * 2 ^ (k - 5)"
    using assms(3) power_add [of "2 :: nat" 5 "k - 5"] by simp_all
  have lo: "32 \<le> n div 2 ^ (k - 5)" using assms(1) p(1) by (simp add: less_eq_div_iff_mult_less_eq)
  have hi: "n div 2 ^ (k - 5) < 64" using assms(2) p(2) by (simp add: div_less_iff_less_mult)
  from lo hi show "n div 2 ^ (k - 5) - 32 < 32" by linarith
  have "k - 6 + 1 = k - 5" "k - 6 \<noteq> 0" using assms(3) by linarith+
  with lo show "class_lower (k - 6) (n div 2 ^ (k - 5) - 32) = n div 2 ^ (k - 5) * 2 ^ (k - 5)"
    by (simp add: class_lower_def)
qed

lemma mapping_insert_small: "n < 128 \<Longrightarrow> MAPPING_INSERT n = (0, n div 4)"
  by (simp add: MAPPING_INSERT_def tlsf_consts)

lemma mapping_insert_large:
  assumes "2 ^ k \<le> n" and "n < 2 ^ Suc k" and "7 \<le> k" and "k < 32"
  shows "MAPPING_INSERT n = (k - 6, n div 2 ^ (k - 5) - 32)"
proof -
  have "(128 :: nat) = 2 ^ 7" by simp
  also have "\<dots> \<le> 2 ^ k" using assms(3) by (rule power_increasing) simp
  also have "\<dots> \<le> n" by (rule assms(1))
  finally show ?thesis using fls_eq [OF assms(1,2,4)] by (simp add: MAPPING_INSERT_def tlsf_consts Let_def)
qed

lemma large_log:
  assumes "128 \<le> (n :: nat)" and "n < 2 ^ b"
  obtains k where "2 ^ k \<le> n" and "n < 2 ^ Suc k" and "7 \<le> k" and "k < b"
proof -
  obtain k where k: "2 ^ k \<le> n" "n < 2 ^ Suc k" using log_exists [of n] assms(1) by auto
  have "(2 :: nat) ^ 7 < 2 ^ Suc k" using assms(1) k(2) by simp
  then have "7 < Suc k" by (rule power_less_imp_less_exp [rotated]) simp
  moreover have "(2 :: nat) ^ k < 2 ^ b" using k(1) assms(2) by (rule le_less_trans)
  then have "k < b" by (rule power_less_imp_less_exp [rotated]) simp
  ultimately show thesis using that k by simp
qed

text \<open>The class of a block holds sizes from its smallest to the smallest of the next class.\<close>

lemma mapping_insert_class:
  assumes "n < 2 ^ 32"
  obtains fl sl where "MAPPING_INSERT n = (fl, sl)" and "sl < 32" and "class_lower fl sl \<le> n" and "n < class_lower fl (Suc sl)"
    and "n < 2 ^ 30 \<Longrightarrow> fl < 24"
proof (cases "n < 128")
  case True
  then show thesis using that [of 0 "n div 4"] by (simp add: mapping_insert_small class_lower_def)
next
  case False
  then obtain k where k: "2 ^ k \<le> n" "n < 2 ^ Suc k" "7 \<le> k" "k < 32" using large_log [OF _ assms] by auto
  note c = class_of [OF k(1-3)]
  let ?sl = "n div 2 ^ (k - 5) - 32"
  have "class_lower (k - 6) (Suc ?sl) = class_lower (k - 6) ?sl + 2 ^ (k - 5)"
  proof -
    have "k - 6 \<noteq> 0" "k - 6 + 1 = k - 5" using k(3) by linarith+
    then show ?thesis by (simp add: class_lower_def algebra_simps)
  qed
  moreover have "n < n div 2 ^ (k - 5) * 2 ^ (k - 5) + 2 ^ (k - 5)"
    using dividend_less_div_times [of "2 ^ (k - 5)" n] by (simp add: add.commute)
  ultimately have "n < class_lower (k - 6) (Suc ?sl)" using c(2) by simp
  moreover have "class_lower (k - 6) ?sl \<le> n" unfolding c(2) by simp
  moreover have "k - 6 < 24" if "n < 2 ^ 30"
  proof -
    have "(2 :: nat) ^ k < 2 ^ 30" using k(1) that by (rule le_less_trans)
    then have "k < 30" by (rule power_less_imp_less_exp [rotated]) simp
    then show ?thesis using k(3) by linarith
  qed
  ultimately show thesis using that mapping_insert_large [OF k] c(1) by blast
qed

lemma mapping_search_large:
  assumes small: "r + (2 ^ (k - 5) - 1) < 2 ^ 32" and "128 \<le> r" and "fls r = Suc k" and "5 \<le> k" and "fls (r + (2 ^ (k - 5) - 1)) = Suc k'" and "5 \<le> k'"
  shows "MAPPING_SEARCH r = Some (r + (2 ^ (k - 5) - 1) - (r + (2 ^ (k - 5) - 1)) mod 2 ^ (k - 5), k' - 6,
    (r + (2 ^ (k - 5) - 1)) div 2 ^ (k' - 5) - 32)"
proof -
  let ?r1 = "r + (2 ^ (k - 5) - 1)"
  have "trunc32 (?r1 div n - 32) = ?r1 div n - 32" for n
  proof (rule trunc32_id)
    have "?r1 div n - 32 \<le> ?r1" using div_le_dividend [of ?r1 n] by linarith
    also have "?r1 < 4294967296" using small by simp
    finally show "?r1 div n - 32 < 4294967296" .
  qed
  moreover have "?r1 mod 2 ^ 64 = ?r1" using small by (intro mod_less) simp
  ultimately show ?thesis using assms(2-)
    by (simp add: MAPPING_SEARCH_def tlsf_consts Let_def del: One_nat_def add_diff_assoc)
qed

lemma class_lower_dvd:
  assumes "2 ^ k \<le> class_lower fl sl" and "sl < 32" and "7 \<le> k"
  shows "2 ^ (k - 5) dvd class_lower fl sl"
proof -
  have "(2 :: nat) ^ 7 \<le> 2 ^ k" using assms(3) by (rule power_increasing) simp
  then have fl: "fl \<noteq> 0" using assms(1,2) by (cases "fl = 0") (simp_all add: class_lower_def)
  have "(32 + sl) * 2 ^ (fl + 1) < 64 * 2 ^ (fl + 1)" using assms(2) by (intro mult_strict_right_mono) simp_all
  also have "\<dots> = (2 :: nat) ^ (fl + 7)" by (simp add: power_add)
  finally have "class_lower fl sl < 2 ^ (fl + 7)" using fl by (simp add: class_lower_def)
  with assms(1) have "(2 :: nat) ^ k < 2 ^ (fl + 7)" by (rule le_less_trans)
  then have "k < fl + 7" by (rule power_less_imp_less_exp [rotated]) simp
  then have "(2 :: nat) ^ (k - 5) dvd 2 ^ (fl + 1)" by (intro le_imp_power_dvd) simp
  then show ?thesis using fl by (simp add: class_lower_def)
qed

text \<open>A request is rounded up to the smallest size of the class where the search starts.\<close>

lemma mapping_search_class:
  assumes "r \<le> 2 ^ 29" and "4 dvd r"
  obtains r' fl sl where "MAPPING_SEARCH r = Some (r', fl, sl)" and "fl < 24" and "sl < 32" and "r \<le> r'"
    and "r' = class_lower fl sl" and "r' \<le> r + r div 32" and "4 dvd r'" and "16 dvd r \<Longrightarrow> 16 dvd r'"
    and "\<And>f s. s < 32 \<Longrightarrow> r \<le> class_lower f s \<Longrightarrow> r' \<le> class_lower f s"
proof (cases "r < 128")
  case True
  then show thesis using that [of r 0 "r div 4"] assms(2)
    by (simp add: MAPPING_SEARCH_def tlsf_consts class_lower_def)
next
  case False
  then obtain k where k: "2 ^ k \<le> r" "r < 2 ^ Suc k" "7 \<le> k" "k < 30" using large_log [of r 30] assms(1) by auto
  have r128: "128 \<le> r" and k5: "5 \<le> k" using False k(3) by simp_all
  let ?q = "2 ^ (k - 5) :: nat"
  have p: "(2 :: nat) ^ k = 32 * ?q" "(2 :: nat) ^ Suc k = 64 * ?q"
    using k(3) power_add [of "2 :: nat" 5 "k - 5"] by simp_all
  have q: "0 < ?q" by simp
  have qr: "?q \<le> r div 32" using k(1) p(1) by simp
  let ?r1 = "r + (?q - 1)"
  have r1b: "?r1 < 2 ^ 32" using qr assms(1) by simp
  have f: "fls r = Suc k" using fls_eq [OF k(1,2)] k(4) by simp
  have r1mod: "?r1 - ?r1 mod ?q = ?r1 div ?q * ?q" by (simp add: minus_mod_eq_div_mult)
  have up: "r \<le> ?r1 div ?q * ?q" using dividend_less_div_times [OF q, of ?r1] by linarith
  have le: "?r1 div ?q * ?q \<le> r + r div 32" using qr div_times_less_eq_dividend [of ?r1 ?q] by linarith
  have "(2 :: nat) ^ 2 dvd ?q" using k(3) by (intro le_imp_power_dvd) simp
  then have d4: "4 dvd ?r1 div ?q * ?q" by simp
  have d16: "16 dvd ?r1 div ?q * ?q" if d: "16 dvd r"
  proof (cases "k - 5 \<le> 4")
    case True
    then have "(2 :: nat) ^ (k - 5) dvd 2 ^ 4" by (rule le_imp_power_dvd)
    then have "?q dvd 16" by simp
    from dvd_trans [OF this d] obtain c where c: "r = ?q * c" by blast
    have "?r1 div ?q = c" unfolding c
    proof (rule div_nat_eqI)
      show "?q * c \<le> ?q * c + (?q - 1)" by (rule le_add1)
      show "?q * c + (?q - 1) < ?q * Suc c" using q by (simp only: mult_Suc_right)
    qed
    then show ?thesis using d c by (simp add: mult.commute)
  next
    case False
    then have "(2 :: nat) ^ 4 dvd ?q" by (intro le_imp_power_dvd) simp
    then show ?thesis by simp
  qed
  have least: "?r1 div ?q * ?q \<le> class_lower f s" if "s < 32" "r \<le> class_lower f s" for f s
  proof -
    have "2 ^ k \<le> class_lower f s" using k(1) that(2) by (rule le_trans)
    from class_lower_dvd [OF this that(1) k(3)] obtain c where c: "class_lower f s = ?q * c" by blast
    have "?r1 < ?q * (c + 1)" using that(2) c q by (simp only: add_mult_distrib2 mult_1_right)
    then have "?r1 div ?q < c + 1" by (simp add: less_mult_imp_div_less mult.commute)
    then have "?r1 div ?q * ?q \<le> c * ?q" by (intro mult_right_mono) simp_all
    then show ?thesis using c by (simp add: mult.commute)
  qed
  show thesis
  proof (cases "?r1 < 2 ^ Suc k")
    case True
    have k1: "2 ^ k \<le> ?r1" using k(1) q by linarith
    have f1: "fls ?r1 = Suc k" using fls_eq [OF k1 True] k(4) by simp
    have ms: "MAPPING_SEARCH r = Some (?r1 div ?q * ?q, k - 6, ?r1 div ?q - 32)"
      using mapping_search_large [OF r1b r128 f k5 f1 k5] unfolding r1mod .
    have fl: "k - 6 < 24" using k(4) by linarith
    note c = class_of [OF k1 True k(3)]
    show thesis by (rule that [OF ms fl c(1) up c(2) [symmetric] le d4 d16 least])
  next
    case over: False
    have k1: "2 ^ Suc k \<le> ?r1" using over by simp
    have small: "?r1 < 2 ^ Suc k + ?q" using k(2) q by linarith
    then have k2: "?r1 < 2 ^ Suc (Suc k)" using p by simp
    have f1: "fls ?r1 = Suc (Suc k)" using fls_eq [OF k1 k2] k(4) by simp
    have "?r1 div ?q = 64"
    proof (rule div_nat_eqI)
      show "?q * 64 \<le> ?r1" using k1 p(2) by simp
      show "?r1 < ?q * Suc 64" using small p(2) by simp
    qed
    then have r': "?r1 div ?q * ?q = 2 ^ Suc k" using p(2) by simp
    have s: "Suc k - 5 = Suc (k - 5)" using k(3) by simp
    have "?r1 div 2 ^ (Suc k - 5) = ?r1 div ?q div 2" unfolding s power_Suc by (simp only: div_mult2_eq mult.commute [of 2])
    also have "\<dots> = 32" using \<open>?r1 div ?q = 64\<close> by simp
    finally have "?r1 div 2 ^ (Suc k - 5) - 32 = 0" by simp
    then have ms: "MAPPING_SEARCH r = Some (2 ^ Suc k, Suc k - 6, 0)"
      using mapping_search_large [OF r1b r128 f k5 f1 le_SucI [OF k5]] unfolding r1mod r' by (simp only:)
    have c: "class_lower (Suc k - 6) 0 = 2 ^ Suc k"
      using p(2) k(3) by (simp add: class_lower_def Suc_diff_le)
    have fl: "Suc k - 6 < 24"
    proof (rule ccontr)
      assume "\<not> ?thesis"
      then have "k = 29" using k(4) by linarith
      then show False using over assms(1) by simp
    qed
    show thesis by (rule that [OF ms fl _ up [unfolded r'] c [symmetric] le [unfolded r'] d4 [unfolded r'] d16 [unfolded r'] least [unfolded r']]) simp_all
  qed
qed
section \<open>The bitmaps\<close>

lemma ffs32_0: "ffs32 w = 0 \<longleftrightarrow> w = 0"
proof -
  have "find (bit w) [0..<32] = None \<longleftrightarrow> w = 0"
  proof
    assume "find (bit w) [0..<32] = None"
    then have "\<not> bit w i" if "i < 32" for i using that by (simp add: find_None_iff)
    then show "w = 0" by (intro bit_word_eqI) simp
  qed (simp add: find_None_iff)
  then show ?thesis by (auto simp: ffs32_def split: option.splits)
qed

lemma ffs32_bit:
  assumes "w \<noteq> 0"
  obtains i where "ffs32 w = Suc i" and "i < 32" and "bit w i" and "\<And>j. j < i \<Longrightarrow> \<not> bit w j"
proof -
  obtain i where i: "find (bit w) [0..<32] = Some i"
    using assms ffs32_0 [of w] by (cases "find (bit w) [0..<32]") (auto simp: ffs32_def)
  then obtain k where "k < 32" "bit w ([0..<32] ! k)" "i = [0..<32] ! k" "\<forall>j<k. \<not> bit w ([0..<32] ! j)"
    by (auto simp: find_Some_iff)
  then have "i < 32" "bit w i" "\<And>j. j < i \<Longrightarrow> \<not> bit w j" by auto
  moreover have "ffs32 w = Suc i" by (simp add: ffs32_def i)
  ultimately show thesis using that by blast
qed

text \<open>The lists marked in the two levels of bitmaps are those with \<open>P\<close>.\<close>

definition bits_ok :: "tlsf_pool \<Rightarrow> (nat \<times> nat \<Rightarrow> bool) \<Rightarrow> bool" where
  "bits_ok p P \<longleftrightarrow> length (sl_bitmap p) = 24
     \<and> (\<forall>i<24. \<forall>j<32. bit (sl_bitmap p ! i) j \<longleftrightarrow> P (i, j))
     \<and> (\<forall>i. bit (fl_bitmap p) i \<longleftrightarrow> i < 24 \<and> sl_bitmap p ! i \<noteq> 0)"

definition matrix_ok :: "tlsf_pool \<Rightarrow> bool" where
  "matrix_ok p \<longleftrightarrow> length (matrix p) = 24 \<and> (\<forall>i<24. length (matrix p ! i) = 32)"

lemma matrix_at_ok: "matrix_ok p \<Longrightarrow> fl < 24 \<Longrightarrow> sl < 32 \<Longrightarrow> matrix_at p fl sl = Some (matrix p ! fl ! sl)"
  by (simp add: matrix_at_def matrix_ok_def)

lemma sl_bitmap_at_ok: "bits_ok p P \<Longrightarrow> fl < 24 \<Longrightarrow> sl_bitmap_at p fl = Some (sl_bitmap p ! fl)"
  by (simp add: sl_bitmap_at_def bits_ok_def)

lemma sl_bitmap_0: "bits_ok p P \<Longrightarrow> i < 24 \<Longrightarrow> sl_bitmap p ! i = 0 \<longleftrightarrow> (\<forall>j<32. \<not> P (i, j))"
  by (auto simp: bits_ok_def intro!: bit_word_eqI)

lemma bit_from: "bit (w AND push_bit k (- 1) :: u32) i \<longleftrightarrow> bit w i \<and> k \<le> i"
  by (auto simp: bit_simps dest: bit_imp_le_length)

lemma bit_fl_bitmap: "bits_ok p P \<Longrightarrow> bit (fl_bitmap p) i \<longleftrightarrow> i < 24 \<and> (\<exists>j<32. P (i, j))"
  using sl_bitmap_0 [of p P i] by (auto simp: bits_ok_def)

text \<open>The search: the first marked list at or behind the class, or none.\<close>

definition first_list :: "(nat \<times> nat \<Rightarrow> bool) \<Rightarrow> nat \<times> nat \<Rightarrow> nat \<times> nat \<Rightarrow> bool" where
  "first_list P c d \<longleftrightarrow> class_le c d \<and> fst d < 24 \<and> snd d < 32 \<and> P d
     \<and> (\<forall>i<24. \<forall>j<32. class_le c (i, j) \<and> P (i, j) \<longrightarrow> class_le d (i, j))"

lemma find_suitable_block_cases:
  assumes b: "bits_ok p P" and m: "matrix_ok p" and c: "fl < 24" "sl < 32"
  obtains (found) fl' sl' where "first_list P (fl, sl) (fl', sl')"
      and "FIND_SUITABLE_BLOCK p fl sl = Some (matrix p ! fl' ! sl', fl', sl')"
    | (none) n where "FIND_SUITABLE_BLOCK p fl sl = Some (0, n)"
      and "\<And>i j. i < 24 \<Longrightarrow> j < 32 \<Longrightarrow> class_le (fl, sl) (i, j) \<Longrightarrow> \<not> P (i, j)"
proof -
  let ?t = "sl_bitmap p ! fl AND push_bit sl (- 1)" and ?u = "fl_bitmap p AND push_bit (fl + 1) (- 1)"
  have sl: "bit (sl_bitmap p ! i) j \<longleftrightarrow> P (i, j)" if "i < 24" "j < 32" for i j using b that by (simp add: bits_ok_def)
  show thesis
  proof (cases "?t = 0")
    case False
    obtain s where s: "ffs32 ?t = Suc s" "s < 32" "bit ?t s" "\<And>j. j < s \<Longrightarrow> \<not> bit ?t j" using ffs32_bit [OF False] by blast
    have "first_list P (fl, sl) (fl, s)"
      using s(2-4) c sl unfolding first_list_def bit_from class_le_def by (auto simp: not_less [symmetric])
    moreover have "FIND_SUITABLE_BLOCK p fl sl = Some (matrix p ! fl ! s, fl, s)"
      using False s(1,2) c by (simp add: FIND_SUITABLE_BLOCK_def sl_bitmap_at_ok [OF b] matrix_at_ok [OF m])
    ultimately show thesis by (rule found)
  next
    case t: True
    have row: "\<not> P (fl, j)" if "sl \<le> j" "j < 32" for j
    proof -
      have "\<not> bit ?t j" using t by simp
      then show ?thesis unfolding bit_from using that sl [OF c(1)] by simp
    qed
    show thesis
    proof (cases "?u = 0")
      case True
      then have z: "ffs32 ?u = 0" by (simp add: ffs32_0)
      have "\<not> P (i, j)" if "i < 24" "j < 32" "class_le (fl, sl) (i, j)" for i j
      proof (cases "i = fl")
        case False
        with that have "fl + 1 \<le> i" by (simp add: class_le_def)
        moreover have "\<not> bit ?u i" using True by simp
        ultimately show ?thesis using that(1,2) unfolding bit_from bit_fl_bitmap [OF b] by blast
      qed (use that row in \<open>simp add: class_le_def\<close>)
      moreover have "FIND_SUITABLE_BLOCK p fl sl = Some (0, 0 - 1, sl)"
        using t z c by (simp add: FIND_SUITABLE_BLOCK_def sl_bitmap_at_ok [OF b])
      ultimately show thesis by (rule none [rotated])
    next
      case False
      obtain f where f: "ffs32 ?u = Suc f" "f < 32" "bit ?u f" "\<And>j. j < f \<Longrightarrow> \<not> bit ?u j" using ffs32_bit [OF False] by blast
      have f2: "fl < f" "f < 24" "\<exists>j<32. P (f, j)"
        using f(3) unfolding bit_from bit_fl_bitmap [OF b] by simp_all
      have nz: "sl_bitmap p ! f \<noteq> 0" using sl_bitmap_0 [OF b f2(2)] f2(3) by blast
      obtain s where s: "ffs32 (sl_bitmap p ! f) = Suc s" "s < 32" "bit (sl_bitmap p ! f) s"
        "\<And>j. j < s \<Longrightarrow> \<not> bit (sl_bitmap p ! f) j" using ffs32_bit [OF nz] by blast
      have "class_le (f, s) (i, j)" if "i < 24" "j < 32" "class_le (fl, sl) (i, j)" "P (i, j)" for i j
      proof -
        have "fl \<noteq> i" using that row by (auto simp: class_le_def)
        with that(3) have "fl + 1 \<le> i" by (simp add: class_le_def)
        moreover have "bit (fl_bitmap p) i" using that by (auto simp: bit_fl_bitmap [OF b])
        ultimately have "bit ?u i" unfolding bit_from by blast
        then have "f \<le> i" using f(4) by (meson not_less)
        moreover have "s \<le> j" if "f = i" using s(4) sl \<open>i < 24\<close> \<open>j < 32\<close> \<open>P (i, j)\<close> that by (meson not_less)
        ultimately show ?thesis by (auto simp: class_le_def)
      qed
      with f2 s sl have "first_list P (fl, sl) (f, s)" by (simp add: first_list_def class_le_def)
      moreover have "FIND_SUITABLE_BLOCK p fl sl = Some (matrix p ! f ! s, f, s)"
        using t f(1) f2(1,2) s(1,2) nz c by (simp add: FIND_SUITABLE_BLOCK_def sl_bitmap_at_ok [OF b] matrix_at_ok [OF m])
      ultimately show thesis by (rule found)
    qed
  qed
qed

lemma bits_ok_set:
  assumes b: "bits_ok p P" and c: "fl < 24" "sl < 32"
  shows "bits_ok (set_bits fl sl p) (P((fl, sl) := True))"
proof -
  have l: "length (sl_bitmap p) = 24" using b by (simp add: bits_ok_def)
  have new: "bit (sl_bitmap p ! fl OR push_bit sl 1) j \<longleftrightarrow> bit (sl_bitmap p ! fl) j \<or> j = sl" if "j < 32" for j
    using that c(2) by (auto simp: bit_simps)
  have "sl_bitmap p ! fl OR push_bit sl 1 \<noteq> 0" using new [OF c(2)] by (metis bit_0_eq bot_apply bot_bool_def)
  moreover have "bit (fl_bitmap p OR push_bit fl 1) i \<longleftrightarrow> bit (fl_bitmap p) i \<or> i = fl" for i
    using c(1) by (auto simp: bit_simps dest: bit_imp_le_length)
  ultimately show ?thesis
    using b c l new by (auto simp: bits_ok_def set_bits_def nth_list_update)
qed

lemma clear_bits_simps:
  "sl_bitmap (clear_bits fl sl p) = (sl_bitmap p)[fl := sl_bitmap p ! fl AND NOT (push_bit sl 1)]"
  "fl < length (sl_bitmap p) \<Longrightarrow> fl_bitmap (clear_bits fl sl p) =
     (if sl_bitmap p ! fl AND NOT (push_bit sl 1) = 0 then fl_bitmap p AND NOT (push_bit fl 1) else fl_bitmap p)"
  by (simp_all add: clear_bits_def Let_def)

lemma bits_ok_clear:
  assumes b: "bits_ok p P" and c: "fl < 24" "sl < 32"
  shows "bits_ok (clear_bits fl sl p) (P((fl, sl) := False))"
proof -
  let ?w = "sl_bitmap p ! fl AND NOT (push_bit sl 1)"
  have l: "length (sl_bitmap p) = 24" using b by (simp add: bits_ok_def)
  have new: "bit ?w j \<longleftrightarrow> bit (sl_bitmap p ! fl) j \<and> j \<noteq> sl" if "j < 32" for j
    using that c(2) by (auto simp: bit_simps)
  have nz: "?w \<noteq> 0 \<Longrightarrow> sl_bitmap p ! fl \<noteq> 0" by auto
  have fl: "bit (fl_bitmap p AND NOT (push_bit fl 1)) i \<longleftrightarrow> bit (fl_bitmap p) i \<and> i \<noteq> fl" for i
    using c(1) by (auto simp: bit_simps dest: bit_imp_le_length)
  have "bit (fl_bitmap (clear_bits fl sl p)) i \<longleftrightarrow> i < 24 \<and> sl_bitmap (clear_bits fl sl p) ! i \<noteq> 0" for i
    using b c(1) l nz fl [of i] by (auto simp: bits_ok_def clear_bits_simps nth_list_update split: if_splits)
  moreover have "bit (sl_bitmap (clear_bits fl sl p) ! i) j \<longleftrightarrow> (P((fl, sl) := False)) (i, j)"
    if "i < 24" "j < 32" for i j
    using b c l that new by (auto simp: bits_ok_def clear_bits_simps nth_list_update)
  ultimately show ?thesis using l by (simp add: bits_ok_def clear_bits_simps)
qed
text \<open>The class of a block is at or behind another exactly when the block reaches its smallest size.\<close>

lemma class_le_iff:
  assumes "n < 2 ^ 32" and "sl < 32"
  shows "class_le (fl, sl) (MAPPING_INSERT n) \<longleftrightarrow> class_lower fl sl \<le> n"
proof -
  obtain f s where c: "MAPPING_INSERT n = (f, s)" "s < 32" "class_lower f s \<le> n" "n < class_lower f (Suc s)"
    using mapping_insert_class [OF assms(1)] by metis
  show ?thesis
  proof
    assume "class_le (fl, sl) (MAPPING_INSERT n)"
    then have "class_lower fl sl \<le> class_lower f s" using c(1) assms(2) by (intro class_lower_le) simp_all
    with c(3) show "class_lower fl sl \<le> n" by simp
  next
    assume le: "class_lower fl sl \<le> n"
    show "class_le (fl, sl) (MAPPING_INSERT n)"
    proof (rule ccontr)
      assume "\<not> class_le (fl, sl) (MAPPING_INSERT n)"
      then have "class_lower f (Suc s) \<le> class_lower fl sl" using c(1,2) by (intro class_lower_less) simp_all
      with c(4) le show False by simp
    qed
  qed
qed

lemma mapping_insert_range:
  assumes "n < 2 ^ 30"
  obtains fl sl where "MAPPING_INSERT n = (fl, sl)" and "fl < 24" and "sl < 32"
proof -
  have "n < 2 ^ 32" using assms by simp
  from mapping_insert_class [OF this] assms that show thesis by metis
qed

end
