(* ===== verification/Tlsf_Lists.thy ===== *)
theory Tlsf_Lists
  imports Tlsf_Find Dll
begin

text \<open>
  The free lists of TLSF: \<open>lists_ok p h S\<close> says that the list of class \<open>c\<close> is a doubly linked list of exactly
  the blocks \<open>S c\<close>, and that the bitmaps mark the lists that are not empty.  Inserting and extracting a
  block change one of the sets and no size, state bit or back pointer of a block.
\<close>

section \<open>What the list operations leave alone\<close>

definition same_blocks :: "tmem \<Rightarrow> tmem \<Rightarrow> bool" where
  "same_blocks m m' \<longleftrightarrow> t_byte m' = t_byte m \<and> t_areas m' = t_areas m
     \<and> (\<forall>x. b_size (t_hdr m' x) = b_size (t_hdr m x) \<and> prev_hdr (t_hdr m' x) = prev_hdr (t_hdr m x))"

definition same_params :: "tlsf_pool \<Rightarrow> tlsf_pool \<Rightarrow> bool" where
  "same_params p p' \<longleftrightarrow> init_size p' = init_size p \<and> max_size p' = max_size p \<and> grow_size p' = grow_size p
     \<and> used_size p' = used_size p \<and> num_regions p' = num_regions p \<and> init_region p' = init_region p"

lemma same_blocks_refl [simp]: "same_blocks m m" by (simp add: same_blocks_def)

lemma same_params_refl [simp]: "same_params p p" by (simp add: same_params_def)

lemma same_blocks_trans: "same_blocks m m' \<Longrightarrow> same_blocks m' m'' \<Longrightarrow> same_blocks m m''" by (simp add: same_blocks_def)

lemma same_params_trans: "same_params p p' \<Longrightarrow> same_params p' p'' \<Longrightarrow> same_params p p''" by (simp add: same_params_def)

lemma upd_hdr_apply: "t_hdr (upd_hdr a f m) x = (if x = a then f (t_hdr m a) else t_hdr m x)"
  by (simp add: upd_hdr_def)

lemma upd_hdr_other [simp]: "t_byte (upd_hdr a f m) = t_byte m" "t_areas (upd_hdr a f m) = t_areas m"
  by (simp_all add: upd_hdr_def)

lemma same_blocks_upd:
  "(\<And>h. b_size (f h) = b_size h) \<Longrightarrow> (\<And>h. prev_hdr (f h) = prev_hdr h) \<Longrightarrow> same_blocks m m' \<Longrightarrow> same_blocks m (upd_hdr a f m')"
  by (simp add: same_blocks_def upd_hdr_apply)

lemma same_params_bits [simp]:
  "same_params p (set_bits fl sl p') = same_params p p'" "same_params p (clear_bits fl sl p') = same_params p p'"
  "same_params p (set_matrix fl sl b p') = same_params p p'"
  by (simp_all add: same_params_def set_bits_def clear_bits_def set_matrix_def Let_def)

section \<open>The invariant\<close>

abbreviation tdll :: "(addr \<Rightarrow> bhdr) \<Rightarrow> addr \<Rightarrow> addr list \<Rightarrow> bool" where
  "tdll h x0 xs \<equiv> dll (\<lambda>x. x = 0) (\<lambda>x. ptr_next (h x)) (\<lambda>x. ptr_prev (h x)) x0 0 xs"

definition tlist_ok :: "(addr \<Rightarrow> bhdr) \<Rightarrow> addr \<Rightarrow> addr set \<Rightarrow> bool" where
  "tlist_ok h x0 A \<longleftrightarrow> (\<exists>xs. tdll h x0 xs \<and> distinct xs \<and> set xs = A)"

definition lists_ok :: "tlsf_pool \<Rightarrow> (addr \<Rightarrow> bhdr) \<Rightarrow> (nat \<times> nat \<Rightarrow> addr set) \<Rightarrow> bool" where
  "lists_ok p h S \<longleftrightarrow> matrix_ok p \<and> bits_ok p (\<lambda>c. S c \<noteq> {})
     \<and> (\<forall>c d. c \<noteq> d \<longrightarrow> S c \<inter> S d = {})
     \<and> (\<forall>i<24. \<forall>j<32. tlist_ok h (matrix p ! i ! j) (S (i, j)))"

lemma tlist_ok_head: "tlist_ok h x0 A \<Longrightarrow> A \<noteq> {} \<Longrightarrow> x0 \<in> A \<and> x0 \<noteq> 0"
  unfolding tlist_ok_def by (metis dll_Nil_iff dll_hd empty_set)

lemma tlist_ok_empty: "tlist_ok h x0 {} \<Longrightarrow> x0 = 0"
  unfolding tlist_ok_def using dll_Nil_iff by fastforce

lemma tlist_ok_links:
  "tlist_ok h x0 A \<Longrightarrow> (\<And>x. x \<in> A \<Longrightarrow> ptr_next (h' x) = ptr_next (h x) \<and> ptr_prev (h' x) = ptr_prev (h x)) \<Longrightarrow> tlist_ok h' x0 A"
  unfolding tlist_ok_def
  by (elim exE conjE, rule exI, intro conjI) (subst dll_cong [of _ _ "\<lambda>x. ptr_next (h x)" _ "\<lambda>x. ptr_prev (h x)"], auto)

lemma lists_ok_disjoint: "lists_ok p h S \<Longrightarrow> c \<noteq> d \<Longrightarrow> S c \<inter> S d = {}"
  unfolding lists_ok_def by blast

lemma lists_ok_links:
  assumes "lists_ok p h S" and "\<And>c x. x \<in> S c \<Longrightarrow> ptr_next (h' x) = ptr_next (h x) \<and> ptr_prev (h' x) = ptr_prev (h x)"
  shows "lists_ok p h' S"
proof -
  have "tlist_ok h' (matrix p ! i ! j) (S (i, j))" if "i < 24" "j < 32" for i j
    using assms that tlist_ok_links [of h _ "S (i, j)" h'] by (auto simp: lists_ok_def)
  with assms(1) show ?thesis by (simp add: lists_ok_def)
qed

lemma lists_ok_params: "fl_bitmap p' = fl_bitmap p \<Longrightarrow> sl_bitmap p' = sl_bitmap p \<Longrightarrow> matrix p' = matrix p \<Longrightarrow>
    lists_ok p' h S = lists_ok p h S"
  by (simp add: lists_ok_def matrix_ok_def bits_ok_def)

text \<open>One list changes, and links of blocks that are in no other list.\<close>

lemma lists_ok_change:
  assumes ok: "lists_ok p h S" and c: "fl < 24" "sl < 32"
    and p': "matrix p' = (matrix p)[fl := (matrix p ! fl)[sl := x]]" "bits_ok p' ((\<lambda>c. S c \<noteq> {})((fl, sl) := (A \<noteq> {})))"
    and x: "tlist_ok h' x A" and A: "\<And>d. d \<noteq> (fl, sl) \<Longrightarrow> A \<inter> S d = {}"
    and h': "\<And>d y. d \<noteq> (fl, sl) \<Longrightarrow> y \<in> S d \<Longrightarrow> ptr_next (h' y) = ptr_next (h y) \<and> ptr_prev (h' y) = ptr_prev (h y)"
  shows "lists_ok p' h' (S((fl, sl) := A))"
proof -
  have m: "length (matrix p) = 24" "\<And>i. i < 24 \<Longrightarrow> length (matrix p ! i) = 32" using ok by (auto simp: lists_ok_def matrix_ok_def)
  have "matrix_ok p'" using m c by (auto simp: matrix_ok_def p'(1) nth_list_update)
  moreover have "bits_ok p' (\<lambda>c. (S((fl, sl) := A)) c \<noteq> {})"
  proof -
    have "(\<lambda>c. (S((fl, sl) := A)) c \<noteq> {}) = ((\<lambda>c. S c \<noteq> {})((fl, sl) := (A \<noteq> {})))" by (simp add: fun_eq_iff)
    with p'(2) show ?thesis by (simp only:)
  qed
  moreover have "tlist_ok h' (matrix p' ! i ! j) ((S((fl, sl) := A)) (i, j))" if ij: "i < 24" "j < 32" for i j
  proof (cases "(i, j) = (fl, sl)")
    case True
    with x c m show ?thesis by (simp add: p'(1))
  next
    case False
    then have "matrix p' ! i ! j = matrix p ! i ! j" using c m ij by (auto simp: p'(1) nth_list_update)
    moreover have "tlist_ok h (matrix p ! i ! j) (S (i, j))" using ok ij by (simp add: lists_ok_def)
    moreover have "tlist_ok h' x0 (S (i, j))" if "tlist_ok h x0 (S (i, j))" for x0
      by (rule tlist_ok_links [OF that]) (use h' False in blast)
    ultimately show ?thesis using False by auto
  qed
  moreover have "\<forall>c d. c \<noteq> d \<longrightarrow> (S((fl, sl) := A)) c \<inter> (S((fl, sl) := A)) d = {}"
    using lists_ok_disjoint [OF ok] A by (auto simp: Int_commute)
  ultimately show ?thesis by (simp add: lists_ok_def)
qed

section \<open>The operations\<close>

lemma INSERT_BLOCK_ok:
  assumes ok: "lists_ok p (t_hdr m) S" and c: "fl < 24" "sl < 32" and b: "\<And>d. b \<notin> S d" "b \<noteq> 0"
  obtains p' m' where "INSERT_BLOCK b fl sl (p, m) = Some (p', m')"
    and "lists_ok p' (t_hdr m') (S((fl, sl) := insert b (S (fl, sl))))" and "same_params p p'" and "same_blocks m m'"
proof -
  let ?first = "matrix p ! fl ! sl"
  define m1 where "m1 = upd_hdr b (\<lambda>h. h\<lparr>ptr_prev := 0, ptr_next := ?first\<rparr>) m"
  define m2 where "m2 = (if ?first \<noteq> 0 then upd_hdr ?first (\<lambda>h. h\<lparr>ptr_prev := b\<rparr>) m1 else m1)"
  have mok: "matrix_ok p" using ok by (simp add: lists_ok_def)
  have res: "INSERT_BLOCK b fl sl (p, m) = Some (set_bits fl sl (set_matrix fl sl b p), m2)"
    by (simp add: INSERT_BLOCK_def matrix_at_ok [OF mok c] m1_def m2_def Let_def)
  obtain xs where xs: "tdll (t_hdr m) ?first xs" "distinct xs" "set xs = S (fl, sl)"
    using ok c unfolding lists_ok_def tlist_ok_def by blast
  have first: "?first = 0 \<or> ?first \<in> S (fl, sl)" using dll_hd [OF xs(1)] xs(3) by blast
  have new: "ptr_next (t_hdr m2 y) = (if y = b then ?first else ptr_next (t_hdr m y))"
    "ptr_prev (t_hdr m2 y) = (if y = b then 0 else if y = ?first \<and> ?first \<noteq> 0 then b else ptr_prev (t_hdr m y))" for y
    using b(1) first b(2) by (auto simp: m1_def m2_def upd_hdr_apply)
  have nz: "y \<noteq> 0" if "y \<in> set (b # xs)" for y using dll_not_nil [OF xs(1)] b(2) that by auto
  have "tdll (t_hdr m2) b (b # xs)"
    using b xs nz by (intro dll_push [OF xs(1,2)]) (auto simp: new)
  then have new_list: "tlist_ok (t_hdr m2) b (insert b (S (fl, sl)))"
    using xs b unfolding tlist_ok_def by (intro exI [of _ "b # xs"]) simp
  let ?p' = "set_bits fl sl (set_matrix fl sl b p)"
  have "bits_ok (set_matrix fl sl b p) (\<lambda>c. S c \<noteq> {})" using ok by (simp add: lists_ok_def bits_ok_def set_matrix_def)
  from bits_ok_set [OF this c]
  have bits: "bits_ok ?p' ((\<lambda>c. S c \<noteq> {})((fl, sl) := (insert b (S (fl, sl)) \<noteq> {})))" by simp
  have disj: "insert b (S (fl, sl)) \<inter> S d = {}" if "d \<noteq> (fl, sl)" for d
    using lists_ok_disjoint [OF ok that] b(1) by auto
  have links: "ptr_next (t_hdr m2 y) = ptr_next (t_hdr m y) \<and> ptr_prev (t_hdr m2 y) = ptr_prev (t_hdr m y)"
    if "d \<noteq> (fl, sl)" "y \<in> S d" for d y
  proof -
    have "y \<noteq> b" using b(1) [of d] that(2) by blast
    moreover have "y \<notin> S (fl, sl)" using lists_ok_disjoint [OF ok that(1)] that(2) by blast
    then have "\<not> (y = ?first \<and> ?first \<noteq> 0)" using first by metis
    ultimately show ?thesis by (simp only: new if_False simp_thms)
  qed
  have "matrix ?p' = (matrix p)[fl := (matrix p ! fl)[sl := b]]" by (simp add: set_bits_def set_matrix_def)
  from lists_ok_change [OF ok c this bits new_list disj links]
  have "lists_ok ?p' (t_hdr m2) (S((fl, sl) := insert b (S (fl, sl))))" .
  moreover have "same_blocks m m2" by (simp add: m2_def m1_def same_blocks_upd)
  ultimately show thesis using that res by simp
qed

text \<open>The links after a block has been taken out, and its head.\<close>

lemma take_out_list:
  assumes ok: "lists_ok p h S" and c: "fl < 24" "sl < 32" and b: "b \<in> S (fl, sl)"
    and x: "x = (if matrix p ! fl ! sl = b then ptr_next (h b) else matrix p ! fl ! sl)"
    and next': "\<And>y. y \<noteq> b \<Longrightarrow> ptr_next (h' y) = (if y = ptr_prev (h b) \<and> y \<noteq> 0 then ptr_next (h b) else ptr_next (h y))"
    and prev': "\<And>y. y \<noteq> b \<Longrightarrow> ptr_prev (h' y) = (if y = ptr_next (h b) \<and> y \<noteq> 0 then ptr_prev (h b) else ptr_prev (h y))"
    and p': "matrix p' = (matrix p)[fl := (matrix p ! fl)[sl := x]]"
      "sl_bitmap p' = sl_bitmap (if x = 0 then clear_bits fl sl p else p)"
      "fl_bitmap p' = fl_bitmap (if x = 0 then clear_bits fl sl p else p)"
  shows "lists_ok p' h' (S((fl, sl) := S (fl, sl) - {b}))"
proof -
  let ?c = "(fl, sl)" and ?first = "matrix p ! fl ! sl"
  obtain xs where xs: "tdll h ?first xs" "distinct xs" "set xs = S ?c" using ok c unfolding lists_ok_def tlist_ok_def by blast
  obtain as bs where ab: "xs = as @ b # bs" using b xs(3) by (metis split_list)
  note d = xs(1,2) [unfolded ab]
  have pv: "ptr_prev (h b) = (if as = [] then 0 else last as)" by (rule dll_mid_prev [OF d(1)])
  have nx: "ptr_next (h b) = 0 \<or> ptr_next (h b) \<in> set bs" using dll_hd [OF dll_mid_next [OF d(1)]] by blast
  have nz: "y \<noteq> 0" if "y \<in> set xs" for y using dll_not_nil [OF xs(1) that] by simp
  have "as = [] \<longleftrightarrow> ?first = b" using d by (cases as) auto
  then have x': "x = (if as = [] then ptr_next (h b) else ?first)" using x by simp
  have in_xs: "y \<in> set xs" if "y \<in> set (as @ bs)" for y using that ab by auto
  have left: "tdll h' x (as @ bs)" unfolding x'
  proof (rule dll_take_out [OF d])
    fix y assume y: "y \<in> set (as @ bs)"
    then have "y \<noteq> b" "y \<noteq> 0" using d(2) nz in_xs by auto
    then show "ptr_next (h' y) = (if as \<noteq> [] \<and> y = last as then ptr_next (h b) else ptr_next (h y))"
      "ptr_prev (h' y) = (if y = ptr_next (h b) then ptr_prev (h b) else ptr_prev (h y))"
      using next' prev' pv by auto
  qed
  have l: "tlist_ok h' x (S ?c - {b})"
    unfolding tlist_ok_def using left d(2) xs(3) ab by (intro exI [of _ "as @ bs"]) auto
  have links: "ptr_next (h' y) = ptr_next (h y) \<and> ptr_prev (h' y) = ptr_prev (h y)" if "e \<noteq> ?c" "y \<in> S e" for e y
  proof -
    have "S e \<inter> S ?c = {}" by (rule lists_ok_disjoint [OF ok that(1)])
    then have "y \<notin> set xs" using that(2) xs(3) by auto
    then have y: "y \<noteq> b" "y \<notin> set as" "y \<notin> set bs" using ab by simp_all
    have "\<not> (y = ptr_prev (h b) \<and> y \<noteq> 0)" using y(2) pv last_in_set [of as] by metis
    moreover have "\<not> (y = ptr_next (h b) \<and> y \<noteq> 0)" using y(3) nx by metis
    ultimately show ?thesis by (simp only: next' [OF y(1)] prev' [OF y(1)] if_False simp_thms)
  qed
  have z: "x = 0 \<longleftrightarrow> S ?c - {b} = {}"
  proof
    assume "x = 0"
    then have "as @ bs = []" using dll_Nil_iff [OF left] by simp
    then show "S ?c - {b} = {}" using xs(3) ab by auto
  next
    assume "S ?c - {b} = {}"
    with l show "x = 0" by (metis tlist_ok_empty)
  qed
  have bits: "bits_ok p' ((\<lambda>c. S c \<noteq> {})(?c := (S ?c - {b} \<noteq> {})))"
  proof -
    have bo: "bits_ok p (\<lambda>c. S c \<noteq> {})" using ok by (simp add: lists_ok_def)
    show ?thesis
    proof (cases "x = 0")
      case True
      then have "S ?c - {b} = {}" using z by blast
      moreover have "sl_bitmap p' = sl_bitmap (clear_bits fl sl p)" "fl_bitmap p' = fl_bitmap (clear_bits fl sl p)"
        using True p'(2,3) by simp_all
      ultimately show ?thesis using bits_ok_clear [OF bo c] unfolding bits_ok_def by simp
    next
      case False
      then have "S ?c - {b} \<noteq> {}" using z by blast
      moreover have "(\<lambda>c. S c \<noteq> {})(?c := True) = (\<lambda>c. S c \<noteq> {})" using b by (intro ext) auto
      ultimately show ?thesis using bo p'(2,3) False by (simp add: bits_ok_def)
    qed
  qed
  have disj: "(S ?c - {b}) \<inter> S d = {}" if "d \<noteq> ?c" for d
    using lists_ok_disjoint [OF ok that] by auto
  show ?thesis by (rule lists_ok_change [OF ok c p'(1) bits l disj links])
qed
lemma EXTRACT_BLOCK_ok:
  assumes ok: "lists_ok p (t_hdr m) S" and c: "fl < 24" "sl < 32" and b: "b \<in> S (fl, sl)"
  obtains p' m' where "EXTRACT_BLOCK b fl sl (p, m) = Some (p', m')"
    and "lists_ok p' (t_hdr m') (S((fl, sl) := S (fl, sl) - {b}))" and "same_params p p'" and "same_blocks m m'"
proof -
  let ?n = "ptr_next (t_hdr m b)" and ?q = "ptr_prev (t_hdr m b)" and ?first = "matrix p ! fl ! sl"
  have mok: "matrix_ok p" using ok by (simp add: lists_ok_def)
  define m1 where "m1 = (if ?n \<noteq> 0 then upd_hdr ?n (\<lambda>h. h\<lparr>ptr_prev := ?q\<rparr>) m else m)"
  define m2 where "m2 = (if ptr_prev (t_hdr m1 b) \<noteq> 0
    then upd_hdr (ptr_prev (t_hdr m1 b)) (\<lambda>h. h\<lparr>ptr_next := ptr_next (t_hdr m1 b)\<rparr>) m1 else m1)"
  have links: "?n \<noteq> b" "?q \<noteq> b"
  proof -
    obtain xs where xs: "tdll (t_hdr m) ?first xs" "distinct xs" "set xs = S (fl, sl)"
      using ok c unfolding lists_ok_def tlist_ok_def by blast
    obtain as bs where ab: "xs = as @ b # bs" using b xs(3) by (metis split_list)
    note d = xs(1,2) [unfolded ab]
    have b0: "b \<noteq> 0" using dll_not_nil [OF xs(1), of b] b xs(3) by simp
    show "?n \<noteq> b" using dll_hd [OF dll_mid_next [OF d(1)]] d(2) b0 by auto
    show "?q \<noteq> b" using dll_mid_prev [OF d(1)] d(2) b0 last_in_set [of as] by (auto split: if_splits)
  qed
  then have m1b: "ptr_prev (t_hdr m1 b) = ?q" "ptr_next (t_hdr m1 b) = ?n" by (simp_all add: m1_def upd_hdr_apply)
  have m2: "ptr_next (t_hdr m2 y) = (if y = ?q \<and> y \<noteq> 0 then ?n else ptr_next (t_hdr m y))"
    "ptr_prev (t_hdr m2 y) = (if y = ?n \<and> y \<noteq> 0 then ?q else ptr_prev (t_hdr m y))" for y
    by (auto simp: m2_def m1b) (auto simp: m1_def upd_hdr_apply)
  define x where "x = (if ?first = b then ?n else ?first)"
  define p' where "p' = (if ?first = b
    then (if x = 0 then clear_bits fl sl (set_matrix fl sl x p) else set_matrix fl sl x p) else p)"
  have m2b: "ptr_next (t_hdr m2 b) = ?n" using links by (simp add: m2)
  have sl: "(matrix p ! fl)[sl := z] ! sl = z" "(matrix p)[fl := r] ! fl = r" for z r
    using mok c by (simp_all add: matrix_ok_def)
  have res: "EXTRACT_BLOCK b fl sl (p, m) = Some (p', no_links b m2)"
    unfolding EXTRACT_BLOCK_def prod.case Let_def m1_def [symmetric] m2_def [symmetric]
    by (simp add: matrix_at_ok [OF mok c] p'_def x_def m2b set_matrix_def sl)
  have x0: "x \<noteq> 0 \<or> ?first = b"
  proof (rule ccontr)
    assume "\<not> ?thesis"
    then have "?first = 0" unfolding x_def by argo
    moreover have "tlist_ok (t_hdr m) ?first (S (fl, sl))" using ok c by (simp add: lists_ok_def)
    ultimately show False using tlist_ok_head b by blast
  qed
  have id: "(matrix p)[fl := (matrix p ! fl)[sl := ?first]] = matrix p" by (simp add: list_update_id)
  have p': "matrix p' = (matrix p)[fl := (matrix p ! fl)[sl := x]]"
    "sl_bitmap p' = sl_bitmap (if x = 0 then clear_bits fl sl p else p)"
    "fl_bitmap p' = fl_bitmap (if x = 0 then clear_bits fl sl p else p)"
    using x0 id by (auto simp: p'_def x_def set_matrix_def clear_bits_def Let_def)
  have "lists_ok p' (t_hdr (no_links b m2)) (S((fl, sl) := S (fl, sl) - {b}))"
    by (rule take_out_list [OF ok c b x_def _ _ p']) (simp_all add: no_links_def upd_hdr_apply m2)
  moreover have "same_params p p'" by (simp add: p'_def)
  moreover have "same_blocks m (no_links b m2)" by (simp add: no_links_def m2_def m1_def same_blocks_upd)
  ultimately show thesis using that res by blast
qed

lemma EXTRACT_BLOCK_HDR_ok:
  assumes ok: "lists_ok p (t_hdr m) S" and c: "fl < 24" "sl < 32" and b: "b = matrix p ! fl ! sl" "b \<in> S (fl, sl)"
  obtains p' m' where "EXTRACT_BLOCK_HDR b fl sl (p, m) = Some (p', m')"
    and "lists_ok p' (t_hdr m') (S((fl, sl) := S (fl, sl) - {b}))" and "same_params p p'" and "same_blocks m m'"
proof -
  let ?n = "ptr_next (t_hdr m b)"
  have mok: "matrix_ok p" using ok by (simp add: lists_ok_def)
  define m1 where "m1 = (if ?n \<noteq> 0 then upd_hdr ?n (\<lambda>h. h\<lparr>ptr_prev := 0\<rparr>) m else m)"
  define p' where "p' = (if ?n \<noteq> 0 then set_matrix fl sl ?n p else clear_bits fl sl (set_matrix fl sl ?n p))"
  have q: "ptr_prev (t_hdr m b) = 0"
  proof -
    obtain xs where "tdll (t_hdr m) b xs" "set xs = S (fl, sl)" using ok c b(1) unfolding lists_ok_def tlist_ok_def by blast
    with b(2) show ?thesis by (cases xs) auto
  qed
  have sl: "(matrix p ! fl)[sl := z] ! sl = z" "(matrix p)[fl := r] ! fl = r" for z r
    using mok c by (simp_all add: matrix_ok_def)
  have res: "EXTRACT_BLOCK_HDR b fl sl (p, m) = Some (p', no_links b m1)"
    by (simp add: EXTRACT_BLOCK_HDR_def matrix_at_ok [OF mok c] p'_def m1_def set_matrix_def sl Let_def)
  have x: "?n = (if matrix p ! fl ! sl = b then ptr_next (t_hdr m b) else matrix p ! fl ! sl)" using b(1) by simp
  have "lists_ok p' (t_hdr (no_links b m1)) (S((fl, sl) := S (fl, sl) - {b}))"
    by (rule take_out_list [OF ok c b(2) x])
      (auto simp: no_links_def upd_hdr_apply m1_def q p'_def set_matrix_def clear_bits_def Let_def)
  moreover have "same_params p p'" by (simp add: p'_def)
  moreover have "same_blocks m (no_links b m1)" by (simp add: no_links_def m1_def same_blocks_upd)
  ultimately show thesis using that res by blast
qed

end
