(* ===== verification/Tlsf_Blocks.thy ===== *)
theory Tlsf_Blocks
  imports Tlsf_Lists
begin

text \<open>
  The blocks of a pool as a map from addresses to \<open>(size, free, previous free, previous block, region)\<close>.
  \<open>blocks_ok A B\<close>: the blocks do not overlap, lie in the areas \<open>A\<close>, fill their region up to a sentinel of
  size 0, and each block's back pointer and state bit agree with the block before it.  The lemmas are
  the changes of the map that allocating and freeing make: a state bit, a split, a join, a region more or less.
\<close>

section \<open>The size field\<close>

definition hw :: "nat \<Rightarrow> bool \<Rightarrow> bool \<Rightarrow> u32" where
  "hw s f g = word_of_nat s OR (if f then 1 else 0) OR (if g then 2 else 0)"

lemma bit_multiple_16: "16 dvd s \<Longrightarrow> k < 4 \<Longrightarrow> \<not> bit (word_of_nat s :: 'a :: len word) k"
proof -
  assume "16 dvd s" and k: "k < 4"
  then obtain t where "s = push_bit 4 t" by (auto simp: push_bit_eq_mult elim!: dvdE)
  then show ?thesis using k by (simp add: bit_simps bit_push_bit_iff_nat)
qed

text \<open>The simplifier moves bits of numerals to integers.\<close>

lemma bit_1_2: "bit (1 :: u32) k \<longleftrightarrow> k = 0" "bit (2 :: int) k \<longleftrightarrow> k = Suc 0"
  using bit_exp_iff [of "Suc 0" k, where 'a = int] by (auto simp: bit_1_iff)

lemma bit_flags: "bit FREE_BLOCK k \<longleftrightarrow> k = 0" "bit TLSF_PREV_FREE k \<longleftrightarrow> k = Suc 0" "bit PREV_STATE k \<longleftrightarrow> k = Suc 0"
  by (auto simp: FREE_BLOCK_def TLSF_PREV_FREE_def PREV_STATE_def bit_1_2)

lemma bit_hw: "bit (hw s f g) k \<longleftrightarrow> bit (word_of_nat s :: u32) k \<or> (f \<and> k = 0) \<or> (g \<and> k = 1)"
  by (auto simp: hw_def bit_or_iff bit_1_2)

lemma hw_size: "16 dvd s \<Longrightarrow> hw s f g AND BLOCK_SIZE_MASK = word_of_nat s"
proof -
  assume d: "16 dvd s"
  have m: "BLOCK_SIZE_MASK = NOT (mask 3)" by (simp add: BLOCK_SIZE_MASK_def PTR_MASK_def mask_eq_exp_minus_1)
  have "bit (hw s f g AND BLOCK_SIZE_MASK) k \<longleftrightarrow> bit (word_of_nat s :: u32) k" if "k < 32" for k
    unfolding m bit_and_iff bit_hw bit_not_iff bit_mask_iff
    using that bit_multiple_16 [OF d, where 'a = 32] by auto
  then show ?thesis by (intro bit_word_eqI) simp
qed

lemma hw_flags:
  assumes "16 dvd s"
  shows "hw s f g AND FREE_BLOCK \<noteq> 0 \<longleftrightarrow> f" and "hw s f g AND TLSF_PREV_FREE \<noteq> 0 \<longleftrightarrow> g"
    and "hw s f g OR FREE_BLOCK = hw s True g" and "hw s f g OR TLSF_PREV_FREE = hw s f True"
    and "hw s f g AND NOT FREE_BLOCK = hw s False g" and "hw s f g AND NOT TLSF_PREV_FREE = hw s f False"
    and "hw s f g AND PREV_STATE = hw 0 False g"
proof -
  note b = bit_multiple_16 [OF assms, where 'a = 32]
  have b0: "\<not> bit (word_of_nat s :: u32) 0" "\<not> bit (word_of_nat s :: u32) (Suc 0)" using b [of 0] b [of 1] by simp_all
  show "hw s f g OR FREE_BLOCK = hw s True g" "hw s f g OR TLSF_PREV_FREE = hw s f True"
    by (intro bit_word_eqI; auto simp: bit_flags bit_or_iff bit_hw bit_1_2)+
  show "hw s f g AND NOT FREE_BLOCK = hw s False g" "hw s f g AND NOT TLSF_PREV_FREE = hw s f False"
    using b0
    by (intro bit_word_eqI; auto simp: bit_flags bit_and_iff bit_not_iff bit_hw bit_1_2 intro!: gr0I)+
  show "hw s f g AND PREV_STATE = hw 0 False g"
    using b0 by (intro bit_word_eqI) (auto simp: bit_flags bit_and_iff bit_hw bit_1_2)
  have "hw s f g AND FREE_BLOCK = (if f then 1 else 0)"
    using b0 by (intro bit_word_eqI) (auto simp: bit_flags bit_and_iff bit_hw bit_1_2)
  then show "hw s f g AND FREE_BLOCK \<noteq> 0 \<longleftrightarrow> f" by simp
  have "hw s f g AND TLSF_PREV_FREE = (if g then 2 else 0)"
    using b0 by (intro bit_word_eqI) (auto simp: bit_flags bit_and_iff bit_hw bit_1_2)
  then show "hw s f g AND TLSF_PREV_FREE \<noteq> 0 \<longleftrightarrow> g" by simp
qed

lemma hw_plus:
  assumes "16 dvd s" and "16 dvd t"
  shows "hw s f g + word_of_nat t = hw (s + t) f g"
proof -
  define w :: u32 where "w = (if f then 1 else 0) OR (if g then 2 else 0)"
  have "k < 4" if "bit w k" for k using that by (auto simp: w_def bit_or_iff bit_1_2 split: if_splits)
  then have "word_of_nat r OR w = word_of_nat r + w" if "16 dvd r" for r
    using bit_multiple_16 [OF that] by (intro disjunctive_add [symmetric]) blast
  then have flags: "hw r f g = word_of_nat r + w" if "16 dvd r" for r
    using that by (simp add: hw_def w_def or.assoc)
  have "16 dvd s + t" using assms by simp
  from flags [OF assms(1)] flags [OF this] show ?thesis by simp
qed

lemma unat_hw: "s < 2 ^ 30 \<Longrightarrow> unat (word_of_nat s :: u32) = s" "s < 2 ^ 30 \<Longrightarrow> unat (word_of_nat s :: u64) = s"
  by (simp_all add: unat_of_nat)
section \<open>The map of blocks\<close>

type_synonym blk = "nat \<times> bool \<times> bool \<times> addr \<times> addr"
type_synonym blks = "addr \<Rightarrow> blk option"
type_synonym areas = "addr \<Rightarrow> nat option"

definition headers_ok :: "(addr \<Rightarrow> bhdr) \<Rightarrow> blks \<Rightarrow> bool" where
  "headers_ok h B \<longleftrightarrow> (\<forall>b s f g q a. B b = Some (s, f, g, q, a) \<longrightarrow> b_size (h b) = hw s f g \<and> prev_hdr (h b) = q)"

definition in_area :: "areas \<Rightarrow> addr \<Rightarrow> nat \<Rightarrow> addr \<Rightarrow> bool" where
  "in_area A b s a \<longleftrightarrow> (\<exists>n. A a = Some n \<and> n \<le> 2 ^ 30 \<and> a \<le> b \<and> b + 16 + s \<le> a + n \<and> (s = 0 \<longrightarrow> b + 16 = a + n))"

definition block_ok :: "areas \<Rightarrow> blks \<Rightarrow> addr \<Rightarrow> nat \<Rightarrow> bool \<Rightarrow> bool \<Rightarrow> addr \<Rightarrow> addr \<Rightarrow> bool" where
  "block_ok A B b s f g q a \<longleftrightarrow>
     16 dvd s \<and> 16 dvd b \<and> (s = 0 \<longrightarrow> \<not> f) \<and> in_area A b s a
     \<and> (s \<noteq> 0 \<longrightarrow> (\<exists>s' f'. B (b + 16 + s) = Some (s', f', f, b, a)))
     \<and> (q = 0 \<longleftrightarrow> b = a) \<and> (q = 0 \<longrightarrow> \<not> g \<and> s \<noteq> 0)
     \<and> (q \<noteq> 0 \<longrightarrow> (\<exists>s' g' q'. B q = Some (s', g, g', q', a) \<and> q + 16 + s' = b \<and> s' \<noteq> 0))"

definition blocks_ok :: "areas \<Rightarrow> blks \<Rightarrow> bool" where
  "blocks_ok A B \<longleftrightarrow> finite (dom B) \<and> B 0 = None
     \<and> (\<forall>b s f g q a. B b = Some (s, f, g, q, a) \<longrightarrow> block_ok A B b s f g q a)
     \<and> (\<forall>b c s f g q a. B b = Some (s, f, g, q, a) \<and> c \<in> dom B \<and> b < c \<longrightarrow> b + 16 + s \<le> c)"

text \<open>No two free blocks are neighbours.\<close>

definition apart :: "blks \<Rightarrow> bool" where
  "apart B \<longleftrightarrow> (\<forall>b s g q a. B b = Some (s, True, g, q, a) \<longrightarrow> \<not> g)"

lemma apartD: "apart B \<Longrightarrow> B b = Some (s, True, g, q, a) \<Longrightarrow> \<not> g"
  unfolding apart_def by blast

lemma apart_upd: "apart B \<Longrightarrow> \<not> (f \<and> g) \<Longrightarrow> apart (B(b \<mapsto> (s, f, g, q, a)))"
  unfolding apart_def by (metis fun_upd_apply option.inject prod.inject)

lemma apart_del: "apart B \<Longrightarrow> apart (B(b := None))"
  unfolding apart_def by (metis fun_upd_apply option.distinct(1))

lemma blocks_okD:
  assumes "blocks_ok A B" and "B b = Some (s, f, g, q, a)"
  shows "16 dvd s" and "16 dvd b" and "s = 0 \<Longrightarrow> \<not> f" and "in_area A b s a" and "q = 0 \<longleftrightarrow> b = a" and "b \<noteq> 0"
    and "q = 0 \<Longrightarrow> \<not> g \<and> s \<noteq> 0" and "s < 2 ^ 30"
    and "block_ok A B b s f g q a"
proof -
  show ok: "block_ok A B b s f g q a" using assms by (simp add: blocks_ok_def)
  then show "16 dvd s" "16 dvd b" "s = 0 \<Longrightarrow> \<not> f" and ar: "in_area A b s a" and "q = 0 \<longleftrightarrow> b = a" "q = 0 \<Longrightarrow> \<not> g \<and> s \<noteq> 0"
    unfolding block_ok_def by blast+
  from ar show "s < 2 ^ 30" by (auto simp: in_area_def)
  show "b \<noteq> 0" using assms by (cases "b = 0") (auto simp: blocks_ok_def)
qed

lemma blocks_ok_next:
  assumes "blocks_ok A B" and "B b = Some (s, f, g, q, a)" and "s \<noteq> 0"
  obtains s' f' where "B (b + 16 + s) = Some (s', f', f, b, a)"
  using blocks_okD(9) [OF assms(1,2)] assms(3) that by (auto simp: block_ok_def)

lemma blocks_ok_prev:
  assumes "blocks_ok A B" and "B b = Some (s, f, g, q, a)" and "q \<noteq> 0"
  obtains s' g' q' where "B q = Some (s', g, g', q', a)" and "b = q + 16 + s'" and "s' \<noteq> 0"
  using blocks_okD(9) [OF assms(1,2)] assms(3) that by (auto simp: block_ok_def)

lemma blocks_ok_order:
  "blocks_ok A B \<Longrightarrow> B b = Some (s, f, g, q, a) \<Longrightarrow> B c = Some y \<Longrightarrow> b < c \<Longrightarrow> b + 16 + s \<le> c"
  unfolding blocks_ok_def by blast

lemma blocks_ok_gap: "blocks_ok A B \<Longrightarrow> B b = Some (s, f, g, q, a) \<Longrightarrow> b < c \<Longrightarrow> c < b + 16 + s \<Longrightarrow> B c = None"
  using blocks_ok_order [of A B b s f g q a c] by (cases "B c") auto

lemma in_area_mono: "in_area A b s a \<Longrightarrow> A' a = A a \<Longrightarrow> in_area A' b s a"
  by (simp add: in_area_def)

lemma in_area_sub: "in_area A b s a \<Longrightarrow> b \<le> c \<Longrightarrow> c + t \<le> b + s \<Longrightarrow> t \<noteq> 0 \<Longrightarrow> in_area A c t a"
  by (auto simp: in_area_def)

text \<open>A block whose own entry and neighbours do not change, up to what they say of it.\<close>

lemma block_ok_frame:
  assumes "block_ok A B b s f g q a"
    and "\<And>s' f'. s \<noteq> 0 \<Longrightarrow> B (b + 16 + s) = Some (s', f', f, b, a) \<Longrightarrow> \<exists>s' f'. B' (b + 16 + s) = Some (s', f', f, b, a)"
    and "\<And>s' g' q'. q \<noteq> 0 \<Longrightarrow> B q = Some (s', g, g', q', a) \<Longrightarrow> q + 16 + s' = b \<Longrightarrow> s' \<noteq> 0 \<Longrightarrow>
      \<exists>s' g' q'. B' q = Some (s', g, g', q', a) \<and> q + 16 + s' = b \<and> s' \<noteq> 0"
    and "A' a = A a"
  shows "block_ok A' B' b s f g q a"
  using assms in_area_mono [of A b s a A'] unfolding block_ok_def by blast

lemma blocks_okI:
  assumes "finite (dom B)" and "B 0 = None"
    and "\<And>b s f g q a. B b = Some (s, f, g, q, a) \<Longrightarrow> block_ok A B b s f g q a"
    and "\<And>b c s f g q a y. B b = Some (s, f, g, q, a) \<Longrightarrow> B c = Some y \<Longrightarrow> b < c \<Longrightarrow> b + 16 + s \<le> c"
  shows "blocks_ok A B"
  using assms unfolding blocks_ok_def by blast

section \<open>Changes of the map\<close>

text \<open>The state bit of a block, kept in its own header and in the one behind it.\<close>

lemma blocks_ok_mark:
  assumes ok: "blocks_ok A B" and b: "B b = Some (s, f, g, q, a)" "s \<noteq> 0" and n: "B (b + 16 + s) = Some (sn, fn, gn, qn, an)"
  shows "blocks_ok A (B(b \<mapsto> (s, f', g, q, a), b + 16 + s \<mapsto> (sn, fn, f', b, a)))" (is "blocks_ok A ?B")
proof -
  let ?n = "b + 16 + s"
  obtain sn' fn' where "B ?n = Some (sn', fn', f, b, a)" using blocks_ok_next [OF ok b] by blast
  with n have n: "B ?n = Some (sn, fn, f, b, a)" by simp
  have new: "?B c = (if c = ?n then Some (sn, fn, f', b, a) else if c = b then Some (s, f', g, q, a) else B c)" for c by simp
  show ?thesis
  proof (rule blocks_okI)
    show "finite (dom ?B)" using ok by (simp add: blocks_ok_def)
    show "?B 0 = None" using ok b blocks_okD(6) [OF ok b(1)] by (simp add: blocks_ok_def)
  next
    fix c sc fc gc qc ac assume c: "?B c = Some (sc, fc, gc, qc, ac)"
    show "block_ok A ?B c sc fc gc qc ac"
    proof (cases "c = ?n")
      case True
      with c have e: "sc = sn" "fc = fn" "gc = f'" "qc = b" "ac = a" by simp_all
      have "b \<noteq> ?n" by simp
      show ?thesis unfolding e True
        using blocks_okD(9) [OF ok n] b blocks_okD(6) [OF ok b(1)] unfolding block_ok_def new by auto
    next
      case nb: False
      show ?thesis
      proof (cases "c = b")
        case True
        with c nb have e: "sc = s" "fc = f'" "gc = g" "qc = q" "ac = a" by simp_all
        show ?thesis unfolding e True
          using blocks_okD(9) [OF ok b(1)] b n unfolding block_ok_def new by auto
      next
        case False
        with c nb have c: "B c = Some (sc, fc, gc, qc, ac)" by simp
        show ?thesis
        proof (rule block_ok_frame [OF blocks_okD(9) [OF ok c]])
          fix s' f'' assume nx: "B (c + 16 + sc) = Some (s', f'', fc, c, ac)"
          have "c + 16 + sc \<noteq> ?n"
          proof
            assume "c + 16 + sc = ?n"
            then have "B ?n = Some (s', f'', fc, c, ac)" using nx by (simp only:)
            then show False using n False by simp
          qed
          then show "\<exists>s' f'. ?B (c + 16 + sc) = Some (s', f', fc, c, ac)" unfolding new using b nx by auto
        next
          fix s' g' q' assume "B qc = Some (s', gc, g', q', ac)" "qc + 16 + s' = c"
          then show "\<exists>s' g' q'. ?B qc = Some (s', gc, g', q', ac) \<and> qc + 16 + s' = c \<and> s' \<noteq> 0" if "s' \<noteq> 0"
            unfolding new using b n nb that by auto
        qed simp
      qed
    qed
  next
    fix c d sc fc gc qc ac y assume c: "?B c = Some (sc, fc, gc, qc, ac)" and d: "?B d = Some y" and "c < d"
    have "\<exists>f g q a. B c = Some (sc, f, g, q, a)" using c b n by (auto simp: new split: if_splits)
    moreover have "\<exists>y. B d = Some y" using d b n by (auto simp: new simp del: split_paired_Ex split: if_splits)
    ultimately show "c + 16 + sc \<le> d" using blocks_ok_order [OF ok] \<open>c < d\<close> by blast
  qed
qed

text \<open>Two neighbouring blocks become one.\<close>

lemma blocks_ok_join:
  assumes ok: "blocks_ok A B" and b: "B b = Some (s, f, g, q, a)" "s \<noteq> 0" and n: "n = b + 16 + s" "B n = Some (sn, fn, f, b, a)" "sn \<noteq> 0"
    and k: "k = n + 16 + sn" "B k = Some (sk, fk, fn, n, a)"
  shows "blocks_ok A (B(n := None, b \<mapsto> (s + 16 + sn, f', g, q, a), k \<mapsto> (sk, fk, f', b, a)))" (is "blocks_ok A ?B")
proof -
  have new: "?B c = (if c = k then Some (sk, fk, f', b, a) else if c = b then Some (s + 16 + sn, f', g, q, a)
    else if c = n then None else B c)" for c using n(1) k(1) by simp
  have ne: "b \<noteq> n" "n \<noteq> k" "b \<noteq> k" using n(1) k(1) by simp_all
  have b0: "b \<noteq> 0" using blocks_okD(6) [OF ok b(1)] .
  show ?thesis
  proof (rule blocks_okI)
    have "dom ?B \<subseteq> insert b (insert k (dom B))" by auto
    then show "finite (dom ?B)" using ok by (meson blocks_ok_def finite_insert finite_subset)
    show "?B 0 = None" using ok b0 n(1) k(1) by (simp add: blocks_ok_def)
  next
    fix c sc fc gc qc ac assume c: "?B c = Some (sc, fc, gc, qc, ac)"
    consider "c = k" | "c = b" "c \<noteq> k" | "c \<noteq> b" "c \<noteq> n" "c \<noteq> k" using c ne by (cases "c = n") (auto simp: new)
    then show "block_ok A ?B c sc fc gc qc ac"
    proof cases
      case 1
      with c have e: "sc = sk" "fc = fk" "gc = f'" "qc = b" "ac = a" by (simp_all add: new)
      have "k + 16 + sk \<noteq> b" "k + 16 + sk \<noteq> n" using n(1) k(1) by linarith+
      moreover have "k \<noteq> a" using blocks_okD(4) [OF ok b(1)] n(1) k(1) by (auto simp: in_area_def)
      moreover have "b + 16 + (s + 16 + sn) = k" using n(1) k(1) by simp
      ultimately show ?thesis unfolding e 1
        using blocks_okD(9) [OF ok k(2)] ne b0 unfolding block_ok_def new by auto
    next
      case 2
      with c have e: "sc = s + 16 + sn" "fc = f'" "gc = g" "qc = q" "ac = a" by (simp_all add: new)
      note bo = blocks_okD(9) [OF ok b(1)] and no = blocks_okD(9) [OF ok n(2)]
      have sum: "b + 16 + (s + 16 + sn) = k" using n(1) k(1) by simp
      have "in_area A b (s + 16 + sn) a"
        using blocks_okD(4) [OF ok b(1)] blocks_okD(4) [OF ok n(2)] n(1,3) by (auto simp: in_area_def)
      moreover have "16 dvd s + 16 + sn" using blocks_okD(1) [OF ok b(1)] blocks_okD(1) [OF ok n(2)] by simp
      moreover have "\<exists>s' f''. ?B (b + 16 + (s + 16 + sn)) = Some (s', f'', f', b, a)" unfolding sum by (simp add: new)
      moreover have "\<exists>s' g' q'. ?B q = Some (s', g, g', q', a) \<and> q + 16 + s' = b \<and> s' \<noteq> 0" if q0: "q \<noteq> 0"
      proof -
        obtain s' g' q' where p: "B q = Some (s', g, g', q', a)" "b = q + 16 + s'" "s' \<noteq> 0"
          using blocks_ok_prev [OF ok b(1) q0] .
        then have "q \<noteq> b" "q \<noteq> n" "q \<noteq> k" using n(1) k(1) by linarith+
        with p show ?thesis by (simp add: new)
      qed
      ultimately show ?thesis unfolding e 2 using bo unfolding block_ok_def by auto
    next
      case 3
      with c have c: "B c = Some (sc, fc, gc, qc, ac)" by (simp add: new)
      show ?thesis
      proof (rule block_ok_frame [OF blocks_okD(9) [OF ok c]])
        fix s' f'' assume nx: "B (c + 16 + sc) = Some (s', f'', fc, c, ac)"
        have "c + 16 + sc \<noteq> n" using nx n(2) 3 by (metis option.inject prod.inject)
        moreover have "c + 16 + sc \<noteq> k" using nx k(2) 3 by (metis option.inject prod.inject)
        ultimately show "\<exists>s' f'. ?B (c + 16 + sc) = Some (s', f', fc, c, ac)" using b nx by (auto simp: new)
      next
        fix s' g' q' assume pv: "B qc = Some (s', gc, g', q', ac)" "qc + 16 + s' = c" "s' \<noteq> 0"
        have "qc \<noteq> b" using pv b n(1) 3 by auto
        moreover have "qc \<noteq> n" using pv n k(1) 3 by auto
        ultimately show "\<exists>s' g' q'. ?B qc = Some (s', gc, g', q', ac) \<and> qc + 16 + s' = c \<and> s' \<noteq> 0"
          using pv k(2) by (auto simp: new)
      qed simp
    qed
  next
    fix c d sc fc gc qc ac y assume c: "?B c = Some (sc, fc, gc, qc, ac)" and d: "?B d = Some y" and "c < d"
    have dB: "\<exists>y. B d = Some y" and dn: "d \<noteq> n" using d b k ne by (auto simp: new simp del: split_paired_Ex split: if_splits)
    then obtain y' where d: "B d = Some y'" by blast
    show "c + 16 + sc \<le> d"
    proof (cases "c = b")
      case True
      have "n \<le> d" using blocks_ok_order [OF ok b(1) d] True \<open>c < d\<close> n(1) by simp
      then have "n + 16 + sn \<le> d" using blocks_ok_order [OF ok n(2) d] dn by simp
      moreover have "sc = s + 16 + sn" using c True ne by (simp add: new)
      ultimately show ?thesis using True n(1) by simp
    next
      case False
      then have "\<exists>f g q a. B c = Some (sc, f, g, q, a)" using c k by (auto simp: new split: if_splits)
      then show ?thesis using blocks_ok_order [OF ok _ d \<open>c < d\<close>] by blast
    qed
  qed
qed
text \<open>A block is split in two.\<close>

lemma blocks_ok_split:
  assumes ok: "blocks_ok A B" and b: "B b = Some (s, f, g, q, a)" and s: "s = t + 16 + r" "16 dvd t" "t \<noteq> 0" "r \<noteq> 0"
    and n: "n = b + 16 + t" and k: "k = b + 16 + s" "B k = Some (sk, fk, f, b, a)"
  shows "blocks_ok A (B(b \<mapsto> (t, f1, g, q, a), n \<mapsto> (r, f2, f1, b, a), k \<mapsto> (sk, fk, f2, n, a)))" (is "blocks_ok A ?B")
proof -
  have ne: "b \<noteq> n" "n \<noteq> k" "b \<noteq> k" "k = n + 16 + r" using n k s by simp_all
  have new: "?B c = (if c = k then Some (sk, fk, f2, n, a) else if c = n then Some (r, f2, f1, b, a)
    else if c = b then Some (t, f1, g, q, a) else B c)" for c using ne by simp
  have b0: "b \<noteq> 0" using blocks_okD(6) [OF ok b] .
  have nn: "B n = None" using blocks_ok_gap [OF ok b, of n] n s by simp
  have rd: "16 dvd r" using blocks_okD(1) [OF ok b] s by (simp add: dvd_add_left_iff dvd_add_right_iff)
  note ar = blocks_okD(4) [OF ok b]
  show ?thesis
  proof (rule blocks_okI)
    have "dom ?B \<subseteq> insert b (insert k (insert n (dom B)))" by auto
    then show "finite (dom ?B)" using ok by (meson blocks_ok_def finite_insert finite_subset)
    show "?B 0 = None" using ok b0 n k(1) by (simp add: blocks_ok_def)
  next
    fix c sc fc gc qc ac assume c: "?B c = Some (sc, fc, gc, qc, ac)"
    consider "c = k" | "c = n" | "c = b" | "c \<noteq> b" "c \<noteq> n" "c \<noteq> k" by blast
    then show "block_ok A ?B c sc fc gc qc ac"
    proof cases
      case 1
      with c have e: "sc = sk" "fc = fk" "gc = f2" "qc = n" "ac = a" by (simp_all add: new)
      have "k + 16 + sk \<noteq> b" "k + 16 + sk \<noteq> n" using ne n by linarith+
      moreover have "k \<noteq> a" using ar k by (auto simp: in_area_def)
      ultimately show ?thesis unfolding e 1
        using blocks_okD(9) [OF ok k(2)] ne b0 s n unfolding block_ok_def new by auto
    next
      case 2
      with c ne have e: "sc = r" "fc = f2" "gc = f1" "qc = b" "ac = a" by (simp_all add: new)
      have "in_area A n r a" using in_area_sub [OF ar, of n r] n s by simp
      moreover have "n \<noteq> a" using ar n by (auto simp: in_area_def)
      moreover have "16 dvd n" using n s(2) blocks_okD(2) [OF ok b] by simp
      moreover have "\<exists>s' f''. ?B (n + 16 + r) = Some (s', f'', f2, n, a)" unfolding ne(4) [symmetric] by (simp add: new)
      moreover have "\<exists>s' g' q'. ?B b = Some (s', f1, g', q', a) \<and> b + 16 + s' = n \<and> s' \<noteq> 0" using ne n s by (simp add: new)
      ultimately show ?thesis unfolding e 2 using rd s b0 unfolding block_ok_def by blast
    next
      case 3
      with c ne have e: "sc = t" "fc = f1" "gc = g" "qc = q" "ac = a" by (simp_all add: new)
      have "in_area A b t a" using in_area_sub [OF ar, of b t] s by simp
      moreover have "\<exists>s' f''. ?B (b + 16 + t) = Some (s', f'', f1, b, a)" unfolding n [symmetric] using ne by (simp add: new)
      moreover have "\<exists>s' g' q'. ?B q = Some (s', g, g', q', a) \<and> q + 16 + s' = b \<and> s' \<noteq> 0" if q0: "q \<noteq> 0"
      proof -
        obtain s' g' q' where p: "B q = Some (s', g, g', q', a)" "b = q + 16 + s'" "s' \<noteq> 0"
          using blocks_ok_prev [OF ok b q0] .
        then have "q \<noteq> b" "q \<noteq> n" "q \<noteq> k" using n k(1) by linarith+
        with p show ?thesis by (simp add: new)
      qed
      ultimately show ?thesis unfolding e 3
        using blocks_okD(2,5,7) [OF ok b] s(2,3) unfolding block_ok_def by blast
    next
      case 4
      with c have c: "B c = Some (sc, fc, gc, qc, ac)" by (simp add: new)
      show ?thesis
      proof (rule block_ok_frame [OF blocks_okD(9) [OF ok c]])
        fix s' f'' assume nx: "B (c + 16 + sc) = Some (s', f'', fc, c, ac)"
        have "c + 16 + sc \<noteq> n" using nx nn by (metis option.distinct(1))
        moreover have "c + 16 + sc \<noteq> k" using nx k(2) 4 by (metis option.inject prod.inject)
        ultimately show "\<exists>s' f'. ?B (c + 16 + sc) = Some (s', f', fc, c, ac)" using b nx by (auto simp: new)
      next
        fix s' g' q' assume pv: "B qc = Some (s', gc, g', q', ac)" "qc + 16 + s' = c" "s' \<noteq> 0"
        have "qc \<noteq> b" using pv b k 4 by auto
        moreover have "qc \<noteq> n" using pv nn by auto
        ultimately show "\<exists>s' g' q'. ?B qc = Some (s', gc, g', q', ac) \<and> qc + 16 + s' = c \<and> s' \<noteq> 0"
          using pv k(2) by (auto simp: new)
      qed simp
    qed
  next
    fix c d sc fc gc qc ac y assume c: "?B c = Some (sc, fc, gc, qc, ac)" and d: "?B d = Some y" and cd: "c < d"
    have old: "c + 16 + sc \<le> d" if "B c = Some (sc', f', g', q', a')" "sc \<le> sc'" "B d = Some z" for sc' f' g' q' a' z
      using blocks_ok_order [OF ok that(1,3) cd] that(2) by simp
    have cB: "(\<exists>f g q a. B c = Some (sc, f, g, q, a)) \<or> (c = n \<and> sc = r) \<or> (c = b \<and> sc = t)"
      using c k by (auto simp: new split: if_splits)
    have dB: "(\<exists>z. B d = Some z) \<or> d = n" using d b k by (auto simp: new simp del: split_paired_Ex split: if_splits)
    show "c + 16 + sc \<le> d"
    proof (cases "d = n")
      case True
      have lower: "c + 16 + sc \<le> b" if "B c = Some (sc, f', g', q', a')" "c \<noteq> b" for f' g' q' a'
      proof (cases "c < b")
        case True
        then show ?thesis using blocks_ok_order [OF ok that(1) b] by simp
      next
        case False
        then have "b < c" "c < b + 16 + s" using that(2) cd True n s by simp_all
        then show ?thesis using blocks_ok_gap [OF ok b] that(1) by auto
      qed
      show ?thesis
      proof (cases "c = b")
        case cb: True
        then have "sc = t" using c ne by (simp add: new)
        then show ?thesis using cb True n by simp
      next
        case False
        then show ?thesis using cB lower True cd n by auto
      qed
    next
      case False
      then obtain z where z: "B d = Some z" using dB by blast
      from cB show ?thesis
      proof (elim disjE conjE exE)
        fix f g q a assume "B c = Some (sc, f, g, q, a)"
        then show ?thesis using old z by blast
      next
        assume "c = n" "sc = r"
        moreover have "b + 16 + s \<le> d" using blocks_ok_order [OF ok b z] cd \<open>c = n\<close> n by simp
        ultimately show ?thesis using n s by simp
      next
        assume "c = b" "sc = t"
        then show ?thesis using old [OF _ _ z] b s by auto
      qed
    qed
  qed
qed

text \<open>A new region, and a region given back.\<close>

definition fresh_area :: "areas \<Rightarrow> addr \<Rightarrow> nat \<Rightarrow> bool" where
  "fresh_area A a n \<longleftrightarrow> a \<noteq> 0 \<and> A a = None \<and> (\<forall>c k. A c = Some k \<longrightarrow> a + n \<le> c \<or> c + k \<le> a)"

lemma blocks_ok_region:
  assumes ok: "blocks_ok A B" and a: "fresh_area A a n" and n: "n = s + 32" "s \<noteq> 0" "16 dvd s" "16 dvd a" "n \<le> 2 ^ 30"
  shows "blocks_ok (A(a \<mapsto> n)) (B(a \<mapsto> (s, True, False, 0, a), a + 16 + s \<mapsto> (0, False, True, a, a)))" (is "blocks_ok ?A ?B")
proof -
  let ?k = "a + 16 + s"
  have a0: "a \<noteq> 0" using a by (simp add: fresh_area_def)
  have out: "c + 16 + sc \<le> a \<or> a + n \<le> c" "ac \<noteq> a" if "B c = Some (sc, fc, gc, qc, ac)" for c sc fc gc qc ac
  proof -
    from blocks_okD(4) [OF ok that] obtain k where k: "A ac = Some k" "ac \<le> c" "c + 16 + sc \<le> ac + k" by (auto simp: in_area_def)
    then have "a + n \<le> ac \<or> ac + k \<le> a" using a by (auto simp: fresh_area_def)
    with k show "c + 16 + sc \<le> a \<or> a + n \<le> c" by linarith
    show "ac \<noteq> a" using k(1) a by (auto simp: fresh_area_def)
  qed
  have none: "B c = None" if "a \<le> c" "c < a + n" for c
  proof (rule ccontr)
    assume "B c \<noteq> None"
    then obtain sc fc gc qc ac where "B c = Some (sc, fc, gc, qc, ac)" by auto
    from out(1) [OF this] that show False by simp
  qed
  have nn: "B a = None" "B ?k = None" using none n by simp_all
  show ?thesis
  proof (rule blocks_okI)
    show "finite (dom ?B)" using ok by (simp add: blocks_ok_def)
    show "?B 0 = None" using ok a0 by (simp add: blocks_ok_def)
  next
    fix c sc fc gc qc ac assume c: "?B c = Some (sc, fc, gc, qc, ac)"
    consider "c = ?k" | "c = a" | "c \<noteq> a" "c \<noteq> ?k" by blast
    then show "block_ok ?A ?B c sc fc gc qc ac"
    proof cases
      case 1
      with c n a0 show ?thesis by (auto simp: block_ok_def in_area_def)
    next
      case 2
      with c n a0 show ?thesis by (auto simp: block_ok_def in_area_def)
    next
      case 3
      with c have c: "B c = Some (sc, fc, gc, qc, ac)" by simp
      have keep: "?B d = Some z" if "B d = Some z" for d z using that nn by auto
      show ?thesis
        by (rule block_ok_frame [OF blocks_okD(9) [OF ok c]]) (use keep in blast, use keep in blast, use out(2) [OF c] in simp)
    qed
  next
    fix c d sc fc gc qc ac y assume c: "?B c = Some (sc, fc, gc, qc, ac)" and d: "?B d = Some y" and cd: "c < d"
    have C: "B c = Some (sc, fc, gc, qc, ac) \<or> (c = a \<and> sc = s) \<or> (c = ?k \<and> sc = 0)" using c by (auto split: if_splits)
    have D: "(\<exists>sd fd gd qd ad. B d = Some (sd, fd, gd, qd, ad)) \<or> d = a \<or> d = ?k" using d by (cases y) (auto split: if_splits)
    show "c + 16 + sc \<le> d"
      using C D
    proof (elim disjE exE)
      fix sd fd gd qd ad assume "B c = Some (sc, fc, gc, qc, ac)" "B d = Some (sd, fd, gd, qd, ad)"
      then show ?thesis using blocks_ok_order [OF ok] cd by blast
    next
      fix sd fd gd qd ad assume "c = a \<and> sc = s" "B d = Some (sd, fd, gd, qd, ad)"
      then show ?thesis using out(1) cd n by fastforce
    next
      fix sd fd gd qd ad assume "c = ?k \<and> sc = 0" "B d = Some (sd, fd, gd, qd, ad)"
      then show ?thesis using out(1) cd n by fastforce
    qed (use cd n out(1) in fastforce)+
  qed
qed

lemma blocks_ok_drop:
  assumes ok: "blocks_ok A B" and b: "B b = Some (s, f, g, 0, b)" and k: "k = b + 16 + s" "B k = Some (0, fk, gk, qk, b)"
  shows "blocks_ok (A(b := None)) (B(b := None, k := None))" (is "blocks_ok ?A ?B")
proof -
  have b0: "b \<noteq> 0" using blocks_okD(6) [OF ok b] .
  obtain n where n: "A b = Some n" "k + 16 = b + n"
    using blocks_okD(4) [OF ok k(2)] blocks_okD(4) [OF ok b] by (auto simp: in_area_def)
  have base: "ac \<noteq> b" if "B c = Some (sc, fc, gc, qc, ac)" "c \<noteq> b" "c \<noteq> k" for c sc fc gc qc ac
  proof
    assume "ac = b"
    then have "b \<le> c" "c + 16 + sc \<le> k + 16" using blocks_okD(4) [OF ok that(1)] n by (auto simp: in_area_def)
    then have "b < c" "c < k" using that(2,3) by linarith+
    then show False using blocks_ok_gap [OF ok b] k(1) that(1) by auto
  qed
  show ?thesis
  proof (rule blocks_okI)
    show "finite (dom ?B)" using ok by (simp add: blocks_ok_def)
    show "?B 0 = None" using ok by (simp add: blocks_ok_def)
  next
    fix c sc fc gc qc ac assume "?B c = Some (sc, fc, gc, qc, ac)"
    then have c: "B c = Some (sc, fc, gc, qc, ac)" "c \<noteq> b" "c \<noteq> k" by (auto split: if_splits)
    note ac = base [OF c]
    have r: "d \<noteq> b \<and> d \<noteq> k" if "B d = Some (sd, fd, gd, qd, ac)" for d sd fd gd qd
      using that b k(2) ac by auto
    show "block_ok ?A ?B c sc fc gc qc ac"
      by (rule block_ok_frame [OF blocks_okD(9) [OF ok c(1)]]) (use r ac in \<open>auto split: if_splits\<close>)
  next
    fix c d sc fc gc qc ac y assume "?B c = Some (sc, fc, gc, qc, ac)" "?B d = Some y" "c < d"
    then show "c + 16 + sc \<le> d" using blocks_ok_order [OF ok] by (auto split: if_splits)
  qed
qed

end
