(* ===== verification/Tlsf_Pool.thy ===== *)
theory Tlsf_Pool
  imports Tlsf_Blocks
begin

text \<open>
  The invariant of a TLSF pool: the headers in memory are those of a map of blocks, the free lists hold
  exactly the free blocks, each in the list of its size, and \<open>used_size\<close> and \<open>num_regions\<close> are the sums over the
  map.  Adding a region keeps it.
\<close>

section \<open>Sums over the blocks\<close>

definition total :: "(blk \<Rightarrow> u64) \<Rightarrow> blks \<Rightarrow> u64" where
  "total w B = (\<Sum>b\<in>dom B. w (the (B b)))"

lemma total_new: "finite (dom B) \<Longrightarrow> B b = None \<Longrightarrow> total w (B(b \<mapsto> v)) = total w B + w v"
proof -
  assume f: "finite (dom B)" and b: "B b = None"
  have "(\<Sum>c\<in>dom B. w (the ((B(b \<mapsto> v)) c))) = (\<Sum>c\<in>dom B. w (the (B c)))"
    using b by (intro sum.cong) auto
  with f b show ?thesis by (simp add: total_def domIff add.commute)
qed

lemma total_del:
  assumes "finite (dom B)" and "B b = Some u"
  shows "total w (B(b := None)) = total w B - w u"
proof -
  have "B = (B(b := None))(b \<mapsto> u)" using assms(2) by (auto simp: fun_eq_iff)
  then have "total w B = total w (B(b := None)) + w u"
    using total_new [of "B(b := None)" b w u] assms(1) by (simp only: fun_upd_same) simp
  then show ?thesis by simp
qed

lemma total_upd:
  assumes "finite (dom B)" and "B b = Some u"
  shows "total w (B(b \<mapsto> v)) = total w B - w u + w v"
  using total_new [of "B(b := None)" b w v] total_del [OF assms] assms(1) by simp

definition used_weight :: "blk \<Rightarrow> u64" where
  "used_weight = (\<lambda>(s, f, _). if f then 0 else word_of_nat (s + 16))"

definition region_weight :: "blk \<Rightarrow> u64" where
  "region_weight = (\<lambda>(s, f, g, q, a). if q = 0 then 1 else 0)"

section \<open>The free blocks of a class\<close>

definition free_set :: "blks \<Rightarrow> nat \<times> nat \<Rightarrow> addr set" where
  "free_set B c = {b. \<exists>s g q a. B b = Some (s, True, g, q, a) \<and> MAPPING_INSERT s = c}"

lemma free_set_upd:
  "free_set (B(b \<mapsto> (s, f, g, q, a))) c = (free_set B c - {b}) \<union> (if f \<and> MAPPING_INSERT s = c then {b} else {})"
  by (auto simp: free_set_def split: if_splits)

lemma free_set_del: "free_set (B(b := None)) c = free_set B c - {b}"
  by (auto simp: free_set_def split: if_splits)

definition free_at :: "blks \<Rightarrow> addr \<Rightarrow> bool" where
  "free_at B b \<longleftrightarrow> (\<exists>s g q a. B b = Some (s, True, g, q, a))"

lemma free_at_simps [simp]:
  "B b = None \<Longrightarrow> \<not> free_at B b" "B b = Some (s, f, g, q, a) \<Longrightarrow> free_at B b = f"
  by (auto simp: free_at_def)

lemma free_set_used: "\<not> free_at B b \<Longrightarrow> b \<notin> free_set B c"
  by (auto simp: free_set_def free_at_def)

lemma free_set_same: "B b = Some (s, f, g, q, a) \<Longrightarrow> free_set (B(b \<mapsto> (s, f, g', q', a'))) = free_set B"
  by (intro ext) (auto simp: free_set_upd free_set_def)

lemma free_set_out: "\<not> free_at B b \<Longrightarrow> free_set (B(b \<mapsto> (s, False, g, q, a))) = free_set B"
  by (intro ext) (auto simp: free_set_upd free_set_def free_at_def)

lemma free_set_in:
  assumes "\<not> free_at B b" and "MAPPING_INSERT s = c"
  shows "(free_set B)(c := insert b (free_set B c)) = free_set (B(b \<mapsto> (s, True, g, q, a)))"
  using assms free_set_used [of B b] by (intro ext) (auto simp: free_set_upd)

lemma free_set_remove:
  assumes "B b = Some (s, True, g, q, a)" and "MAPPING_INSERT s = c"
  shows "(free_set B)(c := free_set B c - {b}) = free_set (B(b := None))"
  using assms by (intro ext) (auto simp: free_set_del free_set_def)

section \<open>Headers\<close>

lemma headers_okD: "headers_ok h B \<Longrightarrow> B b = Some (s, f, g, q, a) \<Longrightarrow> b_size (h b) = hw s f g \<and> prev_hdr (h b) = q"
  by (simp add: headers_ok_def)

lemma headers_ok_same: "same_blocks m m' \<Longrightarrow> headers_ok (t_hdr m') B = headers_ok (t_hdr m) B"
  by (simp add: same_blocks_def headers_ok_def)

lemma headers_ok_upd:
  "headers_ok (t_hdr m) B \<Longrightarrow> b_size (F (t_hdr m b)) = hw s f g \<Longrightarrow> prev_hdr (F (t_hdr m b)) = q \<Longrightarrow>
     headers_ok (t_hdr (upd_hdr b F m)) (B(b \<mapsto> (s, f, g, q, a)))"
  by (simp add: headers_ok_def upd_hdr_apply)

lemma headers_ok_del: "headers_ok h B \<Longrightarrow> headers_ok h (B(b := None))"
  by (simp add: headers_ok_def)

lemma headers_ok_take [simp]: "headers_ok (t_hdr (take_area a n m)) B = headers_ok (t_hdr m) B"
  by (simp add: take_area_def)

text \<open>The size of a block in memory.\<close>

lemma blk_size_hw: "b_size (t_hdr m b) = hw s f g \<Longrightarrow> 16 dvd s \<Longrightarrow> blk_size m b = word_of_nat s"
  by (simp add: blk_size_def hw_size)

lemma GET_NEXT_BLOCK_add [simp]: "GET_NEXT_BLOCK b r = b + 16 + r"
  by (simp add: GET_NEXT_BLOCK_def tlsf_consts)

text \<open>Writing sizes and back pointers does not touch the lists.\<close>

lemma lists_ok_upd:
  assumes "\<And>h. ptr_next (F h) = ptr_next h" and "\<And>h. ptr_prev (F h) = ptr_prev h" and "lists_ok p (t_hdr m) S"
  shows "lists_ok p (t_hdr (upd_hdr b F m)) S"
  by (rule lists_ok_links [OF assms(3)]) (simp add: upd_hdr_apply assms(1,2))

lemma lists_ok_upd_out:
  assumes "\<And>c. b \<notin> S c" and "lists_ok p (t_hdr m) S"
  shows "lists_ok p (t_hdr (upd_hdr b F m)) S"
  by (rule lists_ok_links [OF assms(2)]) (use assms(1) in \<open>auto simp: upd_hdr_apply\<close>)

section \<open>The invariant\<close>

definition grow_ok :: "tlsf_pool \<Rightarrow> bool" where
  "grow_ok p \<longleftrightarrow> 16 dvd unat (grow_size p) \<and> 48 \<le> unat (grow_size p) \<and> unat (grow_size p) \<le> 2 ^ 30"

definition tlsf_inv :: "tlsf_pool \<Rightarrow> tmem \<Rightarrow> blks \<Rightarrow> bool" where
  "tlsf_inv p m B \<longleftrightarrow> blocks_ok (t_areas m) B \<and> apart B \<and> headers_ok (t_hdr m) B \<and> lists_ok p (t_hdr m) (free_set B)
     \<and> used_size p = total used_weight B \<and> num_regions p = total region_weight B \<and> grow_ok p"

lemma tlsf_invD:
  assumes "tlsf_inv p m B"
  shows "blocks_ok (t_areas m) B" and "apart B" and "headers_ok (t_hdr m) B" and "lists_ok p (t_hdr m) (free_set B)"
    and "finite (dom B)"
  using assms by (simp_all add: tlsf_inv_def blocks_ok_def)

text \<open>Inserting a block into, and extracting it from, the list of its size.\<close>

lemma insert_by_size_ok:
  assumes ok: "lists_ok p (t_hdr m) (free_set B)" and b: "\<not> free_at B b" "b \<noteq> 0"
    and s: "blk_size m b = word_of_nat s" "s < 2 ^ 30"
  obtains p' m' where "insert_by_size b (p, m) = Some (p', m')"
    and "\<forall>g q a. lists_ok p' (t_hdr m') (free_set (B(b \<mapsto> (s, True, g, q, a))))" and "same_params p p'" and "same_blocks m m'"
proof -
  obtain fl sl where c: "MAPPING_INSERT s = (fl, sl)" "fl < 24" "sl < 32" using mapping_insert_range [OF s(2)] .
  have out: "b \<notin> free_set B d" for d by (rule free_set_used [OF b(1)])
  obtain p' m' where r: "INSERT_BLOCK b fl sl (p, m) = Some (p', m')"
    "lists_ok p' (t_hdr m') ((free_set B)((fl, sl) := insert b (free_set B (fl, sl))))" "same_params p p'" "same_blocks m m'"
    using INSERT_BLOCK_ok [OF ok c(2,3) out b(2)] by blast
  have "insert_by_size b (p, m) = Some (p', m')" using r(1) by (simp add: insert_by_size_def s(1) unat_hw [OF s(2)] c(1))
  moreover have "(free_set B)((fl, sl) := insert b (free_set B (fl, sl))) = free_set (B(b \<mapsto> (s, True, g, q, a)))" for g q a
    by (rule free_set_in [OF b(1) c(1)])
  ultimately show thesis using that r by simp
qed

lemma extract_by_size_ok:
  assumes ok: "lists_ok p (t_hdr m) (free_set B)" and b: "B b = Some (s, True, g, q, a)"
    and s: "blk_size m b = word_of_nat s" "s < 2 ^ 30"
  obtains p' m' where "extract_by_size b (p, m) = Some (p', m')" and "lists_ok p' (t_hdr m') (free_set (B(b := None)))"
    and "same_params p p'" and "same_blocks m m'"
proof -
  obtain fl sl where c: "MAPPING_INSERT s = (fl, sl)" "fl < 24" "sl < 32" using mapping_insert_range [OF s(2)] .
  have "b \<in> free_set B (fl, sl)" using b c(1) by (auto simp: free_set_def)
  then obtain p' m' where r: "EXTRACT_BLOCK b fl sl (p, m) = Some (p', m')"
    "lists_ok p' (t_hdr m') ((free_set B)((fl, sl) := free_set B (fl, sl) - {b}))" "same_params p p'" "same_blocks m m'"
    using EXTRACT_BLOCK_ok [OF ok c(2,3)] by blast
  have "extract_by_size b (p, m) = Some (p', m')" using r(1) by (simp add: extract_by_size_def s(1) unat_hw [OF s(2)] c(1))
  with that r free_set_remove [of B b s g q a, OF b c(1)] show thesis by simp
qed

section \<open>Adding a region\<close>

definition same_conf :: "tlsf_pool \<Rightarrow> tlsf_pool \<Rightarrow> bool" where
  "same_conf p p' \<longleftrightarrow> init_size p' = init_size p \<and> max_size p' = max_size p \<and> grow_size p' = grow_size p
     \<and> init_region p' = init_region p"

lemma same_params_conf: "same_params p p' \<Longrightarrow> same_conf p p'" by (simp add: same_params_def same_conf_def)

lemma same_conf_refl [simp]: "same_conf p p" by (simp add: same_conf_def)

lemma same_conf_trans: "same_conf p p' \<Longrightarrow> same_conf p' p'' \<Longrightarrow> same_conf p p''" by (simp add: same_conf_def)

lemma grow_ok_conf: "same_conf p p' \<Longrightarrow> grow_ok p' = grow_ok p" by (simp add: same_conf_def grow_ok_def)

lemma rounddown_id: "16 dvd unat w \<Longrightarrow> ROUNDDOWN_SIZE w = w"
proof -
  assume d: "16 dvd unat w"
  have "bit (ROUNDDOWN_SIZE w) k = bit w k" if k: "k < 64" for k
  proof -
    have w: "w = word_of_nat (unat w)" by simp
    have "\<not> bit w k" if "k < 4" using bit_multiple_16 [OF d that, where 'a = 64] w by simp
    moreover have "bit MEM_ALIGN_MASK k \<longleftrightarrow> 4 \<le> k"
    proof -
      have mm: "MEM_ALIGN_MASK = NOT (mask 4)" by (simp add: MEM_ALIGN_MASK_def MEM_ALIGN_def mask_eq_exp_minus_1)
      show ?thesis unfolding mm bit_not_iff bit_mask_iff using k by auto
    qed
    ultimately show ?thesis by (auto simp: ROUNDDOWN_SIZE_def bit_and_iff)
  qed
  then show ?thesis by (intro bit_word_eqI) simp
qed

lemma region_size:
  assumes "16 dvd unat n" and "48 \<le> unat n" and "unat n \<le> 2 ^ 30"
  shows "(ucast (ROUNDDOWN_SIZE (n - 2 * word_of_nat BHDR_OVERHEAD)) OR FREE_BLOCK) OR TLSF_PREV_USED = hw (unat n - 32) True False"
proof -
  have "n - 32 = word_of_nat (unat n - 32)" using assms(2) by (simp add: of_nat_diff)
  moreover have "unat (word_of_nat (unat n - 32) :: u64) = unat n - 32" using assms(3) by (simp add: unat_of_nat)
  ultimately have u: "unat (n - 32) = unat n - 32" by simp
  then have "ROUNDDOWN_SIZE (n - 32) = n - 32" using assms(1,2) by (intro rounddown_id) (simp add: dvd_diff_nat)
  moreover have "(ucast (n - 32) :: u32) = word_of_nat (unat n - 32)" using u by (metis of_nat_unat)
  ultimately show ?thesis by (simp add: tlsf_consts FREE_BLOCK_def TLSF_PREV_USED_def hw_def)
qed

lemma ADD_REGION_ok:
  assumes inv: "tlsf_inv p m B" and a: "fresh_area (t_areas m) a (unat n)" "16 dvd a"
    and n: "16 dvd unat n" "48 \<le> unat n" "unat n \<le> 2 ^ 30"
  obtains p' m' where "ADD_REGION a n (p, take_area a n m) = Some (p', m')"
    and "tlsf_inv p' m' (B(a \<mapsto> (unat n - 32, True, False, 0, a), a + 16 + (unat n - 32) \<mapsto> (0, False, True, a, a)))"
    and "same_conf p p'" and "t_byte m' = t_byte m" and "t_areas m' = (t_areas m)(a \<mapsto> unat n)"
    and "num_regions p' = num_regions p + 1" and "B a = None" and "B (a + 16 + (unat n - 32)) = None"
proof -
  let ?s = "unat n - 32" and ?m = "take_area a n m" and ?k = "a + 16 + (unat n - 32)"
  let ?B1 = "B(a \<mapsto> (?s, True, False, 0, a))" and ?B2 = "B(a \<mapsto> (?s, True, False, 0, a), ?k \<mapsto> (0, False, True, a, a))"
  note I = tlsf_invD [OF inv]
  have a0: "a \<noteq> 0" using a(1) by (simp add: fresh_area_def)
  have s: "?s < 2 ^ 30" "16 dvd ?s" "unat n = ?s + 32" "?s \<noteq> 0" using n by (simp_all add: dvd_diff_nat)
  have region: "blocks_ok ((t_areas m)(a \<mapsto> unat n)) ?B2"
    by (rule blocks_ok_region [OF I(1) a(1) s(3,4,2) a(2) n(3)])
  have none: "B c = None" if "a \<le> c" "c < a + unat n" for c
  proof (rule ccontr)
    assume "B c \<noteq> None"
    then obtain sc fc gc qc ac where "B c = Some (sc, fc, gc, qc, ac)" by auto
    from blocks_okD(4) [OF I(1) this] obtain k where k: "t_areas m ac = Some k" "ac \<le> c" "c + 16 + sc \<le> ac + k"
      by (auto simp: in_area_def)
    then have "a + unat n \<le> ac \<or> ac + k \<le> a" using a by (auto simp: fresh_area_def)
    with k that show False by linarith
  qed
  have nn: "B a = None" "B ?k = None" using none n by simp_all
  let ?F = "\<lambda>h. h\<lparr>prev_hdr := 0, b_size := hw ?s True False\<rparr>"
  define m1 where "m1 = upd_hdr a ?F ?m"
  have h1: "headers_ok (t_hdr m1) ?B1" unfolding m1_def using I(3) by (intro headers_ok_upd) simp_all
  have bs: "blk_size m1 a = word_of_nat ?s" using blk_size_hw [of m1 a ?s True False] s(2) by (simp add: m1_def upd_hdr_apply)
  have "lists_ok p (t_hdr ?m) (free_set B)" using I(4) by (simp add: take_area_def)
  then have l1: "lists_ok p (t_hdr m1) (free_set B)" unfolding m1_def by (intro lists_ok_upd) simp_all
  obtain p2 m2 where i: "insert_by_size a (p, m1) = Some (p2, m2)"
    "\<forall>g q aa. lists_ok p2 (t_hdr m2) (free_set (B(a \<mapsto> (?s, True, g, q, aa))))" "same_params p p2" "same_blocks m1 m2"
    by (rule insert_by_size_ok [OF l1 free_at_simps(1) [of B a, OF nn(1)] a0 bs s(1)])
  have bs2: "blk_size m2 a = word_of_nat ?s" using bs i(4) by (simp add: blk_size_def same_blocks_def)
  let ?G = "\<lambda>h. h\<lparr>prev_hdr := a, b_size := (0 OR USED_BLOCK) OR TLSF_PREV_FREE\<rparr>"
  define m3 where "m3 = upd_hdr ?k ?G m2"
  define p3 where "p3 = p2\<lparr>used_size := used_size p2 + word_of_nat BHDR_OVERHEAD, num_regions := num_regions p2 + 1\<rparr>"
  have res: "ADD_REGION a n (p, ?m) = Some (p3, m3)"
    unfolding ADD_REGION_def prod.case Let_def region_size [OF n] m1_def [symmetric] i(1)
    by (simp only: bs2 unat_hw [OF s(1)] Option.bind.simps prod.case GET_NEXT_BLOCK_add m3_def p3_def Let_def)
  have "headers_ok (t_hdr m2) ?B1" using h1 headers_ok_same [OF i(4)] by simp
  then have h3: "headers_ok (t_hdr m3) ?B2"
    unfolding m3_def by (intro headers_ok_upd) (simp_all add: hw_def USED_BLOCK_def TLSF_PREV_FREE_def)
  have "free_set ?B2 = free_set ?B1" using nn s(4) by (intro free_set_out) simp
  then have l3: "lists_ok p3 (t_hdr m3) (free_set ?B2)"
    unfolding m3_def using i(2) lists_ok_params [of p3 p2 "t_hdr m2" "free_set ?B1"]
    by (intro lists_ok_upd) (simp_all add: p3_def del: fun_upd_apply)
  have fin: "finite (dom ?B1)" using I(5) by simp
  have k: "?B1 ?k = None" using nn s(4) by simp
  have tot: "total w ?B2 = total w B + w (?s, True, False, 0, a) + w (0, False, True, a, a)" for w
    by (simp only: total_new [OF fin k] total_new [OF I(5) nn(1)])
  have params: "used_size p2 = total used_weight B" "num_regions p2 = total region_weight B"
    using i(3) inv by (simp_all add: same_params_def tlsf_inv_def)
  have conf: "same_conf p p3" using same_params_conf [OF i(3)] by (simp add: p3_def same_conf_def)
  have "apart ?B2" using I(2) by (simp add: apart_upd)
  moreover have ar: "t_areas m3 = (t_areas m)(a \<mapsto> unat n)"
    using i(4) by (simp add: m3_def same_blocks_def m1_def take_area_def)
  moreover have "used_size p3 = total used_weight ?B2" "num_regions p3 = total region_weight ?B2"
    unfolding tot using params a0 by (simp_all add: p3_def used_weight_def region_weight_def tlsf_consts)
  moreover have "grow_ok p3" using grow_ok_conf [OF conf] inv by (simp add: tlsf_inv_def)
  ultimately have "tlsf_inv p3 m3 ?B2" using region h3 l3 by (simp add: tlsf_inv_def)
  moreover have "t_byte m3 = t_byte m" using i(4) by (simp add: m3_def same_blocks_def m1_def take_area_def)
  moreover have "num_regions p3 = num_regions p + 1" using i(3) by (simp add: p3_def same_params_def)
  ultimately show thesis using that [OF res _ conf] ar nn by blast
qed

end
