(* ===== verification/Tlsf_Malloc.thy ===== *)
theory Tlsf_Malloc
  imports Tlsf_Pool
begin

text \<open>
  Allocation: the search with its retry returns, with a block that is large enough or with the reason why there
  is none; taking the block keeps the invariant and makes one more object live.
\<close>

section \<open>Live objects\<close>

text \<open>What has been handed out: the address behind the header, and the size of the block.\<close>

definition tlive :: "blks \<Rightarrow> addr \<Rightarrow> nat option" where
  "tlive B x = (if x < 16 then None
     else case B (x - 16) of None \<Rightarrow> None | Some (s, f, g, q, a) \<Rightarrow> if f \<or> s = 0 then None else Some s)"

lemma tlive_upd: "tlive (B(b \<mapsto> (s, f, g, q, a))) = (tlive B)(b + 16 := (if f \<or> s = 0 then None else Some s))"
  by (auto simp: tlive_def fun_eq_iff)

lemma tlive_del: "tlive (B(b := None)) = (tlive B)(b + 16 := None)"
  by (auto simp: tlive_def fun_eq_iff)

lemma tlive_at: "B b = Some (s, f, g, q, a) \<Longrightarrow> tlive B (b + 16) = (if f \<or> s = 0 then None else Some s)"
  by (simp add: tlive_def)

lemma tlive_none: "B b = None \<Longrightarrow> tlive B (b + 16) = None"
  by (simp add: tlive_def)

lemma tlive_SomeE:
  assumes "tlive B x = Some s"
  obtains b g q a where "x = b + 16" and "B b = Some (s, False, g, q, a)" and "s \<noteq> 0"
proof -
  obtain s' f g q a where B: "B (x - 16) = Some (s', f, g, q, a)" "16 \<le> x" "\<not> f" "s' \<noteq> 0" "s' = s"
    using assms by (auto simp: tlive_def split: option.splits prod.splits if_split_asm)
  show thesis by (rule that [of "x - 16" g q a]) (use B in simp_all)
qed

text \<open>Live objects do not overlap, and their headers are between them.\<close>

lemma tlive_disjoint:
  assumes "blocks_ok A B" and "tlive B x = Some s" and "tlive B y = Some t" and "x < y"
  shows "x + s + 16 \<le> y"
proof -
  obtain b g q a where b: "x = b + 16" "B b = Some (s, False, g, q, a)" using tlive_SomeE [OF assms(2)] .
  obtain c g' q' a' where c: "y = c + 16" "B c = Some (t, False, g', q', a')" using tlive_SomeE [OF assms(3)] .
  show ?thesis using blocks_ok_order [OF assms(1) b(2) c(2)] b(1) c(1) assms(4) by simp
qed

section \<open>The words written\<close>

lemma ucast_size: "s < 2 ^ 30 \<Longrightarrow> (ucast (word_of_nat s :: u32) :: u64) = word_of_nat s"
  by (metis of_nat_unat unat_hw(1))

lemma split_words:
  assumes "r < 2 ^ 30"
  shows "ucast ((word_of_nat r OR ucast FREE_BLOCK) OR ucast TLSF_PREV_USED :: u64) = hw r True False"
    and "ucast (word_of_nat r OR ucast (hw 0 False g) :: u64) = hw r False g"
proof -
  have low: "bit (word_of_nat r :: u64) k \<longleftrightarrow> bit (word_of_nat r :: u32) k" if "k < 32" for k
    using that by (simp add: bit_of_nat_iff)
  show "ucast ((word_of_nat r OR ucast FREE_BLOCK) OR ucast TLSF_PREV_USED :: u64) = hw r True False"
    by (intro bit_word_eqI) (auto simp: bit_unsigned_iff bit_or_iff bit_hw bit_flags low TLSF_PREV_USED_def)
  have z: "\<not> bit (word_of_nat 0 :: u32) k" for k by simp
  show "ucast (word_of_nat r OR ucast (hw 0 False g) :: u64) = hw r False g"
    by (intro bit_word_eqI) (auto simp: bit_unsigned_iff bit_or_iff bit_hw low z simp del: of_nat_0)
qed

lemma size_diff:
  assumes "t \<le> s" and "s < 2 ^ 30"
  shows "word_of_nat s - word_of_nat t = (word_of_nat (s - t) :: u64)"
    and "word_of_nat sizeof_bhdr \<le> (word_of_nat (s - t) :: u64) \<longleftrightarrow> 32 \<le> s - t"
proof -
  show "word_of_nat s - word_of_nat t = (word_of_nat (s - t) :: u64)" using assms(1) by (simp add: of_nat_diff)
  have "s - t < 2 ^ 64" using assms(2) by simp
  then show "word_of_nat sizeof_bhdr \<le> (word_of_nat (s - t) :: u64) \<longleftrightarrow> 32 \<le> s - t"
    by (simp add: word_le_nat_alt unat_of_nat tlsf_consts)
qed

section \<open>Taking a block\<close>

text \<open>The size of the block that is handed out for \<open>t\<close> bytes of a free block of \<open>s\<close>.\<close>

definition taken :: "nat \<Rightarrow> nat \<Rightarrow> nat" where
  "taken s t = (if 32 \<le> s - t then t else s)"

lemma used_upd:
  assumes "finite (dom B)" and "B b = Some (s, True, g, q, a)" and "B k = Some (sk, False, gk, qk, ak)" and "b \<noteq> k"
  shows "total used_weight (B(b \<mapsto> (t, False, g, q, a), k \<mapsto> (sk, False, gk', qk', ak))) = total used_weight B + word_of_nat (t + 16)"
    and "(qk = 0) = (qk' = 0) \<Longrightarrow>
      total region_weight (B(b \<mapsto> (t, f, g, q, a), k \<mapsto> (sk, False, gk', qk', ak))) = total region_weight B"
proof -
  have k: "(B(b \<mapsto> v)) k = Some (sk, False, gk, qk, ak)" "finite (dom (B(b \<mapsto> v)))" for v using assms by simp_all
  show "total used_weight (B(b \<mapsto> (t, False, g, q, a), k \<mapsto> (sk, False, gk', qk', ak))) = total used_weight B + word_of_nat (t + 16)"
    unfolding total_upd [OF k(2,1)] total_upd [OF assms(1,2)] by (simp add: used_weight_def)
  show "total region_weight (B(b \<mapsto> (t, f, g, q, a), k \<mapsto> (sk, False, gk', qk', ak))) = total region_weight B"
    if "(qk = 0) = (qk' = 0)"
    unfolding total_upd [OF k(2,1)] total_upd [OF assms(1,2)] using that by (simp add: region_weight_def)
qed

lemma tlsf_take_ok:
  assumes inv: "blocks_ok (t_areas m) B" "apart B" "headers_ok (t_hdr m) B" "lists_ok p (t_hdr m) (free_set (B(b := None)))"
    and par: "used_size p = total used_weight B" "num_regions p = total region_weight B" "grow_ok p"
    and b: "B b = Some (s, True, g, q, a)" and t: "16 dvd t" "t \<noteq> 0" "t \<le> s"
  obtains p' m' B' where "tlsf_take b (word_of_nat t) (p, m) = Some (p', m')" and "tlsf_inv p' m' B'" and "same_conf p p'"
    and "t_byte m' = t_byte m" and "t_areas m' = t_areas m" and "tlive B' = (tlive B)(b + 16 \<mapsto> taken s t)"
    and "num_regions p' = num_regions p"
proof -
  note bD = blocks_okD [OF inv(1) b]
  have s0: "s \<noteq> 0" using bD(3) by blast
  obtain sk fk where k: "B (b + 16 + s) = Some (sk, fk, True, b, a)" using blocks_ok_next [OF inv(1) b s0] .
  have fk: "\<not> fk" using apartD [OF inv(2), of "b + 16 + s" sk True b a] k by (cases fk) auto
  let ?k = "b + 16 + s"
  have k': "B ?k = Some (sk, False, True, b, a)" and bk: "b \<noteq> ?k" using k fk by simp_all
  note kD = blocks_okD [OF inv(1) k]
  have fin: "finite (dom B)" using inv(1) by (simp add: blocks_ok_def)
  have bs: "blk_size m b = word_of_nat s" using headers_okD [OF inv(3) b] bD(1) by (intro blk_size_hw) auto
  have tb: "t < 2 ^ 30" using t bD(8) by simp
  have lb: "tlive B (?k + 16) = (if sk = 0 then None else Some sk)" using tlive_at [of B ?k, OF k] fk by simp
  note e = bs unat_hw(1) [OF bD(8)] ucast_size [OF bD(8)] size_diff [OF t(3) bD(8)]
  show thesis
  proof (cases "32 \<le> s - t")
    case False
    let ?B' = "B(b \<mapsto> (s, False, g, q, a), ?k \<mapsto> (sk, fk, False, b, a))"
    define m1 where "m1 = upd_hdr ?k (\<lambda>h. h\<lparr>b_size := b_size h AND NOT TLSF_PREV_FREE\<rparr>) m"
    define m2 where "m2 = upd_hdr b (\<lambda>h. h\<lparr>b_size := b_size h AND NOT FREE_BLOCK\<rparr>) m1"
    define p1 where "p1 = p\<lparr>used_size := used_size p + (word_of_nat s + word_of_nat BHDR_OVERHEAD)\<rparr>"
    have h1: "headers_ok (t_hdr m1) (B(?k \<mapsto> (sk, fk, False, b, a)))"
      unfolding m1_def using headers_okD [OF inv(3) k] kD(1) by (intro headers_ok_upd inv(3)) (simp_all add: hw_flags)
    have h2: "headers_ok (t_hdr m2) (B(?k \<mapsto> (sk, fk, False, b, a), b \<mapsto> (s, False, g, q, a)))"
      unfolding m2_def using headers_okD [OF inv(3) b] bD(1) by (intro headers_ok_upd h1) (simp_all add: hw_flags m1_def upd_hdr_apply)
    have B': "B(?k \<mapsto> (sk, fk, False, b, a), b \<mapsto> (s, False, g, q, a)) = ?B'" by (rule fun_upd_twist) simp
    have "blk_size m2 b = word_of_nat s" using headers_okD [OF h2, of b] bD(1) by (intro blk_size_hw) auto
    then have res: "tlsf_take b (word_of_nat t) (p, m) = Some (p1, m2)"
      unfolding tlsf_take_def prod.case Let_def e GET_NEXT_BLOCK_add if_not_P [OF False]
      by (simp add: m1_def [symmetric] m2_def [symmetric] ucast_size [OF bD(8)] p1_def)
    have l2: "lists_ok p1 (t_hdr m2) (free_set ?B')"
    proof -
      have "free_set ?B' = free_set (B(b := None))" using k fk by (intro ext) (auto simp: free_set_upd free_set_def)
      moreover have "lists_ok p (t_hdr m2) (free_set (B(b := None)))"
        unfolding m2_def m1_def by (intro lists_ok_upd inv(4)) simp_all
      ultimately show ?thesis using lists_ok_params [of p1 p] by (simp add: p1_def)
    qed
    have "blocks_ok (t_areas m2) ?B'" using blocks_ok_mark [OF inv(1) b s0 k, of False] by (simp add: m2_def m1_def)
    moreover have "apart ?B'" using inv(2) by (simp add: apart_upd)
    moreover have "used_size p1 = total used_weight ?B'" "num_regions p1 = total region_weight ?B'"
      using used_upd(1) [OF fin b k' bk] used_upd(2) [OF fin b k' bk, where qk' = b] fk par
      by (simp_all add: p1_def tlsf_consts)
    moreover have "grow_ok p1" using par(3) by (simp add: grow_ok_def p1_def)
    ultimately have "tlsf_inv p1 m2 ?B'" using h2 l2 by (simp add: tlsf_inv_def B')
    moreover have "tlive ?B' = (tlive B)(b + 16 \<mapsto> taken s t)"
      using s0 lb fk False by (auto simp: tlive_upd taken_def fun_eq_iff)
    ultimately show thesis using that [OF res] by (simp add: p1_def same_conf_def m2_def m1_def)
  next
    case True
    define r where "r = s - t - 16"
    have r: "s = t + 16 + r" "r \<noteq> 0" "r < 2 ^ 30" "s - t = r + 16" using True t bD(8) by (simp_all add: r_def)
    have rd: "16 dvd r" using bD(1) t(1) unfolding r(1) by (simp add: dvd_add_left_iff dvd_add_right_iff)
    let ?n = "b + 16 + t"
    let ?B' = "B(b \<mapsto> (t, False, g, q, a), ?n \<mapsto> (r, True, False, b, a), ?k \<mapsto> (sk, fk, True, ?n, a))"
    have nk: "?n \<noteq> ?k" "b \<noteq> ?n" "b \<noteq> ?k" using r by simp_all
    have nn: "B ?n = None" using blocks_ok_gap [OF inv(1) b, of ?n] r by simp
    have split: "blocks_ok (t_areas m) ?B'" using blocks_ok_split [OF inv(1) b r(1) t(1,2) r(2) refl refl k] .
    define m1 where "m1 = upd_hdr ?n (\<lambda>h. h\<lparr>b_size := hw r True False, prev_hdr := b\<rparr>) m"
    define m2 where "m2 = upd_hdr ?k (\<lambda>h. h\<lparr>prev_hdr := ?n\<rparr>) m1"
    let ?B2 = "B(?n \<mapsto> (r, True, False, b, a), ?k \<mapsto> (sk, fk, True, ?n, a))"
    have h1: "headers_ok (t_hdr m1) (B(?n \<mapsto> (r, True, False, b, a)))"
      unfolding m1_def by (intro headers_ok_upd inv(3)) simp_all
    have h2: "headers_ok (t_hdr m2) ?B2"
      unfolding m2_def using headers_okD [OF inv(3) k] nk by (intro headers_ok_upd h1) (simp_all add: m1_def upd_hdr_apply)
    have l2: "lists_ok p (t_hdr m2) (free_set (B(b := None)))"
      unfolding m2_def m1_def by (intro lists_ok_upd inv(4)) simp_all
    obtain fl sl where c: "MAPPING_INSERT r = (fl, sl)" "fl < 24" "sl < 32" using mapping_insert_range [OF r(3)] .
    have out: "?n \<notin> free_set (B(b := None)) d" for d using nn nk by (intro free_set_used) simp
    have n0: "?n \<noteq> 0" by simp
    obtain p3 m3 where i: "INSERT_BLOCK ?n fl sl (p, m2) = Some (p3, m3)"
      "lists_ok p3 (t_hdr m3) ((free_set (B(b := None)))((fl, sl) := insert ?n (free_set (B(b := None)) (fl, sl))))"
      "same_params p p3" "same_blocks m2 m3"
      by (rule INSERT_BLOCK_ok [OF l2 c(2,3) out n0])
    have l3: "lists_ok p3 (t_hdr m3) (free_set ?B')"
    proof -
      have "(free_set (B(b := None)))((fl, sl) := insert ?n (free_set (B(b := None)) (fl, sl))) = free_set ?B'"
        using nn nk k fk c(1) by (intro ext) (auto simp: free_set_upd free_set_del free_set_def)
      with i(2) show ?thesis by simp
    qed
    let ?F = "\<lambda>h. h\<lparr>b_size := ucast (word_of_nat t OR ucast (b_size h AND PREV_STATE) :: u64)\<rparr>"
    define m4 where "m4 = upd_hdr b ?F m3"
    define p4 where "p4 = p3\<lparr>used_size := used_size p3 + (word_of_nat t + word_of_nat BHDR_OVERHEAD)\<rparr>"
    have h3: "headers_ok (t_hdr m3) ?B2" using h2 headers_ok_same [OF i(4)] by simp
    have "b_size (t_hdr m3 b) = hw s True g \<and> prev_hdr (t_hdr m3 b) = q" using headers_okD [OF h3, of b] b nk by simp
    then have h4: "headers_ok (t_hdr m4) (?B2(b \<mapsto> (t, False, g, q, a)))"
      unfolding m4_def using bD(1) tb by (intro headers_ok_upd h3) (simp_all add: hw_flags split_words)
    have B': "?B2(b \<mapsto> (t, False, g, q, a)) = ?B'" using nk by (auto simp: fun_eq_iff)
    have "blk_size m4 b = word_of_nat t" using headers_okD [OF h4, of b] t(1) by (intro blk_size_hw) auto
    moreover have "word_of_nat (s - t) - word_of_nat BHDR_OVERHEAD = (word_of_nat r :: u64)" by (simp add: r(4) tlsf_consts)
    ultimately have res: "tlsf_take b (word_of_nat t) (p, m) = Some (p4, m4)"
      unfolding tlsf_take_def prod.case Let_def e GET_NEXT_BLOCK_add if_P [OF True]
      using i(1)
      by (simp add: split_words [OF r(3)] unat_hw(2) [OF r(3)] unat_hw(2) [OF tb] c(1) m1_def [symmetric] m2_def [symmetric]
          m4_def [symmetric] ucast_size [OF tb] p4_def)
    have conf: "same_conf p p4" using same_params_conf [OF i(3)] by (simp add: p4_def same_conf_def)
    have ar: "t_areas m4 = t_areas m" "t_byte m4 = t_byte m"
      using i(4) by (simp_all add: m4_def same_blocks_def m2_def m1_def)
    have l4: "lists_ok p4 (t_hdr m4) (free_set ?B')"
      using lists_ok_upd [OF _ _ l3, of ?F b] lists_ok_params [of p4 p3] by (simp add: m4_def p4_def)
    have "apart ?B'" using inv(2) fk by (simp add: apart_upd)
    moreover have "used_size p4 = total used_weight ?B'" "num_regions p4 = total region_weight ?B'"
    proof -
      let ?B3 = "B(?n \<mapsto> (r, True, False, b, a))"
      have eq: "?B' = ?B3(b \<mapsto> (t, False, g, q, a), ?k \<mapsto> (sk, False, True, ?n, a))" using nk fk by (auto simp: fun_eq_iff)
      have f3: "finite (dom ?B3)" "?B3 b = Some (s, True, g, q, a)" "?B3 ?k = Some (sk, False, True, b, a)" using fin b k fk nk by simp_all
      have "used_size p3 = used_size p" "num_regions p3 = num_regions p" using i(3) by (simp_all add: same_params_def)
      moreover have "total used_weight ?B' = total used_weight ?B3 + word_of_nat (t + 16)"
        unfolding eq by (rule used_upd(1) [OF f3 nk(3)])
      moreover have "total region_weight ?B' = total region_weight ?B3"
        unfolding eq by (rule used_upd(2) [OF f3 nk(3)]) (simp add: bD(6))
      moreover have "total w ?B3 = total w B + w (r, True, False, b, a)" for w by (rule total_new [OF fin nn])
      moreover have "used_weight (r, True, False, b, a) = 0" "region_weight (r, True, False, b, a) = 0"
        using bD(6) by (simp_all add: used_weight_def region_weight_def)
      moreover have "used_size p4 = used_size p3 + word_of_nat (t + 16)" "num_regions p4 = num_regions p3"
        by (simp_all add: p4_def tlsf_consts)
      ultimately show "used_size p4 = total used_weight ?B'" "num_regions p4 = total region_weight ?B'"
        unfolding par by (simp_all only: add_0_right)
    qed
    moreover have "grow_ok p4" using grow_ok_conf [OF conf] par(3) by simp
    ultimately have "tlsf_inv p4 m4 ?B'" using split h4 l4 ar by (simp add: tlsf_inv_def B')
    moreover have "tlive ?B' = (tlive B)(b + 16 \<mapsto> taken s t)"
      using t(2) lb fk nk True tlive_none [of B ?n] nn by (auto simp: tlive_upd taken_def fun_eq_iff)
    moreover have "num_regions p4 = num_regions p" using i(3) by (simp add: p4_def same_params_def)
    ultimately show thesis using that [OF res _ conf ar(2,1)] by blast
  qed
qed
section \<open>Rounding the request\<close>

lemma unat_round_down: "unat (w AND NOT (mask k) :: u64) = unat w div 2 ^ k * 2 ^ k"
proof -
  have "w AND NOT (mask k) = push_bit k (drop_bit k w)" by (intro bit_word_eqI) (auto simp: bit_simps)
  moreover have "take_bit 64 (unat w) = unat w" using unsigned_less [of w, where ?'a = nat] by (simp add: take_bit_nat_eq_self)
  ultimately have "unat (w AND NOT (mask k)) = take_bit 64 (push_bit k (drop_bit k (unat w)))"
    by (simp add: unsigned_push_bit_eq unsigned_drop_bit_eq)
  also have "\<dots> = unat w div 2 ^ k * 2 ^ k"
  proof -
    have "unat w div 2 ^ k * 2 ^ k \<le> unat w" by simp
    also have "unat w < 2 ^ 64" using unsigned_less [of w, where ?'a = nat] by simp
    finally show ?thesis by (simp add: push_bit_eq_mult drop_bit_eq_div take_bit_nat_eq_self)
  qed
  finally show ?thesis .
qed

lemma unat_roundup:
  assumes "unat r < 2 ^ 30"
  shows "unat (ROUNDUP_SIZE r) = (unat r + 15) div 16 * 16"
proof -
  have mm: "MEM_ALIGN_MASK = NOT (mask 4)" by (simp add: MEM_ALIGN_MASK_def MEM_ALIGN_def mask_eq_exp_minus_1)
  have e: "ROUNDUP_SIZE r = (r + 15) AND NOT (mask 4)" unfolding ROUNDUP_SIZE_def mm by (simp add: tlsf_consts add.commute)
  have "unat (r + 15) = unat r + 15" using assms by (simp add: unat_word_ariths)
  then show ?thesis unfolding e unat_round_down by simp
qed

text \<open>The size that is searched for.\<close>

definition request_size :: "nat \<Rightarrow> nat" where
  "request_size n = (if n < 16 then 16 else (n + 15) div 16 * 16)"

lemma request_size_bounds: "16 dvd request_size n" "n \<le> request_size n" "request_size n \<noteq> 0" "request_size n < n + 16 \<or> n < 16"
  unfolding request_size_def by (auto simp: not_less)

lemma request_word:
  assumes "unat req < 2 ^ 30"
  shows "(if req < word_of_nat MIN_BLOCK_SIZE then word_of_nat MIN_BLOCK_SIZE else ROUNDUP_SIZE req) = word_of_nat (request_size (unat req))"
proof -
  have "req < word_of_nat MIN_BLOCK_SIZE \<longleftrightarrow> unat req < 16" by (simp add: word_less_nat_alt tlsf_consts)
  moreover have "ROUNDUP_SIZE req = word_of_nat ((unat req + 15) div 16 * 16)"
    unfolding unat_roundup [OF assms, symmetric] by simp
  ultimately show ?thesis by (simp add: request_size_def tlsf_consts)
qed

section \<open>The search\<close>

definition fresh_memory :: "get_memory \<Rightarrow> bool" where
  "fresh_memory get_mem \<longleftrightarrow> (\<forall>m n a. get_mem m n = Some a \<longrightarrow> fresh_area (t_areas m) a (unat n) \<and> 16 dvd a)"

text \<open>The free block that the search returns for \<open>r\<close> bytes, rounded up to \<open>r'\<close>.\<close>

definition suitable :: "tlsf_pool \<Rightarrow> blks \<Rightarrow> addr \<Rightarrow> nat \<Rightarrow> nat \<Rightarrow> nat \<Rightarrow> bool" where
  "suitable p B b fl sl r' \<longleftrightarrow> fl < 24 \<and> sl < 32 \<and> b = matrix p ! fl ! sl \<and> b \<in> free_set B (fl, sl) \<and> b \<noteq> 0
     \<and> (\<exists>s g q a. B b = Some (s, True, g, q, a) \<and> r' \<le> s)"

lemma find_cases:
  assumes inv: "tlsf_inv p m B" and c: "fl < 24" "sl < 32" "r' = class_lower fl sl"
  obtains (found) b fl' sl' where "FIND_SUITABLE_BLOCK p fl sl = Some (b, fl', sl')" and "suitable p B b fl' sl' r'"
      and "first_list (\<lambda>c. free_set B c \<noteq> {}) (fl, sl) (fl', sl')"
    | (none) n where "FIND_SUITABLE_BLOCK p fl sl = Some (0, n)"
      and "\<And>b s g q a. B b = Some (s, True, g, q, a) \<Longrightarrow> s < r'"
proof -
  note I = tlsf_invD [OF inv]
  have bits: "bits_ok p (\<lambda>c. free_set B c \<noteq> {})" and mok: "matrix_ok p" using I(4) by (simp_all add: lists_ok_def)
  have le: "class_le (fl, sl) (MAPPING_INSERT s) \<longleftrightarrow> r' \<le> s" if "B b = Some (s, f, g, q, a)" for b s f g q a
    using class_le_iff [of s sl fl] blocks_okD(8) [OF I(1) that] c by simp
  show thesis
  proof (cases rule: find_suitable_block_cases [OF bits mok c(1,2)])
    case (1 fl' sl')
    then have f: "fl' < 24" "sl' < 32" "free_set B (fl', sl') \<noteq> {}" "class_le (fl, sl) (fl', sl')" by (simp_all add: first_list_def)
    let ?b = "matrix p ! fl' ! sl'"
    have "tlist_ok (t_hdr m) ?b (free_set B (fl', sl'))" using I(4) f(1,2) by (simp add: lists_ok_def)
    from tlist_ok_head [OF this f(3)] have b: "?b \<in> free_set B (fl', sl')" "?b \<noteq> 0" by blast+
    then obtain s g q a where s: "B ?b = Some (s, True, g, q, a)" "MAPPING_INSERT s = (fl', sl')" by (auto simp: free_set_def)
    have "r' \<le> s" using le [OF s(1)] s(2) f(4) by simp
    then show thesis using found [OF 1(2) _ 1(1)] f(1,2) b s(1) by (simp add: suitable_def)
  next
    case (2 n)
    have "s < r'" if b: "B b = Some (s, True, g, q, a)" for b s g q a
    proof (rule ccontr)
      assume "\<not> s < r'"
      then have cl: "class_le (fl, sl) (MAPPING_INSERT s)" using le [OF b] by simp
      obtain i j where ij: "MAPPING_INSERT s = (i, j)" "i < 24" "j < 32" using mapping_insert_range [OF blocks_okD(8) [OF I(1) b]] .
      have "b \<in> free_set B (i, j)" using b ij(1) by (auto simp: free_set_def)
      then show False using 2(2) [OF ij(2,3)] cl ij(1) by auto
    qed
    then show thesis by (rule none [OF 2(1)])
  qed
qed

text \<open>Why there is no block: every free one is too small, and the pool must not or cannot grow.\<close>

definition no_block :: "get_memory \<Rightarrow> tlsf_pool \<Rightarrow> tmem \<Rightarrow> blks \<Rightarrow> nat \<Rightarrow> bool" where
  "no_block get_mem p m B r' \<longleftrightarrow> (\<forall>b s g q a. B b = Some (s, True, g, q, a) \<longrightarrow> s < r')
     \<and> (unat (grow_size p) - 32 < r' \<or> (max_size p \<noteq> 0 \<and> max_size p < init_size p + num_regions p * grow_size p)
        \<or> get_mem m (grow_size p) = None)"

text \<open>The size that is searched for: the least lower bound of a class, among those that reach the size.\<close>

definition least_class :: "nat \<Rightarrow> nat \<Rightarrow> bool" where
  "least_class r r' \<longleftrightarrow> (\<exists>fl sl. fl < 24 \<and> sl < 32 \<and> r' = class_lower fl sl) \<and> r \<le> r'
     \<and> (\<forall>fl sl. sl < 32 \<and> r \<le> class_lower fl sl \<longrightarrow> r' \<le> class_lower fl sl)"

lemma least_classI:
  "fl < 24 \<Longrightarrow> sl < 32 \<Longrightarrow> r' = class_lower fl sl \<Longrightarrow> r \<le> r'
     \<Longrightarrow> (\<And>f s. s < 32 \<Longrightarrow> r \<le> class_lower f s \<Longrightarrow> r' \<le> class_lower f s) \<Longrightarrow> least_class r r'"
  unfolding least_class_def by blast

text \<open>What a search may do to the pool: nothing, or add one region.\<close>

definition grown :: "tlsf_pool \<Rightarrow> tmem \<Rightarrow> blks \<Rightarrow> tlsf_pool \<Rightarrow> tmem \<Rightarrow> blks \<Rightarrow> bool" where
  "grown p m B p' m' B' \<longleftrightarrow> tlsf_inv p' m' B' \<and> same_conf p p' \<and> t_byte m' = t_byte m \<and> tlive B' = tlive B
     \<and> (p' = p \<and> m' = m \<or> num_regions p' = num_regions p + 1
        \<and> (\<exists>a. fresh_area (t_areas m) a (unat (grow_size p)) \<and> t_areas m' = (t_areas m)(a \<mapsto> unat (grow_size p))))"

lemma tlsf_search_ok:
  assumes inv: "tlsf_inv p m B" and src: "fresh_memory get_mem" and r: "16 dvd r" "r < 2 ^ 29"
  obtains (found) b fl sl r' p' m' B' where "tlsf_search get_mem (word_of_nat r) (p, m) = Some (Found b fl sl (word_of_nat r'), p', m')"
      and "suitable p' B' b fl sl r'" and "grown p m B p' m' B'" and "16 dvd r'" and "least_class r r'" and "r' \<le> r + r div 32"
      and "\<not> no_block get_mem p m B r'"
    | (none) r' where "tlsf_search get_mem (word_of_nat r) (p, m) = Some (No_Block, p, m)" and "no_block get_mem p m B r'"
      and "least_class r r'" and "r' \<le> r + r div 32"
proof -
  have "r \<le> 2 ^ 29" "4 dvd r" using r by (auto intro: dvd_trans [of 4 16])
  from mapping_search_class [OF this] r(1) obtain r' fl sl where ms: "MAPPING_SEARCH r = Some (r', fl, sl)" "fl < 24" "sl < 32" "r \<le> r'"
    "r' = class_lower fl sl" "r' \<le> r + r div 32" "4 dvd r'" "16 dvd r'"
    and least: "\<And>f s. s < 32 \<Longrightarrow> r \<le> class_lower f s \<Longrightarrow> r' \<le> class_lower f s" by metis
  have lc: "least_class r r'" by (rule least_classI [OF ms(2,3,5,4) least])
  have r29: "r' \<le> 2 ^ 29"
  proof -
    have "r \<le> class_lower 23 0" using r(2) by (simp add: class_lower_def)
    from least [OF _ this] show ?thesis by (simp add: class_lower_def)
  qed
  have ur: "unat (word_of_nat r :: u64) = r" "unat (word_of_nat r' :: u64) = r'" using r(2) r29 by (simp_all add: unat_of_nat)
  note step = tlsf_search.simps [of get_mem "word_of_nat r" "(p, m)"]
  show thesis
  proof (cases rule: find_cases [OF inv ms(2,3,5)])
    case (1 b fl' sl')
    then have "tlsf_search get_mem (word_of_nat r) (p, m) = Some (Found b fl' sl' (word_of_nat r'), p, m)"
      unfolding step by (simp add: ur ms(1) suitable_def Let_def)
    moreover have "grown p m B p m B" using inv by (simp add: grown_def)
    moreover have "\<not> no_block get_mem p m B r'" using 1(2) unfolding no_block_def suitable_def by (meson not_less)
    ultimately show thesis using found 1(2) ms(6,8) lc by blast
  next
    case (2 n)
    let ?g = "grow_size p"
    have g: "16 dvd unat ?g" "48 \<le> unat ?g" "unat ?g \<le> 2 ^ 30" using inv by (simp_all add: tlsf_inv_def grow_ok_def)
    have gw: "word_of_nat r' > ?g - 2 * word_of_nat BHDR_OVERHEAD \<longleftrightarrow> unat ?g - 32 < r'"
    proof -
      have "?g - 2 * word_of_nat BHDR_OVERHEAD = ?g - 32" by (simp add: tlsf_consts)
      moreover have "unat (?g - 32) = unat ?g - 32" using g(2) by (simp add: unat_sub word_le_nat_alt)
      ultimately show ?thesis by (simp add: word_less_nat_alt ur)
    qed
    show thesis
    proof (cases "unat ?g - 32 < r' \<or> (max_size p \<noteq> 0 \<and> max_size p < init_size p + num_regions p * ?g) \<or> get_mem m ?g = None")
      case True
      then have "tlsf_search get_mem (word_of_nat r) (p, m) = Some (No_Block, p, m)"
        unfolding step using gw by (auto simp: ur ms(1) 2(1) Let_def)
      moreover have "no_block get_mem p m B r'" using 2(2) True by (auto simp: no_block_def)
      ultimately show thesis using none ms(6) lc by blast
    next
      case False
      then obtain a where a: "get_mem m ?g = Some a" by auto
      then have fa: "fresh_area (t_areas m) a (unat ?g)" "16 dvd a" using src by (auto simp: fresh_memory_def)
      let ?B' = "B(a \<mapsto> (unat ?g - 32, True, False, 0, a), a + 16 + (unat ?g - 32) \<mapsto> (0, False, True, a, a))"
      obtain p' m' where ad: "ADD_REGION a ?g (p, take_area a ?g m) = Some (p', m')" "tlsf_inv p' m' ?B'" "same_conf p p'"
        "t_byte m' = t_byte m" "t_areas m' = (t_areas m)(a \<mapsto> unat ?g)" "num_regions p' = num_regions p + 1"
        and nn: "B a = None" "B (a + 16 + (unat ?g - 32)) = None"
        by (rule ADD_REGION_ok [OF inv fa g])
      have again: "tlsf_search get_mem (word_of_nat r) (p, m) = tlsf_search get_mem (word_of_nat r') (p', m')"
      proof -
        have "\<not> word_of_nat r' > ?g - 2 * word_of_nat BHDR_OVERHEAD"
          "\<not> (max_size p \<noteq> 0 \<and> init_size p + num_regions p * ?g > max_size p)" using gw False by blast+
        then show ?thesis unfolding step by (cases n) (simp only: if_not_P ur ms(1) 2(1) Let_def a ad(1) prod.case Option.bind.simps option.case simp_thms)
      qed
      have lv: "tlive ?B' = tlive B" using tlive_none [of B a, OF nn(1)] tlive_none [of B "a + 16 + (unat ?g - 32)", OF nn(2)]
        by (auto simp: tlive_upd fun_eq_iff)
      have gr: "grown p m B p' m' ?B'" unfolding grown_def using ad lv fa by blast
      obtain r2 fl2 sl2 where m2: "MAPPING_SEARCH r' = Some (r2, fl2, sl2)" "fl2 < 24" "sl2 < 32" "r2 = class_lower fl2 sl2" "r' \<le> r2"
        and least2: "\<And>f s. s < 32 \<Longrightarrow> r' \<le> class_lower f s \<Longrightarrow> r2 \<le> class_lower f s"
        using mapping_search_class [OF r29 ms(7)] by metis
      have "r2 \<le> r'" using least2 [OF ms(3), of fl] ms(5) by simp
      then have r2: "r2 = r'" using m2(5) by simp
      show thesis
      proof (cases rule: find_cases [OF ad(2) m2(2-4)])
        case (1 b fl' sl')
        then have "tlsf_search get_mem (word_of_nat r') (p', m') = Some (Found b fl' sl' (word_of_nat r'), p', m')"
          unfolding tlsf_search.simps [of get_mem "word_of_nat r'" "(p', m')"] by (simp add: ur m2(1) r2 suitable_def Let_def)
        with again have "tlsf_search get_mem (word_of_nat r) (p, m) = Some (Found b fl' sl' (word_of_nat r'), p', m')" by simp
        moreover have "\<not> no_block get_mem p m B r'" using False unfolding no_block_def by blast
        ultimately show thesis using found [OF _ _ gr ms(8) lc ms(6)] 1(2) r2 by blast
      next
        case (2 n')
        have "?B' a = Some (unat ?g - 32, True, False, 0, a)" by simp
        from 2(2) [OF this] r2 False show thesis by simp
      qed
    qed
  qed
qed

section \<open>tlsf\_malloc\<close>

lemma grownD:
  assumes "grown p m B p' m' B'"
  shows "tlsf_inv p' m' B'" and "same_conf p p'" and "t_byte m' = t_byte m" and "tlive B' = tlive B"
  using assms by (simp_all add: grown_def)

lemma tlsf_malloc_ok:
  assumes inv: "tlsf_inv p m B" and src: "fresh_memory get_mem" and n: "unat req \<le> 2 ^ 29 - 16"
  obtains (block) ptr p' m' B' s where "tlsf_malloc get_mem req (p, m) = Some (ptr, p', m')" and "ptr \<noteq> 0" and "16 dvd ptr"
      and "tlsf_inv p' m' B'" and "tlive B ptr = None" and "tlive B' = (tlive B)(ptr \<mapsto> s)" and "unat req \<le> s"
      and "t_byte m' = t_byte m" and "same_conf p p'"
      and "\<exists>r'. least_class (request_size (unat req)) r' \<and> r' \<le> request_size (unat req) + request_size (unat req) div 32
        \<and> \<not> no_block get_mem p m B r'"
    | (null) r' where "tlsf_malloc get_mem req (p, m) = Some (0, p, m)" and "no_block get_mem p m B r'"
      and "least_class (request_size (unat req)) r'" and "r' \<le> request_size (unat req) + request_size (unat req) div 32"
proof -
  let ?r = "request_size (unat req)"
  have req: "unat req < 2 ^ 30" using n by simp
  have "?r < 2 ^ 29" using request_size_bounds(4) [of "unat req"] n by (cases "unat req < 16") (auto simp: request_size_def)
  then have r: "16 dvd ?r" "?r < 2 ^ 29" "unat req \<le> ?r" "?r \<noteq> 0" using request_size_bounds [of "unat req"] by simp_all
  have start: "tlsf_malloc get_mem req s = do {
     (res, s) \<leftarrow> tlsf_search get_mem (word_of_nat ?r) s;
     case res of
       No_Block \<Rightarrow> Some (0, s)
     | Found b fl sl sz \<Rightarrow> do {
         s \<leftarrow> EXTRACT_BLOCK_HDR b fl sl s;
         s \<leftarrow> tlsf_take b sz s;
         Some (b + BHDR_OVERHEAD, s) } }" for s
    unfolding tlsf_malloc_def request_word [OF req] Let_def ..
  show thesis
  proof (cases rule: tlsf_search_ok [OF inv src r(1,2)])
    case (1 b fl sl r' p1 m1 B1)
    note g = grownD [OF 1(3)]
    note I = tlsf_invD [OF g(1)]
    from 1(2) obtain s gg q a where b: "B1 b = Some (s, True, gg, q, a)" "r' \<le> s" and c: "fl < 24" "sl < 32"
      "b = matrix p1 ! fl ! sl" "b \<in> free_set B1 (fl, sl)" by (auto simp: suitable_def)
    have cl: "MAPPING_INSERT s = (fl, sl)" using c(4) b(1) by (auto simp: free_set_def)
    obtain p2 m2 where e: "EXTRACT_BLOCK_HDR b fl sl (p1, m1) = Some (p2, m2)"
      "lists_ok p2 (t_hdr m2) ((free_set B1)((fl, sl) := free_set B1 (fl, sl) - {b}))" "same_params p1 p2" "same_blocks m1 m2"
      by (rule EXTRACT_BLOCK_HDR_ok [OF I(4) c])
    have ar: "t_areas m2 = t_areas m1" "t_byte m2 = t_byte m1" using e(4) by (simp_all add: same_blocks_def)
    have h2: "headers_ok (t_hdr m2) B1" using I(3) headers_ok_same [OF e(4)] by simp
    have l2: "lists_ok p2 (t_hdr m2) (free_set (B1(b := None)))" using e(2) free_set_remove [of B1 b, OF b(1) cl] by simp
    have par: "used_size p2 = total used_weight B1" "num_regions p2 = total region_weight B1" "grow_ok p2"
      using e(3) g(1) grow_ok_conf [OF same_params_conf [OF e(3)]] by (simp_all add: same_params_def tlsf_inv_def)
    have rr: "?r \<le> r'" using 1(5) unfolding least_class_def by blast
    then have r': "16 dvd r'" "r' \<noteq> 0" using 1(4) r(4) by simp_all
    have bok: "blocks_ok (t_areas m2) B1" using I(1) ar by simp
    obtain p3 m3 B3 where t: "tlsf_take b (word_of_nat r') (p2, m2) = Some (p3, m3)" "tlsf_inv p3 m3 B3" "same_conf p2 p3"
      "t_byte m3 = t_byte m2" "t_areas m3 = t_areas m2" "tlive B3 = (tlive B1)(b + 16 \<mapsto> taken s r')"
      by (rule tlsf_take_ok [OF bok I(2) h2 l2 par b(1) r' b(2)])
    have "tlsf_malloc get_mem req (p, m) = Some (b + 16, p3, m3)"
      unfolding start 1(1) by (simp add: e(1) t(1) tlsf_consts)
    moreover have "16 dvd b + 16" using blocks_okD(2) [OF I(1) b(1)] by simp
    moreover have "tlive B (b + 16) = None" using tlive_at [of B1 b, OF b(1)] g(4) by simp
    moreover have "tlive B3 = (tlive B)(b + 16 \<mapsto> taken s r')" using t(6) g(4) by simp
    moreover have "unat req \<le> taken s r'" using r(3) rr b(2) by (simp add: taken_def)
    moreover have "t_byte m3 = t_byte m" using t(4) ar g(3) by simp
    moreover have "same_conf p p3" using g(2) same_params_conf [OF e(3)] t(3) same_conf_trans by blast
    moreover have "b + 16 \<noteq> 0" by simp
    ultimately show thesis using block [OF _ _ _ t(2)] 1(5-7) by blast
  next
    case (2 r')
    have "tlsf_malloc get_mem req (p, m) = Some (0, p, m)" unfolding start 2(1) by simp
    with 2 show thesis using null by blast
  qed
qed

end
