(* ===== verification/Tlsf_Free.thy ===== *)
theory Tlsf_Free
  imports Tlsf_Malloc
begin

text \<open>
  Freeing: the block is marked, joined with its free neighbours and inserted into the list of its size, or its
  region is given back when nothing else is in it.  \<open>pending\<close> describes the pool between these steps: the block \<open>b\<close>
  is free and in no list, and the block \<open>k\<close> behind it does not know yet.
\<close>

definition pending :: "tlsf_pool \<Rightarrow> tmem \<Rightarrow> blks \<Rightarrow> addr \<Rightarrow> nat \<Rightarrow> bool \<Rightarrow> addr \<Rightarrow> addr \<Rightarrow> nat \<Rightarrow> bool \<Rightarrow> bool \<Rightarrow> addr \<Rightarrow> bool" where
  "pending p m C b t g q a sk fk gk qk \<longleftrightarrow>
     C b = Some (t, True, g, q, a) \<and> t \<noteq> 0 \<and> C (b + 16 + t) = Some (sk, fk, gk, qk, a) \<and> qk \<noteq> 0
     \<and> blocks_ok (t_areas m) (C(b + 16 + t \<mapsto> (sk, fk, True, b, a))) \<and> headers_ok (t_hdr m) C
     \<and> lists_ok p (t_hdr m) (free_set (C(b := None))) \<and> apart (C(b := None))
     \<and> used_size p = total used_weight C \<and> num_regions p = total region_weight C \<and> grow_ok p"

lemma pendingD:
  assumes "pending p m C b t g q a sk fk gk qk"
  shows "C b = Some (t, True, g, q, a)" and "t \<noteq> 0" and "C (b + 16 + t) = Some (sk, fk, gk, qk, a)" and "qk \<noteq> 0"
    and "blocks_ok (t_areas m) (C(b + 16 + t \<mapsto> (sk, fk, True, b, a)))" and "headers_ok (t_hdr m) C"
    and "lists_ok p (t_hdr m) (free_set (C(b := None)))" and "apart (C(b := None))"
    and "used_size p = total used_weight C" and "num_regions p = total region_weight C" and "grow_ok p"
    and "finite (dom C)" and "16 dvd t" and "t < 2 ^ 30" and "16 dvd sk" and "sk < 2 ^ 30" and "b \<noteq> 0"
proof -
  note P = assms [unfolded pending_def]
  show "C b = Some (t, True, g, q, a)" "t \<noteq> 0" "C (b + 16 + t) = Some (sk, fk, gk, qk, a)" "qk \<noteq> 0"
    "headers_ok (t_hdr m) C" "lists_ok p (t_hdr m) (free_set (C(b := None)))" "apart (C(b := None))"
    "used_size p = total used_weight C" "num_regions p = total region_weight C" "grow_ok p"
    and ok: "blocks_ok (t_areas m) (C(b + 16 + t \<mapsto> (sk, fk, True, b, a)))" using P by blast+
  have "finite (dom (C(b + 16 + t \<mapsto> (sk, fk, True, b, a))))" using ok by (simp add: blocks_ok_def)
  then show "finite (dom C)" by simp
  have "(C(b + 16 + t \<mapsto> (sk, fk, True, b, a))) b = Some (t, True, g, q, a)" using P by simp
  from blocks_okD(1,8,6) [OF ok this] show "16 dvd t" "t < 2 ^ 30" "b \<noteq> 0" by blast+
  have "(C(b + 16 + t \<mapsto> (sk, fk, True, b, a))) (b + 16 + t) = Some (sk, fk, True, b, a)" by simp
  from blocks_okD(1,8) [OF ok this] show "16 dvd sk" "sk < 2 ^ 30" by blast+
qed

lemma pending_blk_size:
  assumes "pending p m C b t g q a sk fk gk qk"
  shows "blk_size m b = word_of_nat t" and "blk_size m (b + 16 + t) = word_of_nat sk"
proof -
  note P = pendingD [OF assms]
  show "blk_size m b = word_of_nat t" using headers_okD [OF P(6,1)] P(13) by (intro blk_size_hw) auto
  show "blk_size m (b + 16 + t) = word_of_nat sk" using headers_okD [OF P(6,3)] P(15) by (intro blk_size_hw) auto
qed

section \<open>Marking\<close>

definition mark_free :: "addr \<Rightarrow> tstate \<Rightarrow> tstate" where
  "mark_free b = (\<lambda>(p, m).
     let m = upd_hdr b (\<lambda>h. h\<lparr>b_size := b_size h OR FREE_BLOCK\<rparr>) m
     in (p\<lparr>used_size := used_size p - (ucast (blk_size m b) + word_of_nat BHDR_OVERHEAD)\<rparr>, no_links b m))"

lemma mark_free_ok:
  assumes inv: "tlsf_inv p m B" and b: "B b = Some (s, False, g, q, a)" "s \<noteq> 0" and r: "mark_free b (p, m) = (p', m')"
  obtains sk fk where "pending p' m' (B(b \<mapsto> (s, True, g, q, a))) b s g q a sk fk False b" and "same_conf p p'"
    and "t_byte m' = t_byte m" and "t_areas m' = t_areas m"
proof -
  note I = tlsf_invD [OF inv]
  note bD = blocks_okD [OF I(1) b(1)]
  obtain sk fk where k: "B (b + 16 + s) = Some (sk, fk, False, b, a)" using blocks_ok_next [OF I(1) b] .
  let ?C = "B(b \<mapsto> (s, True, g, q, a))"
  define m1 where "m1 = upd_hdr b (\<lambda>h. h\<lparr>b_size := b_size h OR FREE_BLOCK\<rparr>) m"
  have h1: "headers_ok (t_hdr m1) ?C"
    unfolding m1_def using headers_okD [OF I(3) b(1)] bD(1) by (intro headers_ok_upd I(3)) (simp_all add: hw_flags)
  have "blk_size m1 b = word_of_nat s" using headers_okD [OF h1, of b] bD(1) by (intro blk_size_hw) auto
  then have res: "p' = p\<lparr>used_size := used_size p - word_of_nat (s + 16)\<rparr>" "m' = no_links b m1"
    using r bD(8) by (simp_all add: mark_free_def Let_def m1_def [symmetric] ucast_size tlsf_consts)
  have h: "headers_ok (t_hdr m') ?C"
    using h1 headers_ok_same [of m1 m' ?C] by (simp add: res no_links_def same_blocks_upd)
  have "lists_ok p (t_hdr m1) (free_set B)" unfolding m1_def by (intro lists_ok_upd I(4)) simp_all
  then have "lists_ok p (t_hdr m') (free_set B)"
    unfolding res(2) no_links_def using b(1) by (intro lists_ok_upd_out free_set_used) (simp_all add: free_at_def)
  moreover have "free_set (?C(b := None)) = free_set B" using b(1) by (intro ext) (auto simp: free_set_del free_set_def)
  ultimately have l: "lists_ok p' (t_hdr m') (free_set (?C(b := None)))" using lists_ok_params [of p' p] by (simp add: res)
  have "total w ?C = total w B - w (s, False, g, q, a) + w (s, True, g, q, a)" for w by (rule total_upd [OF I(5) b(1)])
  then have par: "used_size p' = total used_weight ?C" "num_regions p' = total region_weight ?C"
    using inv by (simp_all add: res tlsf_inv_def used_weight_def region_weight_def)
  have ar: "t_areas m' = t_areas m" "t_byte m' = t_byte m" by (simp_all add: res no_links_def m1_def)
  have "apart (?C(b := None))" using apart_del [OF I(2), of b] by simp
  then have "pending p' m' ?C b s g q a sk fk False b"
    unfolding pending_def using b(2) k blocks_ok_mark [OF I(1) b k, of True] h l par bD(6) ar inv
    by (simp add: res grow_ok_def tlsf_inv_def)
  then show thesis using that ar by (simp add: res same_conf_def)
qed

section \<open>Joining\<close>

lemma merge_next_block_ok:
  assumes P: "pending p m C b t g q a sk fk gk qk"
  obtains p' m' C' t' sk' gk' qk' where "merge_next_block b (p, m) = Some (p', m')"
    and "pending p' m' C' b t' g q a sk' False gk' qk'" and "same_conf p p'" and "t_byte m' = t_byte m" and "t_areas m' = t_areas m"
    and "tlive C' = tlive C" and "num_regions p' = num_regions p"
proof -
  note D = pendingD [OF P]
  note z = pending_blk_size [OF P]
  let ?n = "b + 16 + t"
  have n: "b_size (t_hdr m ?n) = hw sk fk gk" using headers_okD [OF D(6,3)] by simp
  show thesis
  proof (cases fk)
    case False
    have "merge_next_block b (p, m) = Some (p, m)"
      using False by (simp add: merge_next_block_def z(1) unat_hw(1) [OF D(14)] n hw_flags [OF D(15)])
    with P False that show thesis by simp
  next
    case fk: True
    let ?A = "C(?n \<mapsto> (sk, fk, True, b, a))" and ?k = "?n + 16 + sk" and ?t = "t + 16 + sk"
    let ?C = "C(?n := None, b \<mapsto> (?t, True, g, q, a))"
    have An: "?A ?n = Some (sk, True, True, b, a)" "?A b = Some (t, True, g, q, a)" using D(1) fk by simp_all
    have sk0: "sk \<noteq> 0" using blocks_okD(3) [OF D(5) An(1)] by blast
    obtain s2 f2 where k: "?A ?k = Some (s2, f2, True, ?n, a)" using blocks_ok_next [OF D(5) An(1) sk0] .
    then have kC: "C ?k = Some (s2, f2, True, ?n, a)" by simp
    have f2: "\<not> f2" using apartD [OF D(8), of ?k s2 True ?n a] kC by (cases f2) auto
    have join: "blocks_ok (t_areas m) (?A(?n := None, b \<mapsto> (?t, True, g, q, a), ?k \<mapsto> (s2, f2, True, b, a)))"
      by (rule blocks_ok_join [OF D(5) An(2) D(2) refl An(1) sk0 refl k])
    have "(C(b := None)) ?n = Some (sk, True, gk, qk, a)" using D(3) fk by simp
    then obtain p2 m2 where e: "extract_by_size ?n (p, m) = Some (p2, m2)"
      "lists_ok p2 (t_hdr m2) (free_set (C(b := None, ?n := None)))" "same_params p p2" "same_blocks m m2"
      using extract_by_size_ok [OF D(7) _ z(2) D(16)] by blast
    have z2: "blk_size m2 ?n = word_of_nat sk" "blk_size m2 b = word_of_nat t" using z e(4) by (simp_all add: blk_size_def same_blocks_def)
    define m3 where "m3 = upd_hdr b (\<lambda>h. h\<lparr>b_size := b_size h + (word_of_nat sk + word_of_nat BHDR_OVERHEAD)\<rparr>) m2"
    have res: "merge_next_block b (p, m) = Some (p2, m3)"
      using fk e(1) z2 by (simp add: merge_next_block_def z(1) unat_hw(1) [OF D(14)] n hw_flags [OF D(15)] m3_def)
    have h2: "headers_ok (t_hdr m2) C" using D(6) headers_ok_same [OF e(4)] by simp
    have sum: "hw t True g + (word_of_nat sk + word_of_nat BHDR_OVERHEAD) = hw ?t True g"
      using hw_plus [OF D(13), of "sk + 16" True g] D(15) by (simp add: tlsf_consts add_ac)
    have h3: "headers_ok (t_hdr m3) ?C"
      unfolding m3_def using headers_okD [OF h2 D(1)] sum by (intro headers_ok_upd headers_ok_del h2) simp_all
    have Cb: "?C(b := None) = C(b := None, ?n := None)" by (auto simp: fun_eq_iff)
    have l3: "lists_ok p2 (t_hdr m3) (free_set (?C(b := None)))" unfolding Cb m3_def by (intro lists_ok_upd e(2)) simp_all
    have ap: "apart (?C(b := None))" unfolding Cb by (intro apart_del D(8))
    have fin: "finite (dom (C(?n := None)))" using D(12) by simp
    have bC: "(C(?n := None)) b = Some (t, True, g, q, a)" using D(1) by simp
    have tot: "total w ?C = total w C - w (sk, fk, gk, qk, a) - w (t, True, g, q, a) + w (?t, True, g, q, a)" for w
      unfolding total_upd [OF fin bC] total_del [OF D(12,3)] ..
    have "used_weight (sk, fk, gk, qk, a) = 0" "used_weight (t, True, g, q, a) = 0" "used_weight (?t, True, g, q, a) = 0"
      "region_weight (sk, fk, gk, qk, a) = 0" "region_weight (?t, True, g, q, a) = region_weight (t, True, g, q, a)"
      using fk D(4) by (simp_all add: used_weight_def region_weight_def)
    then have par: "used_size p2 = total used_weight ?C" "num_regions p2 = total region_weight ?C"
      unfolding tot using e(3) D(9,10) by (simp_all add: same_params_def)
    have ar: "t_areas m3 = t_areas m" "t_byte m3 = t_byte m" using e(4) by (simp_all add: m3_def same_blocks_def)
    have eq: "?A(?n := None, b \<mapsto> (?t, True, g, q, a), ?k \<mapsto> (s2, f2, True, b, a)) = ?C(b + 16 + ?t \<mapsto> (s2, False, True, b, a))"
      using f2 by (auto simp: fun_eq_iff)
    have bk: "b + 16 + ?t = ?k" by simp
    have "?C (b + 16 + ?t) = Some (s2, False, True, ?n, a)" unfolding bk using kC f2 by simp
    moreover have "grow_ok p2" using grow_ok_conf [OF same_params_conf [OF e(3)]] D(11) by simp
    moreover have "blocks_ok (t_areas m3) (?C(b + 16 + ?t \<mapsto> (s2, False, True, b, a)))" using join unfolding eq ar .
    ultimately have "pending p2 m3 ?C b ?t g q a s2 False True ?n"
      unfolding pending_def using h3 l3 ap par by simp
    moreover have "tlive ?C = tlive C"
      using tlive_at [of C b, OF D(1)] tlive_at [of C ?n, OF D(3)] fk by (auto simp: tlive_upd tlive_del fun_eq_iff)
    moreover have "num_regions p2 = num_regions p" using e(3) by (simp add: same_params_def)
    ultimately show thesis using that [OF res _ same_params_conf [OF e(3)] ar(2,1)] by blast
  qed
qed

lemma merge_prev_block_ok:
  assumes P: "pending p m C b t g q a sk False gk qk"
  obtains b' p' m' C' t' q' where "merge_prev_block b (p, m) = Some (b', p', m')"
    and "pending p' m' C' b' t' False q' a sk False gk qk" and "same_conf p p'" and "t_byte m' = t_byte m" and "t_areas m' = t_areas m"
    and "tlive C' = tlive C" and "num_regions p' = num_regions p"
proof -
  note D = pendingD [OF P]
  note z = pending_blk_size [OF P]
  have hb: "b_size (t_hdr m b) = hw t True g" "prev_hdr (t_hdr m b) = q" using headers_okD [OF D(6,1)] by simp_all
  show thesis
  proof (cases g)
    case False
    have "merge_prev_block b (p, m) = Some (b, p, m)" using False by (simp add: merge_prev_block_def hb hw_flags [OF D(13)])
    with P False that show thesis by simp
  next
    case g: True
    let ?k = "b + 16 + t"
    let ?A = "C(?k \<mapsto> (sk, False, True, b, a))"
    have Ab: "?A b = Some (t, True, True, q, a)" using D(1) g by simp
    have q0: "q \<noteq> 0" using blocks_okD(7) [OF D(5) Ab] by blast
    obtain s1 g1 q1 where q: "?A q = Some (s1, True, g1, q1, a)" "b = q + 16 + s1" "s1 \<noteq> 0" using blocks_ok_prev [OF D(5) Ab q0] .
    then have qC: "C q = Some (s1, True, g1, q1, a)" by simp
    have g1: "\<not> g1" using apartD [OF D(8), of q s1 g1 q1 a] qC q(2) by simp
    note qD = blocks_okD [OF D(5) q(1)]
    let ?t = "s1 + 16 + t"
    let ?C = "C(b := None, q \<mapsto> (?t, True, False, q1, a))"
    have join: "blocks_ok (t_areas m) (?A(b := None, q \<mapsto> (?t, True, g1, q1, a), ?k \<mapsto> (sk, False, True, q, a)))"
      by (rule blocks_ok_join [OF D(5) q(1,3,2) Ab D(2) refl]) simp
    have "(C(b := None)) q = Some (s1, True, g1, q1, a)" using qC q(2) by simp
    moreover have zq: "blk_size m q = word_of_nat s1" using headers_okD [OF D(6) qC] qD(1) by (intro blk_size_hw) auto
    ultimately obtain p2 m2 where e: "extract_by_size q (p, m) = Some (p2, m2)"
      "lists_ok p2 (t_hdr m2) (free_set (C(b := None, q := None)))" "same_params p p2" "same_blocks m m2"
      using extract_by_size_ok [OF D(7) _ _ qD(8)] by blast
    have z2: "blk_size m2 b = word_of_nat t" using z e(4) by (simp add: blk_size_def same_blocks_def)
    define m3 where "m3 = upd_hdr q (\<lambda>h. h\<lparr>b_size := b_size h + (word_of_nat t + word_of_nat BHDR_OVERHEAD)\<rparr>) m2"
    have res: "merge_prev_block b (p, m) = Some (q, p2, m3)"
      using g e(1) z2 by (simp add: merge_prev_block_def hb hw_flags [OF D(13)] m3_def)
    have h2: "headers_ok (t_hdr m2) C" using D(6) headers_ok_same [OF e(4)] by simp
    have sum: "hw s1 True False + (word_of_nat t + word_of_nat BHDR_OVERHEAD) = hw ?t True False"
      using hw_plus [OF qD(1), of "t + 16" True False] D(13) by (simp add: tlsf_consts add_ac)
    have h3: "headers_ok (t_hdr m3) ?C"
      unfolding m3_def using headers_okD [OF h2 qC] sum g1 by (intro headers_ok_upd headers_ok_del h2) simp_all
    have Cq: "?C(q := None) = C(b := None, q := None)" by (auto simp: fun_eq_iff)
    have l3: "lists_ok p2 (t_hdr m3) (free_set (?C(q := None)))" unfolding Cq m3_def by (intro lists_ok_upd e(2)) simp_all
    have ap: "apart (?C(q := None))" unfolding Cq by (intro apart_del D(8))
    have fin: "finite (dom (C(b := None)))" using D(12) by simp
    have qC': "(C(b := None)) q = Some (s1, True, g1, q1, a)" using qC q(2) by simp
    have tot: "total w ?C = total w C - w (t, True, g, q, a) - w (s1, True, g1, q1, a) + w (?t, True, False, q1, a)" for w
      unfolding total_upd [OF fin qC'] total_del [OF D(12,1)] ..
    have "used_weight (t, True, g, q, a) = 0" "used_weight (s1, True, g1, q1, a) = 0" "used_weight (?t, True, False, q1, a) = 0"
      "region_weight (t, True, g, q, a) = 0" "region_weight (s1, True, g1, q1, a) = region_weight (?t, True, False, q1, a)"
      using q0 by (simp_all add: used_weight_def region_weight_def)
    then have par: "used_size p2 = total used_weight ?C" "num_regions p2 = total region_weight ?C"
      unfolding tot using e(3) D(9,10) by (simp_all add: same_params_def)
    have ar: "t_areas m3 = t_areas m" "t_byte m3 = t_byte m" using e(4) by (simp_all add: m3_def same_blocks_def)
    have qk: "q + 16 + ?t = ?k" using q(2) by simp
    have ne: "q \<noteq> ?k" "b \<noteq> ?k" "q \<noteq> b" using q(2) by simp_all
    have eq: "?A(b := None, q \<mapsto> (?t, True, g1, q1, a), ?k \<mapsto> (sk, False, True, q, a)) = ?C(q + 16 + ?t \<mapsto> (sk, False, True, q, a))"
      unfolding qk using g1 ne by (auto simp: fun_eq_iff)
    have "?C (q + 16 + ?t) = Some (sk, False, gk, qk, a)" unfolding qk using D(3) ne by simp
    moreover have "grow_ok p2" using grow_ok_conf [OF same_params_conf [OF e(3)]] D(11) by simp
    moreover have "blocks_ok (t_areas m3) (?C(q + 16 + ?t \<mapsto> (sk, False, True, q, a)))" using join unfolding eq ar .
    ultimately have "pending p2 m3 ?C q ?t False q1 a sk False gk qk"
      unfolding pending_def using h3 l3 ap par D(4) by simp
    moreover have "tlive ?C = tlive C"
      using tlive_at [of C b, OF D(1)] tlive_at [of C q, OF qC] by (auto simp: tlive_upd tlive_del fun_eq_iff)
    moreover have "num_regions p2 = num_regions p" using e(3) by (simp add: same_params_def)
    ultimately show thesis using that [OF res _ same_params_conf [OF e(3)] ar(2,1)] by blast
  qed
qed
section \<open>tlsf\_free\<close>

text \<open>The end of \<open>tlsf_free\<close>, from the block behind the joined one.\<close>

definition finish_free :: "addr \<Rightarrow> tstate \<Rightarrow> tstate option" where
  "finish_free b = (\<lambda>(p, m). do {
     let tmp_b = GET_NEXT_BLOCK b (unat (blk_size m b));
     let m = upd_hdr tmp_b (\<lambda>h. h\<lparr>prev_hdr := b\<rparr>) m;
     if prev_hdr (t_hdr m b) = 0 \<and> blk_size m tmp_b = 0
     then Some (p\<lparr>num_regions := num_regions p - 1, used_size := used_size p - word_of_nat BHDR_OVERHEAD\<rparr>, put_mem b m)
     else do {
       (p, m) \<leftarrow> insert_by_size b (p, m);
       let m = upd_hdr tmp_b (\<lambda>h. h\<lparr>b_size := b_size h OR TLSF_PREV_FREE\<rparr>) m;
       Some (p, upd_hdr tmp_b (\<lambda>h. h\<lparr>prev_hdr := b\<rparr>) m) } })"

lemma tlsf_free_steps:
  assumes "ptr \<noteq> 0" and "merge_next_block (ptr - BHDR_OVERHEAD) (mark_free (ptr - BHDR_OVERHEAD) (p, m)) = Some s2"
    and "merge_prev_block (ptr - BHDR_OVERHEAD) s2 = Some (b, s3)"
  shows "tlsf_free ptr (p, m) = finish_free b s3"
  using assms by (cases s2; cases s3) (simp add: tlsf_free_def mark_free_def finish_free_def Let_def)

text \<open>The state after freeing: the blocks, and whether a region was given back.\<close>

lemma finish_free_ok:
  assumes P: "pending p m C b t False q a sk False gk qk"
  obtains p' m' B' where "finish_free b (p, m) = Some (p', m')" and "tlsf_inv p' m' B'" and "same_conf p p'"
    and "t_byte m' = t_byte m" and "tlive B' = tlive C"
    and "if q = 0 \<and> sk = 0 then t_areas m' = (t_areas m)(a := None) \<and> num_regions p' = num_regions p - 1
         else t_areas m' = t_areas m \<and> num_regions p' = num_regions p"
proof -
  note D = pendingD [OF P]
  note z = pending_blk_size [OF P]
  let ?k = "b + 16 + t"
  have bk: "b \<noteq> ?k" by simp
  define m1 where "m1 = upd_hdr ?k (\<lambda>h. h\<lparr>prev_hdr := b\<rparr>) m"
  let ?C1 = "C(?k \<mapsto> (sk, False, gk, b, a))" and ?A = "C(?k \<mapsto> (sk, False, True, b, a))"
  have Ab: "?A b = Some (t, True, False, q, a)" "?A ?k = Some (sk, False, True, b, a)" using D(1) by simp_all
  note bD = blocks_okD [OF D(5) Ab(1)]
  have h1: "headers_ok (t_hdr m1) ?C1"
    unfolding m1_def using headers_okD [OF D(6,3)] by (intro headers_ok_upd D(6)) simp_all
  have hb: "prev_hdr (t_hdr m1 b) = q" using headers_okD [OF h1, of b t True False q a] D(1) by simp
  have z1: "blk_size m1 ?k = word_of_nat sk" "blk_size m1 b = word_of_nat t"
    using z by (simp_all add: m1_def blk_size_def upd_hdr_apply)
  have w0: "word_of_nat sk = (0 :: u32) \<longleftrightarrow> sk = 0"
  proof
    assume "word_of_nat sk = (0 :: u32)"
    then have "unat (word_of_nat sk :: u32) = 0" by (simp only: unat_0)
    then show "sk = 0" using unat_hw(1) [OF D(16)] by (simp only:)
  qed simp
  have l1: "lists_ok p (t_hdr m1) (free_set (C(b := None)))" unfolding m1_def by (intro lists_ok_upd D(7)) simp_all
  note start = finish_free_def prod.case Let_def z(1) unat_hw(1) [OF D(14)] GET_NEXT_BLOCK_add m1_def [symmetric] hb z1(1) w0
  show thesis
  proof (cases "q = 0 \<and> sk = 0")
    case True
    let ?p = "p\<lparr>num_regions := num_regions p - 1, used_size := used_size p - word_of_nat BHDR_OVERHEAD\<rparr>"
    let ?m = "put_mem b m1" and ?B = "C(b := None, ?k := None)"
    have res: "finish_free b (p, m) = Some (?p, ?m)" unfolding start using True by simp
    have ab: "a = b" using bD(5) True by simp
    have "blocks_ok ((t_areas m)(b := None)) (?A(b := None, ?k := None))"
    proof (rule blocks_ok_drop [OF D(5) _ refl])
      show "?A b = Some (t, True, False, 0, b)" using Ab(1) True ab by simp
      show "?A ?k = Some (0, False, True, b, b)" using True ab by simp
    qed
    moreover have "?A(b := None, ?k := None) = ?B" by (auto simp: fun_eq_iff)
    ultimately have "blocks_ok ((t_areas m)(b := None)) ?B" by (simp only:)
    moreover have "t_areas ?m = (t_areas m)(b := None)" by (simp add: put_mem_def m1_def)
    moreover have "headers_ok (t_hdr ?m) ?B"
      using headers_ok_del [OF headers_ok_del [OF h1, of b], of ?k] \<open>?A(b := None, ?k := None) = ?B\<close>
      by (simp add: put_mem_def headers_ok_def)
    moreover have "lists_ok ?p (t_hdr ?m) (free_set ?B)"
    proof -
      have "free_set ?B = free_set (C(b := None))" using D(3) bk by (intro ext) (auto simp: free_set_del free_set_def)
      then show ?thesis using l1 lists_ok_params [of ?p p] by (simp add: put_mem_def)
    qed
    moreover have "apart ?B" by (intro apart_del D(8))
    moreover have "used_size ?p = total used_weight ?B" "num_regions ?p = total region_weight ?B"
    proof -
      have fin: "finite (dom (C(b := None)))" using D(12) by simp
      have k: "(C(b := None)) ?k = Some (sk, False, gk, qk, a)" using D(3) by simp
      have "total w ?B = total w C - w (t, True, False, q, a) - w (sk, False, gk, qk, a)" for w
        unfolding total_del [OF fin k] total_del [OF D(12,1)] ..
      then show "used_size ?p = total used_weight ?B" "num_regions ?p = total region_weight ?B"
        using D(4,9,10) True by (simp_all add: used_weight_def region_weight_def tlsf_consts)
    qed
    moreover have "grow_ok ?p" using D(11) by (simp add: grow_ok_def)
    ultimately have "tlsf_inv ?p ?m ?B" by (simp add: tlsf_inv_def)
    moreover have "tlive ?B = tlive C" using tlive_at [of C b, OF D(1)] tlive_at [of C ?k, OF D(3)] True by (auto simp: tlive_del fun_eq_iff)
    ultimately show thesis using that [OF res] True ab by (simp add: same_conf_def put_mem_def m1_def)
  next
    case False
    have nf: "\<not> free_at (C(b := None)) b" by simp
    obtain p2 m2 where i: "insert_by_size b (p, m1) = Some (p2, m2)"
      "\<forall>g q a. lists_ok p2 (t_hdr m2) (free_set (C(b := None, b \<mapsto> (t, True, g, q, a))))" "same_params p p2" "same_blocks m1 m2"
      by (rule insert_by_size_ok [OF l1 nf D(17) z1(2) D(14)])
    have "C(b := None, b \<mapsto> (t, True, False, q, a)) = C" using D(1) by (auto simp: fun_eq_iff)
    with i(2) have l2: "lists_ok p2 (t_hdr m2) (free_set C)" by metis
    define m3 where "m3 = upd_hdr ?k (\<lambda>h. h\<lparr>b_size := b_size h OR TLSF_PREV_FREE\<rparr>) m2"
    define m4 where "m4 = upd_hdr ?k (\<lambda>h. h\<lparr>prev_hdr := b\<rparr>) m3"
    have res: "finish_free b (p, m) = Some (p2, m4)" unfolding start if_not_P [OF False] i(1) by (simp add: m3_def m4_def)
    have h2: "headers_ok (t_hdr m2) ?C1" using h1 headers_ok_same [OF i(4)] by simp
    have h3: "headers_ok (t_hdr m3) (?C1(?k \<mapsto> (sk, False, True, b, a)))"
      unfolding m3_def using headers_okD [OF h2, of ?k sk False gk b a] D(15) by (intro headers_ok_upd h2) (simp_all add: hw_flags)
    have h4: "headers_ok (t_hdr m4) (?C1(?k \<mapsto> (sk, False, True, b, a), ?k \<mapsto> (sk, False, True, b, a)))"
      unfolding m4_def using headers_okD [OF h3, of ?k sk False True b a] by (intro headers_ok_upd h3) simp_all
    then have h: "headers_ok (t_hdr m4) ?A" by simp
    have "free_set ?A = free_set C" using D(3) by (intro free_set_same) simp
    moreover have "lists_ok p2 (t_hdr m4) (free_set C)" unfolding m4_def m3_def by (intro lists_ok_upd l2) simp_all
    ultimately have l: "lists_ok p2 (t_hdr m4) (free_set ?A)" by simp
    have ar: "t_areas m4 = t_areas m" "t_byte m4 = t_byte m"
      using i(4) by (simp_all add: m4_def m3_def same_blocks_def m1_def)
    have "apart ?A"
    proof -
      have "?A = (C(b := None))(b \<mapsto> (t, True, False, q, a), ?k \<mapsto> (sk, False, True, b, a))" using D(1) by (auto simp: fun_eq_iff)
      moreover have "apart ((C(b := None))(b \<mapsto> (t, True, False, q, a), ?k \<mapsto> (sk, False, True, b, a)))"
        by (intro apart_upd D(8)) simp_all
      ultimately show ?thesis by simp
    qed
    moreover have "used_size p2 = total used_weight ?A" "num_regions p2 = total region_weight ?A"
      unfolding total_upd [OF D(12,3)] using i(3) D(4,9,10,17) by (simp_all add: same_params_def used_weight_def region_weight_def)
    moreover have "grow_ok p2" using grow_ok_conf [OF same_params_conf [OF i(3)]] D(11) by simp
    moreover have "blocks_ok (t_areas m4) ?A" using D(5) ar by simp
    ultimately have "tlsf_inv p2 m4 ?A" using h l by (simp add: tlsf_inv_def)
    moreover have "tlive ?A = tlive C" using tlive_at [of C ?k, OF D(3)] by (auto simp: tlive_upd fun_eq_iff)
    moreover have "num_regions p2 = num_regions p" using i(3) by (simp add: same_params_def)
    ultimately show thesis using that [OF res _ same_params_conf [OF i(3)] ar(2)] ar False by simp
  qed
qed

text \<open>
  The joined block fills its region, from the first header to the end marker, exactly when no object lives in the region.
\<close>

definition objects_in :: "blks \<Rightarrow> addr \<Rightarrow> nat \<Rightarrow> addr set" where
  "objects_in B a n = {x. tlive B x \<noteq> None \<and> a < x \<and> x < a + n}"

lemma pending_alone:
  assumes P: "pending p m C b t False q a sk False gk qk" and n: "t_areas m a = Some n"
  shows "q = 0 \<and> sk = 0 \<longleftrightarrow> objects_in C a n = {}"
proof
  note D = pendingD [OF P]
  let ?k = "b + 16 + t"
  let ?A = "C(?k \<mapsto> (sk, False, True, b, a))"
  have Ab: "?A b = Some (t, True, False, q, a)" and Ak: "?A ?k = Some (sk, False, True, b, a)" using D(1) by simp_all
  {
    assume z: "q = 0 \<and> sk = 0"
    have ab: "b = a" using blocks_okD(5) [OF D(5) Ab] z by simp
    have k: "?k + 16 = a + n" using blocks_okD(4) [OF D(5) Ak] z n by (simp add: in_area_def)
    have "\<not> (a < x \<and> x < a + n)" if x: "tlive C x = Some u" for x u
    proof -
      from x obtain c g' q' a' where c: "x = c + 16" "C c = Some (u, False, g', q', a')" "u \<noteq> 0" using tlive_SomeE by metis
      have "c \<noteq> b" using c(2) D(1) by auto
      moreover have ck: "c \<noteq> ?k" using c(2,3) D(3) z by auto
      ultimately have "?A c = Some (u, False, g', q', a')" using c(2) by simp
      note lt = blocks_ok_order [OF D(5) this Ab] blocks_ok_order [OF D(5) Ab this] blocks_ok_order [OF D(5) Ak this]
      show ?thesis using \<open>c \<noteq> b\<close> ck lt ab k c(1) z by linarith
    qed
    then show "objects_in C a n = {}" unfolding objects_in_def by blast
  next
    assume e: "objects_in C a n = {}"
    have q: "q = 0"
    proof (rule ccontr)
      assume "q \<noteq> 0"
      obtain s' g' q' where s': "?A q = Some (s', False, g', q', a)" "b = q + 16 + s'" "s' \<noteq> 0"
        by (rule blocks_ok_prev [OF D(5) Ab \<open>q \<noteq> 0\<close>])
      then have "tlive C (q + 16) = Some s'" by (simp add: tlive_def)
      moreover have "a < q + 16" "q + 16 < a + n" using blocks_okD(4) [OF D(5) s'(1)] n s'(3) by (auto simp: in_area_def)
      ultimately have "q + 16 \<in> objects_in C a n" unfolding objects_in_def by simp
      with e show False by simp
    qed
    have sk: "sk = 0"
    proof (rule ccontr)
      assume sk: "sk \<noteq> 0"
      then have "tlive C (?k + 16) = Some sk" using D(3) by (simp only: tlive_def add_diff_cancel_right' not_add_less2 if_False option.case prod.case) simp
      moreover have "a < ?k + 16" "?k + 16 < a + n" using blocks_okD(4) [OF D(5) Ak] n sk by (auto simp: in_area_def)
      ultimately have "?k + 16 \<in> objects_in C a n" unfolding objects_in_def by simp
      with e show False by simp
    qed
    from q sk show "q = 0 \<and> sk = 0" ..
  }
qed

lemma tlsf_free_ok:
  assumes inv: "tlsf_inv p m B" and x: "tlive B ptr = Some s"
  obtains p' m' B' where "tlsf_free ptr (p, m) = Some (p', m')" and "tlsf_inv p' m' B'" and "tlive B' = (tlive B)(ptr := None)"
    and "same_conf p p'" and "t_byte m' = t_byte m"
    and "\<exists>a n. t_areas m a = Some n \<and> a < ptr \<and> ptr + s \<le> a + n
      \<and> (if objects_in B a n = {ptr} then t_areas m' = (t_areas m)(a := None) \<and> num_regions p' = num_regions p - 1
         else t_areas m' = t_areas m \<and> num_regions p' = num_regions p)"
proof -
  from x obtain b g q a where b: "ptr = b + 16" "B b = Some (s, False, g, q, a)" "s \<noteq> 0" using tlive_SomeE by metis
  obtain p1 m1 where mf: "mark_free b (p, m) = (p1, m1)" by fastforce
  obtain sk fk where P1: "pending p1 m1 (B(b \<mapsto> (s, True, g, q, a))) b s g q a sk fk False b" "same_conf p p1"
    "t_byte m1 = t_byte m" "t_areas m1 = t_areas m"
    by (rule mark_free_ok [OF inv b(2,3) mf])
  obtain p2 m2 C2 t2 s2 g2 q2 where M2: "merge_next_block b (p1, m1) = Some (p2, m2)"
    "pending p2 m2 C2 b t2 g q a s2 False g2 q2" "same_conf p1 p2" "t_byte m2 = t_byte m1" "t_areas m2 = t_areas m1"
    "tlive C2 = tlive (B(b \<mapsto> (s, True, g, q, a)))" "num_regions p2 = num_regions p1"
    by (rule merge_next_block_ok [OF P1(1)])
  obtain c p3 m3 C3 t3 q3 where M3: "merge_prev_block b (p2, m2) = Some (c, p3, m3)"
    "pending p3 m3 C3 c t3 False q3 a s2 False g2 q2" "same_conf p2 p3" "t_byte m3 = t_byte m2" "t_areas m3 = t_areas m2"
    "tlive C3 = tlive C2" "num_regions p3 = num_regions p2"
    by (rule merge_prev_block_ok [OF M2(2)])
  obtain p4 m4 B4 where F: "finish_free c (p3, m3) = Some (p4, m4)" "tlsf_inv p4 m4 B4" "same_conf p3 p4"
    "t_byte m4 = t_byte m3" "tlive B4 = tlive C3"
    "if q3 = 0 \<and> s2 = 0 then t_areas m4 = (t_areas m3)(a := None) \<and> num_regions p4 = num_regions p3 - 1
     else t_areas m4 = t_areas m3 \<and> num_regions p4 = num_regions p3"
    by (rule finish_free_ok [OF M3(2)])
  have "ptr \<noteq> 0" "ptr - BHDR_OVERHEAD = b" using b(1) by (simp_all add: tlsf_consts)
  then have res: "tlsf_free ptr (p, m) = Some (p4, m4)" using tlsf_free_steps [of ptr p m "(p2, m2)" c "(p3, m3)"] mf M2(1) M3(1) F(1) by simp
  have l3: "tlive C3 = (tlive B)(ptr := None)" unfolding M3(6) M2(6) tlive_upd b(1) by simp
  then have "tlive B4 = (tlive B)(ptr := None)" unfolding F(5) .
  moreover have "same_conf p p4" using P1(2) M2(3) M3(3) F(3) by (metis same_conf_trans)
  moreover have "t_byte m4 = t_byte m" using P1(3) M2(4) M3(4) F(4) by simp
  moreover have "\<exists>a n. t_areas m a = Some n \<and> a < ptr \<and> ptr + s \<le> a + n
      \<and> (if objects_in B a n = {ptr} then t_areas m4 = (t_areas m)(a := None) \<and> num_regions p4 = num_regions p - 1
         else t_areas m4 = t_areas m \<and> num_regions p4 = num_regions p)"
  proof -
    have ar: "t_areas m3 = t_areas m" using P1(4) M2(5) M3(5) by simp
    have "num_regions p1 = num_regions p" using mf by (auto simp: mark_free_def Let_def)
    then have nr: "num_regions p3 = num_regions p" using M2(7) M3(7) by simp
    obtain n where n: "t_areas m a = Some n" "a < ptr" "ptr + s \<le> a + n"
      using blocks_okD(4) [OF tlsf_invD(1) [OF inv] b(2)] b(1) by (auto simp: in_area_def)
    have "objects_in C3 a n = objects_in B a n - {ptr}" unfolding objects_in_def l3 by auto
    moreover have "ptr \<in> objects_in B a n" using n x b(3) unfolding objects_in_def by simp
    ultimately have "q3 = 0 \<and> s2 = 0 \<longleftrightarrow> objects_in B a n = {ptr}" using pending_alone [OF M3(2), of n] n(1) ar by auto
    with F(6) have "if objects_in B a n = {ptr} then t_areas m4 = (t_areas m)(a := None) \<and> num_regions p4 = num_regions p - 1
         else t_areas m4 = t_areas m \<and> num_regions p4 = num_regions p" by (simp only: ar nr)
    with n show ?thesis by blast
  qed
  ultimately show thesis using that [OF res F(2)] by blast
qed

end
