(* ===== verification/Tlsf_Allocator.thy ===== *)
theory Tlsf_Allocator
  imports Tlsf_Free Interfaces
begin

text \<open>
  Creating a pool, and TLSF behind the allocator interface.  The state of the interface is the source of memory,
  the pool and the memory; objects are named by their address.  Up to \<open>2 ^ 29 - 16\<close> bytes the contract holds.
\<close>

section \<open>A new pool\<close>

lemma unat_roundup_page:
  assumes "unat r \<le> 2 ^ 30"
  shows "unat (ROUNDUP_PAGE r) = (unat r + 4095) div 4096 * 4096"
proof -
  have mm: "(word_of_nat (PAGE_SIZE - 1) :: u64) = mask 12" by (simp add: PAGE_SIZE_def mask_eq_exp_minus_1)
  have e: "ROUNDUP_PAGE r = (r + 4095) AND NOT (mask 12)" unfolding ROUNDUP_PAGE_def mm by (simp add: PAGE_SIZE_def add.commute)
  have "unat (r + 4095) = unat r + 4095" using assms by (simp add: unat_word_ariths)
  then show ?thesis unfolding e unat_round_down by simp
qed

lemma roundup_page_ok:
  assumes "r \<noteq> 0" and "unat r \<le> 2 ^ 30"
  shows "16 dvd unat (ROUNDUP_PAGE r)" and "48 \<le> unat (ROUNDUP_PAGE r)" and "unat (ROUNDUP_PAGE r) \<le> 2 ^ 30"
proof -
  let ?q = "(unat r + 4095) div 4096"
  have u: "unat (ROUNDUP_PAGE r) = ?q * 4096" by (rule unat_roundup_page [OF assms(2)])
  have "0 < unat r" using assms(1) by (simp add: unat_gt_0)
  then have "1 \<le> ?q" by simp
  moreover have "?q < 262145" using assms(2) by (simp add: less_mult_imp_div_less)
  ultimately show "48 \<le> unat (ROUNDUP_PAGE r)" "unat (ROUNDUP_PAGE r) \<le> 2 ^ 30" unfolding u by simp_all
  show "16 dvd unat (ROUNDUP_PAGE r)" unfolding u by simp
qed

lemma empty_inv:
  assumes "fl_bitmap p = 0" and "sl_bitmap p = replicate 24 0" and "matrix p = replicate 24 (replicate 32 0)"
    and "used_size p = 0" and "num_regions p = 0" and "grow_ok p"
  shows "tlsf_inv p m (\<lambda>_. None)"
proof -
  have "free_set (\<lambda>_. None) = (\<lambda>_. {})" by (simp add: free_set_def fun_eq_iff)
  moreover have "tlist_ok h 0 {}" for h unfolding tlist_ok_def by (rule exI [of _ "[]"]) simp
  ultimately have "lists_ok p (t_hdr m) (free_set (\<lambda>_. None))"
    using assms by (simp add: lists_ok_def matrix_ok_def bits_ok_def)
  with assms(4-6) show ?thesis by (simp add: tlsf_inv_def blocks_ok_def apart_def headers_ok_def total_def)
qed

lemma tlsf_create_ok:
  assumes src: "fresh_memory get_mem" and isz: "isz \<noteq> 0" "unat isz \<le> 2 ^ 30" and gsz: "gsz \<noteq> 0" "unat gsz \<le> 2 ^ 30"
    and msz: "msz = 0 \<or> isz \<le> msz"
  obtains (created) pool p' m' B a where
      "tlsf_create_memory_pool get_mem name isz msz gsz (pools, m) = Some (Some (pool, p'), pools @ [pool], m')"
      and "tlsf_inv p' m' B" and "B a = Some (unat (ROUNDUP_PAGE isz) - 32, True, False, 0, a)"
      and "tlive B = (\<lambda>_. None)" and "num_regions p' = 1" and "used_size p' = 16" and "init_region p' = a"
      and "fresh_area (t_areas m) pool (unat (ROUNDUP_SIZE sizeof_pool))" and "t_areas m a = None" and "a \<noteq> pool"
      and "t_areas m' = (t_areas m)(pool \<mapsto> unat (ROUNDUP_SIZE sizeof_pool), a \<mapsto> unat (ROUNDUP_PAGE isz))"
    | (null) m' where "tlsf_create_memory_pool get_mem name isz msz gsz (pools, m) = Some (None, pools, m')" and "t_areas m' = t_areas m"
proof -
  have nb: "\<not> (msz \<noteq> 0 \<and> msz < isz)" using msz by auto
  note start = tlsf_create_memory_pool_def prod.case if_not_P [OF nb] Let_def
  let ?n = "ROUNDUP_SIZE sizeof_pool" and ?i = "ROUNDUP_PAGE isz"
  show thesis
  proof (cases "get_mem m ?n")
    case None
    then have "tlsf_create_memory_pool get_mem name isz msz gsz (pools, m) = Some (None, pools, m)" unfolding start by simp
    then show thesis using null by simp
  next
    case (Some pool)
    then have fp: "fresh_area (t_areas m) pool (unat ?n)" using src by (simp add: fresh_memory_def)
    then have tp: "t_areas m pool = None" by (simp add: fresh_area_def)
    let ?m = "take_area pool ?n m"
    let ?p = "empty_pool\<lparr>used_size := 0, init_size := ?i, max_size := ROUNDUP_PAGE msz, grow_size := ROUNDUP_PAGE gsz,
                    pool_name := take 15 name\<rparr>"
    show thesis
    proof (cases "get_mem ?m ?i")
      case None
      then have "tlsf_create_memory_pool get_mem name isz msz gsz (pools, m) = Some (None, pools, put_mem pool ?m)"
        unfolding start using Some by simp
      moreover have "t_areas (put_mem pool ?m) = t_areas m" using tp by (auto simp: put_mem_def take_area_def fun_eq_iff)
      ultimately show thesis using null by blast
    next
      case (Some a)
      then have fa: "fresh_area (t_areas ?m) a (unat ?i)" "16 dvd a" using src by (auto simp: fresh_memory_def)
      have g: "grow_ok ?p" using roundup_page_ok [OF gsz] by (simp add: grow_ok_def)
      have inv: "tlsf_inv ?p ?m (\<lambda>_. None)"
        by (rule empty_inv) (use g in \<open>simp_all add: empty_pool_def tlsf_consts\<close>)
      let ?B = "(\<lambda>_. None)(a \<mapsto> (unat ?i - 32, True, False, 0, a), a + 16 + (unat ?i - 32) \<mapsto> (0, False, True, a, a))"
      obtain p2 m2 where ad: "ADD_REGION a ?i (?p, take_area a ?i ?m) = Some (p2, m2)" "tlsf_inv p2 m2 ?B" "same_conf ?p p2"
        "t_areas m2 = (t_areas ?m)(a \<mapsto> unat ?i)" "num_regions p2 = num_regions ?p + 1"
        by (rule ADD_REGION_ok [OF inv fa roundup_page_ok [OF isz]])
      let ?p' = "p2\<lparr>init_region := a\<rparr>"
      have res: "tlsf_create_memory_pool get_mem name isz msz gsz (pools, m) = Some (Some (pool, ?p'), pools @ [pool], m2)"
        unfolding start using \<open>get_mem m ?n = Some pool\<close> Some ad(1) by simp
      have "tlsf_inv ?p' m2 ?B"
        using ad(2) lists_ok_params [of ?p' p2 "t_hdr m2" "free_set ?B"] by (simp add: tlsf_inv_def grow_ok_def del: fun_upd_apply)
      moreover have "tlive ?B = (\<lambda>_. None)" by (simp add: tlive_upd) (simp add: tlive_def fun_eq_iff)
      moreover have "used_size p2 = 16"
      proof -
        have a0: "a \<noteq> 0" using fa(1) by (simp add: fresh_area_def)
        have k: "((\<lambda>_. None)(a \<mapsto> v)) (a + 16 + (unat ?i - 32)) = None" for v :: blk by simp
        have f: "finite (dom ((\<lambda>_. None)(a \<mapsto> v)))" "finite (dom (\<lambda>_. None :: blk option))" for v :: blk by simp_all
        have "total used_weight ?B = total used_weight (\<lambda>_. None) + used_weight (unat ?i - 32, True, False, 0, a)
            + used_weight (0, False, True, a, a)"
          unfolding total_new [OF f(1) k] total_new [OF f(2) refl] ..
        then show ?thesis using ad(2) by (simp add: tlsf_inv_def used_weight_def total_def)
      qed
      moreover have "t_areas m a = None" "a \<noteq> pool" using fa(1) by (auto simp: fresh_area_def take_area_def split: if_splits)
      moreover have "num_regions ?p' = 1" using ad(5) by (simp add: empty_pool_def)
      moreover have "t_areas m2 = (t_areas m)(pool \<mapsto> unat ?n, a \<mapsto> unat ?i)" using ad(4) by (simp add: take_area_def)
      moreover have "?B a = Some (unat ?i - 32, True, False, 0, a)" by simp
      ultimately show thesis using created [OF res] fp by simp
    qed
  qed
qed

section \<open>The interface\<close>

type_synonym tlsf_state = "get_memory \<times> tlsf_pool \<times> tmem"

definition tlsf_limit :: nat where "tlsf_limit = 2 ^ 29 - 16"

definition tlsf_alloc :: "nat \<Rightarrow> tlsf_state \<Rightarrow> ((nat \<times> nat) option \<times> tlsf_state) option" where
  "tlsf_alloc n = (\<lambda>(src, p, m).
     map_option (\<lambda>(ptr, p, m). (if ptr = 0 then None else Some (0, ptr), src, p, m))
       (tlsf_malloc src (word_of_nat n) (p, m)))"

definition tlsf_release :: "nat \<times> nat \<Rightarrow> tlsf_state \<Rightarrow> tlsf_state option" where
  "tlsf_release = (\<lambda>(_, ptr) (src, p, m). map_option (Pair src) (tlsf_free ptr (p, m)))"

text \<open>The objects asked for: each lies in a live block that is at least as large.\<close>

definition held :: "blks \<Rightarrow> objects \<Rightarrow> bool" where
  "held B f \<longleftrightarrow> (\<forall>c x. f (c, x) = None \<longleftrightarrow> c \<noteq> 0 \<or> tlive B x = None) \<and> (\<forall>x n s. f (0, x) = Some n \<and> tlive B x = Some s \<longrightarrow> n \<le> s)"

definition tlsf_rep :: "tlsf_state \<Rightarrow> objects \<Rightarrow> bool" where
  "tlsf_rep = (\<lambda>(src, p, m) f. fresh_memory src \<and> (\<exists>B. tlsf_inv p m B \<and> held B f))"

lemma tlsf_repE:
  assumes "tlsf_rep s f"
  obtains src p m B where "s = (src, p, m)" "fresh_memory src" "tlsf_inv p m B" "held B f"
  using assms by (auto simp: tlsf_rep_def)

lemma tlsf_repI: "fresh_memory src \<Longrightarrow> tlsf_inv p m B \<Longrightarrow> held B f \<Longrightarrow> tlsf_rep (src, p, m) f"
  by (auto simp: tlsf_rep_def)

lemma held_None: "held B f \<Longrightarrow> f (c, x) = None \<longleftrightarrow> c \<noteq> 0 \<or> tlive B x = None"
  by (simp add: held_def)

lemma held_alloc: "held B f \<Longrightarrow> tlive B' = (tlive B)(x \<mapsto> s) \<Longrightarrow> n \<le> s \<Longrightarrow> held B' (f((0, x) \<mapsto> n))"
  unfolding held_def by auto

lemma held_free: "held B f \<Longrightarrow> tlive B' = (tlive B)(x := None) \<Longrightarrow> held B' (f((0, x) := None))"
  unfolding held_def by auto

lemma held_empty: "tlive B = (\<lambda>_. None) \<Longrightarrow> held B (\<lambda>_. None)"
  by (simp add: held_def)

lemma held_separate:
  assumes ok: "blocks_ok A B" and h: "held B f"
  shows "separate f"
  unfolding separate_def
proof (intro allI impI)
  fix c x n y k
  assume f: "f (c, x) = Some n \<and> f (c, y) = Some k \<and> x \<noteq> y"
  then have c: "c = 0" using held_None [OF h, of c x] by auto
  have "tlive B x \<noteq> None" "tlive B y \<noteq> None" using f held_None [OF h, of c x] held_None [OF h, of c y] by auto
  then obtain s t where st: "tlive B x = Some s" "tlive B y = Some t" by blast
  then have "n \<le> s" "k \<le> t" using f c h by (auto simp: held_def)
  moreover have "x + s + 16 \<le> y \<or> y + t + 16 \<le> x"
    using tlive_disjoint [OF ok st] tlive_disjoint [OF ok st(2,1)] f by (meson linorder_neqE_nat)
  ultimately show "x + n \<le> y \<or> y + k \<le> x" by linarith
qed

lemma tlsf_alloc_cases:
  assumes inv: "tlsf_inv p m B" and src: "fresh_memory src" and n: "n \<le> tlsf_limit"
  obtains (block) ptr p' m' B' s where "tlsf_alloc n (src, p, m) = Some (Some (0, ptr), src, p', m')"
      and "tlsf_inv p' m' B'" and "tlive B ptr = None" and "tlive B' = (tlive B)(ptr \<mapsto> s)" and "n \<le> s"
    | (null) "tlsf_alloc n (src, p, m) = Some (None, src, p, m)"
proof -
  have u: "unat (word_of_nat n :: u64) = n" using n by (simp add: tlsf_limit_def unat_of_nat)
  then have lim: "unat (word_of_nat n :: u64) \<le> 2 ^ 29 - 16" using n by (simp add: tlsf_limit_def)
  show thesis
  proof (cases rule: tlsf_malloc_ok [OF inv src lim])
    case (1 ptr p' m' B' s)
    then show thesis using block [of ptr p' m' B' s] u by (simp add: tlsf_alloc_def)
  next
    case (2 r')
    then show thesis using null by (simp add: tlsf_alloc_def)
  qed
qed

interpretation tlsf: object_allocator tlsf_rep tlsf_alloc tlsf_release tlsf_limit
proof (unfold_locales)
  fix s f n
  assume rep: "tlsf_rep s f" and n: "n \<le> tlsf_limit"
  obtain src p m B where R: "s = (src, p, m)" "fresh_memory src" "tlsf_inv p m B" "held B f" using tlsf_repE [OF rep] .
  show "\<exists>r s'. tlsf_alloc n s = Some (r, s') \<and> (case r of None \<Rightarrow> tlsf_rep s' f | Some x \<Rightarrow> f x = None \<and> tlsf_rep s' (f(x \<mapsto> n)))"
  proof (cases rule: tlsf_alloc_cases [OF R(3,2) n])
    case (1 ptr p' m' B' t)
    have "f (0, ptr) = None" using held_None [OF R(4), of 0 ptr] 1(3) by simp
    moreover have "tlsf_rep (src, p', m') (f((0, ptr) \<mapsto> n))" by (rule tlsf_repI [OF R(2) 1(2) held_alloc [OF R(4) 1(4,5)]])
    ultimately show ?thesis using 1(1) R(1) by (intro exI [of _ "Some (0, ptr)"] exI [of _ "(src, p', m')"]) simp
  next
    case 2
    then show ?thesis using R(1) rep by (intro exI [of _ None] exI [of _ s]) simp
  qed
next
  fix s f x
  assume rep: "tlsf_rep s f" and x: "f x \<noteq> None"
  obtain src p m B where R: "s = (src, p, m)" "fresh_memory src" "tlsf_inv p m B" "held B f" using tlsf_repE [OF rep] .
  obtain c ptr where cp: "x = (c, ptr)" by (cases x)
  then have "c = 0" "tlive B ptr \<noteq> None" using x held_None [OF R(4), of c ptr] by simp_all
  then obtain t where t: "tlive B ptr = Some t" by blast
  obtain p' m' B' where F: "tlsf_free ptr (p, m) = Some (p', m')" "tlsf_inv p' m' B'" "tlive B' = (tlive B)(ptr := None)"
    by (rule tlsf_free_ok [OF R(3) t]) (rule that; assumption)
  have "tlsf_release x s = Some (src, p', m')" using F(1) by (simp add: tlsf_release_def cp R(1))
  moreover have "tlsf_rep (src, p', m') (f(x := None))"
    unfolding cp \<open>c = 0\<close> by (rule tlsf_repI [OF R(2) F(2) held_free [OF R(4) F(3)]])
  ultimately show "\<exists>s'. tlsf_release x s = Some s' \<and> tlsf_rep s' (f(x := None))" by blast
next
  fix s f assume "tlsf_rep s f"
  then obtain src p m B where "tlsf_inv p m B" "held B f" using tlsf_repE by metis
  then show "separate f" using held_separate tlsf_invD(1) by blast
qed

end
