(* ===== verification/Tlsf_Spec.thy ===== *)
theory Tlsf_Spec
  imports Tlsf_Allocator
begin

text \<open>
  The properties of TLSF: runs of requests, single calls, the good-fit search, termination of the retry loop, life
  and death of a pool, and the overflow in \<open>tlsf_calloc\<close>.  \<open>sample_get_mem\<close> is the environment of the witnesses.
\<close>

section \<open>A concrete environment\<close>

definition sample_get_mem :: get_memory where
  "sample_get_mem m n = (if fresh_area (t_areas m) 65536 (unat n) then Some 65536
     else if fresh_area (t_areas m) (2 ^ 40) (unat n) then Some (2 ^ 40) else None)"

definition sample_tmem :: tmem where
  "sample_tmem = \<lparr>t_hdr = (\<lambda>_. \<lparr>prev_hdr = 0, b_size = 0, ptr_prev = 0, ptr_next = 0\<rparr>), t_byte = (\<lambda>_. 255), t_areas = (\<lambda>_. None)\<rparr>"

lemma sample_get_mem_fresh [simp]: "fresh_memory sample_get_mem"
  by (simp add: fresh_memory_def sample_get_mem_def)

lemma sample_created:
  obtains pool p m B a where "tlsf_create_memory_pool sample_get_mem ''sample'' 16384 0 16384 ([], sample_tmem) = Some (Some (pool, p), [pool], m)"
    and "tlsf_inv p m B" and "B a = Some (16352, True, False, 0, a)" and "tlive B = (\<lambda>_. None)"
proof -
  have z: "(16384 :: u64) \<noteq> 0" "unat (16384 :: u64) \<le> 2 ^ 30" by simp_all
  have u: "unat (ROUNDUP_PAGE 16384) = 16384" using unat_roundup_page [of 16384] by simp
  have a1: "sample_get_mem sample_tmem (ROUNDUP_SIZE sizeof_pool) = Some 65536"
    by (simp add: sample_get_mem_def sample_tmem_def fresh_area_def)
  have v: "unat (ROUNDUP_SIZE sizeof_pool) = 6352" using unat_roundup [of sizeof_pool] by (simp add: sizeof_pool_def)
  have a2: "sample_get_mem (take_area 65536 (ROUNDUP_SIZE sizeof_pool) sample_tmem) (ROUNDUP_PAGE 16384) = Some (2 ^ 40)"
    by (simp add: sample_get_mem_def sample_tmem_def fresh_area_def take_area_def u v)
  show thesis
  proof (cases rule: tlsf_create_ok [OF sample_get_mem_fresh z z, of 0 "''sample''" "[]" sample_tmem])
    case 1
    then show ?case by simp
  next
    case (2 pool p' m' B a)
    then show ?thesis using that [of pool p' m' B a] u by simp
  next
    case (3 m')
    then have "fst (the (tlsf_create_memory_pool sample_get_mem ''sample'' 16384 0 16384 ([], sample_tmem))) = None" by simp
    moreover have "tlsf_create_memory_pool sample_get_mem ''sample'' 16384 0 16384 ([], sample_tmem) = None
        \<or> fst (the (tlsf_create_memory_pool sample_get_mem ''sample'' 16384 0 16384 ([], sample_tmem))) \<noteq> None"
      unfolding tlsf_create_memory_pool_def Let_def by (simp add: a1 a2 bind_eq_None_conv split: Option.bind_splits)
    ultimately show ?thesis using 3 by simp
  qed
qed

text \<open>The first object of the sample pool is never refused.\<close>

lemma sample_no_block: "B a = Some (16352, True, False, 0, a) \<Longrightarrow> no_block get_mem p m B r' \<Longrightarrow> 16352 < r'"
  unfolding no_block_def by blast

lemma sample_malloc:
  assumes "tlsf_inv p m B" and "B a = Some (16352, True, False, 0, a)" and "unat n \<le> 8000"
  obtains ptr p' m' where "tlsf_malloc sample_get_mem n (p, m) = Some (ptr, p', m')" and "ptr \<noteq> 0"
proof -
  have n: "unat n \<le> 2 ^ 29 - 16" using assms(3) by simp
  show thesis
  proof (cases rule: tlsf_malloc_ok [OF assms(1) sample_get_mem_fresh n])
    case (1 ptr p' m' B' s)
    then show thesis using that by blast
  next
    case (2 r')
    have "request_size (unat n) \<le> 8015" using request_size_bounds(4) [of "unat n"] assms(3) by (cases "unat n < 16") (auto simp: request_size_def)
    then have "request_size (unat n) div 32 \<le> 8015 div 32" by (rule div_le_mono)
    then have False using sample_no_block [OF assms(2) 2(2)] 2(4) \<open>request_size (unat n) \<le> 8015\<close> by simp
    then show thesis ..
  qed
qed

section \<open>Runs of requests\<close>



section \<open>Single calls\<close>

text \<open>
  C25: What \<open>tlsf_malloc\<close> does, for requests up to \<open>2 ^ 29 - 16\<close> bytes.  Let \<open>r\<close> be the request rounded up to a multiple of 16, and \<open>r'\<close> the
  least lower bound of a size class that reaches \<open>r\<close>, which is at most \<open>r + r / 32\<close>.  The call returns and keeps the invariant.  It
  returns \<open>NULL\<close>, and changes nothing, if and only if every free block is smaller than \<open>r'\<close> and the pool cannot grow: \<open>grow_size\<close> less the two headers is
  smaller than \<open>r'\<close>, or the maximal size is reached, or no memory is to be had (a free block between \<open>r\<close> and \<open>r'\<close> is not looked
  at).  Otherwise it hands out one more object, 16-byte aligned, as large as asked for and apart from all others with room for the headers.
\<close>

theorem tlsf_malloc_result:
  assumes inv: "tlsf_inv p m B" and src: "fresh_memory get_mem" and req: "unat req \<le> 2 ^ 29 - 16"
  shows "\<exists>r' ptr p' m' B'. least_class (request_size (unat req)) r' \<and> r' \<le> request_size (unat req) + request_size (unat req) div 32
    \<and> tlsf_malloc get_mem req (p, m) = Some (ptr, p', m') \<and> tlsf_inv p' m' B' \<and> t_byte m' = t_byte m
    \<and> (ptr = 0 \<longleftrightarrow> no_block get_mem p m B r')
    \<and> (if ptr = 0 then p' = p \<and> m' = m
       else 16 dvd ptr \<and> tlive B ptr = None \<and> (\<exists>s. unat req \<le> s \<and> tlive B' = (tlive B)(ptr \<mapsto> s)
         \<and> (\<forall>x t. tlive B x = Some t \<longrightarrow> ptr + s + 16 \<le> x \<or> x + t + 16 \<le> ptr)))"
proof (cases rule: tlsf_malloc_ok [OF inv src req])
  case (1 ptr p' m' B' s)
  have new: "tlive B' ptr = Some s" by (simp add: 1(6))
  have sep: "ptr + s + 16 \<le> x \<or> x + t + 16 \<le> ptr" if x: "tlive B x = Some t" for x t
  proof -
    have "x \<noteq> ptr" using x 1(5) by auto
    then have old: "tlive B' x = Some t" using x by (simp add: 1(6))
    note ok = tlsf_invD(1) [OF 1(4)]
    show ?thesis
      using tlive_disjoint [OF ok new old] tlive_disjoint [OF ok old new] \<open>x \<noteq> ptr\<close> by (meson linorder_neqE_nat)
  qed
  from 1(10) obtain r' where r': "least_class (request_size (unat req)) r'"
    "r' \<le> request_size (unat req) + request_size (unat req) div 32" "\<not> no_block get_mem p m B r'" by blast
  have "if ptr = 0 then p' = p \<and> m' = m
       else 16 dvd ptr \<and> tlive B ptr = None \<and> (\<exists>s. unat req \<le> s \<and> tlive B' = (tlive B)(ptr \<mapsto> s)
         \<and> (\<forall>x t. tlive B x = Some t \<longrightarrow> ptr + s + 16 \<le> x \<or> x + t + 16 \<le> ptr))"
    unfolding if_not_P [OF 1(2)] using 1(3,5-7) sep by blast
  moreover have "ptr = 0 \<longleftrightarrow> no_block get_mem p m B r'" using 1(2) r'(3) by simp
  ultimately show ?thesis using 1(1,4,8) r'(1,2) by blast
next
  case (2 r')
  with inv show ?thesis by (intro exI [of _ r'] exI [of _ 0] exI [of _ p] exI [of _ m] exI [of _ B]) simp
qed

text \<open>100 bytes from a new pool: the free block of 16352 bytes reaches the bound, 112.\<close>

theorem tlsf_malloc_result_witness:
  "\<exists>p m ptr p' m' B' s. tlsf_malloc sample_get_mem 100 (p, m) = Some (ptr, p', m') \<and> ptr \<noteq> 0 \<and> tlsf_inv p' m' B'
     \<and> tlive B' = [ptr \<mapsto> s] \<and> 100 \<le> s"
proof -
  obtain pool p m B a where c: "tlsf_inv p m B" "B a = Some (16352, True, False, 0, a)" "tlive B = (\<lambda>_. None)" using sample_created by metis
  have n: "unat (100 :: u64) \<le> 2 ^ 29 - 16" and u: "unat (100 :: u64) = 100" and q: "request_size 100 = 112"
    by (simp_all add: request_size_def)
  from tlsf_malloc_result [OF c(1) sample_get_mem_fresh n] obtain r' ptr p' m' B' where
    r: "r' \<le> 112 + 112 div 32" "tlsf_malloc sample_get_mem 100 (p, m) = Some (ptr, p', m')" "tlsf_inv p' m' B'"
      "ptr = 0 \<longleftrightarrow> no_block sample_get_mem p m B r'"
    and l: "if ptr = 0 then p' = p \<and> m' = m else 16 dvd ptr \<and> tlive B ptr = None \<and> (\<exists>s. 100 \<le> s \<and> tlive B' = (tlive B)(ptr \<mapsto> s)
        \<and> (\<forall>x t. tlive B x = Some t \<longrightarrow> ptr + s + 16 \<le> x \<or> x + t + 16 \<le> ptr))"
    unfolding u q by (elim exE conjE) (rule that; assumption)
  have "ptr \<noteq> 0"
  proof
    assume "ptr = 0"
    then have "no_block sample_get_mem p m B r'" using r(4) by blast
    from sample_no_block [OF c(2) this] r(1) show False by simp
  qed
  with l obtain s where "100 \<le> s" "tlive B' = [ptr \<mapsto> s]" unfolding if_not_P [OF \<open>ptr \<noteq> 0\<close>] c(3) by blast
  with r(2,3) \<open>ptr \<noteq> 0\<close> show ?thesis by blast
qed

text \<open>
  C26: What \<open>tlsf_free\<close> does to a live object.  It returns, keeps the invariant (so that free neighbours are joined), removes
  exactly that object and touches no byte of the others.  If it was the only object in its area, the area goes back and
  \<open>num_regions\<close> drops by one; otherwise all areas stay.  \<open>tlsf_free(NULL)\<close> does nothing.
\<close>

theorem tlsf_free_live:
  assumes inv: "tlsf_inv p m B" and x: "tlive B ptr = Some s"
  shows "(\<exists>p' m' B'. tlsf_free ptr (p, m) = Some (p', m') \<and> tlsf_inv p' m' B' \<and> tlive B' = (tlive B)(ptr := None) \<and> t_byte m' = t_byte m
      \<and> (\<exists>a n. t_areas m a = Some n \<and> a < ptr \<and> ptr + s \<le> a + n
           \<and> (if objects_in B a n = {ptr} then t_areas m' = (t_areas m)(a := None) \<and> num_regions p' = num_regions p - 1
              else t_areas m' = t_areas m \<and> num_regions p' = num_regions p)))
    \<and> tlsf_free 0 (p, m) = Some (p, m)"
proof
  obtain p' m' B' where "tlsf_free ptr (p, m) = Some (p', m')" "tlsf_inv p' m' B'" "tlive B' = (tlive B)(ptr := None)"
    "same_conf p p'" "t_byte m' = t_byte m" "\<exists>a n. t_areas m a = Some n \<and> a < ptr \<and> ptr + s \<le> a + n
      \<and> (if objects_in B a n = {ptr} then t_areas m' = (t_areas m)(a := None) \<and> num_regions p' = num_regions p - 1
         else t_areas m' = t_areas m \<and> num_regions p' = num_regions p)"
    by (rule tlsf_free_ok [OF inv x])
  then show "\<exists>p' m' B'. tlsf_free ptr (p, m) = Some (p', m') \<and> tlsf_inv p' m' B' \<and> tlive B' = (tlive B)(ptr := None) \<and> t_byte m' = t_byte m
      \<and> (\<exists>a n. t_areas m a = Some n \<and> a < ptr \<and> ptr + s \<le> a + n
           \<and> (if objects_in B a n = {ptr} then t_areas m' = (t_areas m)(a := None) \<and> num_regions p' = num_regions p - 1
              else t_areas m' = t_areas m \<and> num_regions p' = num_regions p))" by blast
  show "tlsf_free 0 (p, m) = Some (p, m)" by (simp add: tlsf_free_def)
qed

text \<open>The only object of a pool is freed: the objects are gone, and the area it lay in.\<close>

theorem tlsf_free_live_witness:
  "\<exists>ptr p m B p' m' B' a. tlsf_inv p m B \<and> tlive B ptr \<noteq> None \<and> tlsf_free ptr (p, m) = Some (p', m') \<and> tlsf_inv p' m' B'
     \<and> tlive B' = (\<lambda>_. None) \<and> t_areas m a \<noteq> None \<and> t_areas m' = (t_areas m)(a := None)"
proof -
  obtain pool p m B a where c: "tlsf_inv p m B" "B a = Some (16352, True, False, 0, a)" "tlive B = (\<lambda>_. None)" using sample_created by metis
  have n: "unat (100 :: u64) \<le> 2 ^ 29 - 16" by simp
  obtain ptr p1 m1 B1 s where A: "tlsf_inv p1 m1 B1" "tlive B1 = (tlive B)(ptr \<mapsto> s)" "100 \<le> s"
  proof (cases rule: tlsf_malloc_ok [OF c(1) sample_get_mem_fresh n])
    case (1 ptr p' m' B' s)
    then show ?thesis using that [OF 1(4,6)] by simp
  next
    case (2 r')
    then show ?thesis using sample_no_block [OF c(2) 2(2)] by (simp add: request_size_def)
  qed
  then have l: "tlive B1 ptr = Some s" by simp
  obtain p' m' B' a n where F: "tlsf_free ptr (p1, m1) = Some (p', m')" "tlsf_inv p' m' B'" "tlive B' = (tlive B1)(ptr := None)"
    and a: "t_areas m1 a = Some n" "a < ptr" "ptr + s \<le> a + n"
    and e: "if objects_in B1 a n = {ptr} then t_areas m' = (t_areas m1)(a := None) \<and> num_regions p' = num_regions p1 - 1
      else t_areas m' = t_areas m1 \<and> num_regions p' = num_regions p1"
    using tlsf_free_live [OF A(1) l] by (elim exE conjE) (rule that; assumption)
  have "objects_in B1 a n = {ptr}" using A a c(3) by (auto simp: objects_in_def split: if_splits)
  moreover have "tlive B' = (\<lambda>_. None)" using F(3) A(2) c(3) by (simp add: fun_eq_iff)
  ultimately show ?thesis using A(1) l F(1,2) a(1) e by (metis option.distinct(1))
qed

section \<open>The search\<close>

text \<open>
  C27: TLSF is a good fit.  \<open>MAPPING_SEARCH\<close> rounds a size up by at most one part in 32, and \<open>FIND_SUITABLE_BLOCK\<close> then finds, with two
  bitmap scans, what a search through all free blocks would: a block of at least the rounded size and of the smallest class among those, or \<open>NULL\<close>
  exactly when every free block is smaller.
\<close>

theorem tlsf_good_fit:
  assumes inv: "tlsf_inv p m B" and r: "16 dvd r" "r < 2 ^ 29"
  shows "\<exists>r' fl sl b d. MAPPING_SEARCH r = Some (r', fl, sl) \<and> r \<le> r' \<and> r' \<le> r + r div 32
    \<and> FIND_SUITABLE_BLOCK p fl sl = Some (b, d)
    \<and> (b = 0 \<longleftrightarrow> (\<forall>c s g q a. B c = Some (s, True, g, q, a) \<longrightarrow> s < r'))
    \<and> (b \<noteq> 0 \<longrightarrow> (\<exists>s g q a. B b = Some (s, True, g, q, a) \<and> r' \<le> s \<and> MAPPING_INSERT s = d)
        \<and> (\<forall>c s g q a. B c = Some (s, True, g, q, a) \<and> r' \<le> s \<longrightarrow> class_le d (MAPPING_INSERT s)))"
proof -
  have "r \<le> 2 ^ 29" "4 dvd r" using r by (auto intro: dvd_trans [of 4 16])
  from mapping_search_class [OF this] obtain r' fl sl where ms: "MAPPING_SEARCH r = Some (r', fl, sl)" "fl < 24" "sl < 32" "r \<le> r'"
    "r' = class_lower fl sl" "r' \<le> r + r div 32" by metis
  show ?thesis
  proof (cases rule: find_cases [OF inv ms(2,3,5)])
    case (1 b fl' sl')
    from 1(2) obtain s g q a where b: "b \<noteq> 0" "b \<in> free_set B (fl', sl')" "B b = Some (s, True, g, q, a)" "r' \<le> s"
      unfolding suitable_def by blast
    then have cl: "MAPPING_INSERT s = (fl', sl')" by (auto simp: free_set_def)
    have "class_le (fl', sl') (MAPPING_INSERT t)" if c: "B c = Some (t, True, g', q', a')" "r' \<le> t" for c t g' q' a'
    proof -
      note cD = blocks_okD(8) [OF tlsf_invD(1) [OF inv] c(1)]
      obtain i j where ij: "MAPPING_INSERT t = (i, j)" "i < 24" "j < 32" using mapping_insert_range [OF cD] .
      have "class_le (fl, sl) (MAPPING_INSERT t)" using class_le_iff [of t sl fl] cD c(2) ms(3,5) by simp
      moreover have "c \<in> free_set B (i, j)" using c(1) ij(1) unfolding free_set_def by blast
      then have "free_set B (i, j) \<noteq> {}" by blast
      ultimately show ?thesis using 1(3) ij unfolding first_list_def by simp
    qed
    moreover have "\<not> (\<forall>c s g q a. B c = Some (s, True, g, q, a) \<longrightarrow> s < r')" using b(3,4) by (meson not_less)
    ultimately have "(b = 0 \<longleftrightarrow> (\<forall>c s g q a. B c = Some (s, True, g, q, a) \<longrightarrow> s < r'))
      \<and> (b \<noteq> 0 \<longrightarrow> (\<exists>s g q a. B b = Some (s, True, g, q, a) \<and> r' \<le> s \<and> MAPPING_INSERT s = (fl', sl'))
        \<and> (\<forall>c s g q a. B c = Some (s, True, g, q, a) \<and> r' \<le> s \<longrightarrow> class_le (fl', sl') (MAPPING_INSERT s)))"
      using b cl by blast
    with ms(1,4,6) 1(1) show ?thesis by blast
  next
    case (2 n)
    have "(0 :: addr) = 0 \<longleftrightarrow> (\<forall>c s g q a. B c = Some (s, True, g, q, a) \<longrightarrow> s < r')" using 2(2) by blast
    with ms(1,4,6) 2(1) show ?thesis by blast
  qed
qed

text \<open>A search for 1040 bytes looks for 1056, and finds the block of the sample pool.\<close>

theorem tlsf_good_fit_witness:
  "\<exists>p fl sl b d. MAPPING_SEARCH 1040 = Some (1056, fl, sl) \<and> FIND_SUITABLE_BLOCK p fl sl = Some (b, d) \<and> b \<noteq> 0"
proof -
  obtain pool p m B a where c: "tlsf_inv p m B" "B a = Some (16352, True, False, 0, a)" using sample_created by metis
  have r: "16 dvd (1040 :: nat)" "(1040 :: nat) < 2 ^ 29" by simp_all
  have m: "MAPPING_SEARCH 1040 = Some (1056, 4, 1)"
    by (simp add: MAPPING_SEARCH_def tlsf_consts fls_def bit_length.simps Let_def)
  from tlsf_good_fit [OF c(1) r] obtain r' fl sl b d where s: "MAPPING_SEARCH 1040 = Some (r', fl, sl)"
    "FIND_SUITABLE_BLOCK p fl sl = Some (b, d)" "b = 0 \<longleftrightarrow> (\<forall>c s g q a. B c = Some (s, True, g, q, a) \<longrightarrow> s < r')" by blast
  have "r' = 1056" using s(1) m by simp
  moreover have "b \<noteq> 0"
  proof
    assume "b = 0"
    then have "16352 < r'" using s(3) c(2) by blast
    with \<open>r' = 1056\<close> show False by simp
  qed
  ultimately show ?thesis using s(1,2) by blast
qed

text \<open>
  C28: The retry loop of \<open>tlsf_malloc\<close> ends.  On a pool in order, the code from label \<open>retry_find\<close> on returns, after adding at
  most one region of \<open>grow_size\<close> bytes to the pool, and adding none when it finds no block.
\<close>

theorem tlsf_search_returns:
  assumes "tlsf_inv p m B" and "fresh_memory get_mem" and "16 dvd r" and "r < 2 ^ 29"
  shows "\<exists>res p' m' B'. tlsf_search get_mem (word_of_nat r) (p, m) = Some (res, p', m') \<and> tlsf_inv p' m' B'
    \<and> (p' = p \<and> m' = m \<or> res \<noteq> No_Block \<and> num_regions p' = num_regions p + 1
        \<and> (\<exists>a. t_areas m a = None \<and> t_areas m' = (t_areas m)(a \<mapsto> unat (grow_size p))))"
proof (cases rule: tlsf_search_ok [OF assms])
  case (1 b fl sl r' p' m' B')
  have "t_areas m a = None" if "fresh_area (t_areas m) a k" for a k using that by (simp add: fresh_area_def)
  with 1(3) have "p' = p \<and> m' = m \<or> num_regions p' = num_regions p + 1
        \<and> (\<exists>a. t_areas m a = None \<and> t_areas m' = (t_areas m)(a \<mapsto> unat (grow_size p)))" unfolding grown_def by blast
  with 1(1) grownD(1) [OF 1(3)] show ?thesis by blast
next
  case (2 r')
  with assms(1) show ?thesis by blast
qed

theorem tlsf_search_returns_witness:
  "\<exists>p m res p' m' B'. tlsf_search sample_get_mem (word_of_nat 20000) (p, m) = Some (res, p', m') \<and> tlsf_inv p' m' B'"
proof -
  obtain pool p m B a where inv: "tlsf_inv p m B" using sample_created by metis
  have r: "16 dvd (20000 :: nat)" "(20000 :: nat) < 2 ^ 29" by simp_all
  from tlsf_search_returns [OF inv sample_get_mem_fresh r] show ?thesis by (elim exE conjE) blast
qed

section \<open>The life of a pool\<close>

text \<open>
  C29: Creating and destroying a pool.  \<open>tlsf_create_memory_pool\<close> hits its \<open>BUG_ON\<close> when a maximal size is below the initial one.  For
  sizes from 1 to \<open>2 ^ 30\<close> bytes it otherwise either returns \<open>NULL\<close> and has given everything back, or returns a pool in order without objects;
  destroying that pool at once gives back both areas it took and takes it off the list.
\<close>

theorem tlsf_create_destroy:
  assumes src: "fresh_memory get_mem" and isz: "isz \<noteq> 0" "unat isz \<le> 2 ^ 30" and gsz: "gsz \<noteq> 0" "unat gsz \<le> 2 ^ 30"
  shows "(msz \<noteq> 0 \<and> msz < isz \<longrightarrow> tlsf_create_memory_pool get_mem name isz msz gsz (pools, m) = None)
    \<and> (msz = 0 \<or> isz \<le> msz \<longrightarrow>
        (\<exists>m'. tlsf_create_memory_pool get_mem name isz msz gsz (pools, m) = Some (None, pools, m') \<and> t_areas m' = t_areas m)
      \<or> (\<exists>pool p' m' B. tlsf_create_memory_pool get_mem name isz msz gsz (pools, m) = Some (Some (pool, p'), pools @ [pool], m')
          \<and> tlsf_inv p' m' B \<and> tlive B = (\<lambda>_. None) \<and> num_regions p' = 1
          \<and> t_areas (snd (tlsf_destroy_memory_pool (Some (pool, p')) (pools @ [pool], m'))) = t_areas m
          \<and> (pool \<notin> set pools \<longrightarrow> fst (tlsf_destroy_memory_pool (Some (pool, p')) (pools @ [pool], m')) = pools)))"
proof (intro conjI impI)
  assume "msz \<noteq> 0 \<and> msz < isz"
  then show "tlsf_create_memory_pool get_mem name isz msz gsz (pools, m) = None" by (simp add: tlsf_create_memory_pool_def)
next
  assume msz: "msz = 0 \<or> isz \<le> msz"
  show "(\<exists>m'. tlsf_create_memory_pool get_mem name isz msz gsz (pools, m) = Some (None, pools, m') \<and> t_areas m' = t_areas m)
      \<or> (\<exists>pool p' m' B. tlsf_create_memory_pool get_mem name isz msz gsz (pools, m) = Some (Some (pool, p'), pools @ [pool], m')
          \<and> tlsf_inv p' m' B \<and> tlive B = (\<lambda>_. None) \<and> num_regions p' = 1
          \<and> t_areas (snd (tlsf_destroy_memory_pool (Some (pool, p')) (pools @ [pool], m'))) = t_areas m
          \<and> (pool \<notin> set pools \<longrightarrow> fst (tlsf_destroy_memory_pool (Some (pool, p')) (pools @ [pool], m')) = pools))"
  proof (cases rule: tlsf_create_ok [OF src isz gsz msz, of name pools m])
    case (1 pool p' m' B a)
    have "t_areas m pool = None" using 1(8) by (simp add: fresh_area_def)
    then have "t_areas (snd (tlsf_destroy_memory_pool (Some (pool, p')) (pools @ [pool], m'))) = t_areas m"
      using 1(6,7,9-11) by (auto simp: tlsf_destroy_memory_pool_def tlsf_get_used_size_def put_mem_def tlsf_consts fun_eq_iff)
    moreover have "fst (tlsf_destroy_memory_pool (Some (pool, p')) (pools @ [pool], m')) = pools" if "pool \<notin> set pools"
      using that by (simp add: tlsf_destroy_memory_pool_def remove1_append)
    ultimately show ?thesis using 1(1,2,4,5) by blast
  next
    case (2 m')
    then show ?thesis by blast
  qed
qed

theorem tlsf_create_destroy_witness:
  "\<exists>pool p m. tlsf_create_memory_pool sample_get_mem ''sample'' 16384 0 16384 ([], sample_tmem) = Some (Some (pool, p), [pool], m)
     \<and> t_areas (snd (tlsf_destroy_memory_pool (Some (pool, p)) ([pool], m))) = t_areas sample_tmem"
proof -
  obtain pool p m where c: "tlsf_create_memory_pool sample_get_mem ''sample'' 16384 0 16384 ([], sample_tmem) = Some (Some (pool, p), [pool], m)"
    using sample_created by metis
  have z: "(16384 :: u64) \<noteq> 0" "unat (16384 :: u64) \<le> 2 ^ 30" by simp_all
  from tlsf_create_destroy [OF sample_get_mem_fresh z z, of 0 "''sample''" "[]" sample_tmem] c show ?thesis by auto
qed

section \<open>tlsf\_calloc\<close>

text \<open>
  \<open>tlsf_calloc\<close> does not check its product.  When \<open>nelem * elem_size\<close> does not fit 64 bits and the wrapped product is a size that can be
  served, the call returns like a \<open>tlsf_malloc\<close> of the wrapped product; the object it hands out is zeroed as far as that, and smaller than
  the \<open>nelem\<close> elements asked for.
\<close>

theorem tlsf_calloc_overflow:
  assumes inv: "tlsf_inv p m B" and src: "fresh_memory get_mem" and over: "2 ^ 64 \<le> unat nelem * unat elem_size"
    and req: "unat (nelem * elem_size) \<le> 2 ^ 29 - 16"
  shows "\<exists>ptr p' m' B'. tlsf_calloc get_mem nelem elem_size (p, m) = Some (ptr, p', m') \<and> tlsf_inv p' m' B'
    \<and> (if ptr = 0 then \<exists>r'. r' \<le> 2 ^ 30 \<and> no_block get_mem p m B r'
       else (\<exists>s. tlive B' = (tlive B)(ptr \<mapsto> s) \<and> s < unat nelem * unat elem_size)
         \<and> (\<forall>i < unat (nelem * elem_size). t_byte m' (ptr + i) = 0))"
proof -
  have nz: "\<not> (nelem = 0 \<or> elem_size = 0)" using over by auto
  show ?thesis
  proof (cases rule: tlsf_malloc_ok [OF inv src req])
    case (1 ptr p' m' B' s)
    let ?m = "m'\<lparr>t_byte := (\<lambda>a. if ptr \<le> a \<and> a < ptr + unat (nelem * elem_size) then 0 else t_byte m' a)\<rparr>"
    have "tlsf_calloc get_mem nelem elem_size (p, m) = Some (ptr, p', ?m)" using nz 1(1,2) by (simp add: tlsf_calloc_def)
    moreover have "tlsf_inv p' ?m B'" using 1(4) by (simp add: tlsf_inv_def)
    moreover have "s < unat nelem * unat elem_size"
    proof -
      have "tlive B' ptr = Some s" using 1(6) by simp
      then obtain b g q a where "B' b = Some (s, False, g, q, a)" using tlive_SomeE by metis
      from blocks_okD(8) [OF tlsf_invD(1) [OF 1(4)] this] have "s < 2 ^ 64" by simp
      with over show ?thesis by simp
    qed
    then have "\<exists>s. tlive B' = (tlive B)(ptr \<mapsto> s) \<and> s < unat nelem * unat elem_size" using 1(6) by blast
    ultimately show ?thesis using 1(2) by (intro exI [of _ ptr] exI [of _ p'] exI [of _ ?m] exI [of _ B']) simp
  next
    case (2 r')
    have "request_size (unat (nelem * elem_size)) \<le> 2 ^ 29"
      using request_size_bounds(4) [of "unat (nelem * elem_size)"] req by (cases "unat (nelem * elem_size) < 16") (auto simp: request_size_def)
    then have "r' \<le> 2 ^ 30" using 2(4) by simp
    moreover have "tlsf_calloc get_mem nelem elem_size (p, m) = Some (0, p, m)" using nz 2(1) by (simp add: tlsf_calloc_def)
    ultimately show ?thesis using 2(2) inv by (intro exI [of _ 0] exI [of _ p] exI [of _ m] exI [of _ B]) auto
  qed
qed

text \<open>\<open>2 ^ 32\<close> elements of \<open>2 ^ 32\<close> bytes are granted.\<close>

theorem tlsf_calloc_overflow_witness:
  "\<exists>p m B ptr p' m' B' s. tlsf_inv p m B \<and> tlsf_calloc sample_get_mem 0x100000000 0x100000000 (p, m) = Some (ptr, p', m') \<and> ptr \<noteq> 0
     \<and> tlive B' = [ptr \<mapsto> s] \<and> s < 2 ^ 64"
proof -
  obtain pool p m B a where c: "tlsf_inv p m B" "B a = Some (16352, True, False, 0, a)" "tlive B = (\<lambda>_. None)" using sample_created by metis
  let ?k = "0x100000000 :: u64"
  have k: "2 ^ 64 \<le> unat ?k * unat ?k" "unat (?k * ?k) \<le> 2 ^ 29 - 16" "unat (?k * ?k) \<le> 8000" "unat ?k * unat ?k = 2 ^ 64" by simp_all
  obtain ptr p' m' where "tlsf_malloc sample_get_mem (?k * ?k) (p, m) = Some (ptr, p', m')" "ptr \<noteq> 0"
    by (rule sample_malloc [OF c(1,2) k(3)])
  then have al: "\<exists>m'. tlsf_calloc sample_get_mem ?k ?k (p, m) = Some (ptr, p', m')" "ptr \<noteq> 0" by (simp_all add: tlsf_calloc_def)
  obtain B' s m2 where "tlsf_calloc sample_get_mem ?k ?k (p, m) = Some (ptr, p', m2)" "tlive B' = (tlive B)(ptr \<mapsto> s)" "s < unat ?k * unat ?k"
    using tlsf_calloc_overflow [OF c(1) sample_get_mem_fresh k(1,2)] al by auto
  with c(1,3) al(2) k(4) show ?thesis by metis
qed

end
