(* ===== verification/Hashtable.thy ===== *)
theory Hashtable
  imports Kernel_Prelude "HOL-Library.Monad_Syntax"
begin

text \<open>
  sub-projects/lib/hashtable.c and list.h: a table of singly headed lists of items, whose nodes are
  part of the items.  An item is named by its address, a number that is not 0; its node is its first field, so that
  \<open>hlist_entry\<close> is the identity.  \<open>pprev\<close> points at the pointer that points at the node: that of a bucket, or the
  \<open>next\<close> of another item.  An undefined shift, a bucket outside the table and a \<open>NULL\<close> table have no result.
\<close>

section \<open>Data\<close>

datatype hlist_cell = Bucket nat | Next_of nat

record hash_item =
  hl_next :: nat
  hl_pprev :: "hlist_cell option"
  hi_key :: "u64 \<times> u64"
  compress_len :: u16
  hi_count :: u16

record hash_table =
  ht_order :: u32
  ht_size :: u32
  count_items :: u32
  ht_table :: "nat list option"

type_synonym items = "nat \<Rightarrow> hash_item"
type_synonym ht_state = "hash_table \<times> items"

section \<open>Lists\<close>

text \<open>Writing the pointer that a \<open>pprev\<close> points at.\<close>

definition hl_set_next :: "nat \<Rightarrow> nat \<Rightarrow> items \<Rightarrow> items" where
  "hl_set_next n p it = it(n := (it n)\<lparr>hl_next := p\<rparr>)"

definition hl_set_pprev :: "nat \<Rightarrow> hlist_cell option \<Rightarrow> items \<Rightarrow> items" where
  "hl_set_pprev n c it = it(n := (it n)\<lparr>hl_pprev := c\<rparr>)"

definition set_first :: "nat \<Rightarrow> nat \<Rightarrow> hash_table \<Rightarrow> hash_table option" where
  "set_first k p ht = (case ht_table ht of
       None \<Rightarrow> None
     | Some t \<Rightarrow> if k < length t then Some (ht\<lparr>ht_table := Some (t[k := p])\<rparr>) else None)"

definition get_first :: "nat \<Rightarrow> hash_table \<Rightarrow> nat option" where
  "get_first k ht = (case ht_table ht of None \<Rightarrow> None | Some t \<Rightarrow> if k < length t then Some (t ! k) else None)"

fun write_cell :: "hlist_cell \<Rightarrow> nat \<Rightarrow> ht_state \<Rightarrow> ht_state option" where
  "write_cell (Bucket k) p (ht, it) = (case set_first k p ht of None \<Rightarrow> None | Some ht \<Rightarrow> Some (ht, it))"
| "write_cell (Next_of n) p (ht, it) = Some (ht, hl_set_next n p it)"

definition hlist_unhashed :: "nat \<Rightarrow> items \<Rightarrow> bool" where
  "hlist_unhashed n it \<longleftrightarrow> hl_pprev (it n) = None"

definition INIT_HLIST_NODE :: "nat \<Rightarrow> items \<Rightarrow> items" where
  "INIT_HLIST_NODE n it = hl_set_pprev n None (hl_set_next n 0 it)"

definition hlist_unlink :: "nat \<Rightarrow> ht_state \<Rightarrow> ht_state option" where
  "hlist_unlink n = (\<lambda>(ht, it).
     let next = hl_next (it n)
     in case hl_pprev (it n) of
          None \<Rightarrow> None
        | Some pprev \<Rightarrow> do {
            (ht, it) \<leftarrow> write_cell pprev next (ht, it);
            Some (ht, if next \<noteq> 0 then hl_set_pprev next (Some pprev) it else it) })"

definition hlist_del_init :: "nat \<Rightarrow> ht_state \<Rightarrow> ht_state option" where
  "hlist_del_init n = (\<lambda>(ht, it).
     if hlist_unhashed n it then Some (ht, it)
     else do { (ht, it) \<leftarrow> hlist_unlink n (ht, it); Some (ht, INIT_HLIST_NODE n it) })"

definition hlist_add_head :: "nat \<Rightarrow> nat \<Rightarrow> ht_state \<Rightarrow> ht_state option" where
  "hlist_add_head n k = (\<lambda>(ht, it). do {
     first \<leftarrow> get_first k ht;
     let it = hl_set_next n first it;
     let it = (if first \<noteq> 0 then hl_set_pprev first (Some (Next_of n)) it else it);
     ht \<leftarrow> set_first k n ht;
     Some (ht, hl_set_pprev n (Some (Bucket k)) it) })"

definition hlist_add_after :: "nat \<Rightarrow> nat \<Rightarrow> items \<Rightarrow> items" where
  "hlist_add_after n next it =
     (let it = hl_set_next next (hl_next (it n)) it;
          it = hl_set_next n next it;
          it = hl_set_pprev next (Some (Next_of n)) it
      in if hl_next (it next) \<noteq> 0 then hl_set_pprev (hl_next (it next)) (Some (Next_of next)) it else it)"

section \<open>Hashing\<close>

text \<open>A shift by 64 or more is undefined.\<close>

definition hash_64 :: "u64 \<Rightarrow> nat \<Rightarrow> u64 option" where
  "hash_64 val bits =
     (let hash = val; n = hash;
          n = push_bit 18 n; hash = hash - n;
          n = push_bit 33 n; hash = hash - n;
          n = push_bit 3 n; hash = hash + n;
          n = push_bit 3 n; hash = hash - n;
          n = push_bit 4 n; hash = hash + n;
          n = push_bit 2 n; hash = hash + n
      in if 0 < bits \<and> bits \<le> 64 then Some (drop_bit (64 - bits) hash) else None)"

definition hash_128 :: "u64 \<times> u64 \<Rightarrow> nat \<Rightarrow> u64 option" where
  "hash_128 key bits = do {
     a \<leftarrow> hash_64 (fst key) (bits div 2);
     b \<leftarrow> hash_64 (snd key) (bits div 2);
     Some (push_bit (bits div 2) a + b) }"

definition key_isequal_128 :: "u64 \<times> u64 \<Rightarrow> u64 \<times> u64 \<Rightarrow> bool" where
  "key_isequal_128 key1 key2 \<longleftrightarrow> fst key1 = fst key2 \<and> snd key1 = snd key2"

section \<open>The table\<close>

partial_function (option) find_in :: "items \<Rightarrow> u64 \<times> u64 \<Rightarrow> nat \<Rightarrow> nat option" where
  "find_in it key pos =
     (if pos = 0 then Some 0
      else if key_isequal_128 (hi_key (it pos)) key then Some pos
      else find_in it key (hl_next (it pos)))"

definition ht_find_key :: "u64 \<times> u64 \<Rightarrow> ht_state \<Rightarrow> nat option" where
  "ht_find_key key = (\<lambda>(ht, it). do {
     hashed_key \<leftarrow> hash_128 key (unat (ht_order ht));
     first \<leftarrow> get_first (unat hashed_key) ht;
     find_in it key first })"

text \<open>The item is \<open>None\<close> when \<open>*item\<close> is not written.\<close>

definition ht_find_item :: "u64 \<times> u64 \<Rightarrow> ht_state \<Rightarrow> (int \<times> nat option) option" where
  "ht_find_item key s = do {
     list \<leftarrow> ht_find_key key s;
     if list = 0 then Some (-1, None) else Some (0, Some list) }"

definition ht_insert_item :: "nat \<Rightarrow> ht_state \<Rightarrow> (int \<times> ht_state) option" where
  "ht_insert_item item = (\<lambda>(ht, it). do {
     hashed_key \<leftarrow> hash_128 (hi_key (it item)) (unat (ht_order ht));
     (ht, it) \<leftarrow> hlist_add_head item (unat hashed_key) (ht, it);
     Some (0, ht\<lparr>count_items := count_items ht + 1\<rparr>, it) })"

definition ht_remove_item :: "nat \<Rightarrow> ht_state \<Rightarrow> (int \<times> ht_state) option" where
  "ht_remove_item item s = do {
     (ht, it) \<leftarrow> hlist_del_init item s;
     Some (0, ht\<lparr>count_items := count_items ht - 1\<rparr>, it) }"

fun init_heads :: "nat \<Rightarrow> nat \<Rightarrow> hash_table \<Rightarrow> hash_table option" where
  "init_heads 0 i ht = Some ht"
| "init_heads (Suc n) i ht = do { ht \<leftarrow> set_first i 0 ht; init_heads n (Suc i) ht }"

text \<open>
  \<open>malloc\<close> gives memory of any content or fails.  \<open>1 << order\<close> is a shift of an \<open>int\<close>, undefined from 31 on.
\<close>

definition ht_create :: "(nat \<Rightarrow> nat list option) \<Rightarrow> u32 \<Rightarrow> hash_table \<Rightarrow> (int \<times> hash_table) option" where
  "ht_create malloc order ht =
     (if 31 \<le> unat order then None
      else
        let ht = ht\<lparr>ht_size := push_bit (unat order) 1\<rparr>;
            ht = ht\<lparr>ht_order := order\<rparr>;
            ht = ht\<lparr>count_items := 0\<rparr>;
            ht = ht\<lparr>ht_table := None\<rparr>;
            ht = ht\<lparr>ht_table := malloc (unat (ht_size ht))\<rparr>
        in if ht_table ht = None then Some (-1, ht)
           else do { ht \<leftarrow> init_heads (unat (ht_size ht)) 0 ht; Some (0, ht) })"

definition ht_destroy :: "hash_table option \<Rightarrow> hash_table option" where
  "ht_destroy ht = (case ht of None \<Rightarrow> None | Some ht \<Rightarrow> Some (ht\<lparr>ht_table := None\<rparr>))"

end
