(* ===== verification/Hashtable_Correct.thy ===== *)
theory Hashtable_Correct
  imports Hashtable Interfaces
begin

text \<open>
  The hash table is a map.  \<open>chain\<close> is a well-formed list of items; \<open>ht_rep\<close> says that every bucket holds
  exactly the items whose keys hash to it; the operations are those of \<open>item_store\<close>.
\<close>

section \<open>Hashing\<close>

text \<open>The shifts and sums are a multiplication by \<open>GOLDEN_RATIO_PRIME_64\<close> of the kernel.\<close>

lemma hash_64_golden:
  assumes "0 < bits" and "bits \<le> 64"
  shows "hash_64 val bits = Some (drop_bit (64 - bits) (val * 0x9e37fffffffc0001))"
  using assms by (simp add: hash_64_def Let_def push_bit_eq_mult algebra_simps)

lemma hash_64_bound:
  assumes "hash_64 val bits = Some h"
  shows "unat h < 2 ^ bits"
proof -
  have b: "0 < bits" "bits \<le> 64" using assms by (auto simp: hash_64_def Let_def split: if_splits)
  then have h: "h = drop_bit (64 - bits) (val * 0x9e37fffffffc0001)" using assms hash_64_golden [OF b] by simp
  have "unat h = unat (val * 0x9e37fffffffc0001) div 2 ^ (64 - bits)"
    using unsigned_less [of "val * 0x9e37fffffffc0001", where 'a = nat] unfolding h unsigned_drop_bit_eq
    by (simp add: drop_bit_eq_div take_bit_eq_mod)
  also have "\<dots> < 2 ^ bits"
    using unsigned_less [of "val * 0x9e37fffffffc0001", where 'a = nat] b
    by (intro less_mult_imp_div_less) (simp add: power_add [symmetric])
  finally show ?thesis .
qed

lemma hash_128_ok:
  assumes "2 \<le> order" and "order \<le> 30"
  obtains h where "hash_128 key order = Some h" and "unat h < 2 ^ order"
proof -
  have o2: "0 < order div 2" "order div 2 \<le> 64" using assms by simp_all
  obtain a b where ab: "hash_64 (fst key) (order div 2) = Some a" "hash_64 (snd key) (order div 2) = Some b"
    using hash_64_golden [OF o2] by blast
  have lt: "unat a < 2 ^ (order div 2)" "unat b < 2 ^ (order div 2)" using hash_64_bound ab by blast+
  have le: "2 ^ (order div 2) * 2 ^ (order div 2) \<le> (2 :: nat) ^ order" by (simp add: power_add [symmetric])
  have "unat a * 2 ^ (order div 2) + unat b < (unat a + 1) * 2 ^ (order div 2)" using lt(2) by simp
  also have "\<dots> \<le> 2 ^ (order div 2) * 2 ^ (order div 2)" using lt(1) by (intro mult_le_mono1) simp
  finally have s: "unat a * 2 ^ (order div 2) + unat b < 2 ^ order" using le by linarith
  also have "(2 :: nat) ^ order < 2 ^ 64" using assms(2) by (intro power_strict_increasing) simp_all
  finally have lt64: "unat a * 2 ^ (order div 2) + unat b < 2 ^ 64" .
  then have "unat (push_bit (order div 2) a) = unat a * 2 ^ (order div 2)"
    unfolding unsigned_push_bit_eq by (simp add: push_bit_eq_mult take_bit_eq_mod)
  then have "unat (push_bit (order div 2) a + b) = unat a * 2 ^ (order div 2) + unat b"
    using lt64 by (simp only: unat_word_ariths) simp
  then show thesis using that [of "push_bit (order div 2) a + b"] ab s by (simp add: hash_128_def)
qed

section \<open>Lists\<close>

fun chain :: "items \<Rightarrow> hlist_cell \<Rightarrow> nat \<Rightarrow> nat list \<Rightarrow> bool" where
  "chain it c p [] \<longleftrightarrow> p = 0"
| "chain it c p (n # ns) \<longleftrightarrow> p = n \<and> n \<noteq> 0 \<and> hl_pprev (it n) = Some c \<and> chain it (Next_of n) (hl_next (it n)) ns"

lemma chain_frame: "(\<And>n. n \<in> set ns \<Longrightarrow> it' n = it n) \<Longrightarrow> chain it' c p ns = chain it c p ns"
  by (induction ns arbitrary: c p) auto

lemma chain_head: "chain it c p ns \<Longrightarrow> p \<noteq> 0 \<Longrightarrow> p \<in> set ns"
  by (cases ns) auto

lemma chain_nonzero: "chain it c p ns \<Longrightarrow> 0 \<notin> set ns"
  by (induction ns arbitrary: c p) auto

text \<open>Another pointer comes to point at the list.\<close>

definition repoint :: "nat \<Rightarrow> hlist_cell \<Rightarrow> items \<Rightarrow> items" where
  "repoint p c it = (if p \<noteq> 0 then hl_set_pprev p (Some c) it else it)"

lemma repoint_other: "n \<noteq> p \<or> n = 0 \<Longrightarrow> repoint p c it n = it n"
  by (auto simp: repoint_def hl_set_pprev_def)

lemma chain_repoint:
  assumes "chain it c p ns" and "distinct ns"
  shows "chain (repoint p c' it) c' p ns"
proof (cases ns)
  case (Cons n ms)
  have "chain (repoint p c' it) (Next_of n) (hl_next (it n)) ms = chain it (Next_of n) (hl_next (it n)) ms"
    using assms Cons by (intro chain_frame repoint_other) auto
  then show ?thesis using assms Cons by (simp add: repoint_def hl_set_pprev_def)
qed (use assms in simp)

lemma find_in_chain:
  "chain it c p ns \<Longrightarrow> find_in it key p = Some (case List.find (\<lambda>n. hi_key (it n) = key) ns of None \<Rightarrow> 0 | Some n \<Rightarrow> n)"
proof (induction ns arbitrary: c p)
  case Nil
  then show ?case by (simp add: find_in.simps)
next
  case (Cons n ns)
  then have "n \<noteq> 0" "p = n" by simp_all
  moreover have "key_isequal_128 (hi_key (it n)) key \<longleftrightarrow> hi_key (it n) = key" by (auto simp: key_isequal_128_def prod_eq_iff)
  ultimately show ?case using Cons by (subst find_in.simps) auto
qed

text \<open>An item that is not the first goes: the one before it points at the one behind it.\<close>

lemma chain_unlink:
  assumes "chain it c p (x # xs @ n # ys)" and "distinct (x # xs @ n # ys)"
  shows "\<exists>w \<in> set (x # xs). hl_pprev (it n) = Some (Next_of w)
    \<and> chain (repoint (hl_next (it n)) (Next_of w) (hl_set_next w (hl_next (it n)) it)) c p (x # xs @ ys)"
  using assms
proof (induction xs arbitrary: c p x)
  case Nil
  let ?nx = "hl_next (it n)"
  let ?it = "hl_set_next x ?nx it"
  have c: "p = x" "x \<noteq> 0" "hl_pprev (it x) = Some c" "hl_pprev (it n) = Some (Next_of x)" "chain it (Next_of n) ?nx ys" using Nil by simp_all
  have "chain ?it (Next_of n) ?nx ys = chain it (Next_of n) ?nx ys" using Nil.prems(2) by (intro chain_frame) (auto simp: hl_set_next_def)
  then have r: "chain (repoint ?nx (Next_of x) ?it) (Next_of x) ?nx ys" using c(5) Nil.prems(2) by (intro chain_repoint) simp_all
  have "x \<noteq> ?nx" using chain_head [OF c(5)] c(2) Nil.prems(2) by auto
  then have "repoint ?nx (Next_of x) ?it x = ?it x" by (intro repoint_other) simp
  moreover have "?it x = (it x)\<lparr>hl_next := ?nx\<rparr>" by (simp add: hl_set_next_def)
  ultimately show ?case using r c by simp
next
  case (Cons y xs)
  let ?nx = "hl_next (it n)"
  have c: "p = x" "x \<noteq> 0" "hl_pprev (it x) = Some c" "chain it (Next_of x) (hl_next (it x)) (y # xs @ n # ys)" using Cons.prems by simp_all
  obtain w where w: "w \<in> set (y # xs)" "hl_pprev (it n) = Some (Next_of w)"
    "chain (repoint ?nx (Next_of w) (hl_set_next w ?nx it)) (Next_of x) (hl_next (it x)) (y # xs @ ys)"
    using Cons.IH [OF c(4)] Cons.prems(2) by auto
  have "?nx = 0 \<or> ?nx \<in> set ys"
  proof -
    have "chain it c' p' (zs @ n # ys) \<Longrightarrow> \<exists>c''. chain it c'' ?nx ys" for c' p' zs by (induction zs arbitrary: c' p') auto
    from this [of "Next_of x" "hl_next (it x)" "y # xs"] c(4) obtain c'' where "chain it c'' ?nx ys" by auto
    then show ?thesis using chain_head by blast
  qed
  then have "x \<noteq> ?nx \<or> x = 0" "x \<noteq> w" using Cons.prems(2) c(2) w(1) by auto
  then have "repoint ?nx (Next_of w) (hl_set_next w ?nx it) x = it x" by (simp add: repoint_other hl_set_next_def)
  then show ?case using w c by (intro bexI [of _ w]) simp_all
qed

section \<open>The table\<close>

text \<open>
  \<open>in_bucket\<close>: the items of \<open>f\<close> whose keys hash to \<open>k\<close>.  The order of a table is 2 to 30: below, a shift of \<open>hash_64\<close> is
  undefined, above, that of \<open>ht_create\<close>.
\<close>

definition bucket :: "u32 \<Rightarrow> u64 \<times> u64 \<Rightarrow> nat" where
  "bucket order key = unat (the (hash_128 key (unat order)))"

definition in_bucket :: "u32 \<Rightarrow> (u64 \<times> u64 \<Rightarrow> nat option) \<Rightarrow> nat \<Rightarrow> nat set" where
  "in_bucket order f k = {n. \<exists>key. f key = Some n \<and> bucket order key = k}"

definition ht_ok :: "(nat \<Rightarrow> u64 \<times> u64) \<Rightarrow> ht_state \<Rightarrow> (u64 \<times> u64 \<Rightarrow> nat option) \<Rightarrow> (nat \<Rightarrow> nat list) \<Rightarrow> bool" where
  "ht_ok key s f B = (case s of (ht, it) \<Rightarrow>
     2 \<le> unat (ht_order ht) \<and> unat (ht_order ht) \<le> 30
     \<and> (\<exists>t. ht_table ht = Some t \<and> length t = 2 ^ unat (ht_order ht)
          \<and> (\<forall>k < length t. chain it (Bucket k) (t ! k) (B k) \<and> distinct (B k) \<and> set (B k) = in_bucket (ht_order ht) f k))
     \<and> (\<forall>n. hi_key (it n) = key n) \<and> (\<forall>x n. f x = Some n \<longrightarrow> key n = x)
     \<and> finite (dom f) \<and> count_items ht = word_of_nat (card (dom f)))"

definition ht_rep :: "(nat \<Rightarrow> u64 \<times> u64) \<Rightarrow> ht_state \<Rightarrow> (u64 \<times> u64 \<Rightarrow> nat option) \<Rightarrow> bool" where
  "ht_rep key s f \<longleftrightarrow> (\<exists>B. ht_ok key s f B)"

lemma ht_okD:
  assumes "ht_ok key (ht, it) f B" and "ht_table ht = Some t"
  shows "2 \<le> unat (ht_order ht)" "unat (ht_order ht) \<le> 30" "length t = 2 ^ unat (ht_order ht)"
    "k < length t \<Longrightarrow> chain it (Bucket k) (t ! k) (B k)" "k < length t \<Longrightarrow> distinct (B k)"
    "k < length t \<Longrightarrow> set (B k) = in_bucket (ht_order ht) f k" "hi_key (it n) = key n" "f x = Some n \<Longrightarrow> key n = x"
    "finite (dom f)" "count_items ht = word_of_nat (card (dom f))"
  using assms by (auto simp: ht_ok_def simp del: split_paired_All)

lemma ht_ok_table: "ht_ok key (ht, it) f B \<Longrightarrow> \<exists>t. ht_table ht = Some t"
  by (auto simp: ht_ok_def)

lemma mem_bucket:
  assumes "ht_ok key (ht, it) f B" and "ht_table ht = Some t" and "k < length t"
  shows "n \<in> set (B k) \<longleftrightarrow> f (key n) = Some n \<and> bucket (ht_order ht) (key n) = k"
  unfolding ht_okD(6) [OF assms] in_bucket_def using ht_okD(8) [OF assms(1,2)] by blast

text \<open>Where a key goes.\<close>

lemma ht_bucket:
  assumes "ht_ok key (ht, it) f B" and "ht_table ht = Some t"
  obtains h where "hash_128 x (unat (ht_order ht)) = Some h" "unat h = bucket (ht_order ht) x" "bucket (ht_order ht) x < length t"
    "get_first (unat h) ht = Some (t ! bucket (ht_order ht) x)"
proof -
  note D = ht_okD [OF assms]
  obtain h where h: "hash_128 x (unat (ht_order ht)) = Some h" "unat h < 2 ^ unat (ht_order ht)" by (rule hash_128_ok [OF D(1,2)])
  then have "unat h = bucket (ht_order ht) x" by (simp add: bucket_def)
  then show thesis using that h assms(2) D(3) by (simp add: get_first_def)
qed

lemma ht_find_ok:
  assumes "ht_rep key s f"
  shows "ht_find_item x s = Some (case f x of None \<Rightarrow> (-1, None) | Some n \<Rightarrow> (0, Some n))"
proof -
  obtain ht it where s: "s = (ht, it)" by (cases s)
  obtain B where ok: "ht_ok key (ht, it) f B" using assms s by (auto simp: ht_rep_def)
  obtain t where t: "ht_table ht = Some t" using ht_ok_table [OF ok] by blast
  note D = ht_okD [OF ok t]
  obtain h where h: "hash_128 x (unat (ht_order ht)) = Some h" "unat h = bucket (ht_order ht) x" "bucket (ht_order ht) x < length t"
    "get_first (unat h) ht = Some (t ! bucket (ht_order ht) x)"
    by (rule ht_bucket [OF ok t, of x])
  let ?b = "B (bucket (ht_order ht) x)"
  have ch: "chain it (Bucket (bucket (ht_order ht) x)) (t ! bucket (ht_order ht) x) ?b" by (rule D(4) [OF h(3)])
  note mem = mem_bucket [OF ok t h(3)]
  have fnd: "List.find (\<lambda>n. hi_key (it n) = x) ?b = f x"
  proof (cases "f x")
    case None
    then have "hi_key (it n) \<noteq> x" if "n \<in> set ?b" for n using that unfolding mem D(7) by auto
    then show ?thesis using None by (simp add: find_None_iff)
  next
    case (Some n)
    have "n \<in> set ?b" "hi_key (it n) = x" using Some D(8) [OF Some] unfolding mem D(7) by simp_all
    then have "List.find (\<lambda>n. hi_key (it n) = x) ?b \<noteq> None" unfolding find_None_iff by blast
    then obtain l where l: "List.find (\<lambda>n. hi_key (it n) = x) ?b = Some l" by blast
    then have "l \<in> set ?b \<and> hi_key (it l) = x" unfolding find_Some_iff by auto
    then have "f x = Some l" unfolding mem D(7) by auto
    with l Some show ?thesis by simp
  qed
  have "0 \<notin> set ?b" by (rule chain_nonzero [OF ch])
  then have "f x \<noteq> Some 0" using D(8) [of x 0] unfolding mem by auto
  then show ?thesis
    using h find_in_chain [OF ch, of x] fnd by (auto simp: s ht_find_item_def ht_find_key_def split: option.splits)
qed

declare split_paired_All [simp del] split_paired_Ex [simp del]

lemma hi_key_upd [simp]: "hi_key (hl_set_next a p it n) = hi_key (it n)" "hi_key (hl_set_pprev a c it n) = hi_key (it n)"
  "hi_key (repoint a c' it n) = hi_key (it n)" "hi_key (INIT_HLIST_NODE a it n) = hi_key (it n)"
  by (simp_all add: hl_set_next_def hl_set_pprev_def repoint_def INIT_HLIST_NODE_def)

lemma in_bucket_iff: "m \<in> in_bucket ord f k \<longleftrightarrow> (\<exists>y. f y = Some m \<and> bucket ord y = k)"
  by (simp add: in_bucket_def)

lemma in_bucket_add:
  assumes "f x = None"
  shows "in_bucket ord (f(x \<mapsto> n)) k = (if bucket ord x = k then insert n (in_bucket ord f k) else in_bucket ord f k)"
proof (rule set_eqI)
  fix m
  have "m \<in> in_bucket ord (f(x \<mapsto> n)) k \<longleftrightarrow> m = n \<and> bucket ord x = k \<or> m \<in> in_bucket ord f k"
  proof
    assume "m \<in> in_bucket ord (f(x \<mapsto> n)) k"
    then obtain y where y: "(f(x \<mapsto> n)) y = Some m" "bucket ord y = k" unfolding in_bucket_iff by blast
    then show "m = n \<and> bucket ord x = k \<or> m \<in> in_bucket ord f k" unfolding in_bucket_iff by (cases "y = x") auto
  next
    assume "m = n \<and> bucket ord x = k \<or> m \<in> in_bucket ord f k"
    then show "m \<in> in_bucket ord (f(x \<mapsto> n)) k"
    proof
      assume "m \<in> in_bucket ord f k"
      then obtain y where y: "f y = Some m" "bucket ord y = k" unfolding in_bucket_iff by blast
      then have "y \<noteq> x" using assms by auto
      with y show ?thesis unfolding in_bucket_iff by (intro exI [of _ y]) simp
    next
      assume "m = n \<and> bucket ord x = k"
      then show ?thesis unfolding in_bucket_iff by (intro exI [of _ x]) simp
    qed
  qed
  then show "m \<in> in_bucket ord (f(x \<mapsto> n)) k \<longleftrightarrow> m \<in> (if bucket ord x = k then insert n (in_bucket ord f k) else in_bucket ord f k)" by auto
qed

lemma in_bucket_del:
  assumes x: "f x = Some n" and uniq: "\<forall>y. f y = Some n \<longrightarrow> y = x"
  shows "in_bucket ord (f(x := None)) k = in_bucket ord f k - {n}"
proof (rule set_eqI)
  fix m
  have "m \<in> in_bucket ord (f(x := None)) k \<longleftrightarrow> m \<noteq> n \<and> m \<in> in_bucket ord f k"
    unfolding in_bucket_iff using assms by (metis fun_upd_other fun_upd_same option.distinct(1) option.inject)
  then show "m \<in> in_bucket ord (f(x := None)) k \<longleftrightarrow> m \<in> in_bucket ord f k - {n}" by auto
qed

lemma ht_okI:
  assumes "2 \<le> unat (ht_order ht)" and "unat (ht_order ht) \<le> 30" and "ht_table ht = Some t" and "length t = 2 ^ unat (ht_order ht)"
    and "\<And>j. j < length t \<Longrightarrow> chain it (Bucket j) (t ! j) (B j) \<and> distinct (B j) \<and> set (B j) = in_bucket (ht_order ht) f j"
    and "\<And>n. hi_key (it n) = key n" and "\<And>x n. f x = Some n \<Longrightarrow> key n = x"
    and "finite (dom f)" and "count_items ht = word_of_nat (card (dom f))"
  shows "ht_ok key (ht, it) f B"
proof -
  have "\<forall>x n. f x = Some n \<longrightarrow> key n = x" using assms(7) by blast
  moreover have "\<forall>j < length t. chain it (Bucket j) (t ! j) (B j) \<and> distinct (B j) \<and> set (B j) = in_bucket (ht_order ht) f j" using assms(5) by blast
  ultimately show ?thesis using assms(1-4,6,8,9) unfolding ht_ok_def prod.case by blast
qed

lemma ht_repI: "ht_ok key s f B \<Longrightarrow> ht_rep key s f"
  by (auto simp: ht_rep_def)

text \<open>The first item of a bucket belongs to no other.\<close>

lemma other_bucket:
  assumes ok: "ht_ok key (ht, it) f B" and t: "ht_table ht = Some t" and k: "k < length t" "n \<in> set (B k)" and j: "j < length t" "j \<noteq> k"
  shows "n \<notin> set (B j)"
  using mem_bucket [OF ok t k(1)] mem_bucket [OF ok t j(1)] k(2) j(2) by auto

lemma ht_insert_ok:
  assumes rep: "ht_rep key s f" and n: "n \<noteq> 0" "f (key n) = None"
  obtains s' where "ht_insert_item n s = Some (0, s')" and "ht_rep key s' (f(key n \<mapsto> n))"
proof -
  obtain ht it where s: "s = (ht, it)" by (cases s)
  obtain B where ok: "ht_ok key (ht, it) f B" using rep s by (auto simp: ht_rep_def)
  obtain t where t: "ht_table ht = Some t" using ht_ok_table [OF ok] by blast
  note D = ht_okD [OF ok t]
  let ?k = "bucket (ht_order ht) (key n)"
  obtain h where h: "hash_128 (key n) (unat (ht_order ht)) = Some h" "unat h = ?k" "?k < length t" "get_first (unat h) ht = Some (t ! ?k)"
    by (rule ht_bucket [OF ok t, of "key n"])
  define first where "first = t ! ?k"
  define it1 where "it1 = repoint first (Next_of n) (hl_set_next n first it)"
  define it2 where "it2 = hl_set_pprev n (Some (Bucket ?k)) it1"
  let ?ht = "ht\<lparr>ht_table := Some (t[?k := n]), count_items := count_items ht + 1\<rparr>" and ?B = "B(?k := n # B ?k)" and ?f = "f(key n \<mapsto> n)"
  have run: "ht_insert_item n s = Some (0, ?ht, it2)"
    using h t D(7) by (simp add: s ht_insert_item_def hlist_add_head_def set_first_def it1_def it2_def first_def repoint_def Let_def)
  have new: "n \<notin> set (B j)" if "j < length t" for j using mem_bucket [OF ok t that] n(2) by simp
  have ch: "chain it (Bucket ?k) first (B ?k)" unfolding first_def by (rule D(4) [OF h(3)])
  have first: "first \<noteq> n" "first \<noteq> 0 \<Longrightarrow> first \<in> set (B ?k)" using chain_head [OF ch] new [OF h(3)] n(1) by auto
  have same: "it2 m = it m" if "m \<noteq> n" "m \<noteq> first \<or> m = 0" for m
    using that repoint_other [of m first "Next_of n"] by (simp add: it2_def it1_def hl_set_pprev_def hl_set_next_def)
  have bk: "chain it2 (Bucket j) (t[?k := n] ! j) (?B j) \<and> distinct (?B j) \<and> set (?B j) = in_bucket (ht_order ht) ?f j" if j: "j < length t" for j
  proof (cases "j = ?k")
    case True
    have "chain (hl_set_next n first it) (Bucket ?k) first (B ?k)"
      using ch new [OF h(3)] by (subst chain_frame [of _ _ it]) (auto simp: hl_set_next_def)
    from chain_repoint [OF this D(5) [OF h(3)]] have "chain it1 (Next_of n) first (B ?k)" unfolding it1_def .
    then have c: "chain it2 (Next_of n) first (B ?k)"
      using new [OF h(3)] by (subst chain_frame [of _ _ it1]) (auto simp: it2_def hl_set_pprev_def)
    have "it1 n = (it n)\<lparr>hl_next := first\<rparr>" using repoint_other [of n first "Next_of n"] first(1) by (simp add: it1_def hl_set_next_def)
    then have "hl_pprev (it2 n) = Some (Bucket ?k)" "hl_next (it2 n) = first" by (simp_all add: it2_def hl_set_pprev_def)
    with c show ?thesis using True n h(3) D(5,6) [OF h(3)] new [OF h(3)] by (simp add: in_bucket_add)
  next
    case False
    have "it2 m = it m" if m: "m \<in> set (B j)" for m
    proof (rule same)
      show "m \<noteq> n" using m new [OF j] by auto
      show "m \<noteq> first \<or> m = 0" using m first(2) other_bucket [OF ok t j m h(3)] False by auto
    qed
    then have "chain it2 (Bucket j) (t ! j) (B j)" using D(4) [OF j] chain_frame by metis
    with False n(2) D(5,6) [OF j] show ?thesis by (simp add: in_bucket_add)
  qed
  have hk: "hi_key (it2 m) = key m" for m using D(7) by (simp add: it2_def it1_def)
  have ky: "key m = x" if "?f x = Some m" for x m using that D(8) [of x m] by (simp split: if_splits)
  have "card (dom ?f) = Suc (card (dom f))" using n(2) D(9) by (simp add: domIff)
  then have cnt: "count_items ?ht = word_of_nat (card (dom ?f))" using D(10) by simp
  have "ht_ok key (?ht, it2) ?f ?B"
    by (rule ht_okI [where t = "t[?k := n]", OF _ _ _ _ _ hk ky _ cnt]) (use D(1-3,9) bk in simp_all)
  from run ht_repI [OF this] show thesis by (rule that)
qed

text \<open>Unlinking an item of a bucket, whichever pointer points at it.\<close>

lemma unlink_ok:
  assumes ch: "chain it (Bucket k) (t ! k) (xs @ n # ys)" and d: "distinct (xs @ n # ys)" and t: "ht_table ht = Some t" and k: "k < length t"
  shows "\<exists>t' it'. hlist_unlink n (ht, it) = Some (ht\<lparr>ht_table := Some t'\<rparr>, it') \<and> length t' = length t
    \<and> (\<forall>j. j < length t \<longrightarrow> j \<noteq> k \<longrightarrow> t' ! j = t ! j) \<and> chain it' (Bucket k) (t' ! k) (xs @ ys) \<and> hl_pprev (it n) \<noteq> None
    \<and> (\<forall>m. m \<notin> set (xs @ n # ys) \<or> m = 0 \<longrightarrow> it' m = it m) \<and> (\<forall>m. hi_key (it' m) = hi_key (it m))"
proof -
  let ?nx = "hl_next (it n)"
  have nx: "?nx = 0 \<or> ?nx \<in> set ys"
  proof -
    have "chain it c p (zs @ n # ys) \<Longrightarrow> chain it (Next_of n) ?nx ys" for c p zs by (induction zs arbitrary: c p) auto
    from chain_head [OF this [OF ch]] show ?thesis by blast
  qed
  have ht: "ht\<lparr>ht_table := Some t\<rparr> = ht" using t by simp
  show ?thesis
  proof (cases xs)
    case Nil
    then have c: "hl_pprev (it n) = Some (Bucket k)" "chain it (Next_of n) ?nx ys" using ch by simp_all
    let ?it = "repoint ?nx (Bucket k) it"
    have "hlist_unlink n (ht, it) = Some (ht\<lparr>ht_table := Some (t[k := ?nx])\<rparr>, ?it)"
      using c(1) t k by (simp add: hlist_unlink_def set_first_def repoint_def Let_def)
    moreover have "chain ?it (Bucket k) ?nx ys" using c(2) d by (intro chain_repoint) simp_all
    moreover have "?it m = it m" if "m \<notin> set (xs @ n # ys) \<or> m = 0" for m using that nx by (intro repoint_other) auto
    ultimately show ?thesis using Nil c(1) k by (intro exI [of _ "t[k := ?nx]"] exI [of _ ?it]) simp
  next
    case (Cons x ws)
    then obtain w where w: "w \<in> set xs" "hl_pprev (it n) = Some (Next_of w)"
      "chain (repoint ?nx (Next_of w) (hl_set_next w ?nx it)) (Bucket k) (t ! k) (xs @ ys)"
      using chain_unlink [of it "Bucket k" "t ! k" x ws n ys] ch d by auto
    let ?it = "repoint ?nx (Next_of w) (hl_set_next w ?nx it)"
    have w0: "w \<noteq> 0" using chain_nonzero [OF ch] w(1) by (cases "w = 0") simp_all
    have "hlist_unlink n (ht, it) = Some (ht\<lparr>ht_table := Some t\<rparr>, ?it)"
      using w(2) unfolding ht by (simp add: hlist_unlink_def repoint_def Let_def)
    moreover have "?it m = it m" if m: "m \<notin> set (xs @ n # ys) \<or> m = 0" for m
    proof -
      have "?it m = hl_set_next w ?nx it m" using m nx by (intro repoint_other) auto
      also have "\<dots> = it m" using m w(1) w0 by (auto simp: hl_set_next_def)
      finally show ?thesis .
    qed
    ultimately show ?thesis using w(2,3) by (intro exI [of _ t] exI [of _ ?it]) simp
  qed
qed

lemma ht_remove_ok:
  assumes rep: "ht_rep key s f" and n: "f (key n) = Some n"
  obtains s' where "ht_remove_item n s = Some (0, s')" and "ht_rep key s' (f(key n := None))"
proof -
  obtain ht it where s: "s = (ht, it)" by (cases s)
  obtain B where ok: "ht_ok key (ht, it) f B" using rep s by (auto simp: ht_rep_def)
  obtain t where t: "ht_table ht = Some t" using ht_ok_table [OF ok] by blast
  note D = ht_okD [OF ok t]
  let ?k = "bucket (ht_order ht) (key n)" and ?f = "f(key n := None)"
  have k: "?k < length t" by (rule ht_bucket [OF ok t, of "key n"])
  have nk: "n \<in> set (B ?k)" using n mem_bucket [OF ok t k] by simp
  then obtain xs ys where b: "B ?k = xs @ n # ys" by (meson split_list)
  have d: "distinct (xs @ n # ys)" using D(5) [OF k] b by simp
  have ch: "chain it (Bucket ?k) (t ! ?k) (xs @ n # ys)" using D(4) [OF k] b by simp
  obtain t' it' where u: "hlist_unlink n (ht, it) = Some (ht\<lparr>ht_table := Some t'\<rparr>, it')" "length t' = length t"
    "\<And>j. j < length t \<Longrightarrow> j \<noteq> ?k \<Longrightarrow> t' ! j = t ! j" "chain it' (Bucket ?k) (t' ! ?k) (xs @ ys)" "hl_pprev (it n) \<noteq> None"
    "\<And>m. m \<notin> set (B ?k) \<or> m = 0 \<Longrightarrow> it' m = it m" "\<And>m. hi_key (it' m) = hi_key (it m)"
    using unlink_ok [OF ch d t k] b by metis
  let ?it = "INIT_HLIST_NODE n it'" and ?B = "B(?k := xs @ ys)"
  let ?ht = "ht\<lparr>ht_table := Some t', count_items := count_items ht - 1\<rparr>"
  have run: "ht_remove_item n s = Some (0, ?ht, ?it)"
    using u(1,5) by (auto simp: s ht_remove_item_def hlist_del_init_def hlist_unhashed_def)
  have "\<forall>y. f y = Some n \<longrightarrow> y = key n" using D(8) by metis
  note del = in_bucket_del [of f "key n" n, OF n this]
  have off: "?it m = it' m" if "m \<noteq> n" for m using that by (simp add: INIT_HLIST_NODE_def hl_set_next_def hl_set_pprev_def)
  have bk: "chain ?it (Bucket j) (t' ! j) (?B j) \<and> distinct (?B j) \<and> set (?B j) = in_bucket (ht_order ht) ?f j" if j: "j < length t" for j
  proof (cases "j = ?k")
    case True
    have "chain ?it (Bucket ?k) (t' ! ?k) (xs @ ys)" using u(4) d by (subst chain_frame [of _ _ it']) (auto intro: off)
    moreover have "set (xs @ ys) = in_bucket (ht_order ht) ?f ?k" using D(6) [OF k] b d del by auto
    ultimately show ?thesis using True d by simp
  next
    case False
    have m: "m \<notin> set (B ?k)" if "m \<in> set (B j)" for m using other_bucket [OF ok t j that k] False by simp
    then have "?it m = it m" if "m \<in> set (B j)" for m using that u(6) [of m] off [of m] nk by auto
    then have "chain ?it (Bucket j) (t' ! j) (B j)" using D(4) [OF j] u(3) [OF j False] chain_frame by metis
    moreover have "n \<notin> set (B j)" using m nk by blast
    ultimately show ?thesis using False D(5,6) [OF j] del by simp
  qed
  have hk: "hi_key (?it m) = key m" for m using D(7) u(7) by simp
  have ky: "key m = x" if "?f x = Some m" for x m using that D(8) [of x m] by (simp split: if_splits)
  have "card (dom f) = Suc (card (dom ?f))" using n D(9) card.remove [of "dom f" "key n"] by (simp add: domI)
  then have cnt: "count_items ?ht = word_of_nat (card (dom ?f))" using D(10) by simp
  have "ht_ok key (?ht, ?it) ?f ?B"
    by (rule ht_okI [where t = t', OF _ _ _ _ _ hk ky _ cnt]) (use D(1-3,9) u(2) bk in simp_all)
  from run ht_repI [OF this] show thesis by (rule that)
qed

section \<open>A new table\<close>

lemma init_heads_ok:
  "ht_table ht = Some t \<Longrightarrow> i + n = length t \<Longrightarrow>
   init_heads n i ht = Some (ht\<lparr>ht_table := Some (take i t @ replicate n 0)\<rparr>)"
proof (induction n arbitrary: i ht t)
  case 0
  then show ?case by simp
next
  case (Suc n)
  let ?ht = "ht\<lparr>ht_table := Some (t[i := 0])\<rparr>"
  have "set_first i 0 ht = Some ?ht" using Suc.prems by (simp add: set_first_def)
  moreover have "init_heads n (Suc i) ?ht = Some (?ht\<lparr>ht_table := Some (take (Suc i) (t[i := 0]) @ replicate n 0)\<rparr>)"
    by (rule Suc.IH) (use Suc.prems in simp_all)
  moreover have "take (Suc i) (t[i := 0]) @ replicate n 0 = take i t @ replicate (Suc n) 0"
    using Suc.prems by (simp add: take_Suc_conv_app_nth)
  ultimately show ?case by simp
qed

lemma ht_create_runs:
  assumes "unat order \<le> 30" and t: "malloc (2 ^ unat order) = Some t" "length t = 2 ^ unat order"
  shows "ht_create malloc order ht = Some (0, ht\<lparr>ht_size := push_bit (unat order) 1, ht_order := order, count_items := 0,
    ht_table := Some (replicate (2 ^ unat order) 0)\<rparr>)"
proof -
  have "(2 :: nat) ^ unat order < 2 ^ 32" using assms(1) by (intro power_strict_increasing) simp_all
  then have "unat (push_bit (unat order) 1 :: u32) = 2 ^ unat order"
    unfolding unsigned_push_bit_eq by (simp add: push_bit_eq_mult take_bit_eq_mod)
  then show ?thesis
    using assms init_heads_ok [of "ht\<lparr>ht_size := push_bit (unat order) 1, ht_order := order, count_items := 0, ht_table := Some t\<rparr>" t 0]
    by (simp add: ht_create_def)
qed

lemma ht_create_ok:
  assumes order: "2 \<le> unat order" "unat order \<le> 30" and t: "malloc (2 ^ unat order) = Some t" "length t = 2 ^ unat order"
  obtains ht' where "ht_create malloc order ht = Some (0, ht')" and "ht_rep (\<lambda>n. hi_key (it n)) (ht', it) (\<lambda>_. None)"
proof -
  let ?ht = "ht\<lparr>ht_size := push_bit (unat order) 1, ht_order := order, count_items := 0, ht_table := Some (replicate (2 ^ unat order) 0)\<rparr>"
  have "ht_ok (\<lambda>n. hi_key (it n)) (?ht, it) (\<lambda>_. None) (\<lambda>_. [])"
    by (rule ht_okI [where t = "replicate (2 ^ unat order) 0"]) (use order in \<open>simp_all add: in_bucket_def\<close>)
  then show thesis using that ht_repI ht_create_runs [OF order(2), where malloc = malloc, OF t] by blast
qed

section \<open>The operations of a store\<close>

definition ht_look :: "u64 \<times> u64 \<Rightarrow> ht_state \<Rightarrow> nat option option" where
  "ht_look key s = map_option snd (ht_find_item key s)"

definition ht_put :: "nat \<Rightarrow> ht_state \<Rightarrow> ht_state option" where
  "ht_put item s = map_option snd (ht_insert_item item s)"

definition ht_drop :: "nat \<Rightarrow> ht_state \<Rightarrow> ht_state option" where
  "ht_drop item s = map_option snd (ht_remove_item item s)"

interpretation ht: item_store ht_rep ht_look ht_put ht_drop
proof (unfold_locales)
  fix key s f x assume "ht_rep key s f"
  from ht_find_ok [OF this] show "ht_look x s = Some (f x)" by (simp add: ht_look_def split: option.split)
next
  fix key s f and n :: nat assume "ht_rep key s f" "n \<noteq> 0" "f (key n) = None"
  from ht_insert_ok [OF this] obtain s' where "ht_insert_item n s = Some (0, s')" "ht_rep key s' (f(key n \<mapsto> n))" .
  then show "\<exists>s'. ht_put n s = Some s' \<and> ht_rep key s' (f(key n \<mapsto> n))" by (simp add: ht_put_def)
next
  fix key s f n assume "ht_rep key s f" "f (key n) = Some n"
  from ht_remove_ok [OF this] obtain s' where "ht_remove_item n s = Some (0, s')" "ht_rep key s' (f(key n := None))" .
  then show "\<exists>s'. ht_drop n s = Some s' \<and> ht_rep key s' (f(key n := None))" by (simp add: ht_drop_def)
qed

lemma ht_rep_count: "ht_rep key (ht, it) f \<Longrightarrow> count_items ht = word_of_nat (card (dom f))"
  using ht_okD(10) ht_ok_table by (fastforce simp: ht_rep_def)

end
