(* ===== verification/Hashtable_Spec.thy ===== *)
theory Hashtable_Spec
  imports Hashtable_Correct
begin

text \<open>The properties of the hash table of the test programs.\<close>

text \<open>
  C40: the hash table is a map from keys to items.  On a table that \<open>ht_create\<close> made, of an order from 2 to 30 and in
  memory of any content, take any sequence of calls in which items are inserted when no item has their
  key and removed when they are in the table.  No call leaves the table or follows a wrong pointer, \<open>ht_find_item\<close> gives
  the answers that a map would give, and \<open>count_items\<close> is the number of items, modulo \<open>2 ^ 32\<close>.
\<close>

theorem ht_run_refines:
  assumes "2 \<le> unat order" and "unat order \<le> 30" and "malloc (2 ^ unat order) = Some t" and "length t = 2 ^ unat order"
    and "run_map (\<lambda>n. hi_key (it n)) rs (\<lambda>_. None) = Some (answers, g)"
  shows "\<exists>ht ht' it'. ht_create malloc order ht0 = Some (0, ht)
    \<and> run_store ht_look ht_put ht_drop rs (ht, it) = Some (answers, ht', it')
    \<and> count_items ht' = word_of_nat (card (dom g)) \<and> (\<forall>x. ht_look x (ht', it') = Some (g x))"
proof -
  obtain ht where ht: "ht_create malloc order ht0 = Some (0, ht)" "ht_rep (\<lambda>n. hi_key (it n)) (ht, it) (\<lambda>_. None)"
    by (rule ht_create_ok [where malloc = malloc and t = t, OF assms(1-4)])
  obtain ht' it' where run: "run_store ht_look ht_put ht_drop rs (ht, it) = Some (answers, ht', it')" "ht_rep (\<lambda>n. hi_key (it n)) (ht', it') g"
    using ht.run_refines [OF ht(2) assms(5)] by auto
  show ?thesis using ht(1) run(1) ht_rep_count [OF run(2)] ht.look_rep [OF run(2)] by blast
qed

definition numbered_items :: items where
  "numbered_items n = \<lparr>hl_next = 0, hl_pprev = None, hi_key = (word_of_nat n, 5), compress_len = 0, hi_count = 0\<rparr>"

theorem ht_run_refines_witness:
  "\<exists>ht s'. run_store ht_look ht_put ht_drop [Put 1, Put 2, Look (1, 5), Drop 1, Look (1, 5), Look (2, 5)] (ht, numbered_items)
     = Some ([Some 1, None, Some 2], s')"
proof -
  let ?malloc = "\<lambda>n. Some (replicate n 7)"
  have m: "2 \<le> unat (2 :: u32)" "unat (2 :: u32) \<le> 30" "?malloc (2 ^ unat (2 :: u32)) = Some (replicate 4 7)"
    "length (replicate 4 (7 :: nat)) = 2 ^ unat (2 :: u32)"
    by simp_all
  have r: "run_map (\<lambda>n. hi_key (numbered_items n)) [Put 1, Put 2, Look (1, 5), Drop 1, Look (1, 5), Look (2, 5)] (\<lambda>_. None)
      = Some ([Some 1, None, Some 2], (\<lambda>_. None)((1, 5) \<mapsto> 1, (2, 5) \<mapsto> 2, (1, 5) := None))"
    by (simp add: numbered_items_def)
  from ht_run_refines [where malloc = ?malloc, OF m r] show ?thesis by blast
qed

text \<open>
  The interface does not say that orders below 2 are not possible: \<open>ht_create\<close> makes such a table, but
  \<open>hash_128\<close> halves the order, and \<open>hash_64\<close> then shifts a \<open>u64\<close> by 64 bits, which is undefined; no key can
  be looked up.
\<close>

theorem ht_order_too_small:
  assumes "unat order < 2" and "malloc (2 ^ unat order) = Some t" and "length t = 2 ^ unat order"
  shows "\<exists>ht'. ht_create malloc order ht = Some (0, ht') \<and> ht_find_item x (ht', it) = None"
proof -
  have "unat order \<le> 30" using assms(1) by simp
  from ht_create_runs [OF this, where malloc = malloc, OF assms(2,3)]
  obtain ht' where "ht_create malloc order ht = Some (0, ht')" "ht_order ht' = order" by simp
  moreover have "hash_128 x (unat order) = None" using assms(1) by (simp add: hash_128_def hash_64_def Let_def)
  ultimately show ?thesis by (simp add: ht_find_item_def ht_find_key_def)
qed

end
