(* ===== verification/Spec2Isabelle.thy ===== *)
theory Spec2Isabelle
  imports Lzo_Spec Xv_Spec Zram_Spec Zram_Module_Spec Zsmalloc_Spec Scale_Spec Tlsf_Spec Hashtable_Spec
begin

text \<open>
  A model of compcache: the compressed RAM block device zram for Linux, the allocators written for
  it and the compressor it uses, with the theorems that make them correct, and with the theorems that
  show where they are not.

  \<^bold>\<open>The program.\<close>  zram is a block device whose pages live compressed in memory.  A write request compresses
  each page with LZO1X, asks the allocator xvmalloc for an object of the compressed size, copies the code there
  and records page and offset in a table; a read decompresses into the pages of the request; discards, swap slot
  notifications and resets free objects.  Pages of zeros are only a flag in the table, pages that
  do not compress get a page of their own.  The module creates the devices and their disks; sysfs attributes
  set the size, reset a device and show its statistics.  A second version of the driver, in zram\_scale, keeps statistics
  and compression buffers per CPU.  zsmalloc is the allocator designed to replace xvmalloc: it packs objects of one
  size class into groups of pages and names them by opaque handles.  TLSF is the allocator that compcache used before xvmalloc: a pool
  of regions that grows and shrinks, with segregated free lists found through two levels of bitmaps.

  \<^bold>\<open>The theories and the code.\<close>
  \<^item> \<open>Kernel_Prelude\<close>: machine integers, the macros \<open>ALIGN\<close> and \<open>DIV_ROUND_UP\<close>, shared lemmas on lists, words and bits.
  \<^item> \<open>Interfaces\<close>: the locales \<open>page_codec\<close> (what the driver needs of a compressor), \<open>object_allocator\<close> and
    \<open>reclaiming_allocator\<close> (what it needs of an allocator), \<open>item_store\<close> (an index of items by key), each with the facts that follow from the
    contract alone.  \<open>serve\<close> is a client of an allocator: it asks for objects and frees some of those it holds, as a list of requests tells it,
    and the theorems about runs are about every such list, with nothing supposed about what the calls return.
  \<^item> sub-projects/compression/lzo-kmod: \<open>Lzo_Compress\<close> is lzo1x\_compress.c (the state of the loop is input, positions and
    dictionary), \<open>Lzo_Decompress\<close> is lzo1x\_decompress.c, a machine whose labels are those of the C function.  \<open>Lzo_Roundtrip\<close>
    and \<open>Lzo_Bounds\<close> prove them correct and interpret \<open>page_codec\<close>; \<open>Lzo_Spec\<close> holds C1 to C5.
  \<^item> sub-projects/allocators/xvmalloc-kmod: \<open>Xvmalloc\<close> is xvmalloc.c; block headers are a map from page and offset, the free lists
    are threaded through them as in the code.  \<open>Xv_Blocks\<close>, \<open>Xv_Freelist\<close>, \<open>Xv_Layout\<close> define the invariant (pages are tiled by
    blocks with boundary tags, the lists and both bitmaps hold exactly the free blocks), \<open>Xv_Malloc_Correct\<close> and
    \<open>Xv_Free_Correct\<close> show that it is kept, \<open>Xv_Allocator\<close> interprets the allocator locales; \<open>Xv_Spec\<close> holds C6 to C12.
  \<^item> zram\_drv.c: \<open>Zram_Drv\<close> has one definition per function.  \<open>Zram_Inv\<close> defines the invariant of a device and its abstract view
    \<open>contents\<close>, a map from page numbers to bytes; \<open>Zram_Update\<close>, \<open>Zram_Pages\<close>, \<open>Zram_Store\<close> treat single pages, \<open>Zram_Requests\<close> whole
    requests, \<open>Zram_Lifecycle\<close> initialisation and reset, \<open>Zram_Machine\<close> the transition system of all entry points,
    \<open>Zram_Correct\<close> the refinement of the view; \<open>Zram_Spec\<close> holds C13 to C22 (some about zram\_sysfs.c, in \<open>Zram_Sysfs\<close>).
    \<open>Zram_Module\<close> is loading and unloading, with C23 in \<open>Zram_Module_Spec\<close>.
  \<^item> sub-projects/allocators/tlsf-kmod: \<open>Tlsf\<close> is tlsf.c, over block headers by address.  \<open>Tlsf_Find\<close> treats the size classes and the bitmap search,
    \<open>Tlsf_Lists\<close> the free lists (doubly linked lists, generic in \<open>Dll\<close>, which xvmalloc shares), \<open>Tlsf_Blocks\<close> the blocks of the
    areas with their boundary tags, \<open>Tlsf_Pool\<close> the invariant of a pool; \<open>Tlsf_Malloc\<close>, \<open>Tlsf_Free\<close> show that it is kept, \<open>Tlsf_Allocator\<close> treats
    the life of a pool and interprets \<open>object_allocator\<close>; \<open>Tlsf_Spec\<close> holds C24 to C29.
  \<^item> sub-projects/allocators/zsmalloc-kmod: \<open>Zsmalloc\<close> is zsmalloc.c over explicit \<open>struct page\<close>s, links inside pages and fullness lists.
    \<open>Zs_Layout\<close> and \<open>Zs_Zspage\<close> treat the construction of a zspage and its free list, \<open>Zs_Cycle\<close> the life of one
    object, \<open>Zs_Pool\<close> a new pool and its classes.  \<open>Zs_Groups\<close> treats the fullness lists (rings of pages, generic in \<open>Ring\<close>),
    \<open>Zs_Objects\<close> the objects of a zspage; \<open>Zs_Inv\<close> defines the invariant over an abstract view, a map from first pages to their zspages:
    class, pages, and free objects in the order of the list.  \<open>Zs_Ops\<close>, \<open>Zs_Calls\<close>, \<open>Zs_Malloc\<close> show that single operations and whole
    calls keep it, \<open>Zs_Bytes\<close> where objects lie, \<open>Zs_Machine\<close> is the transition system of a pool in use; \<open>Zsmalloc_Spec\<close> holds C30 to C36.
  \<^item> zram\_scale: \<open>Scale_Drv\<close> is the driver, \<open>Scale_Module\<close> module, CPU notifier and attributes; \<open>Scale_Pages\<close> and \<open>Scale_Spec\<close> hold
    the lemmas and C37 to C39.
  \<^item> sub-projects/lib: \<open>Hashtable\<close> is hashtable.c with the lists of list.h, the index by content of the page-sharing test
    programs; \<open>Hashtable_Correct\<close> proves it and interprets the locale \<open>item_store\<close>, \<open>Hashtable_Spec\<close> holds C40.

  \<^bold>\<open>How errors appear.\<close>  A C function that reports an error returns its code.  A \<open>BUG_ON\<close>, an access through \<open>NULL\<close> or outside a page table, a
  bitmap or a matrix of lists, and a deadlock are the value \<open>None\<close>, so that a theorem with a result \<open>Some\<close> also says that none of these happens.  Reads
  of the decompressor outside its input are \<open>None\<close> too, and C5 shows that they do happen.  In xvmalloc only the \<open>BUG_ON\<close> is \<open>None\<close>, and
  \<open>xv_malloc\<close> always has a value: its block headers are a map over all pages and offsets, and that headers stay inside the pages and list indices
  inside the lists is part of the invariant, which the theorems show to be kept.  The same holds of the headers of TLSF.

  \<^bold>\<open>What the groups of theorems show.\<close>  Lossless compression, the worst-case size of the code, and what damaged input can do (C1 to C5).
  Safety of every run of allocator calls, reclaiming of pages, the exact effect of single calls on each branch, the bitmap search
  against a linear scan, and that requests of 4089 to 4092 bytes always fail (C6 to C12).  For zram: every request on a reachable device has
  a result, except the write that initialises the device when the work memory or the buffer cannot be allocated; reads see the last write, other pages and other devices are untouched, failures lose only the written page, the statistics are the
  sums over the table, and resets return all memory (C13 to C22); loading the module (C23).
  For TLSF: safety of every run, the exact effect of single calls, with the exact conditions under which memory is refused and regions
  are given back, the good fit of the search, the life of a pool (C24 to C29), and an overflow in \<open>tlsf_calloc\<close>.
  For zsmalloc: handles are lossless; through any sequence of calls and of writes by clients the pool stays well formed, objects never overlap,
  stay where they are and keep their contents, and calls on them return; what \<open>zs_malloc\<close> can return, a \<open>BUG_ON\<close> after a
  partial failure included; and all pages but the first of a zspage leak (C30 to C36).  For zram\_scale: compressible pages
  are read back, while incompressible pages are lost, and work areas and statistics leak (C37 to C39).  The hash table
  refines a map (C40).

  \<^bold>\<open>Termination and bounds.\<close>  Every function of the development is total, except four loops: \<open>init_pages\<close> of zsmalloc walks a
  chain of pages and \<open>free_sub_loop\<close> a list, both given by memory, and \<open>tlsf_search\<close> of TLSF goes back to the search after each region added,
  \<open>find_in\<close> of the hash table walks a list; they
  are partial functions into \<open>option\<close>, and the theorems about them state that a result exists (C28 for \<open>tlsf_search\<close>, C34 and C35 for those of zsmalloc, C40 for \<open>find_in\<close>).  The decompressor, \<open>lzo_run\<close>, is a
  total function: every step consumes input, or leaves one of the two labels that do not, as \<open>lzo_measure\<close> says; \<open>lzo_iter\<close> is the same with
  a number of steps, and C3 shows that twice the length of the input and two more are enough.  Sizes below 64 bits are kept at their width wherever the code relies on it; lengths that
  cannot wrap are natural numbers with the truncation written out.  Sizes asked of TLSF are at most \<open>2 ^ 29 - 16\<close> in the theorems; from \<open>2 ^ 30\<close> on the code
  reads behind its bitmaps, and from \<open>2 ^ 32\<close> on \<open>MAPPING_SEARCH\<close> has 0 for an index that is -1 in C.  Pages have 4096 bytes, longs 64 bits.

  \<^bold>\<open>Parameters.\<close>  The page allocator (\<open>alloc_page\<close>) is a function of the memory; the theorems suppose that it hands out unused
  pages, never \<open>NULL\<close>, for zsmalloc and zram\_scale with frame numbers of the bits the encodings have room for.  Page frame 0 stands for \<open>NULL\<close> throughout, also
  in \<open>decode_addr\<close> of zram\_scale, and is never handed out.  A link of zsmalloc, one word in the code, is kept under the key of its first byte.  The callback
  \<open>get_mem\<close> of TLSF is a function of the memory too, which hands out unused, 16-byte aligned areas or \<open>NULL\<close>.  The number parsers
  of the kernel, the success of each of its allocations and the addresses of \<open>kmap_atomic\<close> are parameters as well.

  \<^bold>\<open>Not modelled.\<close>  Concurrency: calls run one at a time, so that locks are no part of the model except in zsmalloc, where a mapping keeps
  one between calls; so the pool of TLSF does not change while \<open>tlsf_malloc\<close> has dropped its lock to get memory.  The statistics and
  debugging code of TLSF, which its Makefile leaves out.  The other allocators (dlmalloc, the user-space TLSF and xvmalloc), the test programs, the tracing tools, the
  printing of hex dumps, the vendored minilzo, vswap, and the patches against the kernel.
\<close>

end
